(* ===== verification/Tcio_Prelude.thy ===== *)
theory Tcio_Prelude
  imports Main "HOL-Library.Word" "HOL-Library.Sublist"
begin

text \<open>
  What the components share: the names of the machine types, the outcome of a Rust call, the
  early-exit fold of the standard library, and the generic list and word lemmas.

  A \<open>usize\<close> that only counts (a length, a capacity, an index) is a \<open>nat\<close>; each arithmetic operation on
  them that the code performs is written \<open>uadd\<close>, \<open>usub\<close> or \<open>umul\<close>, which panic outside \<open>0..2 ^ 64 - 1\<close> as a build with
  overflow checks does. A \<open>usize\<close> whose bits matter (the tagged pointer word) is a \<open>64 word\<close>.
\<close>

type_synonym u8 = "8 word"
type_synonym u64 = "64 word"
type_synonym usize = "64 word"

definition usize_max :: nat where
  "usize_max = 2 ^ 64 - 1"

definition isize_max :: nat where
  "isize_max = 2 ^ 63 - 1"

text \<open>
  The outcome of a call: a value, an unwinding panic, a process abort, or undefined behaviour.
  \<open>UB\<close> is what the \<open>unsafe\<close> blocks of the code promise never to reach; every raw-memory
  operation of the model returns it outside its safety contract.
\<close>

datatype 'a res = Ok 'a | Panic | Abort | UB

fun rbind :: "'a res \<Rightarrow> ('a \<Rightarrow> 'b res) \<Rightarrow> 'b res" where
  "rbind (Ok x) f = f x"
| "rbind Panic f = Panic"
| "rbind Abort f = Abort"
| "rbind UB f = UB"

definition uadd :: "nat \<Rightarrow> nat \<Rightarrow> nat res" where
  "uadd a b = (if a + b \<le> usize_max then Ok (a + b) else Panic)"

definition usub :: "nat \<Rightarrow> nat \<Rightarrow> nat res" where
  "usub a b = (if b \<le> a then Ok (a - b) else Panic)"

definition umul :: "nat \<Rightarrow> nat \<Rightarrow> nat res" where
  "umul a b = (if a * b \<le> usize_max then Ok (a * b) else Panic)"

text \<open>The standard library's \<open>assert!\<close>.\<close>

definition rassert :: "bool \<Rightarrow> unit res" where
  "rassert b = (if b then Ok () else Panic)"

named_theorems res_simps \<open>rewriting a chain of calls whose outcomes are known\<close>

lemma rbind_eq_Ok [simp]: "rbind m f = Ok y \<longleftrightarrow> (\<exists>x. m = Ok x \<and> f x = Ok y)"
  by (cases m) auto

lemma rbind_assoc: "rbind (rbind m f) g = rbind m (\<lambda>x. rbind (f x) g)"
  by (cases m) auto

text \<open>
  Outcomes of a call that may run out of something: \<open>fails\<close> says that it ends without a value, in a way that
  Rust defines; \<open>safe P\<close> that it does so or returns a value with \<open>P\<close>, and never reaches undefined behaviour.
\<close>

definition fails :: "'a res \<Rightarrow> bool" where
  "fails r \<longleftrightarrow> r = Panic \<or> r = Abort"

definition safe :: "('a \<Rightarrow> bool) \<Rightarrow> 'a res \<Rightarrow> bool" where
  "safe P r \<longleftrightarrow> (case r of Ok x \<Rightarrow> P x | UB \<Rightarrow> False | _ \<Rightarrow> True)"

lemma fails_simps [simp]: "fails Panic" "fails Abort" "\<not> fails (Ok x)" "\<not> fails UB"
  by (simp_all add: fails_def)

lemma safe_simps [simp]: "safe P (Ok x) = P x" "safe P Panic" "safe P Abort" "\<not> safe P UB"
  by (simp_all add: safe_def)

lemma fails_bind [simp]: "fails m \<Longrightarrow> fails (rbind m f)"
  by (cases m) auto

lemma fails_safe: "fails r \<Longrightarrow> safe P r"
  by (cases r) auto

lemma safe_Ok: "r = Ok x \<Longrightarrow> P x \<Longrightarrow> safe P r"
  by simp

lemma safe_mono: "safe P r \<Longrightarrow> (\<And>x. P x \<Longrightarrow> Q x) \<Longrightarrow> safe Q r"
  by (cases r) auto

lemma safe_bind: "safe P m \<Longrightarrow> (\<And>x. P x \<Longrightarrow> safe Q (f x)) \<Longrightarrow> safe Q (rbind m f)"
  by (cases m) auto

lemma uadd_Ok [res_simps]: "a + b \<le> usize_max \<Longrightarrow> uadd a b = Ok (a + b)"
  by (simp add: uadd_def)

lemma usub_Ok [res_simps]: "b \<le> a \<Longrightarrow> usub a b = Ok (a - b)"
  by (simp add: usub_def)

lemma umul_Ok [res_simps]: "a * b \<le> usize_max \<Longrightarrow> umul a b = Ok (a * b)"
  by (simp add: umul_def)

lemma rassert_True [simp]: "rassert True = Ok ()"
  by (simp add: rassert_def)

lemma rassert_False [simp]: "rassert False = Panic"
  by (simp add: rassert_def)

lemma isize_usize: "n \<le> isize_max \<Longrightarrow> m \<le> isize_max \<Longrightarrow> n + m \<le> usize_max"
  by (simp add: isize_max_def usize_max_def)

lemma word_of_nat_unat [simp]: "word_of_nat (unat w) = w"
  by simp

lemma word_eq_of_nat: "unat w = n \<Longrightarrow> w = word_of_nat n"
  by (metis word_of_nat_unat)

lemma sint_of_i8: "- 128 \<le> i \<Longrightarrow> i < 128 \<Longrightarrow> sint (word_of_int i :: 8 word) = i"
  by (simp add: signed_of_int signed_take_bit_int_eq_self)

lemma sint_of_i64: "- (2 ^ 63) \<le> i \<Longrightarrow> i < 2 ^ 63 \<Longrightarrow> sint (word_of_int i :: 64 word) = i"
  by (simp add: signed_of_int signed_take_bit_int_eq_self)

text \<open>\<open>Iterator::try_fold\<close> with an \<open>Option\<close> accumulator: stops at the first \<open>None\<close>.\<close>

fun try_fold :: "('a \<Rightarrow> 'b \<Rightarrow> 'a option) \<Rightarrow> 'a \<Rightarrow> 'b list \<Rightarrow> 'a option" where
  "try_fold f acc [] = Some acc"
| "try_fold f acc (x # xs) = (case f acc x of None \<Rightarrow> None | Some acc' \<Rightarrow> try_fold f acc' xs)"

end
