(* ===== verification/Num_Parse.thy ===== *)
theory Num_Parse
  imports Tcio_Prelude
begin

text \<open>
  \<open>src/num/num.rs\<close>: parsing ASCII decimal numbers into \<open>u64\<close> and \<open>i64\<close>. Machine integers are words;
  the checked operations of the standard library return \<open>None\<close> outside the type's range. The lemmas
  compare the parsers with the mathematical value of a digit string, \<open>dec_val\<close>.
\<close>

subsection \<open>Checked arithmetic\<close>

definition checked_mul_u64 :: "u64 \<Rightarrow> u64 \<Rightarrow> u64 option" where
  "checked_mul_u64 a b = (if unat a * unat b < 2 ^ 64 then Some (a * b) else None)"

definition checked_add_u64 :: "u64 \<Rightarrow> u64 \<Rightarrow> u64 option" where
  "checked_add_u64 a b = (if unat a + unat b < 2 ^ 64 then Some (a + b) else None)"

definition in_i64 :: "int \<Rightarrow> bool" where
  "in_i64 i \<longleftrightarrow> - (2 ^ 63) \<le> i \<and> i < 2 ^ 63"

definition checked_mul_i64 :: "u64 \<Rightarrow> u64 \<Rightarrow> u64 option" where
  "checked_mul_i64 a b = (if in_i64 (sint a * sint b) then Some (a * b) else None)"

definition checked_add_i64 :: "u64 \<Rightarrow> u64 \<Rightarrow> u64 option" where
  "checked_add_i64 a b = (if in_i64 (sint a + sint b) then Some (a + b) else None)"

subsection \<open>The parsers\<close>

text \<open>\<open>U64_MAX_CH\<close> and \<open>I64_MAX_CH\<close>, the lengths of the two constant buffers.\<close>

definition U64_MAX_CH :: nat where
  "U64_MAX_CH = length ''18446744073709551615''"

definition I64_MAX_CH :: nat where
  "I64_MAX_CH = length ''+9223372036854775807''"

definition atou_step :: "u64 \<Rightarrow> u8 \<Rightarrow> u64 option" where
  "atou_step acc nxt =
     (let b = nxt - 48
      in if b \<le> 9
         then (case checked_mul_u64 acc 10 of
                 None \<Rightarrow> None
               | Some n \<Rightarrow> checked_add_u64 n (ucast b))
         else None)"

definition atou :: "u8 list \<Rightarrow> u64 option" where
  "atou bytes =
     (if length bytes > U64_MAX_CH \<or> bytes = [] then None else try_fold atou_step 0 bytes)"

definition wrapping_atou_step :: "u64 \<Rightarrow> u8 \<Rightarrow> u64 option" where
  "wrapping_atou_step acc nxt =
     (let b = nxt - 48 in if b \<le> 9 then Some (acc * 10 + ucast b) else None)"

definition wrapping_atou :: "u8 list \<Rightarrow> u64 option" where
  "wrapping_atou bytes = try_fold wrapping_atou_step 0 bytes"

text \<open>
  The sign is an \<open>i8\<close> computed from the sign byte: \<open>-(sign as i8).wrapping_sub(0x2C)\<close>. The digit is
  read back as an \<open>i8\<close> too, so the pattern \<open>0..=9\<close> compares signed values.
\<close>

definition atoi_sign :: "u8 \<Rightarrow> u8" where
  "atoi_sign s = - (s - 0x2C)"

definition atoi_step :: "u8 \<Rightarrow> u64 \<Rightarrow> u8 \<Rightarrow> u64 option" where
  "atoi_step sign acc nxt =
     (let b = nxt - 48
      in if 0 \<le> sint b \<and> sint b \<le> 9
         then (case checked_mul_i64 acc 10 of
                 None \<Rightarrow> None
               | Some n \<Rightarrow> checked_add_i64 n (scast (b * sign)))
         else None)"

definition atoi :: "u8 list \<Rightarrow> u64 option" where
  "atoi bytes =
     (if length bytes > I64_MAX_CH then None
      else case bytes of
             [] \<Rightarrow> None
           | s # rest \<Rightarrow>
               (if s = 43 \<or> s = 45
                then (if rest = [] then None else try_fold (atoi_step (atoi_sign s)) 0 rest)
                else try_fold (atoi_step 1) 0 bytes))"

subsection \<open>The value of a digit string\<close>

definition is_digit :: "u8 \<Rightarrow> bool" where
  "is_digit b \<longleftrightarrow> 48 \<le> unat b \<and> unat b \<le> 57"

definition digit :: "u8 \<Rightarrow> nat" where
  "digit b = unat b - 48"

fun dec_val :: "nat \<Rightarrow> u8 list \<Rightarrow> nat" where
  "dec_val acc [] = acc"
| "dec_val acc (b # bs) = dec_val (acc * 10 + digit b) bs"

text \<open>The usual decimal notation of a number, most significant digit first.\<close>

fun dec_digits :: "nat \<Rightarrow> u8 list" where
  "dec_digits n =
     (if n < 10 then [word_of_nat (48 + n)]
      else dec_digits (n div 10) @ [word_of_nat (48 + n mod 10)])"

declare dec_digits.simps [simp del]

lemma digit_le: "is_digit b \<Longrightarrow> digit b \<le> 9"
  unfolding is_digit_def digit_def by arith

lemma unat_sub_48: "unat (b - 48 :: u8) = (if 48 \<le> unat b then unat b - 48 else unat b + 208)"
  by (simp add: unat_sub_if' word_le_nat_alt)

lemma digit_test: "(b - 48 :: u8) \<le> 9 \<longleftrightarrow> is_digit b"
  using unsigned_less [of b] by (auto simp: word_le_nat_alt unat_sub_48 is_digit_def)

lemma digit_unat: "is_digit b \<Longrightarrow> unat (b - 48 :: u8) = digit b"
  by (simp add: unat_sub_48 is_digit_def digit_def)

lemma dec_val_mono: "acc \<le> dec_val acc bs"
proof (induction bs arbitrary: acc)
  case (Cons b bs)
  have "acc \<le> acc * 10 + digit b" by simp
  also have "\<dots> \<le> dec_val (acc * 10 + digit b) bs" by (rule Cons.IH)
  finally show ?case by simp
qed simp

lemma dec_val_append: "dec_val acc (xs @ ys) = dec_val (dec_val acc xs) ys"
  by (induction xs arbitrary: acc) auto

subsection \<open>The steps as operations on the value\<close>

lemma atou_step_eq:
  "atou_step acc b =
     (if is_digit b \<and> unat acc * 10 + digit b < 2 ^ 64
      then Some (word_of_nat (unat acc * 10 + digit b)) else None)"
proof (cases "is_digit b")
  case True
  then have d: "unat (ucast (b - 48) :: u64) = digit b"
    using digit_le [OF True] by (simp add: unsigned_ucast_eq digit_unat take_bit_nat_eq_self)
  have w: "(ucast (b - 48) :: u64) = word_of_nat (digit b)"
    by (rule word_eq_of_nat) (rule d)
  have "acc * 10 + ucast (b - 48) = (word_of_nat (unat acc * 10 + digit b) :: u64)"
    by (simp add: w)
  moreover have "unat acc * 10 < 2 ^ 64 \<Longrightarrow> unat (acc * 10) = unat acc * 10"
    by (simp add: unat_word_ariths)
  ultimately show ?thesis
    using True d by (auto simp: atou_step_def digit_test checked_mul_u64_def checked_add_u64_def)
qed (simp add: atou_step_def digit_test)

lemma atou_fold:
  "try_fold atou_step acc bs =
     (if (\<forall>b\<in>set bs. is_digit b) \<and> dec_val (unat acc) bs < 2 ^ 64
      then Some (word_of_nat (dec_val (unat acc) bs)) else None)"
proof (induction bs arbitrary: acc)
  case Nil
  show ?case using unsigned_less [of acc] by simp
next
  case (Cons b bs)
  show ?case
  proof (cases "is_digit b \<and> unat acc * 10 + digit b < 2 ^ 64")
    case True
    then have "unat (word_of_nat (unat acc * 10 + digit b) :: u64) = unat acc * 10 + digit b"
      by (simp add: unat_of_nat del: of_nat_add of_nat_mult)
    then show ?thesis
      using True Cons.IH [of "word_of_nat (unat acc * 10 + digit b)"]
      by (simp add: atou_step_eq [of acc b] del: of_nat_add of_nat_mult)
  next
    case False
    then show ?thesis
      using dec_val_mono [of "unat acc * 10 + digit b" bs] by (auto simp: atou_step_eq [of acc b])
  qed
qed

lemma wrapping_atou_step_eq:
  "wrapping_atou_step acc b =
     (if is_digit b then Some (acc * 10 + word_of_nat (digit b)) else None)"
proof (cases "is_digit b")
  case True
  then have d: "unat (ucast (b - 48) :: u64) = digit b"
    using digit_le [OF True] by (simp add: unsigned_ucast_eq digit_unat take_bit_nat_eq_self)
  have "(ucast (b - 48) :: u64) = word_of_nat (digit b)"
    by (rule word_eq_of_nat) (rule d)
  with True show ?thesis by (simp add: wrapping_atou_step_def digit_test)
qed (simp add: wrapping_atou_step_def digit_test)

lemma wrapping_atou_fold:
  "try_fold wrapping_atou_step (word_of_nat n) bs =
     (if \<forall>b\<in>set bs. is_digit b then Some (word_of_nat (dec_val n bs)) else None)"
proof (induction bs arbitrary: n)
  case (Cons b bs)
  have "word_of_nat n * 10 + word_of_nat (digit b) = (word_of_nat (n * 10 + digit b) :: u64)"
    by simp
  then show ?case
    using Cons.IH [of "n * 10 + digit b"] by (simp add: wrapping_atou_step_eq)
qed simp

lemma sint_in_i64: "in_i64 i \<Longrightarrow> sint (word_of_int i :: u64) = i"
  by (simp add: in_i64_def sint_of_i64)

lemma sint_digit_test: "0 \<le> sint (b - 48 :: u8) \<and> sint (b - 48 :: u8) \<le> 9 \<longleftrightarrow> is_digit b"
proof -
  have u: "uint (b - 48) \<le> 9 \<longleftrightarrow> is_digit b"
    using digit_test [of b] by (simp add: word_le_def)
  have s: "sint (b - 48) = (uint (b - 48) + 128) mod 256 - 128"
    by (simp add: sint_uint signed_take_bit_eq_take_bit_shift take_bit_eq_mod)
  have m: "0 \<le> (i + 128) mod 256 - 128 \<and> (i + 128) mod 256 - 128 \<le> 9 \<longleftrightarrow> i \<le> 9"
    if "0 \<le> i" "i < 256" for i :: int
  proof (cases "i < 128")
    case False
    then have "(i + 128) mod 256 = i - 128"
      using that mod_pos_pos_trivial [of "i - 128" 256] mod_add_self2 [of "i - 128" 256] by (simp add: add.commute)
    with False that show ?thesis by simp
  qed (use that in simp)
  have "0 \<le> uint (b - 48)" "uint (b - 48) < 256"
    using uint_lt2p [of "b - 48"] by simp_all
  from m [OF this] show ?thesis by (simp only: s u)
qed

lemma scast_digit:
  assumes "is_digit b" "sg = 1 \<or> sg = -1"
  shows "(scast ((b - 48) * word_of_int sg :: u8) :: u64) = word_of_int (sg * int (digit b))"
proof -
  have "(b - 48 :: u8) = word_of_nat (digit b)"
    by (rule word_eq_of_nat) (rule digit_unat [OF assms(1)])
  then have w: "(b - 48) * word_of_int sg = (word_of_int (sg * int (digit b)) :: u8)"
    by simp
  have "sint (word_of_int (sg * int (digit b)) :: u8) = sg * int (digit b)"
    by (rule sint_of_i8) (use assms(2) digit_le [OF assms(1)] in auto)
  then show ?thesis by (simp only: w scast_eq)
qed

lemma atoi_step_eq:
  assumes sg: "sg = 1 \<or> sg = -1" and m: "in_i64 (sg * int m)"
  shows "atoi_step (word_of_int sg) (word_of_int (sg * int m)) b =
     (if is_digit b \<and> in_i64 (sg * int (m * 10 + digit b))
      then Some (word_of_int (sg * int (m * 10 + digit b))) else None)"
proof (cases "is_digit b")
  case True
  let ?x = "sg * int m" and ?d = "sg * int (digit b)"
  have d: "sint (word_of_int ?d :: u64) = ?d"
    by (rule sint_in_i64) (use sg digit_le [OF True] in \<open>auto simp: in_i64_def\<close>)
  have sum: "?x * 10 + ?d = sg * int (m * 10 + digit b)"
    by (simp add: algebra_simps)
  have step: "atoi_step (word_of_int sg) (word_of_int ?x) b =
      (case checked_mul_i64 (word_of_int ?x) 10 of
         None \<Rightarrow> None | Some n \<Rightarrow> checked_add_i64 n (word_of_int ?d))"
    using True unfolding atoi_step_def Let_def sint_digit_test scast_digit [OF True sg] by simp
  have mul: "checked_mul_i64 (word_of_int ?x) 10 =
      (if in_i64 (?x * 10) then Some (word_of_int (?x * 10)) else None)"
    unfolding checked_mul_i64_def sint_in_i64 [OF m] by simp
  have add: "checked_add_i64 (word_of_int (?x * 10)) (word_of_int ?d) =
      (if in_i64 (?x * 10 + ?d) then Some (word_of_int (?x * 10 + ?d)) else None)"
    if "in_i64 (?x * 10)"
    unfolding checked_add_i64_def sint_in_i64 [OF that] d by simp
  have "in_i64 (?x * 10 + ?d) \<Longrightarrow> in_i64 (?x * 10)"
    using sg by (auto simp: in_i64_def)
  then show ?thesis
    using True add unfolding step mul sum [symmetric] by auto
next
  case False
  then show ?thesis unfolding atoi_step_def Let_def sint_digit_test by simp
qed

lemma atoi_fold:
  assumes sg: "sg = 1 \<or> sg = -1" and m: "in_i64 (sg * int m)"
  shows "try_fold (atoi_step (word_of_int sg)) (word_of_int (sg * int m)) bs =
     (if (\<forall>b\<in>set bs. is_digit b) \<and> in_i64 (sg * int (dec_val m bs))
      then Some (word_of_int (sg * int (dec_val m bs))) else None)"
  using m
proof (induction bs arbitrary: m)
  case (Cons b bs)
  show ?case
  proof (cases "is_digit b \<and> in_i64 (sg * int (m * 10 + digit b))")
    case True
    then show ?thesis
      using Cons.IH [of "m * 10 + digit b"] atoi_step_eq [OF sg Cons.prems, of b] by simp
  next
    case False
    have "in_i64 (sg * int (dec_val (m * 10 + digit b) bs)) \<Longrightarrow> in_i64 (sg * int (m * 10 + digit b))"
      using sg dec_val_mono [of "m * 10 + digit b" bs] by (auto simp: in_i64_def)
    with False show ?thesis
      using atoi_step_eq [OF sg Cons.prems, of b] by auto
  qed
qed simp

subsection \<open>Decimal notation\<close>

lemma dec_digits_digits: "b \<in> set (dec_digits n) \<Longrightarrow> is_digit b"
proof (induction n rule: dec_digits.induct)
  case (1 n)
  have "k < 10 \<Longrightarrow> is_digit (word_of_nat (48 + k))" for k
    by (simp add: is_digit_def unat_of_nat del: of_nat_add)
  with 1 show ?case
    by (subst (asm) dec_digits.simps) (auto split: if_splits simp del: of_nat_add)
qed

lemma dec_val_dec_digits: "dec_val 0 (dec_digits n) = n"
proof (induction n rule: dec_digits.induct)
  case (1 n)
  have "k < 10 \<Longrightarrow> digit (word_of_nat (48 + k)) = k" for k
    by (simp add: digit_def unat_of_nat del: of_nat_add)
  with 1 show ?case
    by (subst dec_digits.simps) (auto simp: dec_val_append simp del: of_nat_add)
qed

lemma dec_digits_nonempty: "dec_digits n \<noteq> []"
  by (subst dec_digits.simps) simp

lemma dec_digits_length: "0 < k \<Longrightarrow> n < 10 ^ k \<Longrightarrow> length (dec_digits n) \<le> k"
proof (induction k arbitrary: n)
  case (Suc k)
  show ?case
  proof (cases "n < 10")
    case True
    then show ?thesis by (subst dec_digits.simps) simp
  next
    case False
    then have "0 < k" using Suc.prems by (cases k) auto
    moreover have "n div 10 < 10 ^ k" using Suc.prems by (simp add: less_mult_imp_div_less)
    ultimately have "length (dec_digits (n div 10)) \<le> k" by (rule Suc.IH)
    with False show ?thesis by (subst dec_digits.simps) simp
  qed
qed simp

definition dec_signed :: "int \<Rightarrow> u8 list" where
  "dec_signed i = (if i < 0 then 45 # dec_digits (nat (- i)) else dec_digits (nat i))"

lemma atoi_sign_cases: "atoi_sign 43 = word_of_int 1" "atoi_sign 45 = word_of_int (- 1)"
  by (simp_all add: atoi_sign_def)

lemmas max_ch = U64_MAX_CH_def I64_MAX_CH_def

lemma not_digit_sign: "is_digit b \<Longrightarrow> b \<noteq> 43 \<and> b \<noteq> 45"
  by (auto simp: is_digit_def)

text \<open>What a successful \<open>atoi\<close> has read: an optional sign and the digits after it.\<close>

definition signed_numeral :: "u8 list \<Rightarrow> int \<Rightarrow> u8 list \<Rightarrow> bool" where
  "signed_numeral bs sg ds \<longleftrightarrow>
     ds \<noteq> [] \<and> (\<forall>b\<in>set ds. is_digit b) \<and>
     (bs = ds \<and> sg = 1 \<or> bs = 43 # ds \<and> sg = 1 \<or> bs = 45 # ds \<and> sg = - 1)"

lemma atoi_signed:
  assumes "signed_numeral bs sg ds" "length bs \<le> 20"
  shows "atoi bs = (if in_i64 (sg * int (dec_val 0 ds))
                    then Some (word_of_int (sg * int (dec_val 0 ds))) else None)"
proof -
  have sg: "sg = 1 \<or> sg = - 1" and dig: "\<forall>b\<in>set ds. is_digit b" and ne: "ds \<noteq> []"
    using assms(1) by (auto simp: signed_numeral_def)
  have zero: "in_i64 (sg * int 0)" by (simp add: in_i64_def)
  have fold: "try_fold (atoi_step (word_of_int sg)) 0 ds =
      (if in_i64 (sg * int (dec_val 0 ds))
       then Some (word_of_int (sg * int (dec_val 0 ds))) else None)"
    using atoi_fold [OF sg zero, of ds] dig by simp
  from assms(1) consider "bs = ds" "sg = 1" | "bs = 43 # ds" "sg = 1" | "bs = 45 # ds" "sg = - 1"
    by (auto simp: signed_numeral_def)
  then show ?thesis
  proof cases
    case 1
    then show ?thesis
      using fold ne dig assms(2) not_digit_sign
      by (cases ds) (auto simp: atoi_def max_ch)
  qed (use fold ne assms(2) atoi_sign_cases in \<open>simp_all add: atoi_def max_ch\<close>)
qed

lemma atoi_Some_signed:
  assumes "atoi bs = Some w"
  obtains sg ds where "signed_numeral bs sg ds" "length bs \<le> 20"
proof -
  have len: "length bs \<le> 20" using assms by (auto simp: atoi_def max_ch split: if_splits)
  have zero: "in_i64 (sg * int 0)" for sg by (simp add: in_i64_def)
  have dig: "\<forall>b\<in>set ds. is_digit b"
    if "try_fold (atoi_step (word_of_int sg)) 0 ds = Some w" "sg = 1 \<or> sg = - 1" for sg ds
    using that atoi_fold [OF that(2) zero, of ds] by (auto split: if_splits)
  from assms consider (plus) ds where "bs = 43 # ds" "ds \<noteq> []" "try_fold (atoi_step (word_of_int 1)) 0 ds = Some w"
    | (minus) ds where "bs = 45 # ds" "ds \<noteq> []" "try_fold (atoi_step (word_of_int (- 1))) 0 ds = Some w"
    | (none) "bs \<noteq> []" "try_fold (atoi_step (word_of_int 1)) 0 bs = Some w"
    by (auto simp: atoi_def atoi_sign_cases split: if_splits list.splits)
  then show thesis
  proof cases
    case (plus ds)
    then show thesis using that [of 1 ds] dig [of 1 ds] len by (simp add: signed_numeral_def)
  next
    case (minus ds)
    then show thesis using that [of "- 1" ds] dig [of "- 1" ds] len by (simp add: signed_numeral_def)
  next
    case none
    then show thesis using that [of 1 bs] dig [of 1 bs] len by (simp add: signed_numeral_def)
  qed
qed

subsection \<open>Correctness\<close>

lemma atou_eq:
  "atou bs =
     (if bs \<noteq> [] \<and> length bs \<le> 20 \<and> (\<forall>b\<in>set bs. is_digit b) \<and> dec_val 0 bs < 2 ^ 64
      then Some (word_of_nat (dec_val 0 bs)) else None)"
  by (simp add: atou_def atou_fold max_ch)

text \<open>C39: \<open>wrapping_atou\<close> accepts every string of digits, of any length, and returns its value modulo
  \<open>2 ^ 64\<close>; a byte that is not a digit makes it \<open>None\<close>. The empty string gives 0.\<close>

theorem wrapping_atou_correct:
  "wrapping_atou bs =
     (if \<forall>b\<in>set bs. is_digit b then Some (word_of_nat (dec_val 0 bs)) else None)"
  using wrapping_atou_fold [of 0 bs] by (simp add: wrapping_atou_def)

theorem wrapping_atou_witness: "wrapping_atou [49, 48] = Some 10 \<and> wrapping_atou [49, 47] = None"
  using wrapping_atou_correct [of "[49, 48]"] wrapping_atou_correct [of "[49, 47]"]
  by (simp add: is_digit_def digit_def)

lemma atoi_Some_iff:
  "atoi bs = Some w \<longleftrightarrow>
     length bs \<le> 20 \<and>
     (\<exists>sg ds. signed_numeral bs sg ds \<and> in_i64 (sg * int (dec_val 0 ds)) \<and>
              sint w = sg * int (dec_val 0 ds))"
    (is "?l \<longleftrightarrow> ?r")
proof
  assume l: ?l
  then obtain sg ds where s: "signed_numeral bs sg ds" "length bs \<le> 20" by (rule atoi_Some_signed)
  with l have v: "in_i64 (sg * int (dec_val 0 ds))" "w = word_of_int (sg * int (dec_val 0 ds))"
    using atoi_signed [OF s] by (auto split: if_splits)
  then have "sint w = sg * int (dec_val 0 ds)" by (simp only: sint_in_i64)
  with s v(1) show ?r by blast
next
  assume ?r
  then obtain sg ds where s: "signed_numeral bs sg ds" "length bs \<le> 20"
    and v: "in_i64 (sg * int (dec_val 0 ds))" "sint w = sg * int (dec_val 0 ds)"
    by blast
  have "w = word_of_int (sg * int (dec_val 0 ds))" by (simp flip: v(2))
  with atoi_signed [OF s] v(1) show ?l by simp
qed

lemma atou_digits: "atou (dec_digits (unat w)) = Some w"
proof -
  have "unat w < 2 ^ 64" using unsigned_less [of w] by simp
  then have "length (dec_digits (unat w)) \<le> 20" by (intro dec_digits_length) auto
  with \<open>unat w < 2 ^ 64\<close> show ?thesis
    using dec_digits_digits by (auto simp: atou_eq dec_val_dec_digits dec_digits_nonempty)
qed

lemma atoi_digits: "atoi (dec_signed (sint w)) = Some w"
proof -
  let ?sg = "if sint w < 0 then - 1 else (1::int)" and ?n = "nat \<bar>sint w\<bar>"
  have r: "- (2 ^ 63) \<le> sint w" "sint w < 2 ^ 63"
    using sint_ge [of w] sint_lt [of w] by simp_all
  then have "length (dec_digits ?n) \<le> 19" by (intro dec_digits_length) auto
  then have "length (dec_signed (sint w)) \<le> 20" by (auto simp: dec_signed_def)
  moreover have "signed_numeral (dec_signed (sint w)) ?sg (dec_digits ?n)"
    using dec_digits_digits by (auto simp: signed_numeral_def dec_signed_def dec_digits_nonempty)
  moreover have "in_i64 (?sg * int (dec_val 0 (dec_digits ?n)))"
      "sint w = ?sg * int (dec_val 0 (dec_digits ?n))"
    using r by (auto simp: in_i64_def dec_val_dec_digits)
  ultimately show ?thesis unfolding atoi_Some_iff by blast
qed

text \<open>C37: \<open>atou\<close> returns a number exactly when its input is a non-empty string of at most 20 digits
  whose value fits a \<open>u64\<close>, and then that value; every other input is \<open>None\<close>. So it reads back the
  decimal digits of every \<open>u64\<close>.\<close>

theorem atou_correct:
  "atou bs =
     (if bs \<noteq> [] \<and> length bs \<le> 20 \<and> (\<forall>b\<in>set bs. is_digit b) \<and> dec_val 0 bs < 2 ^ 64
      then Some (word_of_nat (dec_val 0 bs)) else None) \<and>
   atou (dec_digits (unat w)) = Some w"
  using atou_eq atou_digits by blast

theorem atou_witness: "atou [48, 49, 50] = Some 12 \<and> atou [49, 97] = None"
  using atou_correct [of "[48, 49, 50]"] atou_correct [of "[49, 97]"]
  by (simp add: is_digit_def digit_def)

text \<open>C38: \<open>atoi\<close> returns a number exactly when its input, of at most 20 bytes, is an optional sign and a
  digit string whose signed value fits an \<open>i64\<close>, and then that value. So it reads back the signed decimal
  digits of every \<open>i64\<close>, the least one included.\<close>

theorem atoi_correct:
  "(atoi bs = Some w \<longleftrightarrow>
     length bs \<le> 20 \<and>
     (\<exists>sg ds. signed_numeral bs sg ds \<and> in_i64 (sg * int (dec_val 0 ds)) \<and>
              sint w = sg * int (dec_val 0 ds))) \<and>
   atoi (dec_signed (sint w)) = Some w"
  using atoi_Some_iff atoi_digits by blast

end
