(* ===== verification/Memory.thy ===== *)
theory Memory
  imports Tcio_Prelude
begin

text \<open>
  The raw memory that \<open>src/bytes/\<close> works on, as the standard library's contracts describe it. A
  pointer is an allocation (its provenance) and an offset in it; an allocation is a list of cells, each
  a byte or uninitialised. Every raw operation checks its safety contract and is \<open>UB\<close> outside it:
  pointer arithmetic stays inside the allocation, reads are of live initialised cells, writes are of
  live heap cells, and a vector is rebuilt and freed with the pointer and capacity it was allocated with.

  The environment is three arbitrary functions of the heap: \<open>hp_base\<close> gives each allocation its address
  (for the code that compares addresses), \<open>hp_extra\<close> the capacity that \<open>Vec::with_capacity\<close> grants beyond
  the request, \<open>hp_empty\<close> the address of the empty static slice. Allocations are never reused, so a use
  after free is always visible. The boxed \<open>Shared\<close> structs live in their own map, keyed by the machine
  word that the code tags; the \<open>n\<close>-th box is at address \<open>8 * (n + 1)\<close>, even and not null, which is all
  that the code relies on.
\<close>

datatype ptr = Ptr (ptr_blk: nat) (ptr_off: nat)

record block =
  blk_cells :: "u8 option list"
  blk_live :: bool
  blk_static :: bool

text \<open>\<open>struct Shared\<close>; the atomic counter is a \<open>nat\<close> below \<open>2 ^ 64\<close>.\<close>

record shared =
  ref_count :: nat
  sh_ptr :: ptr
  sh_cap :: nat

record heap =
  hp_blocks :: "block list"
  hp_base :: "nat \<Rightarrow> usize"
  hp_extra :: "nat \<Rightarrow> nat"
  hp_empty :: ptr
  hp_shared :: "usize \<Rightarrow> shared option"
  hp_boxes :: nat

text \<open>\<open>Vec<u8>\<close>.\<close>

record vec =
  v_ptr :: ptr
  v_len :: nat
  v_cap :: nat

subsection \<open>Pointers and cells\<close>

definition blk_ok :: "heap \<Rightarrow> nat \<Rightarrow> bool" where
  "blk_ok h i \<longleftrightarrow> i < length (hp_blocks h) \<and> blk_live (hp_blocks h ! i)"

definition blk_size :: "heap \<Rightarrow> nat \<Rightarrow> nat" where
  "blk_size h i = length (blk_cells (hp_blocks h ! i))"

definition cells :: "heap \<Rightarrow> ptr \<Rightarrow> nat \<Rightarrow> u8 option list" where
  "cells h p n = take n (drop (ptr_off p) (blk_cells (hp_blocks h ! ptr_blk p)))"

definition readable :: "heap \<Rightarrow> ptr \<Rightarrow> nat \<Rightarrow> bool" where
  "readable h p n \<longleftrightarrow> n = 0 \<or> blk_ok h (ptr_blk p) \<and> ptr_off p + n \<le> blk_size h (ptr_blk p)"

definition writable :: "heap \<Rightarrow> ptr \<Rightarrow> nat \<Rightarrow> bool" where
  "writable h p n \<longleftrightarrow> n = 0 \<or> readable h p n \<and> \<not> blk_static (hp_blocks h ! ptr_blk p)"

definition ptr_addr :: "heap \<Rightarrow> ptr \<Rightarrow> nat" where
  "ptr_addr h p = unat (hp_base h (ptr_blk p)) + ptr_off p"

definition ptr_add :: "heap \<Rightarrow> ptr \<Rightarrow> nat \<Rightarrow> ptr res" where
  "ptr_add h p n = (if readable h p n then Ok (Ptr (ptr_blk p) (ptr_off p + n)) else UB)"

definition ptr_sub :: "heap \<Rightarrow> ptr \<Rightarrow> nat \<Rightarrow> ptr res" where
  "ptr_sub h p n =
     (if n = 0 then Ok p
      else if blk_ok h (ptr_blk p) \<and> n \<le> ptr_off p \<and> ptr_off p \<le> blk_size h (ptr_blk p)
      then Ok (Ptr (ptr_blk p) (ptr_off p - n)) else UB)"

definition offset_from_unsigned :: "ptr \<Rightarrow> ptr \<Rightarrow> nat res" where
  "offset_from_unsigned p base =
     (if ptr_blk p = ptr_blk base \<and> ptr_off base \<le> ptr_off p
      then Ok (ptr_off p - ptr_off base) else UB)"

text \<open>\<open>slice::from_raw_parts\<close>, as the bytes that a reader of the slice sees.\<close>

definition slice_from_raw_parts :: "heap \<Rightarrow> ptr \<Rightarrow> nat \<Rightarrow> u8 list res" where
  "slice_from_raw_parts h p n =
     (if readable h p n \<and> (n = 0 \<or> None \<notin> set (cells h p n))
      then Ok (if n = 0 then [] else map the (cells h p n)) else UB)"

definition store_cells :: "heap \<Rightarrow> ptr \<Rightarrow> u8 option list \<Rightarrow> heap" where
  "store_cells h p xs =
     (let i = ptr_blk p; b = hp_blocks h ! i; cs = blk_cells b
      in h\<lparr>hp_blocks := (hp_blocks h)[i := b\<lparr>blk_cells :=
             take (ptr_off p) cs @ xs @ drop (ptr_off p + length xs) cs\<rparr>]\<rparr>)"

definition write_cells :: "heap \<Rightarrow> ptr \<Rightarrow> u8 option list \<Rightarrow> heap res" where
  "write_cells h p xs =
     (if xs = [] then Ok h else if writable h p (length xs) then Ok (store_cells h p xs) else UB)"

text \<open>\<open>ptr::copy\<close> and \<open>ptr::copy_nonoverlapping\<close>.\<close>

definition ptr_copy :: "heap \<Rightarrow> ptr \<Rightarrow> ptr \<Rightarrow> nat \<Rightarrow> heap res" where
  "ptr_copy h src dst n = (if readable h src n then write_cells h dst (cells h src n) else UB)"

definition apart :: "ptr \<Rightarrow> ptr \<Rightarrow> nat \<Rightarrow> bool" where
  "apart p q n \<longleftrightarrow> ptr_blk p \<noteq> ptr_blk q \<or> ptr_off p + n \<le> ptr_off q \<or> ptr_off q + n \<le> ptr_off p"

definition copy_nonoverlapping :: "heap \<Rightarrow> ptr \<Rightarrow> ptr \<Rightarrow> nat \<Rightarrow> heap res" where
  "copy_nonoverlapping h src dst n =
     (if n = 0 \<or> apart src dst n then ptr_copy h src dst n else UB)"

text \<open>A copy out of a borrowed slice that is not part of the model's heap.\<close>

definition copy_from :: "heap \<Rightarrow> u8 list \<Rightarrow> ptr \<Rightarrow> heap res" where
  "copy_from h xs dst = write_cells h dst (map Some xs)"

subsection \<open>Vectors\<close>

definition new_block :: "nat \<Rightarrow> block" where
  "new_block n = \<lparr>blk_cells = replicate n None, blk_live = True, blk_static = False\<rparr>"

text \<open>
  \<open>Vec::with_capacity\<close>: at least the requested capacity, nothing for 0, a panic past \<open>isize::MAX\<close>, and an
  abort (\<open>handle_alloc_error\<close>) if the allocator has no place for the block in the address space, as it never has
  for \<open>isize::MAX\<close> bytes in one piece.
\<close>

definition vec_with_capacity :: "nat \<Rightarrow> heap \<Rightarrow> (vec \<times> heap) res" where
  "vec_with_capacity n h =
     (let i = length (hp_blocks h); c = (if n = 0 then 0 else n + hp_extra h i)
      in if c > isize_max then Panic
         else if c = isize_max \<or> unat (hp_base h i) + c > usize_max then Abort
         else Ok (\<lparr>v_ptr = Ptr i 0, v_len = 0, v_cap = c\<rparr>,
                  h\<lparr>hp_blocks := hp_blocks h @ [new_block c]\<rparr>))"

definition vec_from_raw_parts :: "heap \<Rightarrow> ptr \<Rightarrow> nat \<Rightarrow> nat \<Rightarrow> vec res" where
  "vec_from_raw_parts h p len cap =
     (if len \<le> cap \<and>
         (cap = 0 \<or> ptr_off p = 0 \<and> blk_ok h (ptr_blk p) \<and> \<not> blk_static (hp_blocks h ! ptr_blk p) \<and>
                     blk_size h (ptr_blk p) = cap)
      then Ok \<lparr>v_ptr = p, v_len = len, v_cap = cap\<rparr> else UB)"

definition vec_set_len :: "vec \<Rightarrow> nat \<Rightarrow> vec res" where
  "vec_set_len v n = (if n \<le> v_cap v then Ok (v\<lparr>v_len := n\<rparr>) else UB)"

definition free_block :: "heap \<Rightarrow> nat \<Rightarrow> heap" where
  "free_block h i = h\<lparr>hp_blocks := (hp_blocks h)[i := (hp_blocks h ! i)\<lparr>blk_live := False\<rparr>]\<rparr>"

text \<open>Dropping a vector frees its buffer; a second drop, or one with the wrong layout, is \<open>UB\<close>.\<close>

definition vec_drop :: "vec \<Rightarrow> heap \<Rightarrow> heap res" where
  "vec_drop v h =
     (if v_cap v = 0 then Ok h
      else rbind (vec_from_raw_parts h (v_ptr v) (v_len v) (v_cap v))
             (\<lambda>v. Ok (free_block h (ptr_blk (v_ptr v)))))"

text \<open>\<open><[u8]>::to_vec\<close>.\<close>

definition slice_to_vec :: "u8 list \<Rightarrow> heap \<Rightarrow> (vec \<times> heap) res" where
  "slice_to_vec xs h =
     rbind (vec_with_capacity (length xs) h) (\<lambda>(v, h).
     rbind (copy_from h xs (v_ptr v)) (\<lambda>h.
     rbind (vec_set_len v (length xs)) (\<lambda>v. Ok (v, h))))"

subsection \<open>Boxed \<open>Shared\<close> structs\<close>

definition box_addr :: "nat \<Rightarrow> usize" where
  "box_addr n = word_of_nat (8 * (n + 1))"

definition box_room :: "heap \<Rightarrow> bool" where
  "box_room h \<longleftrightarrow> 8 * (hp_boxes h + 1) < 2 ^ 64"

text \<open>\<open>Box::into_raw(Box::new(shared))\<close>: aborts when the address space is exhausted.\<close>

definition box_new :: "shared \<Rightarrow> heap \<Rightarrow> (usize \<times> heap) res" where
  "box_new s h =
     (if box_room h
      then let a = box_addr (hp_boxes h)
           in Ok (a, h\<lparr>hp_shared := (hp_shared h)(a \<mapsto> s), hp_boxes := Suc (hp_boxes h)\<rparr>)
      else Abort)"

definition box_deref :: "usize \<Rightarrow> heap \<Rightarrow> shared res" where
  "box_deref a h = (case hp_shared h a of None \<Rightarrow> UB | Some s \<Rightarrow> Ok s)"

definition box_set :: "usize \<Rightarrow> shared \<Rightarrow> heap \<Rightarrow> heap" where
  "box_set a s h = h\<lparr>hp_shared := (hp_shared h)(a \<mapsto> s)\<rparr>"

definition box_free :: "usize \<Rightarrow> heap \<Rightarrow> heap" where
  "box_free a h = h\<lparr>hp_shared := (hp_shared h)(a := None)\<rparr>"

subsection \<open>Cells after a store, an allocation and a free\<close>

lemma cells_0 [simp]: "cells h p 0 = []"
  by (simp add: cells_def)

lemma length_cells: "ptr_off p + n \<le> blk_size h (ptr_blk p) \<Longrightarrow> length (cells h p n) = n"
  by (simp add: cells_def blk_size_def)

lemma cells_take: "m \<le> n \<Longrightarrow> cells h p m = take m (cells h p n)"
  by (simp add: cells_def min_absorb1)

lemma cells_drop: "cells h (Ptr (ptr_blk p) (ptr_off p + m)) n = drop m (cells h p (m + n))"
  by (simp add: cells_def drop_take add.commute)

lemma cells_add: "cells h p (m + n) = cells h p m @ cells h (Ptr (ptr_blk p) (ptr_off p + m)) n"
  by (simp add: cells_def take_add add.commute)

lemma set_cells_sub:
  assumes "ptr_blk q = ptr_blk p" "ptr_off p \<le> ptr_off q" "ptr_off q + m \<le> ptr_off p + n"
  shows "set (cells h q m) \<subseteq> set (cells h p n)"
proof -
  have "q = Ptr (ptr_blk p) (ptr_off p + (ptr_off q - ptr_off p))"
    using assms by (cases q) simp
  then have "cells h q m = drop (ptr_off q - ptr_off p) (cells h p (ptr_off q - ptr_off p + m))"
    using cells_drop by metis
  moreover have "cells h p (ptr_off q - ptr_off p + m) = take (ptr_off q - ptr_off p + m) (cells h p n)"
    by (rule cells_take) (use assms in simp)
  ultimately show ?thesis by (metis order_trans set_drop_subset set_take_subset)
qed

lemma store_cells_simps [simp]:
  "length (hp_blocks (store_cells h p xs)) = length (hp_blocks h)"
  "hp_base (store_cells h p xs) = hp_base h"
  "hp_extra (store_cells h p xs) = hp_extra h"
  "hp_empty (store_cells h p xs) = hp_empty h"
  "hp_shared (store_cells h p xs) = hp_shared h"
  "hp_boxes (store_cells h p xs) = hp_boxes h"
  by (simp_all add: store_cells_def Let_def)

lemma store_cells_block:
  "blk_live (hp_blocks (store_cells h p xs) ! i) = blk_live (hp_blocks h ! i)"
  "blk_static (hp_blocks (store_cells h p xs) ! i) = blk_static (hp_blocks h ! i)"
  by (cases "ptr_blk p < length (hp_blocks h)"; cases "i = ptr_blk p";
      simp add: store_cells_def Let_def list_update_beyond)+

lemma blk_ok_store [simp]: "blk_ok (store_cells h p xs) i = blk_ok h i"
  by (simp add: blk_ok_def store_cells_block)

lemma blk_size_store [simp]:
  "ptr_off p + length xs \<le> blk_size h (ptr_blk p) \<Longrightarrow> blk_size (store_cells h p xs) i = blk_size h i"
  by (cases "ptr_blk p < length (hp_blocks h)"; cases "i = ptr_blk p")
    (simp_all add: store_cells_def Let_def blk_size_def list_update_beyond)

lemma cells_store_other:
  "ptr_blk q \<noteq> ptr_blk p \<Longrightarrow> cells (store_cells h p xs) q n = cells h q n"
  by (simp add: cells_def store_cells_def Let_def)

lemma cells_store_below:
  "ptr_blk q = ptr_blk p \<Longrightarrow> ptr_off q + n \<le> ptr_off p \<Longrightarrow>
   ptr_off p + length xs \<le> blk_size h (ptr_blk p) \<Longrightarrow>
   cells (store_cells h p xs) q n = cells h q n"
  by (cases "ptr_blk p < length (hp_blocks h)")
    (simp_all add: cells_def store_cells_def Let_def blk_size_def drop_take min_absorb1
      list_update_beyond)

lemma cells_store_above:
  "ptr_blk q = ptr_blk p \<Longrightarrow> ptr_off p + length xs \<le> ptr_off q \<Longrightarrow>
   ptr_off p + length xs \<le> blk_size h (ptr_blk p) \<Longrightarrow>
   cells (store_cells h p xs) q n = cells h q n"
  by (cases "ptr_blk p < length (hp_blocks h)")
    (simp_all add: cells_def store_cells_def Let_def blk_size_def list_update_beyond)

lemma cells_store_same:
  "ptr_blk p < length (hp_blocks h) \<Longrightarrow> ptr_off p + length xs \<le> blk_size h (ptr_blk p) \<Longrightarrow>
   cells (store_cells h p xs) p (length xs) = xs"
  by (simp add: cells_def store_cells_def Let_def blk_size_def)

lemma cells_nth:
  "k < n \<Longrightarrow> ptr_off q + n \<le> blk_size h (ptr_blk q) \<Longrightarrow>
   cells h q n ! k = blk_cells (hp_blocks h ! ptr_blk q) ! (ptr_off q + k)"
  by (simp add: cells_def blk_size_def)

lemma nth_splice:
  assumes "a + length xs \<le> length cs"
  shows "(take a cs @ xs @ drop (a + length xs) cs) ! j =
    (if a \<le> j \<and> j < a + length xs then xs ! (j - a) else cs ! j)"
proof -
  consider "j < a" | "a \<le> j" "j < a + length xs" | "a + length xs \<le> j" by linarith
  then show ?thesis
  proof cases
    case 3
    then have "\<not> j < a" "\<not> j - a < length xs" "a + length xs + (j - a - length xs) = j" by simp_all
    with 3 assms show ?thesis by (simp add: nth_append)
  next
    case 2
    then have "\<not> j < a" "j - a < length xs" by simp_all
    with 2 assms show ?thesis by (simp add: nth_append)
  qed (use assms in \<open>simp_all add: nth_append\<close>)
qed

lemma store_cells_cells:
  "ptr_blk p < length (hp_blocks h) \<Longrightarrow>
   blk_cells (hp_blocks (store_cells h p xs) ! ptr_blk p) =
     take (ptr_off p) (blk_cells (hp_blocks h ! ptr_blk p)) @ xs @
     drop (ptr_off p + length xs) (blk_cells (hp_blocks h ! ptr_blk p))"
  by (simp add: store_cells_def Let_def)

text \<open>A store of initialised bytes keeps every initialised range initialised.\<close>

lemma init_store:
  assumes "None \<notin> set xs" "None \<notin> set (cells h q n)"
    and q: "ptr_off q + n \<le> blk_size h (ptr_blk q)" and p: "ptr_off p + length xs \<le> blk_size h (ptr_blk p)"
  shows "None \<notin> set (cells (store_cells h p xs) q n)"
proof (cases "ptr_blk q = ptr_blk p \<and> ptr_blk p < length (hp_blocks h)")
  case True
  let ?cs = "blk_cells (hp_blocks h ! ptr_blk p)"
  have size: "ptr_off p + length xs \<le> length ?cs" using p by (simp add: blk_size_def)
  have "cells (store_cells h p xs) q n ! k \<noteq> None" if "k < n" for k
  proof -
    have "cells (store_cells h p xs) q n ! k =
        blk_cells (hp_blocks (store_cells h p xs) ! ptr_blk p) ! (ptr_off q + k)"
      using cells_nth [OF that, of q "store_cells h p xs"] q p True by simp
    also have "\<dots> = (if ptr_off p \<le> ptr_off q + k \<and> ptr_off q + k < ptr_off p + length xs
        then xs ! (ptr_off q + k - ptr_off p) else cells h q n ! k)"
      using cells_nth [OF that q] True by (simp only: store_cells_cells nth_splice [OF size])
    also have "\<dots> \<noteq> None"
    proof (cases "ptr_off p \<le> ptr_off q + k \<and> ptr_off q + k < ptr_off p + length xs")
      case True
      then have "xs ! (ptr_off q + k - ptr_off p) \<in> set xs" by (intro nth_mem) arith
      with True assms(1) show ?thesis by metis
    next
      case False
      have "cells h q n ! k \<in> set (cells h q n)" using that q by (simp add: length_cells)
      with False assms(2) show ?thesis by metis
    qed
    finally show ?thesis .
  qed
  then show ?thesis using q p by (auto simp: in_set_conv_nth length_cells)
next
  case False
  then have "cells (store_cells h p xs) q n = cells h q n"
    by (cases "ptr_blk q = ptr_blk p")
      (simp_all add: cells_store_other cells_def store_cells_def Let_def list_update_beyond)
  with assms(2) show ?thesis by simp
qed

lemma free_block_simps [simp]:
  "length (hp_blocks (free_block h i)) = length (hp_blocks h)"
  "hp_base (free_block h i) = hp_base h"
  "hp_extra (free_block h i) = hp_extra h"
  "hp_empty (free_block h i) = hp_empty h"
  "hp_shared (free_block h i) = hp_shared h"
  "hp_boxes (free_block h i) = hp_boxes h"
  by (simp_all add: free_block_def)

lemma free_block_nth:
  "hp_blocks (free_block h i) ! j =
     (if i = j \<and> i < length (hp_blocks h) then (hp_blocks h ! i)\<lparr>blk_live := False\<rparr> else hp_blocks h ! j)"
  by (cases "i < length (hp_blocks h)") (auto simp: free_block_def list_update_beyond)

lemma free_block_block [simp]:
  "blk_cells (hp_blocks (free_block h i) ! j) = blk_cells (hp_blocks h ! j)"
  "blk_static (hp_blocks (free_block h i) ! j) = blk_static (hp_blocks h ! j)"
  by (simp_all add: free_block_nth)

lemma free_block_cells [simp]: "cells (free_block h i) p n = cells h p n"
  by (simp add: cells_def)

lemma free_block_size [simp]: "blk_size (free_block h i) j = blk_size h j"
  by (simp add: blk_size_def)

lemma free_block_ok [simp]: "blk_ok (free_block h i) j \<longleftrightarrow> blk_ok h j \<and> i \<noteq> j"
  by (auto simp: blk_ok_def free_block_nth)

lemma box_set_simps [simp]:
  "hp_blocks (box_set a s h) = hp_blocks h" "hp_base (box_set a s h) = hp_base h"
  "hp_extra (box_set a s h) = hp_extra h" "hp_empty (box_set a s h) = hp_empty h"
  "hp_shared (box_set a s h) = (hp_shared h)(a \<mapsto> s)" "hp_boxes (box_set a s h) = hp_boxes h"
  by (simp_all add: box_set_def)

lemma box_free_simps [simp]:
  "hp_blocks (box_free a h) = hp_blocks h" "hp_base (box_free a h) = hp_base h"
  "hp_extra (box_free a h) = hp_extra h" "hp_empty (box_free a h) = hp_empty h"
  "hp_shared (box_free a h) = (hp_shared h)(a := None)" "hp_boxes (box_free a h) = hp_boxes h"
  by (simp_all add: box_free_def)

text \<open>The memory of a heap depends on its blocks only.\<close>

lemma box_set_blocks [simp]:
  "blk_ok (box_set a s h) i = blk_ok h i" "blk_size (box_set a s h) i = blk_size h i"
  "cells (box_set a s h) p n = cells h p n"
  by (simp_all add: blk_ok_def blk_size_def cells_def)

lemma box_free_blocks [simp]:
  "blk_ok (box_free a h) i = blk_ok h i" "blk_size (box_free a h) i = blk_size h i"
  "cells (box_free a h) p n = cells h p n"
  by (simp_all add: blk_ok_def blk_size_def cells_def)

end
