(* ===== verification/Shared.thy ===== *)
theory Shared
  imports Memory
begin

text \<open>
  \<open>src/bytes/shared.rs\<close>: the tagged word in the \<open>data\<close> field of a handle, and the reference-counted
  \<open>Shared\<close> box it points to once promoted. With the least significant bit set the word is not a pointer
  and the remaining bits are a payload (how far the handle has been advanced); with the bit clear it is
  the address of a \<open>Shared\<close>. The functions on the word are on \<open>64 word\<close>, bit for bit.
\<close>

unbundle bit_operations_syntax

definition DATA_PROMOTED :: usize where "DATA_PROMOTED = 0"
definition DATA_UNPROMOTED :: usize where "DATA_UNPROMOTED = 1"
definition DATA_MASK :: usize where "DATA_MASK = 1"
definition RESERVED_BIT_DATA :: nat where "RESERVED_BIT_DATA = 1"

lemmas data_consts = DATA_PROMOTED_def DATA_UNPROMOTED_def DATA_MASK_def RESERVED_BIT_DATA_def

definition new_unpromoted :: usize where
  "new_unpromoted = 0 + DATA_UNPROMOTED"

definition is_unpromoted :: "usize \<Rightarrow> bool" where
  "is_unpromoted data \<longleftrightarrow> data AND DATA_MASK = DATA_UNPROMOTED"

definition is_promoted :: "usize \<Rightarrow> bool" where
  "is_promoted data \<longleftrightarrow> data AND DATA_MASK = DATA_PROMOTED"

definition payload :: "usize \<Rightarrow> nat" where
  "payload data = unat (drop_bit RESERVED_BIT_DATA data)"

text \<open>
  \<open>as_unpromoted\<close>: \<open>Inl\<close> is the payload (\<open>Ok\<close> of the code), \<open>Inr\<close> the box (\<open>Err\<close>); dereferencing
  anything but a live box is \<open>UB\<close>. \<open>as_unpromoted_mut\<close> lacks the debug assertion.
\<close>

definition as_unpromoted :: "heap \<Rightarrow> usize \<Rightarrow> (nat + shared) res" where
  "as_unpromoted h data =
     (if is_unpromoted data then Ok (Inl (payload data))
      else rbind (rassert (data \<noteq> 0)) (\<lambda>_. rbind (box_deref data h) (\<lambda>s. Ok (Inr s))))"

definition to_unpromoted :: "usize \<Rightarrow> nat option" where
  "to_unpromoted data = (if is_unpromoted data then Some (payload data) else None)"

definition as_unpromoted_mut :: "heap \<Rightarrow> usize \<Rightarrow> (nat + shared) res" where
  "as_unpromoted_mut h data =
     (if is_unpromoted data then Ok (Inl (payload data))
      else rbind (box_deref data h) (\<lambda>s. Ok (Inr s)))"

text \<open>\<open>into_unpromoted\<close> takes the box over; the box itself stays at its address.\<close>

definition into_unpromoted :: "heap \<Rightarrow> usize \<Rightarrow> (nat + shared) res" where
  "into_unpromoted h data =
     (if is_unpromoted data then Ok (Inl (payload data))
      else rbind (box_deref data h) (\<lambda>s. Ok (Inr s)))"

definition MSB :: usize where
  "MSB = word_rotr RESERVED_BIT_DATA 1"

definition mask_payload :: "usize \<Rightarrow> nat \<Rightarrow> usize res" where
  "mask_payload data n =
     rbind (rassert (is_unpromoted data)) (\<lambda>_.
     rbind (rassert (word_of_nat n AND MSB = 0)) (\<lambda>_.
     Ok (push_bit RESERVED_BIT_DATA (word_of_nat n) OR DATA_UNPROMOTED)))"

definition promote_with_vec :: "vec \<Rightarrow> nat \<Rightarrow> heap \<Rightarrow> (usize \<times> heap) res" where
  "promote_with_vec v rc h =
     (let shared = \<lparr>ref_count = rc, sh_ptr = v_ptr v, sh_cap = v_cap v\<rparr> in box_new shared h)"

definition is_unique :: "shared \<Rightarrow> bool" where
  "is_unique s \<longleftrightarrow> ref_count s = 1"

text \<open>The atomic counter wraps around at \<open>2 ^ 64\<close>, as \<open>fetch_add\<close> and \<open>fetch_sub\<close> do.\<close>

definition fetch_add :: "usize \<Rightarrow> heap \<Rightarrow> (nat \<times> heap) res" where
  "fetch_add a h =
     rbind (box_deref a h) (\<lambda>s.
       Ok (ref_count s, box_set a (s\<lparr>ref_count := (ref_count s + 1) mod 2 ^ 64\<rparr>) h))"

definition fetch_sub :: "usize \<Rightarrow> heap \<Rightarrow> (nat \<times> heap) res" where
  "fetch_sub a h =
     rbind (box_deref a h) (\<lambda>s.
       Ok (ref_count s, box_set a (s\<lparr>ref_count := (ref_count s + (2 ^ 64 - 1)) mod 2 ^ 64\<rparr>) h))"

definition increment :: "usize \<Rightarrow> heap \<Rightarrow> heap res" where
  "increment a h =
     rbind (fetch_add a h) (\<lambda>(old_size, h). if old_size > isize_max then Abort else Ok h)"

definition release :: "usize \<Rightarrow> heap \<Rightarrow> heap res" where
  "release a h =
     rbind (fetch_sub a h) (\<lambda>(old, h).
       if old \<noteq> 1 then Ok h
       else rbind (box_deref a h) (\<lambda>s.
            rbind (vec_from_raw_parts h (sh_ptr s) 0 (sh_cap s)) (\<lambda>v.
            rbind (vec_drop v h) (\<lambda>h. Ok (box_free a h)))))"

definition release_into_vec :: "usize \<Rightarrow> nat \<Rightarrow> heap \<Rightarrow> (vec option \<times> heap) res" where
  "release_into_vec a len h =
     rbind (fetch_sub a h) (\<lambda>(old, h).
       if old \<noteq> 1 then Ok (None, h)
       else rbind (box_deref a h) (\<lambda>s.
            rbind (vec_from_raw_parts h (sh_ptr s) len (sh_cap s)) (\<lambda>v.
            Ok (Some v, box_free a h))))"

subsection \<open>The tagged word\<close>

lemma is_unpromoted_odd: "is_unpromoted data \<longleftrightarrow> odd data"
  by (simp add: is_unpromoted_def data_consts and_one_eq odd_iff_mod_2_eq_one)

lemma is_promoted_even: "is_promoted data \<longleftrightarrow> even data"
  by (simp add: is_promoted_def data_consts and_one_eq even_iff_mod_2_eq_zero)

lemma is_promoted_not [simp]: "is_promoted data \<longleftrightarrow> \<not> is_unpromoted data"
  by (simp add: is_unpromoted_odd is_promoted_even)

lemma MSB_eq: "MSB = 2 ^ 63"
proof (rule bit_word_eqI)
  fix n
  assume "n < LENGTH(64)"
  then have "(n + 1) mod 64 = 0 \<longleftrightarrow> n = 63" by auto presburger
  then show "bit MSB n \<longleftrightarrow> bit (2 ^ 63 :: usize) n"
    using \<open>n < LENGTH(64)\<close> unfolding bit_exp_iff
    by (auto simp: MSB_def data_consts bit_word_rotr_iff bit_1_iff)
qed

lemma and_MSB: "w AND MSB = 0 \<longleftrightarrow> unat (w :: usize) < 2 ^ 63"
proof -
  have "unat w < 2 ^ 64" using unsigned_less [of w] by simp
  then have d: "unat w div 2 ^ 63 < 2" by (simp add: less_mult_imp_div_less)
  have "w AND MSB = 0 \<longleftrightarrow> \<not> bit (unat w) 63"
    by (simp only: MSB_eq and_exp_eq_0_iff_not_bit) (simp add: bit_unsigned_iff)
  also have "\<dots> \<longleftrightarrow> even (unat w div 2 ^ 63)"
    by (simp only: bit_iff_odd not_not)
  also have "\<dots> \<longleftrightarrow> unat w div 2 ^ 63 = 0"
    using d by (cases "unat w div 2 ^ 63 = 1") auto
  also have "\<dots> \<longleftrightarrow> unat w < 2 ^ 63" by (rule div_eq_0_iff [THEN trans]) simp
  finally show ?thesis .
qed

text \<open>The word with payload \<open>n\<close>.\<close>

definition tag :: "nat \<Rightarrow> usize" where
  "tag n = push_bit 1 (word_of_nat n) OR 1"

lemma tag_eq: "tag n = 2 * word_of_nat n + 1"
  by (simp add: tag_def push_bit_eq_mult or_one_eq mult.commute)

lemma tag_unpromoted [simp]: "is_unpromoted (tag n)"
  by (simp add: is_unpromoted_odd tag_eq)

lemma tag_not_0 [simp]: "tag n \<noteq> 0"
  by (metis is_unpromoted_odd tag_unpromoted dvd_0_right)

lemma payload_tag [simp]: "n \<le> isize_max \<Longrightarrow> payload (tag n) = n"
proof -
  assume n: "n \<le> isize_max"
  then have "unat (word_of_nat (2 * n + 1) :: usize) = 2 * n + 1"
    by (simp add: unat_of_nat isize_max_def del: of_nat_mult of_nat_add of_nat_Suc)
  then have "unat (tag n) = 2 * n + 1" by (simp add: tag_eq add.commute)
  then show ?thesis by (simp add: payload_def data_consts unat_div drop_bit_eq_div)
qed

lemma new_unpromoted_tag: "new_unpromoted = tag 0"
  by (simp add: new_unpromoted_def tag_eq data_consts)

lemma mask_payload_Ok [res_simps]:
  "is_unpromoted data \<Longrightarrow> n \<le> isize_max \<Longrightarrow> mask_payload data n = Ok (tag n)"
  by (simp add: mask_payload_def and_MSB unat_of_nat isize_max_def tag_def data_consts)

lemma unat_box_addr: "8 * (n + 1) < 2 ^ 64 \<Longrightarrow> unat (box_addr n) = 8 * (n + 1)"
  by (simp add: box_addr_def unat_of_nat del: of_nat_mult of_nat_add of_nat_Suc)

lemma box_addr_promoted [simp]: "\<not> is_unpromoted (box_addr n)"
  by (simp add: is_unpromoted_odd box_addr_def)

end
