(* ===== verification/Handles.thy ===== *)
theory Handles
  imports Shared "HOL-Library.Multiset"
begin

text \<open>
  The three owners of a buffer, \<open>Bytes\<close>, \<open>BytesMut\<close> and \<open>Vec<u8>\<close>, and the ownership invariant that
  ties a list of live handles to the heap: every handle's view is in bounds, live and initialised; a
  handle that is not promoted is the only one of its allocation and knows where the allocation starts
  and ends; a \<open>Shared\<close> box counts exactly the handles that hold it; two handles of one allocation
  overlap only if both are read-only; and every allocation has an owner. The lemmas are the moves that
  keep the invariant: shrinking a handle, sharing it, adopting a whole allocation, releasing it,
  allocating and writing. The operations of the other theories are compositions of these moves.
\<close>

record bytes =
  bs_ptr :: ptr
  bs_len :: nat
  bs_data :: usize

record bytes_mut =
  bm_ptr :: ptr
  bm_len :: nat
  bm_cap :: nat
  bm_data :: usize

datatype handle = HBytes bytes | HMut bytes_mut | HVec vec

fun h_ptr :: "handle \<Rightarrow> ptr" where
  "h_ptr (HBytes b) = bs_ptr b" | "h_ptr (HMut m) = bm_ptr m" | "h_ptr (HVec v) = v_ptr v"

fun h_len :: "handle \<Rightarrow> nat" where
  "h_len (HBytes b) = bs_len b" | "h_len (HMut m) = bm_len m" | "h_len (HVec v) = v_len v"

text \<open>The extent a handle may touch: a \<open>Bytes\<close> its view, the others their whole capacity.\<close>

fun h_ext :: "handle \<Rightarrow> nat" where
  "h_ext (HBytes b) = bs_len b" | "h_ext (HMut m) = bm_cap m" | "h_ext (HVec v) = v_cap v"

fun h_excl :: "handle \<Rightarrow> bool" where
  "h_excl (HBytes b) = False" | "h_excl (HMut m) = True" | "h_excl (HVec v) = True"

text \<open>A vector owns its buffer directly, like an unpromoted handle that was never advanced.\<close>

fun h_data :: "handle \<Rightarrow> usize" where
  "h_data (HBytes b) = bs_data b" | "h_data (HMut m) = bm_data m" | "h_data (HVec v) = tag 0"

abbreviation h_blk :: "handle \<Rightarrow> nat" where "h_blk x \<equiv> ptr_blk (h_ptr x)"
abbreviation h_off :: "handle \<Rightarrow> nat" where "h_off x \<equiv> ptr_off (h_ptr x)"

abbreviation owns :: "handle \<Rightarrow> bool" where "owns x \<equiv> h_data x \<noteq> 0"

text \<open>The bytes a handle shows.\<close>

definition view :: "heap \<Rightarrow> handle \<Rightarrow> u8 list" where
  "view h x = map the (cells h (h_ptr x) (h_len x))"

subsection \<open>The invariant\<close>

definition null_ok :: "heap \<Rightarrow> handle \<Rightarrow> bool" where
  "null_ok h x \<longleftrightarrow>
     \<not> h_excl x \<and> ptr_addr h (h_ptr x) + h_len x \<le> usize_max \<and>
     (h_len x = 0 \<or>
      blk_ok h (h_blk x) \<and> blk_static (hp_blocks h ! h_blk x) \<and>
      h_off x + h_len x \<le> blk_size h (h_blk x) \<and> None \<notin> set (cells h (h_ptr x) (h_len x)))"

definition owner_ok :: "heap \<Rightarrow> handle \<Rightarrow> bool" where
  "owner_ok h x \<longleftrightarrow>
     blk_ok h (h_blk x) \<and> \<not> blk_static (hp_blocks h ! h_blk x) \<and>
     h_len x \<le> h_ext x \<and> h_off x + h_ext x \<le> blk_size h (h_blk x) \<and>
     None \<notin> set (cells h (h_ptr x) (h_len x)) \<and>
     (if is_unpromoted (h_data x)
      then h_data x = tag (h_off x) \<and> h_off x + h_ext x = blk_size h (h_blk x)
      else \<exists>s. hp_shared h (h_data x) = Some s \<and> sh_ptr s = Ptr (h_blk x) 0 \<and>
               sh_cap s = blk_size h (h_blk x))"

definition handle_ok :: "heap \<Rightarrow> handle \<Rightarrow> bool" where
  "handle_ok h x \<longleftrightarrow> (if owns x then owner_ok h x else null_ok h x)"

definition separate :: "handle \<Rightarrow> handle \<Rightarrow> bool" where
  "separate x y \<longleftrightarrow>
     h_ext x = 0 \<or> h_ext y = 0 \<or> h_off x + h_ext x \<le> h_off y \<or> h_off y + h_ext y \<le> h_off x"

definition compat :: "handle \<Rightarrow> handle \<Rightarrow> bool" where
  "compat x y \<longleftrightarrow>
     (owns x \<and> owns y \<and> h_blk x = h_blk y \<longrightarrow>
        h_data x = h_data y \<and> \<not> is_unpromoted (h_data x) \<and> (h_excl x \<or> h_excl y \<longrightarrow> separate x y))"

definition refs :: "usize \<Rightarrow> handle list \<Rightarrow> nat" where
  "refs a hs = length (filter (\<lambda>x. h_data x = a) hs)"

definition heap_ok :: "heap \<Rightarrow> bool" where
  "heap_ok h \<longleftrightarrow>
     (\<forall>i < length (hp_blocks h). blk_size h i < isize_max \<and> unat (hp_base h i) + blk_size h i \<le> usize_max) \<and>
     ptr_addr h (hp_empty h) \<le> usize_max \<and>
     (\<forall>a. hp_shared h a \<noteq> None \<longrightarrow> a \<noteq> 0 \<and> \<not> is_unpromoted a \<and> unat a \<le> 8 * hp_boxes h)"

definition counts_ok :: "heap \<Rightarrow> handle list \<Rightarrow> bool" where
  "counts_ok h hs \<longleftrightarrow>
     (\<forall>a s. hp_shared h a = Some s \<longrightarrow> ref_count s = refs a hs \<and> 0 < refs a hs)"

definition no_leak :: "heap \<Rightarrow> handle list \<Rightarrow> bool" where
  "no_leak h hs \<longleftrightarrow>
     (\<forall>i. blk_ok h i \<and> \<not> blk_static (hp_blocks h ! i) \<and> blk_size h i \<noteq> 0 \<longrightarrow>
          (\<exists>x\<in>set hs. owns x \<and> h_blk x = i))"

definition wf_heap :: "heap \<Rightarrow> handle list \<Rightarrow> bool" where
  "wf_heap h hs \<longleftrightarrow>
     heap_ok h \<and> (\<forall>x\<in>set hs. handle_ok h x) \<and> sorted_wrt compat hs \<and> counts_ok h hs \<and> no_leak h hs"

text \<open>The other handles see the same bytes.\<close>

definition frame :: "heap \<Rightarrow> heap \<Rightarrow> handle list \<Rightarrow> bool" where
  "frame h h' hs \<longleftrightarrow> (\<forall>x\<in>set hs. view h' x = view h x)"

text \<open>Room to share the first handle: for a box if it is not promoted yet, and for one more reference.\<close>

definition room :: "heap \<Rightarrow> handle list \<Rightarrow> bool" where
  "room h hs \<longleftrightarrow>
     (case hs of [] \<Rightarrow> True | x # _ \<Rightarrow> is_unpromoted (h_data x) \<longrightarrow> box_room h) \<and> length hs \<le> isize_max"

text \<open>The allocator can serve a request of \<open>n\<close> bytes.\<close>

definition alloc_ok :: "heap \<Rightarrow> nat \<Rightarrow> bool" where
  "alloc_ok h n \<longleftrightarrow>
     (let i = length (hp_blocks h); c = (if n = 0 then 0 else n + hp_extra h i)
      in c < isize_max \<and> unat (hp_base h i) + c \<le> usize_max)"

subsection \<open>Elementary consequences\<close>

lemma compat_sym: "compat x y \<longleftrightarrow> compat y x"
  by (auto simp: compat_def separate_def)

lemma compat_null [simp]: "\<not> owns x \<Longrightarrow> compat x y" "\<not> owns y \<Longrightarrow> compat x y"
  by (auto simp: compat_def)

lemma sorted_wrt_perm:
  assumes "\<And>x y. P x y \<longleftrightarrow> P y x" "mset xs = mset ys" "sorted_wrt P xs"
  shows "sorted_wrt P ys"
  using assms(2,3)
proof (induction xs arbitrary: ys)
  case (Cons x xs)
  then have "x \<in> set ys" by (metis list.set_intros(1) mset_eq_setD)
  then obtain as bs where ys: "ys = as @ x # bs" by (auto simp: in_set_conv_decomp)
  with Cons.prems(1) have m: "mset xs = mset (as @ bs)" by simp
  with Cons have "sorted_wrt P (as @ bs)" by simp
  moreover have "set xs = set as \<union> set bs" using mset_eq_setD [OF m] by simp
  ultimately show ?case
    using Cons.prems(2) assms(1) by (auto simp: ys sorted_wrt_append)
qed simp

lemma refs_simps [simp]:
  "refs a [] = 0" "refs a (x # xs) = (if h_data x = a then 1 else 0) + refs a xs"
  "refs a (xs @ ys) = refs a xs + refs a ys"
  by (simp_all add: refs_def)

lemma refs_le_length: "refs a hs \<le> length hs"
  by (simp add: refs_def)

lemma refs_eq_0: "refs a hs = 0 \<longleftrightarrow> (\<forall>x\<in>set hs. h_data x \<noteq> a)"
  by (auto simp: refs_def filter_empty_conv)

lemma refs_all: "\<forall>x\<in>set hs. h_data x = a \<Longrightarrow> refs a hs = length hs"
  by (simp add: refs_def)

lemma refs_none: "\<forall>x\<in>set hs. h_data x \<noteq> a \<Longrightarrow> refs a hs = 0"
  by (simp add: refs_eq_0)

lemma refs_mset: "refs a hs = size (filter_mset (\<lambda>x. h_data x = a) (mset hs))"
  by (simp add: refs_def flip: mset_filter)

lemma wf_heap_perm: "mset xs = mset ys \<Longrightarrow> wf_heap h xs \<Longrightarrow> wf_heap h ys"
  using sorted_wrt_perm [of compat xs ys] mset_eq_setD [of xs ys]
  by (auto simp: wf_heap_def counts_ok_def no_leak_def refs_mset compat_sym)

lemma frame_refl [simp]: "frame h h hs"
  by (simp add: frame_def)

lemma frame_trans: "frame h1 h2 hs \<Longrightarrow> frame h2 h3 hs \<Longrightarrow> frame h1 h3 hs"
  by (simp add: frame_def)

lemma frame_Cons [simp]: "frame h h' (x # hs) \<longleftrightarrow> view h' x = view h x \<and> frame h h' hs"
  by (simp add: frame_def)

lemma frame_append [simp]: "frame h h' (xs @ ys) \<longleftrightarrow> frame h h' xs \<and> frame h h' ys"
  by (auto simp: frame_def)

lemma frame_cells: "(\<And>p n. cells h' p n = cells h p n) \<Longrightarrow> frame h h' hs"
  by (simp add: frame_def view_def)

text \<open>The parts of the invariant of a list with a distinguished first handle.\<close>

lemma wf_ConsD:
  assumes "wf_heap h (x # R)"
  shows "heap_ok h" "handle_ok h x" "\<forall>y\<in>set R. handle_ok h y" "\<forall>y\<in>set R. compat x y"
    "sorted_wrt compat R" "counts_ok h (x # R)" "no_leak h (x # R)"
  using assms by (auto simp: wf_heap_def)

definition sole :: "handle \<Rightarrow> handle list \<Rightarrow> bool" where
  "sole x R \<longleftrightarrow> (\<forall>r\<in>set R. owns r \<longrightarrow> h_blk r \<noteq> h_blk x)"

lemma sole_unpromoted: "wf_heap h (x # R) \<Longrightarrow> is_unpromoted (h_data x) \<Longrightarrow> sole x R"
  by (auto simp: wf_heap_def sole_def compat_def is_unpromoted_odd)

lemma sole_unique: "wf_heap h (x # R) \<Longrightarrow> owns x \<Longrightarrow> refs (h_data x) R = 0 \<Longrightarrow> sole x R"
  by (auto simp: wf_heap_def sole_def compat_def refs_eq_0)

lemma compat_sole: "sole x R \<Longrightarrow> h_blk y = h_blk x \<Longrightarrow> r \<in> set R \<Longrightarrow> compat y r"
  by (auto simp: sole_def compat_def)

text \<open>\<open>sub y x\<close>: \<open>y\<close> touches no more than \<open>x\<close> does.\<close>

definition sub :: "handle \<Rightarrow> handle \<Rightarrow> bool" where
  "sub y x \<longleftrightarrow>
     h_blk y = h_blk x \<and> h_off x \<le> h_off y \<and> h_off y + h_ext y \<le> h_off x + h_ext x \<and>
     (h_excl y \<longrightarrow> h_excl x)"

lemma compat_sub: "compat x r \<Longrightarrow> sub y x \<Longrightarrow> h_data y = h_data x \<Longrightarrow> compat y r"
  by (auto simp: compat_def sub_def separate_def)

lemma box_None:
  "heap_ok h \<Longrightarrow> is_unpromoted a \<Longrightarrow> hp_shared h a = None" "heap_ok h \<Longrightarrow> hp_shared h 0 = None"
  by (auto simp: heap_ok_def)

lemma owner_box:
  assumes "handle_ok h x" "owns x" "\<not> is_unpromoted (h_data x)"
  obtains s where "hp_shared h (h_data x) = Some s" "sh_ptr s = Ptr (h_blk x) 0"
    "sh_cap s = blk_size h (h_blk x)"
  using assms by (auto simp: handle_ok_def owner_ok_def)

text \<open>A handle is as good in a heap with the same blocks, if its box says the same.\<close>

lemma handle_ok_cong:
  assumes "handle_ok h x" "hp_blocks h' = hp_blocks h" "hp_base h' = hp_base h"
    and "\<And>s. hp_shared h (h_data x) = Some s \<Longrightarrow> owns x \<Longrightarrow>
      \<exists>s'. hp_shared h' (h_data x) = Some s' \<and> sh_ptr s' = sh_ptr s \<and> sh_cap s' = sh_cap s"
  shows "handle_ok h' x"
proof -
  have "blk_ok h' i = blk_ok h i" "blk_size h' i = blk_size h i" "cells h' p n = cells h p n"
    "ptr_addr h' p = ptr_addr h p" for i p n
    using assms(2,3) by (simp_all add: blk_ok_def blk_size_def cells_def ptr_addr_def)
  then show ?thesis
    using assms(1,2,4) by (fastforce simp: handle_ok_def owner_ok_def null_ok_def)
qed

subsection \<open>Moves\<close>

lemma wf_null_add: "wf_heap h R \<Longrightarrow> \<not> owns x \<Longrightarrow> handle_ok h x \<Longrightarrow> wf_heap h (x # R)"
  by (fastforce simp: wf_heap_def counts_ok_def no_leak_def heap_ok_def)

lemma wf_null_drop: "wf_heap h (x # R) \<Longrightarrow> \<not> owns x \<Longrightarrow> wf_heap h R"
  by (fastforce simp: wf_heap_def counts_ok_def no_leak_def heap_ok_def)

lemma heap_ok_cong:
  assumes "heap_ok h" "hp_blocks h' = hp_blocks h" "hp_base h' = hp_base h" "hp_empty h' = hp_empty h"
    "\<And>b. hp_shared h' b \<noteq> None \<Longrightarrow> b \<noteq> 0 \<and> \<not> is_unpromoted b \<and> unat b \<le> 8 * hp_boxes h'"
  shows "heap_ok h'"
  using assms by (simp add: heap_ok_def blk_size_def ptr_addr_def)

lemma no_leak_cong:
  assumes "no_leak h xs" "hp_blocks h' = hp_blocks h"
    "\<And>x. x \<in> set xs \<Longrightarrow> owns x \<Longrightarrow> \<exists>y\<in>set ys. owns y \<and> h_blk y = h_blk x"
  shows "no_leak h' ys"
  using assms by (simp add: no_leak_def blk_ok_def blk_size_def) metis

text \<open>
  Sharing: one handle becomes several over the same box (\<open>a\<close>), which is its own box with the
  counter adjusted, or a new one if it was not promoted. With a single successor and an unchanged
  counter this is also the shrinking of a promoted handle.
\<close>

lemma wf_share:
  assumes wf: "wf_heap h (x # R)" and own: "owns x" and ne: "ys \<noteq> []"
    and ys: "\<And>y. y \<in> set ys \<Longrightarrow> h_data y = a \<and> sub y x \<and> h_len y \<le> h_ext y \<and>
                 None \<notin> set (cells h (h_ptr y) (h_len y))"
    and compat: "sorted_wrt compat ys"
    and s: "sh_ptr s = Ptr (h_blk x) 0" "sh_cap s = blk_size h (h_blk x)"
      "ref_count s = length ys + refs a R"
    and a: "a = h_data x \<and> \<not> is_unpromoted a \<or>
        is_unpromoted (h_data x) \<and> hp_shared h a = None \<and> \<not> is_unpromoted a \<and> a \<noteq> 0"
    and h': "hp_blocks h' = hp_blocks h" "hp_base h' = hp_base h" "hp_empty h' = hp_empty h"
      "hp_shared h' = (hp_shared h)(a \<mapsto> s)" "hp_boxes h \<le> hp_boxes h'" "unat a \<le> 8 * hp_boxes h'"
  shows "wf_heap h' (ys @ R)"
proof -
  note wfD = wf_ConsD [OF wf]
  have x: "owner_ok h x" using wfD(2) own by (simp add: handle_ok_def)
  have a0: "a \<noteq> 0" using a own by auto
  have heap: "heap_ok h'"
  proof (rule heap_ok_cong [OF wfD(1) h'(1-3)])
    fix b
    assume "hp_shared h' b \<noteq> None"
    then show "b \<noteq> 0 \<and> \<not> is_unpromoted b \<and> unat b \<le> 8 * hp_boxes h'"
      using wfD(1) a a0 h'(4-6) by (cases "b = a") (fastforce simp: heap_ok_def)+
  qed
  have okR: "handle_ok h' r" if "r \<in> set R" for r
  proof (rule handle_ok_cong [OF bspec [OF wfD(3) that] h'(1,2)])
    fix s'
    assume s': "hp_shared h (h_data r) = Some s'" and "owns r"
    show "\<exists>s''. hp_shared h' (h_data r) = Some s'' \<and> sh_ptr s'' = sh_ptr s' \<and> sh_cap s'' = sh_cap s'"
    proof (cases "h_data r = a")
      case True
      then have "a = h_data x" using a s' by auto
      with True s' x a have "sh_ptr s' = sh_ptr s" "sh_cap s' = sh_cap s"
        using s(1,2) by (auto simp: owner_ok_def)
      with True show ?thesis using h'(4) by simp
    qed (use s' h'(4) in simp)
  qed
  have oky: "handle_ok h' y" if "y \<in> set ys" for y
  proof -
    have "blk_ok h' i = blk_ok h i" "blk_size h' i = blk_size h i" "cells h' p n = cells h p n" for i p n
      using h'(1,2) by (simp_all add: blk_ok_def blk_size_def cells_def)
    then show ?thesis
      using x ys [OF that] a a0 s h' by (auto simp: handle_ok_def owner_ok_def sub_def)
  qed
  have comp: "compat y r" if "y \<in> set ys" "r \<in> set R" for y r
  proof (cases "a = h_data x")
    case True
    then show ?thesis using compat_sub ys [OF that(1)] wfD(4) that(2) by blast
  next
    case False
    then have "sole x R" using sole_unpromoted [OF wf] a by blast
    then show ?thesis using compat_sole ys [OF that(1)] that(2) by (auto simp: sub_def)
  qed
  have count: "counts_ok h' (ys @ R)"
  proof -
    have ry: "refs b ys = (if b = a then length ys else 0)" for b
      using ys by (auto intro!: refs_all refs_none)
    have "hp_shared h (h_data x) = None" if "is_unpromoted (h_data x)"
      using box_None(1) wfD(1) that by blast
    then show ?thesis
      using wfD(6) a s(3) ne h'(4) ry by (auto simp: counts_ok_def split: if_splits)
  qed
  have "no_leak h' (ys @ R)"
  proof (rule no_leak_cong [OF wfD(7) h'(1)])
    fix z
    assume "z \<in> set (x # R)" "owns z"
    moreover obtain y where "y \<in> set ys" using ne by (cases ys) auto
    ultimately show "\<exists>y\<in>set (ys @ R). owns y \<and> h_blk y = h_blk z"
      using ys a0 by (auto simp: sub_def)
  qed
  with heap okR oky comp count compat wfD(5) show ?thesis
    by (auto simp: wf_heap_def sorted_wrt_append)
qed

text \<open>
  Taking over: the only owner of an allocation becomes any handle that is well-formed for it. If it
  was promoted and no longer is, its box goes.
\<close>

lemma wf_adopt:
  assumes wf: "wf_heap h (x # R)" and own: "owns x" and sole: "sole x R"
    and y: "is_unpromoted (h_data y)" "h_blk y = h_blk x" "owner_ok h y"
  shows "wf_heap (box_free (h_data x) h) (y # R)"
proof -
  let ?h = "box_free (h_data x) h"
  note wfD = wf_ConsD [OF wf]
  have x: "owner_ok h x" using wfD(2) own by (simp add: handle_ok_def)
  have y0: "owns y" using y(1) by (auto simp: is_unpromoted_odd)
  have other: "h_data r \<noteq> h_data x \<or> is_unpromoted (h_data x)" if "r \<in> set R" "owns r" for r
  proof -
    have "owner_ok h r" using wfD(3) that by (auto simp: handle_ok_def)
    moreover have "h_blk r \<noteq> h_blk x" using sole that by (auto simp: sole_def)
    ultimately show ?thesis using x by (cases "h_data r = h_data x") (auto simp only: owner_ok_def ptr.inject split: if_splits)
  qed
  have heap: "heap_ok ?h"
    by (rule heap_ok_cong [OF wfD(1)]) (use wfD(1) in \<open>auto simp: heap_ok_def split: if_splits\<close>)
  have okR: "handle_ok ?h r" if "r \<in> set R" for r
  proof (rule handle_ok_cong [OF bspec [OF wfD(3) that]])
    fix s'
    assume "hp_shared h (h_data r) = Some s'" "owns r"
    then show "\<exists>s''. hp_shared ?h (h_data r) = Some s'' \<and> sh_ptr s'' = sh_ptr s' \<and> sh_cap s'' = sh_cap s'"
      using other [OF that] box_None(1) [OF wfD(1)] by fastforce
  qed simp_all
  have oky: "handle_ok ?h y"
    using y y0 by (simp add: handle_ok_def owner_ok_def)
  have count: "counts_ok ?h (y # R)"
    using wfD(6) y(1) box_None(1) [OF wfD(1)] by (auto simp: counts_ok_def split: if_splits)
  have "no_leak ?h (y # R)"
    by (rule no_leak_cong [OF wfD(7)]) (use y(2) y0 in auto)
  with heap okR oky count wfD(5) compat_sole [OF sole y(2)] show ?thesis
    by (auto simp: wf_heap_def)
qed

lemma box_free_id: "heap_ok h \<Longrightarrow> is_unpromoted a \<Longrightarrow> box_free a h = h"
  by (simp add: box_free_def box_None(1) fun_upd_idem)

text \<open>The only owner moves within its allocation and keeps its box.\<close>

lemma wf_move:
  assumes wf: "wf_heap h (x # R)" and own: "owns x" and sole: "sole x R"
    and y: "h_data y = h_data x" "h_blk y = h_blk x" "owner_ok h y"
  shows "wf_heap h (y # R)"
proof -
  note wfD = wf_ConsD [OF wf]
  have "handle_ok h y" using y own by (simp add: handle_ok_def)
  moreover have "counts_ok h (y # R)" using wfD(6) y(1) by (simp add: counts_ok_def)
  moreover have "no_leak h (y # R)"
    by (rule no_leak_cong [OF wfD(7)]) (use y own in auto)
  ultimately show ?thesis
    using wfD compat_sole [OF sole y(2)] by (auto simp: wf_heap_def)
qed

lemma wf_release:
  assumes wf: "wf_heap h (x # R)" and own: "owns x" and pos: "0 < refs (h_data x) R"
    and box: "hp_shared h (h_data x) = Some s"
  shows "wf_heap (box_set (h_data x) (s\<lparr>ref_count := refs (h_data x) R\<rparr>) h) R"
proof -
  let ?h = "box_set (h_data x) (s\<lparr>ref_count := refs (h_data x) R\<rparr>) h"
  note wfD = wf_ConsD [OF wf]
  obtain r where r: "r \<in> set R" "h_data r = h_data x"
    using pos refs_eq_0 [of "h_data x" R] by auto
  have "owner_ok h r" "owner_ok h x" using wfD(2,3) r own by (auto simp: handle_ok_def)
  moreover have "\<not> is_unpromoted (h_data x)" using box wfD(1) by (auto simp: heap_ok_def)
  ultimately have blk: "h_blk r = h_blk x" using r by (auto simp: owner_ok_def)
  have "heap_ok ?h"
    by (rule heap_ok_cong [OF wfD(1)]) (use wfD(1) box in \<open>auto simp: heap_ok_def split: if_splits\<close>)
  moreover have "handle_ok ?h z" if "z \<in> set R" for z
    by (rule handle_ok_cong [OF bspec [OF wfD(3) that]]) (use box in auto)
  moreover have "counts_ok ?h R"
    using wfD(6) pos by (auto simp: counts_ok_def split: if_splits)
  moreover have "no_leak ?h R"
  proof (rule no_leak_cong [OF wfD(7)])
    fix z
    assume "z \<in> set (x # R)" "owns z"
    moreover have "owns r \<and> h_blk r = h_blk x" using r blk own by simp
    ultimately show "\<exists>y\<in>set R. owns y \<and> h_blk y = h_blk z" using r(1) by auto
  qed simp
  ultimately show ?thesis using wfD(5) by (auto simp: wf_heap_def)
qed

lemma wf_free:
  assumes wf: "wf_heap h (x # R)" and own: "owns x" and sole: "sole x R"
  shows "wf_heap (box_free (h_data x) (free_block h (h_blk x))) R"
proof -
  let ?h = "box_free (h_data x) (free_block h (h_blk x))"
  note wfD = wf_ConsD [OF wf]
  have x: "owner_ok h x" using wfD(2) own by (simp add: handle_ok_def)
  have r: "owner_ok h r \<and> h_blk r \<noteq> h_blk x \<and> (h_data r \<noteq> h_data x \<or> is_unpromoted (h_data r))"
    if "r \<in> set R" "owns r" for r
    using wfD(3) that x sole by (auto simp: handle_ok_def owner_ok_def sole_def split: if_splits)
  have addr: "ptr_addr ?h p = ptr_addr h p" for p by (simp add: ptr_addr_def)
  have "heap_ok ?h"
    using wfD(1) by (simp add: heap_ok_def addr)
  moreover have "handle_ok ?h z" if z: "z \<in> set R" for z
  proof (cases "owns z")
    case True
    with r [OF z True] show ?thesis
      by (auto simp: handle_ok_def owner_ok_def)
  next
    case False
    have "null_ok h z" using False wfD(3) z by (auto simp: handle_ok_def)
    moreover have "\<not> blk_static (hp_blocks h ! h_blk x)" using x by (simp add: owner_ok_def)
    ultimately show ?thesis using False by (auto simp: handle_ok_def null_ok_def addr)
  qed
  moreover have "counts_ok ?h R"
    using wfD(6) by (auto simp: counts_ok_def split: if_splits)
  moreover have "no_leak ?h R"
    using wfD(7) by (auto simp: no_leak_def)
  ultimately show ?thesis using wfD(5) by (auto simp: wf_heap_def)
qed

text \<open>Allocating: the new allocation gets an owner that was not there before.\<close>

definition grow :: "heap \<Rightarrow> nat \<Rightarrow> heap" where
  "grow h c = h\<lparr>hp_blocks := hp_blocks h @ [new_block c]\<rparr>"

lemma grow_simps [simp]:
  "hp_base (grow h c) = hp_base h" "hp_extra (grow h c) = hp_extra h"
  "hp_empty (grow h c) = hp_empty h" "hp_shared (grow h c) = hp_shared h"
  "hp_boxes (grow h c) = hp_boxes h" "length (hp_blocks (grow h c)) = Suc (length (hp_blocks h))"
  by (simp_all add: grow_def)

lemma grow_nth:
  "i < length (hp_blocks h) \<Longrightarrow> hp_blocks (grow h c) ! i = hp_blocks h ! i"
  "hp_blocks (grow h c) ! length (hp_blocks h) = new_block c"
  by (simp_all add: grow_def nth_append)

lemma grow_old:
  assumes "i < length (hp_blocks h)"
  shows "blk_ok (grow h c) i = blk_ok h i" "blk_size (grow h c) i = blk_size h i"
    "ptr_blk p = i \<Longrightarrow> cells (grow h c) p n = cells h p n"
  using assms by (simp_all add: blk_ok_def blk_size_def cells_def grow_nth)

lemma grow_new [simp]:
  "blk_ok (grow h c) (length (hp_blocks h))" "blk_size (grow h c) (length (hp_blocks h)) = c"
  "\<not> blk_static (hp_blocks (grow h c) ! length (hp_blocks h))"
  by (simp_all add: blk_ok_def blk_size_def grow_nth new_block_def)

lemma handle_ok_blk: "handle_ok h x \<Longrightarrow> owns x \<or> 0 < h_len x \<Longrightarrow> h_blk x < length (hp_blocks h)"
  by (auto simp: handle_ok_def owner_ok_def null_ok_def blk_ok_def split: if_splits)

lemma handle_ok_grow:
  assumes "handle_ok h x"
  shows "handle_ok (grow h c) x" "view (grow h c) x = view h x"
proof -
  have addr: "ptr_addr (grow h c) p = ptr_addr h p" for p by (simp add: ptr_addr_def)
  have "(handle_ok h x \<longrightarrow> handle_ok (grow h c) x) \<and> view (grow h c) x = view h x"
  proof (cases "h_blk x < length (hp_blocks h)")
    case True
    then show ?thesis
      by (simp add: handle_ok_def owner_ok_def null_ok_def view_def grow_old grow_nth addr)
  next
    case False
    then have "\<not> (owns x \<or> 0 < h_len x)" using handle_ok_blk [OF assms] by blast
    then have "\<not> owns x" "h_len x = 0" by simp_all
    then show ?thesis by (simp add: handle_ok_def null_ok_def view_def addr)
  qed
  with assms show "handle_ok (grow h c) x" "view (grow h c) x = view h x" by blast+
qed

lemma wf_alloc:
  assumes wf: "wf_heap h R" and c: "c < isize_max" "unat (hp_base h (length (hp_blocks h))) + c \<le> usize_max"
    and x: "h_blk x = length (hp_blocks h)" "is_unpromoted (h_data x)" "owner_ok (grow h c) x"
  shows "wf_heap (grow h c) (x # R)" "frame h (grow h c) R"
proof -
  have ok: "heap_ok h" "\<And>r. r \<in> set R \<Longrightarrow> handle_ok h r" "sorted_wrt compat R" "counts_ok h R" "no_leak h R"
    using wf by (auto simp: wf_heap_def)
  have own: "owns x" using x(2) by (auto simp: is_unpromoted_odd)
  have addr: "ptr_addr (grow h c) p = ptr_addr h p" for p by (simp add: ptr_addr_def)
  have "heap_ok (grow h c)"
    using ok(1) c by (auto simp: heap_ok_def less_Suc_eq grow_old addr)
  moreover have "compat x r" if "r \<in> set R" for r
    using handle_ok_blk [OF ok(2) [OF that]] x(1) by (auto simp: compat_def)
  moreover have "counts_ok (grow h c) (x # R)"
    using ok(1,4) x(2) by (auto simp: counts_ok_def heap_ok_def)
  moreover have "no_leak (grow h c) (x # R)"
    using ok(5) own x(1) by (auto simp: no_leak_def blk_ok_def less_Suc_eq grow_nth grow_old)
  moreover have "handle_ok (grow h c) x" using own x(3) by (simp add: handle_ok_def)
  ultimately show "wf_heap (grow h c) (x # R)"
    using ok handle_ok_grow(1) by (auto simp: wf_heap_def)
  show "frame h (grow h c) R"
    using ok(2) handle_ok_grow(2) by (simp add: frame_def)
qed

text \<open>Writing initialised bytes inside an allocation keeps the invariant; a handle whose view is
  apart from the written range does not notice.\<close>

lemma wf_store:
  assumes wf: "wf_heap h hs" and xs: "None \<notin> set xs" and p: "ptr_off p + length xs \<le> blk_size h (ptr_blk p)"
  shows "wf_heap (store_cells h p xs) hs"
proof -
  have [simp]: "blk_size (store_cells h p xs) i = blk_size h i" for i
    using p by (rule blk_size_store)
  have addr: "ptr_addr (store_cells h p xs) q = ptr_addr h q" for q by (simp add: ptr_addr_def)
  have "handle_ok (store_cells h p xs) x" if "handle_ok h x" for x
    using that init_store [OF xs _ _ p]
    by (auto simp: handle_ok_def owner_ok_def null_ok_def addr store_cells_block)
  with wf show ?thesis
    by (simp add: wf_heap_def heap_ok_def counts_ok_def no_leak_def addr store_cells_block)
qed

definition clear_of :: "handle \<Rightarrow> ptr \<Rightarrow> nat \<Rightarrow> bool" where
  "clear_of x p n \<longleftrightarrow> ptr_blk p \<noteq> h_blk x \<or> h_off x + h_len x \<le> ptr_off p \<or> ptr_off p + n \<le> h_off x"

lemma view_store:
  "clear_of x p (length xs) \<Longrightarrow> ptr_off p + length xs \<le> blk_size h (ptr_blk p) \<Longrightarrow>
   view (store_cells h p xs) x = view h x"
  by (cases "ptr_blk p = h_blk x")
    (auto simp: view_def clear_of_def cells_store_other cells_store_below cells_store_above)

lemma frame_store:
  "(\<And>r. r \<in> set R \<Longrightarrow> clear_of r p (length xs)) \<Longrightarrow>
   ptr_off p + length xs \<le> blk_size h (ptr_blk p) \<Longrightarrow> frame h (store_cells h p xs) R"
  by (simp add: frame_def view_store)

lemma wf_free_empty:
  assumes wf: "wf_heap h (x # R)" and own: "owns x" and sole: "sole x R" and size: "blk_size h (h_blk x) = 0"
  shows "wf_heap (box_free (h_data x) h) R"
proof -
  let ?h = "box_free (h_data x) h"
  note wfD = wf_ConsD [OF wf]
  have x: "owner_ok h x" using wfD(2) own by (simp add: handle_ok_def)
  have "heap_ok ?h"
    by (rule heap_ok_cong [OF wfD(1)]) (use wfD(1) in \<open>auto simp: heap_ok_def split: if_splits\<close>)
  moreover have "handle_ok ?h r" if "r \<in> set R" for r
  proof (rule handle_ok_cong [OF bspec [OF wfD(3) that]])
    fix s'
    assume s': "hp_shared h (h_data r) = Some s'" "owns r"
    then have "owner_ok h r" using wfD(3) that by (auto simp: handle_ok_def)
    moreover have "h_blk r \<noteq> h_blk x" using sole that s'(2) by (auto simp: sole_def)
    moreover have "\<not> is_unpromoted (h_data r)" using s'(1) wfD(1) by (auto simp: heap_ok_def)
    ultimately have "h_data r \<noteq> h_data x" using x s' by (auto simp: owner_ok_def)
    then show "\<exists>s''. hp_shared ?h (h_data r) = Some s'' \<and> sh_ptr s'' = sh_ptr s' \<and> sh_cap s'' = sh_cap s'"
      using s' by simp
  qed simp_all
  moreover have "counts_ok ?h R"
    using wfD(6) by (auto simp: counts_ok_def split: if_splits)
  moreover have "no_leak ?h R"
    using wfD(7) size by (auto simp: no_leak_def)
  ultimately show ?thesis using wfD(5) by (auto simp: wf_heap_def)
qed

text \<open>What dropping the vector of a whole allocation does; an empty allocation is not freed.\<close>

definition dealloc :: "heap \<Rightarrow> nat \<Rightarrow> heap" where
  "dealloc h i = (if blk_size h i = 0 then h else free_block h i)"

lemma dealloc_simps [simp]:
  "cells (dealloc h i) p n = cells h p n" "hp_shared (dealloc h i) = hp_shared h"
  by (simp_all add: dealloc_def)

lemma box_free_dealloc_id:
  "heap_ok h \<Longrightarrow> is_unpromoted a \<Longrightarrow> box_free a (dealloc h i) = dealloc h i"
  using box_None(1) [of h a] by (simp add: box_free_def fun_upd_idem)

lemma wf_dealloc:
  "wf_heap h (x # R) \<Longrightarrow> owns x \<Longrightarrow> sole x R \<Longrightarrow> wf_heap (box_free (h_data x) (dealloc h (h_blk x))) R"
  by (simp add: dealloc_def wf_free wf_free_empty)

subsection \<open>The calls of \<open>shared.rs\<close> under the invariant\<close>

lemma owner_size: "heap_ok h \<Longrightarrow> owner_ok h x \<Longrightarrow> blk_size h (h_blk x) < isize_max"
  by (simp add: heap_ok_def owner_ok_def blk_ok_def)

lemma owner_payload:
  "heap_ok h \<Longrightarrow> owner_ok h x \<Longrightarrow> is_unpromoted (h_data x) \<Longrightarrow> payload (h_data x) = h_off x"
  using owner_size [of h x] by (auto simp: owner_ok_def)

lemma as_unpromoted_Inl [res_simps]:
  "is_unpromoted data \<Longrightarrow> as_unpromoted h data = Ok (Inl (payload data))"
  "is_unpromoted data \<Longrightarrow> as_unpromoted_mut h data = Ok (Inl (payload data))"
  "is_unpromoted data \<Longrightarrow> into_unpromoted h data = Ok (Inl (payload data))"
  "is_unpromoted data \<Longrightarrow> to_unpromoted data = Some (payload data)"
  by (simp_all add: as_unpromoted_def as_unpromoted_mut_def into_unpromoted_def to_unpromoted_def)

lemma as_unpromoted_Inr [res_simps]:
  "hp_shared h data = Some s \<Longrightarrow> \<not> is_unpromoted data \<Longrightarrow> data \<noteq> 0 \<Longrightarrow>
   as_unpromoted h data = Ok (Inr s)"
  "hp_shared h data = Some s \<Longrightarrow> \<not> is_unpromoted data \<Longrightarrow> as_unpromoted_mut h data = Ok (Inr s)"
  "hp_shared h data = Some s \<Longrightarrow> \<not> is_unpromoted data \<Longrightarrow> into_unpromoted h data = Ok (Inr s)"
  "\<not> is_unpromoted data \<Longrightarrow> to_unpromoted data = None"
  by (simp_all add: as_unpromoted_def as_unpromoted_mut_def into_unpromoted_def to_unpromoted_def
      box_deref_def)

text \<open>A whole allocation, as the vector it was allocated as.\<close>

definition whole_vec :: "heap \<Rightarrow> nat \<Rightarrow> nat \<Rightarrow> vec" where
  "whole_vec h i len = \<lparr>v_ptr = Ptr i 0, v_len = len, v_cap = blk_size h i\<rparr>"

lemma whole_vec_from_raw:
  "blk_ok h i \<Longrightarrow> \<not> blk_static (hp_blocks h ! i) \<Longrightarrow> len \<le> blk_size h i \<Longrightarrow>
   vec_from_raw_parts h (Ptr i 0) len (blk_size h i) = Ok (whole_vec h i len)"
  by (simp add: vec_from_raw_parts_def whole_vec_def)

lemma vec_drop_whole:
  "blk_ok h i \<Longrightarrow> \<not> blk_static (hp_blocks h ! i) \<Longrightarrow> len \<le> blk_size h i \<Longrightarrow>
   vec_drop (whole_vec h i len) h = Ok (dealloc h i)"
  by (simp add: vec_drop_def whole_vec_def dealloc_def vec_from_raw_parts_def)

lemma counts_box:
  "counts_ok h hs \<Longrightarrow> hp_shared h a = Some s \<Longrightarrow> ref_count s = refs a hs \<and> 0 < refs a hs"
  by (simp add: counts_ok_def)

lemma increment_Ok:
  assumes "wf_heap h hs" "hp_shared h a = Some s" "length hs \<le> isize_max"
  shows "increment a h = Ok (box_set a (s\<lparr>ref_count := Suc (refs a hs)\<rparr>) h)"
proof -
  have rc: "ref_count s = refs a hs" using assms(1,2) counts_box by (auto simp: wf_heap_def)
  moreover have "refs a hs \<le> isize_max" using refs_le_length [of a hs] assms(3) by simp
  ultimately show ?thesis
    using assms(2) by (simp add: increment_def fetch_add_def box_deref_def isize_max_def)
qed

lemma promote_Ok:
  assumes "box_room h"
  shows "promote_with_vec v n h = Ok (box_addr (hp_boxes h),
    h\<lparr>hp_shared := (hp_shared h)(box_addr (hp_boxes h) \<mapsto>
        \<lparr>ref_count = n, sh_ptr = v_ptr v, sh_cap = v_cap v\<rparr>), hp_boxes := Suc (hp_boxes h)\<rparr>)"
  using assms by (simp add: promote_with_vec_def box_new_def Let_def)

lemma fetch_sub_pred:
  "hp_shared h a = Some s \<Longrightarrow> 0 < ref_count s \<Longrightarrow> ref_count s < 2 ^ 64 \<Longrightarrow>
   fetch_sub a h = Ok (ref_count s, box_set a (s\<lparr>ref_count := ref_count s - 1\<rparr>) h)"
  by (simp add: fetch_sub_def box_deref_def mod_if)

lemma box_fresh:
  assumes "heap_ok h" "box_room h"
  shows "hp_shared h (box_addr (hp_boxes h)) = None" "unat (box_addr (hp_boxes h)) \<le> 8 * Suc (hp_boxes h)"
    "box_addr (hp_boxes h) \<noteq> 0"
proof -
  have a: "unat (box_addr (hp_boxes h)) = 8 * (hp_boxes h + 1)"
    using assms(2) unat_box_addr by (simp add: box_room_def)
  then show "hp_shared h (box_addr (hp_boxes h)) = None"
    using assms(1) by (cases "hp_shared h (box_addr (hp_boxes h))") (force simp: heap_ok_def)+
  show "unat (box_addr (hp_boxes h)) \<le> 8 * Suc (hp_boxes h)" using a by simp
  show "box_addr (hp_boxes h) \<noteq> 0" using a by auto
qed

text \<open>\<open>quiet h h'\<close>: no byte and nothing of the allocator's environment has changed.\<close>

definition quiet :: "heap \<Rightarrow> heap \<Rightarrow> bool" where
  "quiet h h' \<longleftrightarrow>
     (\<forall>p n. cells h' p n = cells h p n) \<and> hp_base h' = hp_base h \<and> hp_extra h' = hp_extra h \<and>
     hp_empty h' = hp_empty h \<and> length (hp_blocks h') = length (hp_blocks h)"

lemma quiet_refl [simp]: "quiet h h"
  by (simp add: quiet_def)

lemma quiet_trans: "quiet h1 h2 \<Longrightarrow> quiet h2 h3 \<Longrightarrow> quiet h1 h3"
  by (simp add: quiet_def)

lemma quiet_view: "quiet h h' \<Longrightarrow> view h' x = view h x"
  by (simp add: quiet_def view_def)

lemma quiet_frame: "quiet h h' \<Longrightarrow> frame h h' hs"
  by (simp add: frame_def quiet_view)

lemma quiet_alloc_ok: "quiet h h' \<Longrightarrow> alloc_ok h' n = alloc_ok h n"
  by (simp add: quiet_def alloc_ok_def)

lemma quiet_box [simp]: "quiet h (box_set a s h)" "quiet h (box_free a h)" "quiet h (dealloc h i)"
  by (simp_all add: quiet_def dealloc_def)

lemma owner_dealloc:
  assumes wf: "wf_heap h (x # R)" and own: "owns x" and sole: "sole x R"
    and v: "v = whole_vec h (h_blk x) len" "len \<le> blk_size h (h_blk x)"
  shows "vec_drop v h = Ok (dealloc h (h_blk x))"
    "wf_heap (box_free (h_data x) (dealloc h (h_blk x))) R"
    "quiet h (box_free (h_data x) (dealloc h (h_blk x)))"
proof -
  have "owner_ok h x" using wf own by (auto simp: wf_heap_def handle_ok_def)
  then show "vec_drop v h = Ok (dealloc h (h_blk x))"
    using v by (auto simp: owner_ok_def intro: vec_drop_whole)
  show "wf_heap (box_free (h_data x) (dealloc h (h_blk x))) R"
    by (rule wf_dealloc [OF wf own sole])
  show "quiet h (box_free (h_data x) (dealloc h (h_blk x)))"
    using quiet_trans quiet_box by blast
qed

lemma box_free_dealloc_set:
  "box_free a (dealloc (box_set a s h) i) = box_free a (dealloc h i)"
  unfolding dealloc_def box_set_blocks by (simp add: box_free_def box_set_def free_block_def)

lemma release_eval:
  assumes wf: "wf_heap h (x # R)" and own: "owns x" and pro: "\<not> is_unpromoted (h_data x)"
    and len: "length R \<le> isize_max"
  shows "refs (h_data x) R = 0 \<Longrightarrow> release (h_data x) h = Ok (box_free (h_data x) (dealloc h (h_blk x)))"
    "refs (h_data x) R \<noteq> 0 \<Longrightarrow>
      \<exists>s. hp_shared h (h_data x) = Some s \<and>
        release (h_data x) h = Ok (box_set (h_data x) (s\<lparr>ref_count := refs (h_data x) R\<rparr>) h)"
proof -
  let ?a = "h_data x"
  note wfD = wf_ConsD [OF wf]
  have x: "owner_ok h x" using wfD(2) own by (simp add: handle_ok_def)
  obtain s where s: "hp_shared h ?a = Some s" "sh_ptr s = Ptr (h_blk x) 0" "sh_cap s = blk_size h (h_blk x)"
    using owner_box [OF wfD(2) own pro] .
  have rc: "ref_count s = Suc (refs ?a R)" using counts_box [OF wfD(6) s(1)] by simp
  then have "ref_count s < 2 ^ 64" using refs_le_length [of ?a R] len by (simp add: isize_max_def)
  then have sub: "fetch_sub ?a h = Ok (Suc (refs ?a R), box_set ?a (s\<lparr>ref_count := refs ?a R\<rparr>) h)"
    using fetch_sub_pred [OF s(1)] rc by simp
  let ?h = "box_set ?a (s\<lparr>ref_count := 0\<rparr>) h"
  have vec: "vec_from_raw_parts ?h (sh_ptr s) 0 (sh_cap s) = Ok (whole_vec h (h_blk x) 0)"
    using s x by (simp add: vec_from_raw_parts_def whole_vec_def owner_ok_def)
  have drop: "vec_drop (whole_vec h (h_blk x) 0) ?h = Ok (dealloc ?h (h_blk x))"
    using x vec_drop_whole [of ?h "h_blk x" 0] by (simp add: owner_ok_def whole_vec_def)
  show "refs ?a R = 0 \<Longrightarrow> release ?a h = Ok (box_free ?a (dealloc h (h_blk x)))"
    using sub vec drop by (simp add: release_def box_deref_def box_free_dealloc_set)
  show "refs ?a R \<noteq> 0 \<Longrightarrow> \<exists>s. hp_shared h ?a = Some s \<and>
      release ?a h = Ok (box_set ?a (s\<lparr>ref_count := refs ?a R\<rparr>) h)"
    using s(1) sub by (simp add: release_def)
qed

lemma release_Ok:
  assumes wf: "wf_heap h (x # R)" and own: "owns x" and pro: "\<not> is_unpromoted (h_data x)"
    and len: "length R \<le> isize_max"
  shows "\<exists>h'. release (h_data x) h = Ok h' \<and> wf_heap h' R \<and> quiet h h'"
proof (cases "refs (h_data x) R = 0")
  case True
  with release_eval(1) [OF assms] owner_dealloc(2,3) [OF wf own sole_unique [OF wf own True]] show ?thesis by blast
next
  case False
  with release_eval(2) [OF assms] wf_release [OF wf own] show ?thesis by auto
qed

text \<open>A promoted handle may shrink in place.\<close>

lemma wf_shrink:
  assumes wf: "wf_heap h (x # R)" and own: "owns x" and pro: "\<not> is_unpromoted (h_data x)"
    and y: "h_data y = h_data x" "sub y x" "h_len y \<le> h_ext y" "None \<notin> set (cells h (h_ptr y) (h_len y))"
  shows "wf_heap h (y # R)"
proof -
  note wfD = wf_ConsD [OF wf]
  obtain s where s: "hp_shared h (h_data x) = Some s" "sh_ptr s = Ptr (h_blk x) 0"
    "sh_cap s = blk_size h (h_blk x)"
    using owner_box [OF wfD(2) own pro] .
  have rc: "ref_count s = length [y] + refs (h_data x) R" using counts_box [OF wfD(6) s(1)] by simp
  have heap: "hp_shared h = (hp_shared h)(h_data x \<mapsto> s)" "unat (h_data x) \<le> 8 * hp_boxes h"
    using s(1) wfD(1) by (auto simp: fun_upd_idem heap_ok_def)
  have "wf_heap h ([y] @ R)"
    by (rule wf_share [OF wf own _ _ _ s(2,3) rc _ _ _ _ heap(1) _ heap(2)]) (use y pro in auto)
  then show ?thesis by simp
qed

end
