(* ===== verification/Bytes.thy ===== *)
theory Bytes
  imports Handles
begin

text \<open>
  \<open>src/bytes/bytes.rs\<close>: the immutable, cheaply cloneable \<open>Bytes\<close>. An operation on \<open>&self\<close> or
  \<open>&mut self\<close> takes the handle and the heap and returns the handle, its result and the heap;
  \<open>clone\<close> returns its receiver too, since promotion writes the receiver's atomic \<open>data\<close> word. This
  theory is the code as one thread runs it; the race on promotion is in the theory \<open>Promotion\<close>.
\<close>

subsection \<open>Constructors\<close>

definition bytes_from_static :: "ptr \<Rightarrow> nat \<Rightarrow> bytes" where
  "bytes_from_static p n = \<lparr>bs_ptr = p, bs_len = n, bs_data = 0\<rparr>"

definition bytes_new :: "heap \<Rightarrow> bytes" where
  "bytes_new h = bytes_from_static (hp_empty h) 0"

definition bytes_from_vec :: "vec \<Rightarrow> heap \<Rightarrow> (bytes \<times> heap) res" where
  "bytes_from_vec v h =
     (if v_len v = 0 then rbind (vec_drop v h) (\<lambda>h. Ok (bytes_new h, h))
      else if v_cap v = v_len v
      then Ok (\<lparr>bs_ptr = v_ptr v, bs_len = v_len v, bs_data = new_unpromoted\<rparr>, h)
      else rbind (promote_with_vec v 1 h) (\<lambda>(data, h).
           Ok (\<lparr>bs_ptr = v_ptr v, bs_len = v_len v, bs_data = data\<rparr>, h)))"

definition bytes_copy_from_slice :: "u8 list \<Rightarrow> heap \<Rightarrow> (bytes \<times> heap) res" where
  "bytes_copy_from_slice data h = rbind (slice_to_vec data h) (\<lambda>(v, h). bytes_from_vec v h)"

text \<open>A boxed slice is a vector without spare capacity.\<close>

definition bytes_from_box :: "vec \<Rightarrow> bytes" where
  "bytes_from_box v = \<lparr>bs_ptr = v_ptr v, bs_len = v_len v, bs_data = new_unpromoted\<rparr>"

definition bytes_from_mut :: "usize \<Rightarrow> bytes_mut \<Rightarrow> bytes res" where
  "bytes_from_mut shared bytesm =
     rbind (rassert (is_promoted shared)) (\<lambda>_.
     Ok \<lparr>bs_ptr = bm_ptr bytesm, bs_len = bm_len bytesm, bs_data = shared\<rparr>)"

definition bytes_as_slice :: "bytes \<Rightarrow> heap \<Rightarrow> u8 list res" where
  "bytes_as_slice b h = slice_from_raw_parts h (bs_ptr b) (bs_len b)"

definition bytes_is_empty :: "bytes \<Rightarrow> bool" where
  "bytes_is_empty b \<longleftrightarrow> bs_len b = 0"

definition new_empty_with_ptr :: "ptr \<Rightarrow> bytes" where
  "new_empty_with_ptr p = \<lparr>bs_ptr = p, bs_len = 0, bs_data = 0\<rparr>"

subsection \<open>Reference counting\<close>

text \<open>The vector an unpromoted handle came from: the whole allocation, from its start.\<close>

definition build_unpromoted_vec :: "bytes \<Rightarrow> nat \<Rightarrow> heap \<Rightarrow> vec res" where
  "build_unpromoted_vec b offset h =
     rbind (ptr_sub h (bs_ptr b) offset) (\<lambda>base_ptr.
     rbind (uadd (bs_len b) offset) (\<lambda>len.
     vec_from_raw_parts h base_ptr len len))"

definition bytes_is_unique :: "bytes \<Rightarrow> heap \<Rightarrow> bool res" where
  "bytes_is_unique b h =
     (if bs_data b = 0 then Ok False
      else rbind (as_unpromoted h (bs_data b)) (\<lambda>r.
           case r of Inl _ \<Rightarrow> Ok True | Inr s \<Rightarrow> Ok (is_unique s)))"

text \<open>
  \<open>promote_ref\<close>: the compare-exchange succeeds if the \<open>data\<close> word still is the one loaded before; if
  another thread has promoted the handle in between, the new box is released and the other one used.
\<close>

definition promote_ref :: "bytes \<Rightarrow> nat \<Rightarrow> usize \<Rightarrow> heap \<Rightarrow> ((bytes \<times> bytes) \<times> heap) res" where
  "promote_ref me offset shared h =
     rbind (build_unpromoted_vec me offset h) (\<lambda>v.
     rbind (promote_with_vec v 2 h) (\<lambda>(new_shared, h).
     if bs_data me = shared
     then Ok ((me\<lparr>bs_data := new_shared\<rparr>,
               \<lparr>bs_ptr = bs_ptr me, bs_len = bs_len me, bs_data = new_shared\<rparr>), h)
     else rbind (release new_shared h) (\<lambda>h.
          rbind (increment (bs_data me) h) (\<lambda>h.
          Ok ((me, \<lparr>bs_ptr = bs_ptr me, bs_len = bs_len me, bs_data = bs_data me\<rparr>), h)))))"

definition clone_inner :: "bytes \<Rightarrow> heap \<Rightarrow> ((bytes \<times> bytes) \<times> heap) res" where
  "clone_inner b h =
     (let shared = bs_data b in
      if shared = 0 then Ok ((b, \<lparr>bs_ptr = bs_ptr b, bs_len = bs_len b, bs_data = 0\<rparr>), h)
      else rbind (as_unpromoted h shared) (\<lambda>r.
        case r of
          Inl offset \<Rightarrow> promote_ref b offset shared h
        | Inr _ \<Rightarrow> rbind (increment shared h) (\<lambda>h.
            Ok ((b, \<lparr>bs_ptr = bs_ptr b, bs_len = bs_len b, bs_data = shared\<rparr>), h))))"

definition clone_inner_mut :: "bytes \<Rightarrow> heap \<Rightarrow> ((bytes \<times> bytes) \<times> heap) res" where
  "clone_inner_mut b h =
     (let shared = bs_data b in
      if shared = 0 then Ok ((b, \<lparr>bs_ptr = bs_ptr b, bs_len = bs_len b, bs_data = 0\<rparr>), h)
      else rbind (as_unpromoted h shared) (\<lambda>r.
        case r of
          Inl offset \<Rightarrow>
            rbind (build_unpromoted_vec b offset h) (\<lambda>v.
            rbind (promote_with_vec v 2 h) (\<lambda>(new_shared, h).
            Ok ((b\<lparr>bs_data := new_shared\<rparr>,
                 \<lparr>bs_ptr = bs_ptr b, bs_len = bs_len b, bs_data = new_shared\<rparr>), h)))
        | Inr _ \<Rightarrow> rbind (increment shared h) (\<lambda>h.
            Ok ((b, \<lparr>bs_ptr = bs_ptr b, bs_len = bs_len b, bs_data = shared\<rparr>), h))))"

definition bytes_drop :: "bytes \<Rightarrow> heap \<Rightarrow> heap res" where
  "bytes_drop b h =
     (let shared = bs_data b in
      if shared = 0 then Ok h
      else rbind (into_unpromoted h shared) (\<lambda>r.
        case r of
          Inl offset \<Rightarrow> rbind (build_unpromoted_vec b offset h) (\<lambda>v. vec_drop v h)
        | Inr _ \<Rightarrow> release shared h))"

subsection \<open>Views\<close>

definition bytes_advance_unchecked :: "bytes \<Rightarrow> nat \<Rightarrow> heap \<Rightarrow> bytes res" where
  "bytes_advance_unchecked b cnt h =
     (if cnt = 0 then Ok b
      else rbind (rassert (cnt \<le> bs_len b)) (\<lambda>_.
           rbind (case to_unpromoted (bs_data b) of
                    Some offset \<Rightarrow> rbind (uadd offset cnt) (\<lambda>n. mask_payload (bs_data b) n)
                  | None \<Rightarrow> Ok (bs_data b)) (\<lambda>data.
           rbind (ptr_add h (bs_ptr b) cnt) (\<lambda>p.
           Ok \<lparr>bs_ptr = p, bs_len = bs_len b - cnt, bs_data = data\<rparr>))))"

definition bytes_advance :: "bytes \<Rightarrow> nat \<Rightarrow> heap \<Rightarrow> bytes res" where
  "bytes_advance b cnt h =
     rbind (rassert (cnt \<le> bs_len b)) (\<lambda>_. bytes_advance_unchecked b cnt h)"

definition bytes_advance_to_ptr :: "bytes \<Rightarrow> ptr \<Rightarrow> heap \<Rightarrow> bytes res" where
  "bytes_advance_to_ptr b p h =
     rbind (offset_from_unsigned p (bs_ptr b)) (\<lambda>n. bytes_advance_unchecked b n h)"

definition bytes_try_split_off :: "bytes \<Rightarrow> nat \<Rightarrow> heap \<Rightarrow> ((bytes \<times> bytes option) \<times> heap) res" where
  "bytes_try_split_off b at h =
     (let len = bs_len b in
      if at > len then Ok ((b, None), h)
      else if at = len
      then rbind (ptr_add h (bs_ptr b) len) (\<lambda>p. Ok ((b, Some (new_empty_with_ptr p)), h))
      else if at = 0 then Ok ((new_empty_with_ptr (bs_ptr b), Some b), h)
      else rbind (clone_inner_mut b h) (\<lambda>((b, clone), h).
           rbind (bytes_advance_unchecked clone at h) (\<lambda>clone.
           Ok ((b\<lparr>bs_len := at\<rparr>, Some clone), h))))"

definition bytes_try_split_to :: "bytes \<Rightarrow> nat \<Rightarrow> heap \<Rightarrow> ((bytes \<times> bytes option) \<times> heap) res" where
  "bytes_try_split_to b at h =
     (let len = bs_len b in
      if at > len then Ok ((b, None), h)
      else if at = len
      then rbind (ptr_add h (bs_ptr b) len) (\<lambda>p. Ok ((new_empty_with_ptr p, Some b), h))
      else if at = 0 then Ok ((b, Some (new_empty_with_ptr (bs_ptr b))), h)
      else rbind (clone_inner_mut b h) (\<lambda>((b, clone), h).
           rbind (bytes_advance_unchecked b at h) (\<lambda>b.
           Ok ((b, Some (clone\<lparr>bs_len := at\<rparr>)), h))))"

definition bytes_split_off :: "bytes \<Rightarrow> nat \<Rightarrow> heap \<Rightarrow> ((bytes \<times> bytes) \<times> heap) res" where
  "bytes_split_off b at h =
     rbind (bytes_try_split_off b at h) (\<lambda>((b, r), h).
       case r of Some ok \<Rightarrow> Ok ((b, ok), h) | None \<Rightarrow> Panic)"

definition bytes_split_to :: "bytes \<Rightarrow> nat \<Rightarrow> heap \<Rightarrow> ((bytes \<times> bytes) \<times> heap) res" where
  "bytes_split_to b at h =
     rbind (bytes_try_split_to b at h) (\<lambda>((b, r), h).
       case r of Some ok \<Rightarrow> Ok ((b, ok), h) | None \<Rightarrow> Panic)"

definition bytes_truncate :: "bytes \<Rightarrow> nat \<Rightarrow> heap \<Rightarrow> (bytes \<times> heap) res" where
  "bytes_truncate b len h =
     (if len \<ge> bs_len b then Ok (b, h)
      else if bs_data b = 0 then Ok (b\<lparr>bs_len := len\<rparr>, h)
      else rbind (bytes_split_off b len h) (\<lambda>((b, rest), h).
           rbind (bytes_drop rest h) (\<lambda>h. Ok (b, h))))"

definition bytes_truncate_off :: "bytes \<Rightarrow> nat \<Rightarrow> heap \<Rightarrow> (bytes \<times> heap) res" where
  "bytes_truncate_off b off h =
     (if off \<le> bs_len b then bytes_truncate b (bs_len b - off) h else Ok (b, h))"

definition bytes_clear :: "bytes \<Rightarrow> heap \<Rightarrow> (bytes \<times> heap) res" where
  "bytes_clear b h = rbind (bytes_drop b h) (\<lambda>h. Ok (new_empty_with_ptr (bs_ptr b), h))"

datatype bound = Included nat | Excluded nat | Unbounded

definition checked_succ :: "nat \<Rightarrow> nat res" where
  "checked_succ n = (if n + 1 \<le> usize_max then Ok (n + 1) else Panic)"

definition slice_bound :: "bytes \<Rightarrow> bound \<Rightarrow> bound \<Rightarrow> heap \<Rightarrow> ((bytes \<times> bytes) \<times> heap) res" where
  "slice_bound b start_bound end_bound h =
     (let self_len = bs_len b in
      rbind (case start_bound of Included n \<Rightarrow> Ok n | Excluded n \<Rightarrow> checked_succ n | Unbounded \<Rightarrow> Ok 0) (\<lambda>begin'.
      rbind (case end_bound of Included n \<Rightarrow> checked_succ n | Excluded n \<Rightarrow> Ok n | Unbounded \<Rightarrow> Ok self_len) (\<lambda>end'.
      rbind (rassert (end' \<le> self_len)) (\<lambda>_.
      rbind (rassert (begin' \<le> end')) (\<lambda>_.
      let len = end' - begin' in
      rbind (ptr_add h (bs_ptr b) begin') (\<lambda>p.
      if len = 0 then Ok ((b, new_empty_with_ptr p), h)
      else rbind (clone_inner b h) (\<lambda>((b, cloned), h).
           Ok ((b, cloned\<lparr>bs_ptr := p, bs_len := len\<rparr>), h))))))))"

text \<open>\<open>data\<close> is the address of the argument pointer; the code uses nothing else of it.\<close>

definition slice_from_raw :: "bytes \<Rightarrow> nat \<Rightarrow> nat \<Rightarrow> heap \<Rightarrow> ((bytes \<times> bytes) \<times> heap) res" where
  "slice_from_raw b data len h =
     (let self_addr = ptr_addr h (bs_ptr b) in
      rbind (uadd data len) (\<lambda>end_addr.
      rbind (uadd self_addr (bs_len b)) (\<lambda>self_end.
      rbind (rassert (end_addr \<le> self_end)) (\<lambda>_.
      rbind (rassert (self_addr \<le> data)) (\<lambda>_.
      rbind (ptr_add h (bs_ptr b) (data - self_addr)) (\<lambda>p.
      if len = 0 then Ok ((b, new_empty_with_ptr p), h)
      else rbind (clone_inner b h) (\<lambda>((b, cloned), h).
           Ok ((b, cloned\<lparr>bs_ptr := p, bs_len := len\<rparr>), h))))))))"

subsection \<open>Conversion to a vector\<close>

text \<open>
  \<open>into_vec\<close> of a promoted handle first gives its reference up (\<open>release_into_vec\<close>) and then, if it
  was not the last, copies the bytes out.
\<close>

definition into_vec_copy :: "bytes \<Rightarrow> heap \<Rightarrow> (vec \<times> heap) res" where
  "into_vec_copy b h = rbind (bytes_as_slice b h) (\<lambda>xs. slice_to_vec xs h)"

definition into_vec_move :: "bytes \<Rightarrow> nat \<Rightarrow> vec \<Rightarrow> heap \<Rightarrow> (vec \<times> heap) res" where
  "into_vec_move b advanced v h =
     (let len = bs_len b in
      rbind (if advanced \<noteq> 0
             then (if advanced \<ge> len
                   then copy_nonoverlapping h (bs_ptr b) (v_ptr v) len
                   else ptr_copy h (bs_ptr b) (v_ptr v) len)
             else Ok h) (\<lambda>h.
      rbind (vec_set_len v len) (\<lambda>v. Ok (v, h))))"

definition bytes_into_vec :: "bytes \<Rightarrow> heap \<Rightarrow> (vec \<times> heap) res" where
  "bytes_into_vec b h =
     (let shared = bs_data b in
      if shared = 0 then into_vec_copy b h
      else rbind (into_unpromoted h shared) (\<lambda>r.
        case r of
          Inl offset \<Rightarrow> rbind (build_unpromoted_vec b offset h) (\<lambda>v. into_vec_move b offset v h)
        | Inr s \<Rightarrow>
            rbind (release_into_vec shared (sh_cap s) h) (\<lambda>(r, h).
            case r of
              Some v \<Rightarrow> rbind (offset_from_unsigned (bs_ptr b) (sh_ptr s)) (\<lambda>n. into_vec_move b n v h)
            | None \<Rightarrow> into_vec_copy b h)))"

text \<open>\<open>std::io::Read\<close>: copies out as much as fits into a buffer of \<open>n\<close> bytes, and advances.\<close>

definition bytes_read :: "bytes \<Rightarrow> nat \<Rightarrow> heap \<Rightarrow> (bytes \<times> u8 list) res" where
  "bytes_read b n h =
     (let read = min n (bs_len b) in
      rbind (bytes_as_slice b h) (\<lambda>xs.
      rbind (bytes_advance b read h) (\<lambda>b. Ok (b, take read xs))))"

definition bytes_eq :: "bytes \<Rightarrow> bytes \<Rightarrow> heap \<Rightarrow> bool res" where
  "bytes_eq b c h =
     rbind (bytes_as_slice b h) (\<lambda>xs. rbind (bytes_as_slice c h) (\<lambda>ys. Ok (xs = ys)))"

subsection \<open>Reading and shrinking\<close>

lemma handle_readable:
  "handle_ok h x \<Longrightarrow> n \<le> h_len x \<Longrightarrow> readable h (h_ptr x) n"
  by (auto simp: handle_ok_def owner_ok_def null_ok_def readable_def split: if_splits)

lemma handle_init: "handle_ok h x \<Longrightarrow> None \<notin> set (cells h (h_ptr x) (h_len x))"
  by (auto simp: handle_ok_def owner_ok_def null_ok_def split: if_splits)

lemma handle_slice: "handle_ok h x \<Longrightarrow> slice_from_raw_parts h (h_ptr x) (h_len x) = Ok (view h x)"
  using handle_readable [of h x "h_len x"] handle_init [of h x]
  by (auto simp: slice_from_raw_parts_def view_def)

lemma bytes_as_slice_Ok: "handle_ok h (HBytes b) \<Longrightarrow> bytes_as_slice b h = Ok (view h (HBytes b))"
  using handle_slice [of h "HBytes b"] by (simp add: bytes_as_slice_def)

lemma length_view: "handle_ok h x \<Longrightarrow> length (view h x) = h_len x"
  by (auto simp: view_def handle_ok_def owner_ok_def null_ok_def length_cells split: if_splits)

lemma ptr_add_handle:
  "handle_ok h x \<Longrightarrow> n \<le> h_len x \<Longrightarrow> ptr_add h (h_ptr x) n = Ok (Ptr (h_blk x) (h_off x + n))"
  by (simp add: ptr_add_def handle_readable)

lemma view_drop:
  "h_ptr y = Ptr (h_blk x) (h_off x + n) \<Longrightarrow> h_len y = h_len x - n \<Longrightarrow> n \<le> h_len x \<Longrightarrow>
   view h y = drop n (view h x)"
  using cells_drop [of h "h_ptr x" n "h_len x - n"] by (simp add: view_def drop_map)

lemma view_take: "h_ptr y = h_ptr x \<Longrightarrow> h_len y = n \<Longrightarrow> n \<le> h_len x \<Longrightarrow> view h y = take n (view h x)"
  using cells_take [of n "h_len x" h "h_ptr x"] by (simp add: view_def take_map)

lemma init_sub:
  "None \<notin> set (cells h (h_ptr x) (h_len x)) \<Longrightarrow> h_blk y = h_blk x \<Longrightarrow> h_off x \<le> h_off y \<Longrightarrow>
   h_off y + h_len y \<le> h_off x + h_len x \<Longrightarrow> None \<notin> set (cells h (h_ptr y) (h_len y))"
  using set_cells_sub [of "h_ptr y" "h_ptr x" "h_len y" "h_len x" h] by blast

lemma view_empty [simp]: "view h (HBytes (new_empty_with_ptr p)) = []"
  by (simp add: view_def new_empty_with_ptr_def)

lemma handle_addr:
  assumes "heap_ok h" "handle_ok h x" "n \<le> h_len x"
  shows "ptr_addr h (Ptr (h_blk x) (h_off x + n)) \<le> usize_max"
  using assms by (fastforce simp: handle_ok_def owner_ok_def null_ok_def heap_ok_def ptr_addr_def
      blk_ok_def split: if_splits)

lemma wf_empty_add:
  assumes "wf_heap h (x # R)" "n \<le> h_len x"
  shows "handle_ok h (HBytes (new_empty_with_ptr (Ptr (h_blk x) (h_off x + n))))"
  using handle_addr [OF wf_ConsD(1,2) [OF assms(1)] assms(2)]
  by (simp add: handle_ok_def null_ok_def new_empty_with_ptr_def)

text \<open>A \<open>Bytes\<close> that is not unpromoted may become any part of itself.\<close>

lemma wf_bytes_sub:
  assumes wf: "wf_heap h (HBytes b # R)" and data: "\<not> is_unpromoted (bs_data b)" "bs_data c = bs_data b"
    and c: "ptr_blk (bs_ptr c) = ptr_blk (bs_ptr b)" "ptr_off (bs_ptr b) \<le> ptr_off (bs_ptr c)"
      "ptr_off (bs_ptr c) + bs_len c \<le> ptr_off (bs_ptr b) + bs_len b"
  shows "wf_heap h (HBytes c # R)"
proof (cases "bs_data b = 0")
  case True
  have ok: "handle_ok h (HBytes b)" using wf by (simp add: wf_heap_def)
  have "bs_len c = 0 \<or> None \<notin> set (cells h (bs_ptr c) (bs_len c))"
    using init_sub [of h "HBytes b" "HBytes c"] handle_init [OF ok] c by simp
  moreover have "ptr_addr h (bs_ptr c) + bs_len c \<le> ptr_addr h (bs_ptr b) + bs_len b"
    using c by (simp add: ptr_addr_def)
  ultimately have "handle_ok h (HBytes c)"
    using ok True data c by (auto simp: handle_ok_def null_ok_def)
  moreover have "wf_heap h R" using wf_null_drop [OF wf] True by simp
  ultimately show ?thesis using wf_null_add True data by simp
next
  case False
  have ok: "handle_ok h (HBytes b)" using wf by (simp add: wf_heap_def)
  show ?thesis
  proof (rule wf_shrink [OF wf])
    show "None \<notin> set (cells h (h_ptr (HBytes c)) (h_len (HBytes c)))"
      by (rule init_sub [of h "HBytes b"]) (use handle_init [OF ok] c in simp_all)
  qed (use False data c in \<open>simp_all add: sub_def\<close>)
qed

lemma wf_bytes_advance:
  assumes wf: "wf_heap h (HBytes b # R)" and cnt: "cnt \<le> bs_len b"
  shows "\<exists>data. bytes_advance_unchecked b cnt h =
      Ok \<lparr>bs_ptr = Ptr (ptr_blk (bs_ptr b)) (ptr_off (bs_ptr b) + cnt), bs_len = bs_len b - cnt, bs_data = data\<rparr>
    \<and> wf_heap h (HBytes \<lparr>bs_ptr = Ptr (ptr_blk (bs_ptr b)) (ptr_off (bs_ptr b) + cnt),
                         bs_len = bs_len b - cnt, bs_data = data\<rparr> # R)
    \<and> (\<not> is_unpromoted (bs_data b) \<longrightarrow> data = bs_data b)"
proof (cases "cnt = 0")
  case True
  then show ?thesis
    using wf by (cases b) (auto simp: bytes_advance_unchecked_def intro!: exI [of _ "bs_data b"])
next
  case False
  have ok: "handle_ok h (HBytes b)" and heap: "heap_ok h" using wf by (simp_all add: wf_heap_def)
  have add: "ptr_add h (bs_ptr b) cnt = Ok (Ptr (ptr_blk (bs_ptr b)) (ptr_off (bs_ptr b) + cnt))"
    using ptr_add_handle [OF ok] cnt by simp
  let ?c = "\<lambda>data. \<lparr>bs_ptr = Ptr (ptr_blk (bs_ptr b)) (ptr_off (bs_ptr b) + cnt),
                   bs_len = bs_len b - cnt, bs_data = data\<rparr>"
  show ?thesis
  proof (cases "is_unpromoted (bs_data b)")
    case True
    then have own: "bs_data b \<noteq> 0" by (auto simp: is_unpromoted_odd)
    with ok have x: "owner_ok h (HBytes b)" by (simp add: handle_ok_def)
    let ?n = "ptr_off (bs_ptr b) + cnt"
    have "blk_size h (ptr_blk (bs_ptr b)) < isize_max" using owner_size [OF heap x] by simp
    then have n: "?n \<le> isize_max" "?n \<le> usize_max"
      using x True cnt by (auto simp: owner_ok_def isize_max_def usize_max_def)
    have pay: "payload (bs_data b) = ptr_off (bs_ptr b)"
      using owner_payload [OF heap x] True by simp
    have "bytes_advance_unchecked b cnt h = Ok (?c (tag ?n))"
      using False cnt True n add
      by (simp add: bytes_advance_unchecked_def as_unpromoted_Inl pay uadd_Ok mask_payload_Ok)
    moreover have "owner_ok h (HBytes (?c (tag ?n)))"
      using x True cnt init_sub [of h "HBytes b" "HBytes (?c (tag ?n))"]
      by (auto simp: owner_ok_def)
    then have "wf_heap (box_free (bs_data b) h) (HBytes (?c (tag ?n)) # R)"
      using wf_adopt [OF wf _ sole_unpromoted [OF wf]] own True by simp
    ultimately show ?thesis using True box_free_id [OF heap True] by auto
  next
    case promoted: False
    have "bytes_advance_unchecked b cnt h = Ok (?c (bs_data b))"
      using False cnt promoted add by (simp add: bytes_advance_unchecked_def as_unpromoted_Inr)
    moreover have "wf_heap h (HBytes (?c (bs_data b)) # R)"
      by (rule wf_bytes_sub [OF wf promoted]) (use cnt in simp_all)
    ultimately show ?thesis by auto
  qed
qed

subsection \<open>Cloning and dropping\<close>

lemma build_unpromoted_vec_Ok:
  assumes wf: "wf_heap h (HBytes b # R)" and un: "is_unpromoted (bs_data b)"
  shows "build_unpromoted_vec b (payload (bs_data b)) h =
    Ok (whole_vec h (ptr_blk (bs_ptr b)) (blk_size h (ptr_blk (bs_ptr b))))"
proof -
  let ?i = "ptr_blk (bs_ptr b)"
  have heap: "heap_ok h" and ok: "handle_ok h (HBytes b)" using wf by (simp_all add: wf_heap_def)
  have own: "bs_data b \<noteq> 0" using un by (auto simp: is_unpromoted_odd)
  have x: "owner_ok h (HBytes b)" using ok own by (simp add: handle_ok_def)
  have pay: "payload (bs_data b) = ptr_off (bs_ptr b)" using owner_payload [OF heap x] un by simp
  have size: "bs_len b + ptr_off (bs_ptr b) = blk_size h ?i" using x un by (simp add: owner_ok_def)
  have "blk_size h ?i \<le> usize_max"
    using owner_size [OF heap x] by (simp add: isize_max_def usize_max_def)
  moreover have "ptr_sub h (bs_ptr b) (ptr_off (bs_ptr b)) = Ok (Ptr ?i 0)"
    using x size by (cases "bs_ptr b") (auto simp: ptr_sub_def owner_ok_def)
  ultimately show ?thesis
    using x size by (simp add: build_unpromoted_vec_def pay uadd_Ok whole_vec_from_raw owner_ok_def)
qed

lemma quiet_blocks:
  "hp_blocks h' = hp_blocks h \<Longrightarrow> hp_base h' = hp_base h \<Longrightarrow> hp_extra h' = hp_extra h \<Longrightarrow>
   hp_empty h' = hp_empty h \<Longrightarrow> quiet h h'"
  by (simp add: quiet_def cells_def)

text \<open>What both clones of a handle give: the same view twice, over one box.\<close>

definition cloned :: "heap \<Rightarrow> bytes \<Rightarrow> handle list \<Rightarrow> bytes \<Rightarrow> bytes \<Rightarrow> heap \<Rightarrow> bool" where
  "cloned h b R b' c h' \<longleftrightarrow>
     wf_heap h' (HBytes b' # HBytes c # R) \<and> quiet h h' \<and>
     bs_ptr b' = bs_ptr b \<and> bs_len b' = bs_len b \<and> bs_ptr c = bs_ptr b \<and> bs_len c = bs_len b \<and>
     bs_data c = bs_data b' \<and> \<not> is_unpromoted (bs_data b')"

lemma clone_inner_mut_Ok:
  assumes wf: "wf_heap h (HBytes b # R)" and room: "room h (HBytes b # R)"
  shows "\<exists>b' c h'. clone_inner_mut b h = Ok ((b', c), h') \<and> cloned h b R b' c h'"
proof -
  have heap: "heap_ok h" and ok: "handle_ok h (HBytes b)" and counts: "counts_ok h (HBytes b # R)"
    using wf by (simp_all add: wf_heap_def)
  have init: "None \<notin> set (cells h (bs_ptr b) (bs_len b))" using handle_init [OF ok] by simp
  consider (null) "bs_data b = 0" | (un) "is_unpromoted (bs_data b)"
    | (pro) "bs_data b \<noteq> 0" "\<not> is_unpromoted (bs_data b)" by blast
  then show ?thesis
  proof cases
    case null
    have b: "\<lparr>bs_ptr = bs_ptr b, bs_len = bs_len b, bs_data = 0\<rparr> = b" using null by (cases b) simp
    have "wf_heap h (HBytes b # HBytes b # R)"
      using wf_null_add [OF wf _ ok] null by simp
    then have "cloned h b R b b h" using null by (simp add: cloned_def is_unpromoted_odd)
    moreover have "clone_inner_mut b h = Ok ((b, b), h)" using null by (simp add: clone_inner_mut_def b)
    ultimately show ?thesis by blast
  next
    case un
    then have own: "bs_data b \<noteq> 0" by (auto simp: is_unpromoted_odd)
    let ?i = "ptr_blk (bs_ptr b)" and ?a = "box_addr (hp_boxes h)"
    let ?s = "\<lparr>ref_count = 2, sh_ptr = Ptr ?i 0, sh_cap = blk_size h ?i\<rparr>"
    let ?h = "h\<lparr>hp_shared := (hp_shared h)(?a \<mapsto> ?s), hp_boxes := Suc (hp_boxes h)\<rparr>"
    let ?c = "\<lparr>bs_ptr = bs_ptr b, bs_len = bs_len b, bs_data = ?a\<rparr>"
    have box: "box_room h" using room un by (simp add: room_def)
    have eval: "clone_inner_mut b h = Ok ((b\<lparr>bs_data := ?a\<rparr>, ?c), ?h)"
      using own un build_unpromoted_vec_Ok [OF wf un] promote_Ok [OF box]
      by (simp add: clone_inner_mut_def as_unpromoted_Inl whole_vec_def)
    have "hp_shared h (h_data r) \<noteq> None" if "r \<in> set R" "owns r" "\<not> is_unpromoted (h_data r)" for r
    proof -
      have "handle_ok h r" using wf that(1) by (simp add: wf_heap_def)
      from owner_box [OF this that(2,3)] show ?thesis by blast
    qed
    then have "refs ?a R = 0"
      using box_fresh [OF heap box] by (metis box_addr_promoted refs_eq_0)
    then have "wf_heap ?h ([HBytes (b\<lparr>bs_data := ?a\<rparr>), HBytes ?c] @ R)"
      by (intro wf_share [OF wf, where a = ?a and s = ?s])
        (use own un init box_fresh [OF heap box] in \<open>auto simp: sub_def compat_def\<close>)
    then have "cloned h b R (b\<lparr>bs_data := ?a\<rparr>) ?c ?h"
      by (simp add: cloned_def quiet_blocks)
    with eval show ?thesis by blast
  next
    case pro
    obtain s where s: "hp_shared h (bs_data b) = Some s" "sh_ptr s = Ptr (ptr_blk (bs_ptr b)) 0"
      "sh_cap s = blk_size h (ptr_blk (bs_ptr b))"
      using owner_box [OF ok] pro by auto
    let ?s = "s\<lparr>ref_count := Suc (refs (bs_data b) (HBytes b # R))\<rparr>"
    let ?h = "box_set (bs_data b) ?s h"
    have inc: "increment (bs_data b) h = Ok ?h"
      by (rule increment_Ok [OF wf s(1)]) (use room in \<open>simp add: room_def\<close>)
    have b: "\<lparr>bs_ptr = bs_ptr b, bs_len = bs_len b, bs_data = bs_data b\<rparr> = b" by (cases b) simp
    have eval: "clone_inner_mut b h = Ok ((b, b), ?h)"
      using pro s(1) inc b by (simp add: clone_inner_mut_def as_unpromoted_Inr Let_def)
    have "unat (bs_data b) \<le> 8 * hp_boxes h" using heap s(1) by (auto simp: heap_ok_def)
    then have "wf_heap ?h ([HBytes b, HBytes b] @ R)"
      by (intro wf_share [OF wf, where a = "bs_data b" and s = ?s])
        (use pro init s in \<open>auto simp: sub_def compat_def\<close>)
    then have "cloned h b R b b ?h"
      using pro by (simp add: cloned_def)
    with eval show ?thesis by blast
  qed
qed

text \<open>In one thread the compare-exchange of \<open>clone\<close> always succeeds: both clones are the same.\<close>

lemma clone_inner_mut_eq: "clone_inner b h = clone_inner_mut b h"
  by (simp add: clone_inner_def clone_inner_mut_def promote_ref_def Let_def)

lemma bytes_drop_Ok:
  assumes wf: "wf_heap h (HBytes b # R)" and len: "length R \<le> isize_max"
  shows "\<exists>h'. bytes_drop b h = Ok h' \<and> wf_heap h' R \<and> quiet h h'"
proof -
  have heap: "heap_ok h" and ok: "handle_ok h (HBytes b)" using wf by (simp_all add: wf_heap_def)
  consider (null) "bs_data b = 0" | (un) "is_unpromoted (bs_data b)"
    | (pro) "bs_data b \<noteq> 0" "\<not> is_unpromoted (bs_data b)" by blast
  then show ?thesis
  proof cases
    case null
    then show ?thesis using wf_null_drop [OF wf] by (simp add: bytes_drop_def)
  next
    case un
    then have own: "bs_data b \<noteq> 0" by (auto simp: is_unpromoted_odd)
    note sole = sole_unpromoted [OF wf]
    note d = owner_dealloc [OF wf _ sole]
    have "bytes_drop b h = Ok (dealloc h (ptr_blk (bs_ptr b)))"
      using own un build_unpromoted_vec_Ok [OF wf un] d(1) by (simp add: bytes_drop_def as_unpromoted_Inl)
    then show ?thesis using d(2,3) [OF _ _ refl le0] own un by (simp add: box_free_dealloc_id [OF heap un])
  next
    case pro
    obtain s where s: "hp_shared h (bs_data b) = Some s" using owner_box [OF ok] pro by auto
    with pro release_Ok [OF wf _ _ len] show ?thesis
      by (simp add: bytes_drop_def as_unpromoted_Inr)
  qed
qed

subsection \<open>Splitting, truncating and slicing\<close>

lemma wf_swap: "wf_heap h (x # y # R) \<Longrightarrow> wf_heap h (y # x # R)"
  by (rule wf_heap_perm [of "x # y # R"]) simp_all

lemma wf_empty_Cons:
  assumes "wf_heap h (x # R)" "n \<le> h_len x"
  shows "wf_heap h (HBytes (new_empty_with_ptr (Ptr (h_blk x) (h_off x + n))) # x # R)"
  by (rule wf_null_add [OF assms(1) _ wf_empty_add [OF assms]]) (simp add: new_empty_with_ptr_def)

text \<open>The two halves of a split at \<open>at\<close>: no byte is copied or changed.\<close>

definition split_at :: "heap \<Rightarrow> bytes \<Rightarrow> nat \<Rightarrow> handle list \<Rightarrow> bytes \<Rightarrow> bytes \<Rightarrow> heap \<Rightarrow> bool" where
  "split_at h b n R lo hi h' \<longleftrightarrow>
     wf_heap h' (HBytes lo # HBytes hi # R) \<and> quiet h h' \<and>
     view h' (HBytes lo) = take n (view h (HBytes b)) \<and>
     view h' (HBytes hi) = drop n (view h (HBytes b)) \<and>
     bs_ptr lo = bs_ptr b \<and> bs_len lo = n \<and> bs_len hi = bs_len b - n"

lemma cloned_split:
  assumes c: "cloned h b R b' c h'" and at: "at \<le> bs_len b"
  shows "\<exists>hi. bytes_advance_unchecked c at h' = Ok hi \<and> split_at h b at R (b'\<lparr>bs_len := at\<rparr>) hi h'"
proof -
  have wf: "wf_heap h' (HBytes c # HBytes b' # R)" and q: "quiet h h'"
    and eq: "bs_ptr b' = bs_ptr b" "bs_len b' = bs_len b" "bs_ptr c = bs_ptr b" "bs_len c = bs_len b"
      "bs_data c = bs_data b'" "\<not> is_unpromoted (bs_data b')"
    using c wf_swap by (auto simp: cloned_def)
  obtain hi where hi: "bytes_advance_unchecked c at h' = Ok hi"
      "wf_heap h' (HBytes hi # HBytes b' # R)"
      "bs_ptr hi = Ptr (ptr_blk (bs_ptr b)) (ptr_off (bs_ptr b) + at)" "bs_len hi = bs_len b - at"
    using wf_bytes_advance [OF wf] at eq by fastforce
  have "wf_heap h' (HBytes (b'\<lparr>bs_len := at\<rparr>) # HBytes hi # R)"
    by (rule wf_bytes_sub [OF wf_swap [OF hi(2)]]) (use eq at in simp_all)
  moreover have "view h (HBytes (b'\<lparr>bs_len := at\<rparr>)) = take at (view h (HBytes b))"
    by (rule view_take) (use eq at in simp_all)
  moreover have "view h (HBytes hi) = drop at (view h (HBytes b))"
    by (rule view_drop) (use hi at in simp_all)
  ultimately have "split_at h b at R (b'\<lparr>bs_len := at\<rparr>) hi h'"
    using q hi eq by (simp add: split_at_def quiet_view)
  with hi(1) show ?thesis by blast
qed

lemma try_split_off_Ok:
  assumes wf: "wf_heap h (HBytes b # R)" and room: "0 < at \<Longrightarrow> at < bs_len b \<Longrightarrow> room h (HBytes b # R)" and at: "at \<le> bs_len b"
  shows "\<exists>lo hi h'. bytes_try_split_off b at h = Ok ((lo, Some hi), h') \<and> split_at h b at R lo hi h'"
proof -
  have ok: "handle_ok h (HBytes b)" using wf by (simp add: wf_heap_def)
  have len: "length (view h (HBytes b)) = bs_len b" using length_view [OF ok] by simp
  consider (full) "at = bs_len b" | (zero) "at \<noteq> bs_len b" "at = 0"
    | (mid) "0 < at" "at < bs_len b" using at by linarith
  then show ?thesis
  proof cases
    case full
    let ?hi = "new_empty_with_ptr (Ptr (ptr_blk (bs_ptr b)) (ptr_off (bs_ptr b) + at))"
    have "wf_heap h (HBytes b # HBytes ?hi # R)"
      using wf_swap [OF wf_empty_Cons [OF wf, of at]] full by simp
    then have "split_at h b at R b ?hi h"
      using full len by (simp add: split_at_def) (simp add: new_empty_with_ptr_def)
    moreover have "bytes_try_split_off b at h = Ok ((b, Some ?hi), h)"
      using full ptr_add_handle [OF ok, of at] by (simp add: bytes_try_split_off_def Let_def)
    ultimately show ?thesis by blast
  next
    case zero
    let ?lo = "new_empty_with_ptr (bs_ptr b)"
    have "wf_heap h (HBytes ?lo # HBytes b # R)"
      using wf_empty_Cons [OF wf, of 0] by simp
    then have "split_at h b at R ?lo b h"
      using zero by (simp add: split_at_def) (simp add: new_empty_with_ptr_def)
    moreover have "bytes_try_split_off b at h = Ok ((?lo, Some b), h)"
      using zero by (simp add: bytes_try_split_off_def Let_def)
    ultimately show ?thesis by blast
  next
    case mid
    obtain b' c h' where c: "clone_inner_mut b h = Ok ((b', c), h')" "cloned h b R b' c h'"
      using clone_inner_mut_Ok [OF wf room [OF mid]] by blast
    from cloned_split [OF c(2) at] obtain hi where
      "bytes_advance_unchecked c at h' = Ok hi" "split_at h b at R (b'\<lparr>bs_len := at\<rparr>) hi h'" by blast
    with c(1) mid show ?thesis by (auto simp: bytes_try_split_off_def Let_def)
  qed
qed

lemma try_split_to_Ok:
  assumes wf: "wf_heap h (HBytes b # R)" and room: "0 < at \<Longrightarrow> at < bs_len b \<Longrightarrow> room h (HBytes b # R)" and at: "at \<le> bs_len b"
  shows "\<exists>lo hi h'. bytes_try_split_to b at h = Ok ((hi, Some lo), h') \<and> split_at h b at R lo hi h'"
proof -
  have ok: "handle_ok h (HBytes b)" using wf by (simp add: wf_heap_def)
  have len: "length (view h (HBytes b)) = bs_len b" using length_view [OF ok] by simp
  consider (full) "at = bs_len b" | (zero) "at \<noteq> bs_len b" "at = 0"
    | (mid) "0 < at" "at < bs_len b" using at by linarith
  then show ?thesis
  proof cases
    case full
    let ?hi = "new_empty_with_ptr (Ptr (ptr_blk (bs_ptr b)) (ptr_off (bs_ptr b) + at))"
    have "wf_heap h (HBytes b # HBytes ?hi # R)"
      using wf_swap [OF wf_empty_Cons [OF wf, of at]] full by simp
    then have "split_at h b at R b ?hi h"
      using full len by (simp add: split_at_def) (simp add: new_empty_with_ptr_def)
    moreover have "bytes_try_split_to b at h = Ok ((?hi, Some b), h)"
      using full ptr_add_handle [OF ok, of at] by (simp add: bytes_try_split_to_def Let_def)
    ultimately show ?thesis by blast
  next
    case zero
    let ?lo = "new_empty_with_ptr (bs_ptr b)"
    have "wf_heap h (HBytes ?lo # HBytes b # R)"
      using wf_empty_Cons [OF wf, of 0] by simp
    then have "split_at h b at R ?lo b h"
      using zero by (simp add: split_at_def) (simp add: new_empty_with_ptr_def)
    moreover have "bytes_try_split_to b at h = Ok ((b, Some ?lo), h)"
      using zero by (simp add: bytes_try_split_to_def Let_def)
    ultimately show ?thesis by blast
  next
    case mid
    obtain b' c h' where c: "clone_inner_mut b h = Ok ((b', c), h')" "cloned h b R b' c h'"
      using clone_inner_mut_Ok [OF wf room [OF mid]] by blast
    then have "cloned h b R c b' h'" using wf_swap by (auto simp: cloned_def)
    from cloned_split [OF this at] obtain hi where
      "bytes_advance_unchecked b' at h' = Ok hi" "split_at h b at R (c\<lparr>bs_len := at\<rparr>) hi h'" by blast
    with c(1) mid show ?thesis by (auto simp: bytes_try_split_to_def Let_def)
  qed
qed

lemma bytes_truncate_Ok:
  assumes wf: "wf_heap h (HBytes b # R)" and room: "room h (HBytes b # R)"
  shows "\<exists>b' h'. bytes_truncate b n h = Ok (b', h') \<and> wf_heap h' (HBytes b' # R) \<and> quiet h h' \<and>
     view h' (HBytes b') = take n (view h (HBytes b))"
proof -
  have ok: "handle_ok h (HBytes b)" using wf by (simp add: wf_heap_def)
  have len: "length (view h (HBytes b)) = bs_len b" using length_view [OF ok] by simp
  consider (long) "n \<ge> bs_len b" | (null) "n < bs_len b" "bs_data b = 0"
    | (split) "n < bs_len b" "bs_data b \<noteq> 0" by linarith
  then show ?thesis
  proof cases
    case long
    then show ?thesis using wf len by (simp add: bytes_truncate_def)
  next
    case null
    have "wf_heap h (HBytes (b\<lparr>bs_len := n\<rparr>) # R)"
      by (rule wf_bytes_sub [OF wf]) (use null in \<open>simp_all add: is_unpromoted_odd\<close>)
    moreover have "view h (HBytes (b\<lparr>bs_len := n\<rparr>)) = take n (view h (HBytes b))"
      by (rule view_take) (use null in simp_all)
    ultimately show ?thesis using null by (simp add: bytes_truncate_def)
  next
    case split
    obtain lo hi h' where s: "bytes_try_split_off b n h = Ok ((lo, Some hi), h')" "split_at h b n R lo hi h'"
      using try_split_off_Ok [OF wf room, of n] split by auto
    have "wf_heap h' (HBytes hi # HBytes lo # R)" using s(2) wf_swap by (auto simp: split_at_def)
    from bytes_drop_Ok [OF this] room obtain h'' where
      d: "bytes_drop hi h' = Ok h''" "wf_heap h'' (HBytes lo # R)" "quiet h' h''"
      by (auto simp: room_def)
    have "view h'' (HBytes lo) = take n (view h (HBytes b))"
      using s(2) quiet_view [OF d(3)] by (simp add: split_at_def)
    then show ?thesis
      using split s d quiet_trans by (auto simp: bytes_truncate_def bytes_split_off_def split_at_def)
  qed
qed

lemma bytes_clear_Ok:
  assumes wf: "wf_heap h (HBytes b # R)" and len: "length R \<le> isize_max"
  shows "\<exists>b' h'. bytes_clear b h = Ok (b', h') \<and> wf_heap h' (HBytes b' # R) \<and> quiet h h' \<and>
     view h' (HBytes b') = []"
proof -
  obtain h' where d: "bytes_drop b h = Ok h'" "wf_heap h' R" "quiet h h'"
    using bytes_drop_Ok [OF wf len] by blast
  have "handle_ok h (HBytes (new_empty_with_ptr (bs_ptr b)))"
    using wf_empty_add [OF wf, of 0] by simp
  then have "handle_ok h' (HBytes (new_empty_with_ptr (bs_ptr b)))"
    using d(3) by (simp add: handle_ok_def null_ok_def new_empty_with_ptr_def ptr_addr_def quiet_def)
  then have "wf_heap h' (HBytes (new_empty_with_ptr (bs_ptr b)) # R)"
    by (intro wf_null_add [OF d(2)]) (simp_all add: new_empty_with_ptr_def)
  with d show ?thesis by (simp add: bytes_clear_def)
qed

text \<open>Both kinds of slicing come down to a clone cut to a part of the view.\<close>

definition part_of :: "bytes \<Rightarrow> nat \<Rightarrow> nat \<Rightarrow> usize \<Rightarrow> bytes" where
  "part_of b m n data =
     \<lparr>bs_ptr = Ptr (ptr_blk (bs_ptr b)) (ptr_off (bs_ptr b) + m), bs_len = n, bs_data = data\<rparr>"

definition sliced :: "heap \<Rightarrow> bytes \<Rightarrow> nat \<Rightarrow> nat \<Rightarrow> handle list \<Rightarrow> bytes \<Rightarrow> bytes \<Rightarrow> heap \<Rightarrow> bool" where
  "sliced h b m n R b' c h' \<longleftrightarrow>
     wf_heap h' (HBytes b' # HBytes c # R) \<and> quiet h h' \<and>
     view h' (HBytes b') = view h (HBytes b) \<and>
     view h' (HBytes c) = take n (drop m (view h (HBytes b)))"

lemma view_part: "m + n \<le> bs_len b \<Longrightarrow> view h (HBytes (part_of b m n data)) = take n (drop m (view h (HBytes b)))"
  using view_drop [of "HBytes (part_of b m (bs_len b - m) data)" "HBytes b" m h]
    view_take [of "HBytes (part_of b m n data)" "HBytes (part_of b m (bs_len b - m) data)" n h]
  by (simp add: part_of_def)

lemma cloned_slice:
  assumes c: "cloned h b R b' c h'" and le: "m + n \<le> bs_len b"
  shows "sliced h b m n R b' (part_of b m n (bs_data c)) h'"
proof -
  have wf: "wf_heap h' (HBytes c # HBytes b' # R)" and q: "quiet h h'"
    and eq: "bs_ptr b' = bs_ptr b" "bs_len b' = bs_len b" "bs_ptr c = bs_ptr b" "bs_len c = bs_len b"
      "\<not> is_unpromoted (bs_data c)"
    using c wf_swap by (auto simp: cloned_def)
  have "wf_heap h' (HBytes (part_of b m n (bs_data c)) # HBytes b' # R)"
    by (rule wf_bytes_sub [OF wf eq(5)]) (use eq le in \<open>simp_all add: part_of_def\<close>)
  then show ?thesis
    using wf_swap q view_part [OF le] eq by (auto simp: sliced_def quiet_view) (simp add: view_def)
qed

definition bound_lo :: "bound \<Rightarrow> nat" where
  "bound_lo s = (case s of Included n \<Rightarrow> n | Excluded n \<Rightarrow> n + 1 | Unbounded \<Rightarrow> 0)"

definition bound_hi :: "bound \<Rightarrow> nat \<Rightarrow> nat" where
  "bound_hi e len = (case e of Included n \<Rightarrow> n + 1 | Excluded n \<Rightarrow> n | Unbounded \<Rightarrow> len)"

lemma bound_eval:
  assumes "len \<le> usize_max"
  shows "bound_hi e len \<le> len \<Longrightarrow>
      (case e of Included n \<Rightarrow> checked_succ n | Excluded n \<Rightarrow> Ok n | Unbounded \<Rightarrow> Ok len) = Ok (bound_hi e len)"
    "bound_lo s \<le> len \<Longrightarrow>
      (case s of Included n \<Rightarrow> Ok n | Excluded n \<Rightarrow> checked_succ n | Unbounded \<Rightarrow> Ok 0) = Ok (bound_lo s)"
  using assms by (auto simp: bound_hi_def bound_lo_def checked_succ_def split: bound.splits)

lemma handle_len: "heap_ok h \<Longrightarrow> handle_ok h x \<Longrightarrow> h_len x \<le> usize_max"
  using handle_addr [of h x "h_len x"] by (simp add: ptr_addr_def)

lemma slice_clone:
  assumes wf: "wf_heap h (HBytes b # R)" and room: "n \<noteq> 0 \<Longrightarrow> room h (HBytes b # R)" and le: "m + n \<le> bs_len b"
  shows "\<exists>b' c h'. (rbind (ptr_add h (bs_ptr b) m) (\<lambda>p.
      if n = 0 then Ok ((b, new_empty_with_ptr p), h)
      else rbind (clone_inner b h) (\<lambda>((b, cloned), h).
           Ok ((b, cloned\<lparr>bs_ptr := p, bs_len := n\<rparr>), h)))) = Ok ((b', c), h') \<and> sliced h b m n R b' c h'"
proof -
  have ok: "handle_ok h (HBytes b)" using wf by (simp add: wf_heap_def)
  have add: "ptr_add h (bs_ptr b) m = Ok (Ptr (ptr_blk (bs_ptr b)) (ptr_off (bs_ptr b) + m))"
    using ptr_add_handle [OF ok, of m] le by simp
  show ?thesis
  proof (cases "n = 0")
    case True
    have "wf_heap h (HBytes b # HBytes (new_empty_with_ptr (Ptr (ptr_blk (bs_ptr b)) (ptr_off (bs_ptr b) + m))) # R)"
      using wf_swap [OF wf_empty_Cons [OF wf, of m]] le by simp
    with True add show ?thesis by (simp add: sliced_def)
  next
    case False
    obtain b' c h' where c: "clone_inner b h = Ok ((b', c), h')" "cloned h b R b' c h'"
      using clone_inner_mut_Ok [OF wf room [OF False]] by (auto simp: clone_inner_mut_eq)
    have "c\<lparr>bs_ptr := Ptr (ptr_blk (bs_ptr b)) (ptr_off (bs_ptr b) + m), bs_len := n\<rparr> = part_of b m n (bs_data c)"
      by (cases c) (simp add: part_of_def)
    with False add c(1) cloned_slice [OF c(2) le] show ?thesis by simp
  qed
qed

lemma slice_bound_Ok:
  assumes wf: "wf_heap h (HBytes b # R)" and room: "room h (HBytes b # R)"
    and le: "bound_lo s \<le> bound_hi e (bs_len b)" "bound_hi e (bs_len b) \<le> bs_len b"
  shows "\<exists>b' c h'. slice_bound b s e h = Ok ((b', c), h') \<and>
    sliced h b (bound_lo s) (bound_hi e (bs_len b) - bound_lo s) R b' c h'"
proof -
  have "bs_len b \<le> usize_max" using handle_len [of h "HBytes b"] wf by (simp add: wf_heap_def)
  note ev = bound_eval [OF this]
  have lo: "bound_lo s \<le> bs_len b" using le by simp
  from slice_clone [OF wf room, of "bound_lo s" "bound_hi e (bs_len b) - bound_lo s"] le
  show ?thesis
    unfolding slice_bound_def Let_def ev(1) [OF le(2)] ev(2) [OF lo] by simp
qed

lemma slice_bound_Panic:
  assumes "\<not> (bound_lo s \<le> bound_hi e (bs_len b) \<and> bound_hi e (bs_len b) \<le> bs_len b)"
    "bs_len b \<le> usize_max"
  shows "slice_bound b s e h = Panic"
  using assms
  by (auto simp: slice_bound_def bound_lo_def bound_hi_def checked_succ_def rassert_def split: bound.splits)

lemma slice_from_raw_Ok:
  assumes wf: "wf_heap h (HBytes b # R)" and room: "room h (HBytes b # R)" and le: "m + n \<le> bs_len b"
  shows "\<exists>b' c h'. slice_from_raw b (ptr_addr h (bs_ptr b) + m) n h = Ok ((b', c), h') \<and>
    sliced h b m n R b' c h'"
proof -
  have "ptr_addr h (bs_ptr b) + bs_len b \<le> usize_max"
    using handle_addr [of h "HBytes b" "bs_len b"] wf by (simp add: wf_heap_def ptr_addr_def add.assoc)
  with slice_clone [OF wf room le] le show ?thesis
    by (simp add: slice_from_raw_def Let_def uadd_Ok add.assoc)
qed

lemma slice_from_raw_Panic:
  assumes "heap_ok h" "handle_ok h (HBytes b)"
    "\<not> (ptr_addr h (bs_ptr b) \<le> data \<and> data + n \<le> ptr_addr h (bs_ptr b) + bs_len b)"
  shows "slice_from_raw b data n h = Panic"
proof -
  have "ptr_addr h (bs_ptr b) + bs_len b \<le> usize_max"
    using handle_addr [OF assms(1,2), of "bs_len b"] by (simp add: ptr_addr_def add.assoc)
  with assms(3) show ?thesis
    by (auto simp: slice_from_raw_def uadd_def rassert_def)
qed

lemma split_Panic:
  "bs_len b < at \<Longrightarrow> bytes_split_off b at h = Panic" "bs_len b < at \<Longrightarrow> bytes_split_to b at h = Panic"
  "bs_len b < at \<Longrightarrow> bytes_try_split_off b at h = Ok ((b, None), h)"
  "bs_len b < at \<Longrightarrow> bytes_try_split_to b at h = Ok ((b, None), h)"
  by (simp_all add: bytes_split_off_def bytes_split_to_def bytes_try_split_off_def bytes_try_split_to_def)

subsection \<open>Conversion from and to vectors\<close>

lemma tag_inj: "tag m = tag n \<Longrightarrow> m \<le> isize_max \<Longrightarrow> n \<le> isize_max \<Longrightarrow> m = n"
  by (metis payload_tag)

lemma wf_vec:
  assumes wf: "wf_heap h (HVec v # R)"
  shows "v = whole_vec h (ptr_blk (v_ptr v)) (v_len v)" "v_len v \<le> v_cap v"
    "owner_ok h (HVec v)" "sole (HVec v) R"
proof -
  have heap: "heap_ok h" and x: "owner_ok h (HVec v)"
    using wf by (simp_all add: wf_heap_def handle_ok_def)
  then show "owner_ok h (HVec v)" "v_len v \<le> v_cap v" by (simp_all add: owner_ok_def)
  have "ptr_off (v_ptr v) \<le> isize_max"
    using x owner_size [OF heap x] by (simp add: owner_ok_def isize_max_def)
  then have "ptr_off (v_ptr v) = 0"
    using x tag_inj [of 0 "ptr_off (v_ptr v)"] by (simp add: owner_ok_def)
  then show "v = whole_vec h (ptr_blk (v_ptr v)) (v_len v)"
    using x by (cases v; cases "v_ptr v") (simp add: owner_ok_def whole_vec_def)
  show "sole (HVec v) R" by (rule sole_unpromoted [OF wf]) simp
qed

text \<open>An unpromoted owner moves its allocation into a new box with one reference.\<close>

definition boxed :: "heap \<Rightarrow> nat \<Rightarrow> heap" where
  "boxed h i = h\<lparr>hp_shared := (hp_shared h)(box_addr (hp_boxes h) \<mapsto>
      \<lparr>ref_count = 1, sh_ptr = Ptr i 0, sh_cap = blk_size h i\<rparr>), hp_boxes := Suc (hp_boxes h)\<rparr>"

lemma box_unused:
  assumes "wf_heap h (x # R)" "box_room h"
  shows "refs (box_addr (hp_boxes h)) R = 0"
proof -
  have "hp_shared h (h_data r) \<noteq> None" if "r \<in> set R" "owns r" "\<not> is_unpromoted (h_data r)" for r
  proof -
    have "handle_ok h r" using assms(1) that(1) by (simp add: wf_heap_def)
    from owner_box [OF this that(2,3)] show ?thesis by blast
  qed
  then show ?thesis
    using box_fresh [OF wf_ConsD(1) [OF assms(1)] assms(2)] by (metis box_addr_promoted refs_eq_0)
qed

lemma wf_box:
  assumes wf: "wf_heap h (x # R)" and un: "is_unpromoted (h_data x)" and box: "box_room h"
    and y: "h_data y = box_addr (hp_boxes h)" "sub y x" "h_len y \<le> h_ext y"
      "None \<notin> set (cells h (h_ptr y) (h_len y))"
  shows "wf_heap (boxed h (h_blk x)) (y # R)" "quiet h (boxed h (h_blk x))"
proof -
  let ?a = "box_addr (hp_boxes h)"
  let ?s = "\<lparr>ref_count = 1, sh_ptr = Ptr (h_blk x) 0, sh_cap = blk_size h (h_blk x)\<rparr>"
  have heap: "heap_ok h" using wf by (simp add: wf_heap_def)
  have own: "owns x" using un by (auto simp: is_unpromoted_odd)
  have "wf_heap (boxed h (h_blk x)) ([y] @ R)"
    by (rule wf_share [OF wf own, where a = ?a and s = ?s])
      (use y un box_fresh [OF heap box] box_unused [OF wf box] in \<open>auto simp: boxed_def\<close>)
  then show "wf_heap (boxed h (h_blk x)) (y # R)" by simp
  show "quiet h (boxed h (h_blk x))" by (rule quiet_blocks) (simp_all add: boxed_def)
qed

lemma promote_whole:
  "box_room h \<Longrightarrow> promote_with_vec (whole_vec h i n) 1 h = Ok (box_addr (hp_boxes h), boxed h i)"
  by (simp add: promote_Ok boxed_def whole_vec_def)

lemma bytes_new_Ok:
  assumes wf: "wf_heap h R"
  shows "wf_heap h (HBytes (bytes_new h) # R)" "view h (HBytes (bytes_new h)) = []"
proof -
  have "ptr_addr h (hp_empty h) \<le> usize_max" using wf by (simp add: wf_heap_def heap_ok_def)
  then show "wf_heap h (HBytes (bytes_new h) # R)"
    by (intro wf_null_add [OF wf])
      (simp_all add: handle_ok_def null_ok_def bytes_new_def bytes_from_static_def)
qed (simp add: view_def bytes_new_def bytes_from_static_def)

lemma bytes_from_vec_Ok:
  assumes wf: "wf_heap h (HVec v # R)" and room: "v_len v \<noteq> 0 \<Longrightarrow> v_cap v \<noteq> v_len v \<Longrightarrow> box_room h"
  shows "\<exists>b h'. bytes_from_vec v h = Ok (b, h') \<and> wf_heap h' (HBytes b # R) \<and> quiet h h' \<and>
    view h' (HBytes b) = view h (HVec v)"
proof -
  let ?i = "ptr_blk (v_ptr v)"
  note v = wf_vec [OF wf]
  have heap: "heap_ok h" using wf by (simp add: wf_heap_def)
  consider (empty) "v_len v = 0" | (full) "v_len v \<noteq> 0" "v_cap v = v_len v"
    | (spare) "v_len v \<noteq> 0" "v_cap v \<noteq> v_len v" by blast
  then show ?thesis
  proof cases
    case empty
    have drop: "vec_drop v h = Ok (dealloc h ?i)" "wf_heap (dealloc h ?i) R" "quiet h (dealloc h ?i)"
      using owner_dealloc [OF wf _ v(4), of v 0] v(1) empty
      by (simp_all add: box_free_dealloc_id [OF heap])
    with drop empty show ?thesis
      using bytes_new_Ok [of "dealloc h ?i" R] by (auto simp: bytes_from_vec_def view_def)
  next
    case full
    let ?b = "\<lparr>bs_ptr = v_ptr v, bs_len = v_len v, bs_data = tag 0\<rparr>"
    have "owner_ok h (HBytes ?b)" using v(3) full by (simp add: owner_ok_def)
    then have "wf_heap h (HBytes ?b # R)"
      using wf_adopt [OF wf _ v(4), of "HBytes ?b"] by (simp add: box_free_id [OF heap])
    with full show ?thesis by (auto simp: bytes_from_vec_def view_def new_unpromoted_tag)
  next
    case spare
    let ?b = "\<lparr>bs_ptr = v_ptr v, bs_len = v_len v, bs_data = box_addr (hp_boxes h)\<rparr>"
    have "promote_with_vec v 1 h = Ok (box_addr (hp_boxes h), boxed h ?i)"
      using promote_whole [OF room [OF spare], of ?i "v_len v"] v(1) by simp
    moreover have "wf_heap (boxed h ?i) (HBytes ?b # R)" "quiet h (boxed h ?i)"
      using wf_box [OF wf _ room [OF spare], of "HBytes ?b"] v(2,3) by (auto simp: sub_def owner_ok_def)
    ultimately show ?thesis
      using spare quiet_view [of h "boxed h ?i"] by (auto simp: bytes_from_vec_def view_def quiet_def)
  qed
qed

text \<open>A fresh vector, empty or filled.\<close>

definition fresh_cap :: "heap \<Rightarrow> nat \<Rightarrow> nat" where
  "fresh_cap h n = (if n = 0 then 0 else n + hp_extra h (length (hp_blocks h)))"

lemma vec_with_capacity_Ok:
  assumes wf: "wf_heap h R" and alloc: "alloc_ok h n"
  shows "vec_with_capacity n h =
      Ok (\<lparr>v_ptr = Ptr (length (hp_blocks h)) 0, v_len = 0, v_cap = fresh_cap h n\<rparr>, grow h (fresh_cap h n))"
    "n \<le> fresh_cap h n" "fresh_cap h n < isize_max"
    "wf_heap (grow h (fresh_cap h n))
       (HVec \<lparr>v_ptr = Ptr (length (hp_blocks h)) 0, v_len = 0, v_cap = fresh_cap h n\<rparr> # R)"
    "frame h (grow h (fresh_cap h n)) R"
proof -
  have c: "fresh_cap h n < isize_max" "unat (hp_base h (length (hp_blocks h))) + fresh_cap h n \<le> usize_max"
    using alloc by (auto simp: alloc_ok_def fresh_cap_def Let_def)
  let ?v = "\<lparr>v_ptr = Ptr (length (hp_blocks h)) 0, v_len = 0, v_cap = fresh_cap h n\<rparr>"
  have "owner_ok (grow h (fresh_cap h n)) (HVec ?v)" by (simp add: owner_ok_def)
  then show "wf_heap (grow h (fresh_cap h n)) (HVec ?v # R)" "frame h (grow h (fresh_cap h n)) R"
    using wf_alloc [OF wf c, of "HVec ?v"] by simp_all
  show "vec_with_capacity n h = Ok (?v, grow h (fresh_cap h n))"
    using c by (simp add: vec_with_capacity_def fresh_cap_def grow_def Let_def)
  show "n \<le> fresh_cap h n" by (simp add: fresh_cap_def)
  show "fresh_cap h n < isize_max" by (fact c)
qed

text \<open>Writing inside the extent of an exclusive handle.\<close>

lemma store_cells_Nil [simp]: "store_cells h p [] = h"
  by (cases "ptr_blk p < length (hp_blocks h)") (simp_all add: store_cells_def Let_def list_update_beyond)

lemma write_Ok:
  assumes wf: "wf_heap h (x # R)" and x: "owns x" "h_excl x" and xs: "None \<notin> set xs"
    and p: "ptr_blk p = h_blk x" "h_off x \<le> ptr_off p" "ptr_off p + length xs \<le> h_off x + h_ext x"
  shows "write_cells h p xs = Ok (store_cells h p xs)" "wf_heap (store_cells h p xs) (x # R)"
    "frame h (store_cells h p xs) R" "cells (store_cells h p xs) p (length xs) = xs"
proof -
  note wfD = wf_ConsD [OF wf]
  have ok: "owner_ok h x" using wfD(2) x(1) by (simp add: handle_ok_def)
  then have size: "ptr_off p + length xs \<le> blk_size h (ptr_blk p)" using p by (simp add: owner_ok_def)
  show "write_cells h p xs = Ok (store_cells h p xs)"
    using ok p size by (simp add: write_cells_def writable_def readable_def owner_ok_def)
  show "wf_heap (store_cells h p xs) (x # R)" by (rule wf_store [OF wf xs size])
  show "cells (store_cells h p xs) p (length xs) = xs"
    using ok p size by (intro cells_store_same) (simp_all add: owner_ok_def blk_ok_def)
  have "view (store_cells h p xs) r = view h r" if r: "r \<in> set R" for r
  proof (cases "h_len r = 0 \<or> xs = []")
    case False
    have hr: "handle_ok h r" and comp: "compat x r" using wfD(3,4) r by auto
    have "clear_of r p (length xs)"
    proof (cases "owns r \<and> h_blk r = h_blk x")
      case True
      then have "separate x r" using comp x by (auto simp: compat_def)
      moreover have "h_len r \<le> h_ext r" using hr True by (simp add: handle_ok_def owner_ok_def)
      moreover have "0 < length xs" "0 < h_len r" using False by simp_all
      ultimately show ?thesis using p by (auto simp: separate_def clear_of_def)
    next
      case other: False
      then have "h_blk r \<noteq> h_blk x" using hr ok False
        by (auto simp: handle_ok_def null_ok_def owner_ok_def)
      then show ?thesis using p by (simp add: clear_of_def)
    qed
    then show ?thesis using size by (rule view_store)
  qed (auto simp: view_def)
  then show "frame h (store_cells h p xs) R" by (simp add: frame_def)
qed

lemma whole_vec_owner:
  assumes wf: "wf_heap h (x # R)" and own: "owns x" and n: "n \<le> blk_size h (h_blk x)"
    "None \<notin> set (cells h (Ptr (h_blk x) 0) n)"
  shows "owner_ok h (HVec (whole_vec h (h_blk x) n))"
  using wf own n by (simp add: wf_heap_def handle_ok_def owner_ok_def whole_vec_def)

lemma slice_to_vec_Ok:
  assumes wf: "wf_heap h R" and alloc: "alloc_ok h (length xs)"
  shows "\<exists>v h'. slice_to_vec xs h = Ok (v, h') \<and> wf_heap h' (HVec v # R) \<and> frame h h' R \<and>
    view h' (HVec v) = xs \<and> v_len v = length xs \<and> hp_shared h' = hp_shared h \<and> hp_boxes h' = hp_boxes h"
proof -
  let ?i = "length (hp_blocks h)" and ?c = "fresh_cap h (length xs)"
  let ?v = "\<lambda>n. \<lparr>v_ptr = Ptr ?i 0, v_len = n, v_cap = ?c\<rparr>"
  let ?h = "store_cells (grow h ?c) (Ptr ?i 0) (map Some xs)"
  note c = vec_with_capacity_Ok [OF wf alloc]
  note w = write_Ok [OF c(4), of "map Some xs" "Ptr ?i 0"]
  have size: "blk_size ?h ?i = ?c" using c(2) by simp
  have cells: "cells ?h (Ptr ?i 0) (length xs) = map Some xs" using w(4) c(2) by simp
  have wf': "wf_heap ?h (HVec (?v 0) # R)" using w(2) c(2) by simp
  have "owner_ok ?h (HVec (?v (length xs)))"
    using whole_vec_owner [OF wf', of "length xs"] cells c(2) size by (simp add: whole_vec_def)
  then have "wf_heap ?h (HVec (?v (length xs)) # R)"
    by (intro wf_move [OF wf' _ wf_vec(4) [OF wf']]) simp_all
  moreover have "slice_to_vec xs h = Ok (?v (length xs), ?h)"
    using c(1,2) w(1) by (simp add: slice_to_vec_def copy_from_def vec_set_len_def)
  moreover have "frame h ?h R" using c(2,5) w(3) frame_trans by fastforce
  moreover have "view ?h (HVec (?v (length xs))) = xs" using cells by (simp add: view_def comp_def)
  ultimately show ?thesis by fastforce
qed

lemma bytes_copy_from_slice_Ok:
  assumes wf: "wf_heap h R" and alloc: "alloc_ok h (length xs)" and room: "box_room h"
  shows "\<exists>b h'. bytes_copy_from_slice xs h = Ok (b, h') \<and> wf_heap h' (HBytes b # R) \<and> frame h h' R \<and>
    view h' (HBytes b) = xs"
proof -
  obtain v h1 where v: "slice_to_vec xs h = Ok (v, h1)" "wf_heap h1 (HVec v # R)" "frame h h1 R"
      "view h1 (HVec v) = xs" "hp_boxes h1 = hp_boxes h"
    using slice_to_vec_Ok [OF wf alloc] by blast
  have "box_room h1" using room v(5) by (simp add: box_room_def)
  from bytes_from_vec_Ok [OF v(2) this] v quiet_frame frame_trans show ?thesis
    by (fastforce simp: bytes_copy_from_slice_def)
qed

lemma into_vec_move_Ok:
  assumes wf: "wf_heap h (HVec (whole_vec h i 0) # R)" and b: "ptr_blk (bs_ptr b) = i"
    "ptr_off (bs_ptr b) + bs_len b \<le> blk_size h i" "None \<notin> set (cells h (bs_ptr b) (bs_len b))"
  shows "\<exists>h'. into_vec_move b (ptr_off (bs_ptr b)) (whole_vec h i n) h = Ok (whole_vec h i (bs_len b), h') \<and>
    wf_heap h' (HVec (whole_vec h i (bs_len b)) # R) \<and> frame h h' R \<and>
    view h' (HVec (whole_vec h i (bs_len b))) = view h (HBytes b)"
proof -
  let ?v = "whole_vec h i" and ?len = "bs_len b" and ?xs = "cells h (bs_ptr b) (bs_len b)"
  have len: "length ?xs = ?len" using b(1,2) by (simp add: length_cells)
  have x: "owner_ok h (HVec (?v 0))" using wf by (simp add: wf_heap_def handle_ok_def)
  have rd: "readable h (bs_ptr b) ?len" using x b by (simp add: readable_def owner_ok_def whole_vec_def)
  let ?h = "if ptr_off (bs_ptr b) = 0 then h else store_cells h (Ptr i 0) ?xs"
  note w = write_Ok [OF wf, of ?xs "Ptr i 0"]
  have wf': "wf_heap ?h (HVec (?v 0) # R)"
    using wf w(2) b len by (simp add: whole_vec_def)
  have cells: "cells ?h (Ptr i 0) ?len = ?xs"
    using w(4) b len by (cases "bs_ptr b") (auto simp: whole_vec_def)
  have "owner_ok ?h (HVec (whole_vec ?h i ?len))"
    using whole_vec_owner [OF wf', of ?len] cells b len by (simp add: whole_vec_def)
  moreover have size: "whole_vec ?h i ?len = ?v ?len"
    using b len by (simp add: whole_vec_def)
  ultimately have "wf_heap ?h (HVec (?v ?len) # R)"
    by (intro wf_move [OF wf' _ wf_vec(4) [OF wf']]) (simp_all add: whole_vec_def)
  moreover have "frame h ?h R" using w(3) b len by (simp add: whole_vec_def)
  moreover have "view ?h (HVec (?v ?len)) = view h (HBytes b)"
    using cells by (simp add: view_def whole_vec_def)
  moreover have "into_vec_move b (ptr_off (bs_ptr b)) (?v n) h = Ok (?v ?len, ?h)"
  proof (cases "?len \<le> ptr_off (bs_ptr b)")
    case True
    have "?len = 0 \<or> apart (bs_ptr b) (Ptr i 0) ?len" using True b by (simp add: apart_def)
    then have "copy_nonoverlapping h (bs_ptr b) (Ptr i 0) ?len = Ok (store_cells h (Ptr i 0) ?xs)"
      using w(1) b len rd by (simp add: copy_nonoverlapping_def ptr_copy_def whole_vec_def)
    then show ?thesis
      using True b by (simp add: into_vec_move_def vec_set_len_def whole_vec_def Let_def)
  next
    case False
    then show ?thesis
      using w(1) b len rd by (simp add: into_vec_move_def ptr_copy_def vec_set_len_def whole_vec_def Let_def)
  qed
  ultimately show ?thesis by metis
qed

text \<open>Giving a reference up and taking the allocation over if it was the last one.\<close>

lemma release_into_vec_Ok:
  assumes wf: "wf_heap h (x # R)" and own: "owns x" and pro: "\<not> is_unpromoted (h_data x)"
    and len: "length R \<le> isize_max" and n: "n \<le> blk_size h (h_blk x)"
  shows "refs (h_data x) R = 0 \<Longrightarrow>
      release_into_vec (h_data x) n h = Ok (Some (whole_vec h (h_blk x) n), box_free (h_data x) h)"
    "refs (h_data x) R \<noteq> 0 \<Longrightarrow>
      \<exists>h'. release_into_vec (h_data x) n h = Ok (None, h') \<and> wf_heap h' R \<and> quiet h h' \<and>
        hp_blocks h' = hp_blocks h"
proof -
  let ?a = "h_data x"
  note wfD = wf_ConsD [OF wf]
  have x: "owner_ok h x" using wfD(2) own by (simp add: handle_ok_def)
  obtain s where s: "hp_shared h ?a = Some s" "sh_ptr s = Ptr (h_blk x) 0" "sh_cap s = blk_size h (h_blk x)"
    using owner_box [OF wfD(2) own pro] .
  have rc: "ref_count s = Suc (refs ?a R)" using counts_box [OF wfD(6) s(1)] by simp
  then have "ref_count s < 2 ^ 64" using refs_le_length [of ?a R] len by (simp add: isize_max_def)
  then have sub: "fetch_sub ?a h = Ok (Suc (refs ?a R), box_set ?a (s\<lparr>ref_count := refs ?a R\<rparr>) h)"
    using fetch_sub_pred [OF s(1)] rc by simp
  {
    assume 0: "refs ?a R = 0"
    have "box_free ?a (box_set ?a (s\<lparr>ref_count := 0\<rparr>) h) = box_free ?a h"
      by (simp add: box_free_def box_set_def)
    moreover have "vec_from_raw_parts (box_set ?a (s\<lparr>ref_count := 0\<rparr>) h) (sh_ptr s) n (sh_cap s) =
        Ok (whole_vec h (h_blk x) n)"
      using s x n by (simp add: vec_from_raw_parts_def whole_vec_def owner_ok_def)
    ultimately show "release_into_vec ?a n h = Ok (Some (whole_vec h (h_blk x) n), box_free ?a h)"
      using 0 sub by (simp add: release_into_vec_def box_deref_def)
  }
  assume "refs ?a R \<noteq> 0"
  then show "\<exists>h'. release_into_vec ?a n h = Ok (None, h') \<and> wf_heap h' R \<and> quiet h h' \<and>
      hp_blocks h' = hp_blocks h"
    using sub wf_release [OF wf own _ s(1)] by (simp add: release_into_vec_def)
qed

text \<open>The bytes copied out of a handle that has just been given up.\<close>

lemma copy_out_Ok:
  assumes wf: "wf_heap h' R" and ok: "handle_ok h x" and h': "hp_blocks h' = hp_blocks h" "quiet h h'"
    and alloc: "alloc_ok h (h_len x)"
  shows "\<exists>v h''. rbind (slice_from_raw_parts h' (h_ptr x) (h_len x)) (\<lambda>xs. slice_to_vec xs h') = Ok (v, h'') \<and>
    wf_heap h'' (HVec v # R) \<and> frame h h'' R \<and> view h'' (HVec v) = view h x \<and> hp_boxes h'' = hp_boxes h'"
proof -
  have "slice_from_raw_parts h' (h_ptr x) (h_len x) = slice_from_raw_parts h (h_ptr x) (h_len x)"
    using h'(1) by (simp add: slice_from_raw_parts_def readable_def blk_ok_def blk_size_def cells_def)
  then have sl: "slice_from_raw_parts h' (h_ptr x) (h_len x) = Ok (view h x)"
    using handle_slice [OF ok] by simp
  have "alloc_ok h' (length (view h x))"
    using alloc quiet_alloc_ok [OF h'(2)] length_view [OF ok] by simp
  from slice_to_vec_Ok [OF wf this] obtain v h'' where
    "slice_to_vec (view h x) h' = Ok (v, h'')" "wf_heap h'' (HVec v # R)" "frame h' h'' R"
    "view h'' (HVec v) = view h x" "hp_boxes h'' = hp_boxes h'" by blast
  then show ?thesis
    using sl frame_trans [OF quiet_frame [OF h'(2)]] by simp
qed

lemma bytes_into_vec_Ok:
  assumes wf: "wf_heap h (HBytes b # R)" and len: "length R \<le> isize_max"
    and alloc: "bs_data b = 0 \<or> \<not> is_unpromoted (bs_data b) \<and> refs (bs_data b) R \<noteq> 0 \<Longrightarrow> alloc_ok h (bs_len b)"
  shows "\<exists>v h'. bytes_into_vec b h = Ok (v, h') \<and> wf_heap h' (HVec v # R) \<and> frame h h' R \<and>
    view h' (HVec v) = view h (HBytes b)"
proof -
  let ?i = "ptr_blk (bs_ptr b)" and ?x = "HBytes b"
  note wfD = wf_ConsD [OF wf]
  have copy: "\<exists>v h''. into_vec_copy b h' = Ok (v, h'') \<and> wf_heap h'' (HVec v # R) \<and> frame h h'' R \<and>
      view h'' (HVec v) = view h ?x"
    if "wf_heap h' R" "hp_blocks h' = hp_blocks h" "quiet h h'" "alloc_ok h (bs_len b)" for h'
    using copy_out_Ok [OF that(1) wfD(2) that(2,3)] that(4)
    by (auto simp: into_vec_copy_def bytes_as_slice_def)
  have move: "\<exists>v h'. into_vec_move b (ptr_off (bs_ptr b)) (whole_vec h ?i n) (box_free (bs_data b) h) = Ok (v, h') \<and>
      wf_heap h' (HVec v # R) \<and> frame h h' R \<and> view h' (HVec v) = view h ?x"
    if own: "bs_data b \<noteq> 0" and sole: "sole ?x R" for n
  proof -
    have x: "owner_ok h ?x" using wfD(2) own by (simp add: handle_ok_def)
    let ?h = "box_free (bs_data b) h"
    have "wf_heap ?h (HVec (whole_vec h ?i 0) # R)"
      using wf_adopt [OF wf _ sole, of "HVec (whole_vec h ?i 0)"] own x
      by (simp add: owner_ok_def whole_vec_def)
    moreover have "whole_vec ?h = whole_vec h" by (simp add: whole_vec_def fun_eq_iff)
    ultimately show ?thesis
      using into_vec_move_Ok [of ?h ?i R b n] x quiet_frame [of h ?h]
      by (fastforce simp: owner_ok_def view_def intro: frame_trans)
  qed
  consider (null) "bs_data b = 0" | (un) "is_unpromoted (bs_data b)"
    | (pro) "bs_data b \<noteq> 0" "\<not> is_unpromoted (bs_data b)" by blast
  then show ?thesis
  proof cases
    case null
    then show ?thesis
      using copy [of h] wf_null_drop [OF wf] alloc by (simp add: bytes_into_vec_def)
  next
    case un
    then have own: "bs_data b \<noteq> 0" by (auto simp: is_unpromoted_odd)
    have "payload (bs_data b) = ptr_off (bs_ptr b)"
      using owner_payload [OF wfD(1), of ?x] wfD(2) own un by (simp add: handle_ok_def)
    then show ?thesis
      using move [OF own sole_unpromoted [OF wf], of "blk_size h ?i"] un own build_unpromoted_vec_Ok [OF wf un]
      by (simp add: bytes_into_vec_def as_unpromoted_Inl box_free_id [OF wfD(1) un])
  next
    case pro
    obtain s where s: "hp_shared h (bs_data b) = Some s" "sh_ptr s = Ptr ?i 0" "sh_cap s = blk_size h ?i"
      using owner_box [OF wfD(2)] pro by auto
    have ev: "bytes_into_vec b h = rbind (release_into_vec (bs_data b) (blk_size h ?i) h) (\<lambda>(r, h).
        case r of Some v \<Rightarrow> into_vec_move b (ptr_off (bs_ptr b)) v h | None \<Rightarrow> into_vec_copy b h)"
      using pro s
      by (simp add: bytes_into_vec_def Let_def as_unpromoted_Inr offset_from_unsigned_def
          cong: option.case_cong)
    note rel = release_into_vec_Ok [OF wf _ _ len, of "blk_size h ?i"]
    show ?thesis
    proof (cases "refs (bs_data b) R = 0")
      case True
      then show ?thesis
        using ev rel(1) pro move [OF pro(1) sole_unique [OF wf]] by simp
    next
      case False
      then obtain h' where "release_into_vec (bs_data b) (blk_size h ?i) h = Ok (None, h')"
          "wf_heap h' R" "quiet h h'" "hp_blocks h' = hp_blocks h"
        using rel(2) pro by auto
      then show ?thesis using ev copy [of h'] alloc pro False by simp
    qed
  qed
qed

text \<open>\<open>is_unique\<close> says that no other handle owns the allocation.\<close>

lemma sole_iff_refs:
  assumes wf: "wf_heap h (x # R)" and own: "owns x" and pro: "\<not> is_unpromoted (h_data x)"
  shows "sole x R \<longleftrightarrow> refs (h_data x) R = 0"
proof
  show "sole x R" if "refs (h_data x) R = 0" by (rule sole_unique [OF wf own that])
  assume sole: "sole x R"
  note wfD = wf_ConsD [OF wf]
  have "h_data r \<noteq> h_data x" if r: "r \<in> set R" for r
  proof
    assume eq: "h_data r = h_data x"
    then have "owner_ok h r" "owner_ok h x" using wfD(2,3) r own by (auto simp: handle_ok_def)
    then have "h_blk r = h_blk x" using eq pro by (auto simp: owner_ok_def)
    then show False using sole r eq own by (auto simp: sole_def)
  qed
  then show "refs (h_data x) R = 0" by (simp add: refs_eq_0)
qed

lemma bytes_is_unique_Ok:
  assumes wf: "wf_heap h (HBytes b # R)"
  shows "bytes_is_unique b h = Ok (bs_data b \<noteq> 0 \<and> sole (HBytes b) R)"
proof -
  note wfD = wf_ConsD [OF wf]
  consider (null) "bs_data b = 0" | (un) "is_unpromoted (bs_data b)" "bs_data b \<noteq> 0"
    | (pro) "bs_data b \<noteq> 0" "\<not> is_unpromoted (bs_data b)" by blast
  then show ?thesis
  proof cases
    case pro
    obtain s where s: "hp_shared h (bs_data b) = Some s" using owner_box [OF wfD(2)] pro by auto
    have "ref_count s = Suc (refs (bs_data b) R)" using counts_box [OF wfD(6) s] by simp
    with pro s sole_iff_refs [OF wf] show ?thesis
      by (simp add: bytes_is_unique_def as_unpromoted_Inr is_unique_def)
  qed (use sole_unpromoted [OF wf] in \<open>simp_all add: bytes_is_unique_def as_unpromoted_Inl\<close>)
qed

lemma bytes_advance_Ok:
  assumes wf: "wf_heap h (HBytes b # R)" and cnt: "cnt \<le> bs_len b"
  shows "\<exists>b'. bytes_advance b cnt h = Ok b' \<and> wf_heap h (HBytes b' # R) \<and>
    view h (HBytes b') = drop cnt (view h (HBytes b))"
proof -
  obtain data where d: "bytes_advance_unchecked b cnt h = Ok (part_of b cnt (bs_len b - cnt) data)"
      "wf_heap h (HBytes (part_of b cnt (bs_len b - cnt) data) # R)"
    using wf_bytes_advance [OF wf cnt] by (auto simp: part_of_def)
  have "length (view h (HBytes b)) = bs_len b" using length_view [OF wf_ConsD(2) [OF wf]] by simp
  with d cnt view_part [of cnt "bs_len b - cnt" b h data] show ?thesis by (simp add: bytes_advance_def)
qed

lemma bytes_read_Ok:
  assumes wf: "wf_heap h (HBytes b # R)"
  shows "\<exists>b'. bytes_read b n h = Ok (b', take n (view h (HBytes b))) \<and> wf_heap h (HBytes b' # R) \<and>
    view h (HBytes b') = drop n (view h (HBytes b))"
proof -
  note ok = wf_ConsD(2) [OF wf]
  have len: "length (view h (HBytes b)) = bs_len b" using length_view [OF ok] by simp
  obtain b' where b': "bytes_advance b (min n (bs_len b)) h = Ok b'" "wf_heap h (HBytes b' # R)"
      "view h (HBytes b') = drop (min n (bs_len b)) (view h (HBytes b))"
    using bytes_advance_Ok [OF wf, of "min n (bs_len b)"] by auto
  have "take (min n (bs_len b)) (view h (HBytes b)) = take n (view h (HBytes b))"
    "drop (min n (bs_len b)) (view h (HBytes b)) = drop n (view h (HBytes b))"
    using len by (simp_all add: min_def)
  with b' bytes_as_slice_Ok [OF ok] show ?thesis by (simp add: bytes_read_def)
qed

lemma bytes_truncate_off_Ok:
  assumes wf: "wf_heap h (HBytes b # R)" and room: "room h (HBytes b # R)"
  shows "\<exists>b' h'. bytes_truncate_off b off h = Ok (b', h') \<and> wf_heap h' (HBytes b' # R) \<and> quiet h h' \<and>
     view h' (HBytes b') =
       (if off \<le> bs_len b then take (bs_len b - off) (view h (HBytes b)) else view h (HBytes b))"
  using bytes_truncate_Ok [OF wf room, of "bs_len b - off"] wf
  by (auto simp: bytes_truncate_off_def)

end
