(* ===== verification/Bytes_Mut.thy ===== *)
theory Bytes_Mut
  imports Bytes
begin

text \<open>
  \<open>src/bytes/bytes_mut.rs\<close>: the unique, growable \<open>BytesMut\<close>, and \<open>Bytes::into_mut\<close>. The debug
  assertions of the code are kept as panics; the lemmas show that they never fire. \<open>try_unsplit\<close>
  compares raw pointers, which compare as addresses, so the model compares \<open>ptr_addr\<close>.
\<close>

subsection \<open>Constructors and plain views\<close>

definition bm_from_vec :: "vec \<Rightarrow> bytes_mut" where
  "bm_from_vec v =
     \<lparr>bm_ptr = v_ptr v, bm_len = v_len v, bm_cap = v_cap v, bm_data = new_unpromoted\<rparr>"

definition bm_with_capacity :: "nat \<Rightarrow> heap \<Rightarrow> (bytes_mut \<times> heap) res" where
  "bm_with_capacity capacity h =
     rbind (vec_with_capacity capacity h) (\<lambda>(v, h). Ok (bm_from_vec v, h))"

definition bm_new :: "heap \<Rightarrow> (bytes_mut \<times> heap) res" where
  "bm_new h = bm_with_capacity 0 h"

definition bm_copy_from_slice :: "u8 list \<Rightarrow> heap \<Rightarrow> (bytes_mut \<times> heap) res" where
  "bm_copy_from_slice xs h = rbind (slice_to_vec xs h) (\<lambda>(v, h). Ok (bm_from_vec v, h))"

definition bm_as_slice :: "bytes_mut \<Rightarrow> heap \<Rightarrow> u8 list res" where
  "bm_as_slice b h = slice_from_raw_parts h (bm_ptr b) (bm_len b)"

definition bm_clone :: "bytes_mut \<Rightarrow> heap \<Rightarrow> (bytes_mut \<times> heap) res" where
  "bm_clone b h = rbind (bm_as_slice b h) (\<lambda>xs. bm_copy_from_slice xs h)"

definition bm_set_len :: "bytes_mut \<Rightarrow> nat \<Rightarrow> bytes_mut res" where
  "bm_set_len b new_len =
     rbind (rassert (new_len \<le> bm_cap b)) (\<lambda>_. Ok (b\<lparr>bm_len := new_len\<rparr>))"

text \<open>\<open>spare_capacity_mut\<close>: the start and the length of the spare slice.\<close>

definition spare_capacity_mut :: "bytes_mut \<Rightarrow> heap \<Rightarrow> (ptr \<times> nat) res" where
  "spare_capacity_mut b h =
     rbind (ptr_add h (bm_ptr b) (bm_len b)) (\<lambda>p.
     rbind (usub (bm_cap b) (bm_len b)) (\<lambda>n. Ok (p, n)))"

definition original_buffer :: "bytes_mut \<Rightarrow> nat \<Rightarrow> heap \<Rightarrow> vec res" where
  "original_buffer b offset h =
     rbind (ptr_sub h (bm_ptr b) offset) (\<lambda>p.
     rbind (uadd (bm_len b) offset) (\<lambda>len.
     rbind (uadd (bm_cap b) offset) (\<lambda>cap.
     vec_from_raw_parts h p len cap)))"

definition bm_drop :: "bytes_mut \<Rightarrow> heap \<Rightarrow> heap res" where
  "bm_drop b h =
     rbind (into_unpromoted h (bm_data b)) (\<lambda>r.
       case r of
         Inl offset \<Rightarrow> rbind (original_buffer b offset h) (\<lambda>v. vec_drop v h)
       | Inr _ \<Rightarrow> release (bm_data b) h)"

definition bm_truncate :: "bytes_mut \<Rightarrow> nat \<Rightarrow> bytes_mut" where
  "bm_truncate b len = (if len < bm_len b then b\<lparr>bm_len := len\<rparr> else b)"

definition bm_truncate_off :: "bytes_mut \<Rightarrow> nat \<Rightarrow> bytes_mut" where
  "bm_truncate_off b off = (if off \<le> bm_len b then b\<lparr>bm_len := bm_len b - off\<rparr> else b)"

definition bm_clear :: "bytes_mut \<Rightarrow> bytes_mut" where
  "bm_clear b = b\<lparr>bm_len := 0\<rparr>"

subsection \<open>Reserving\<close>

text \<open>The last step of both reallocating branches: a new vector, the bytes copied into it.\<close>

definition realloc_copy :: "bytes_mut \<Rightarrow> nat \<Rightarrow> heap \<Rightarrow> (vec \<times> heap) res" where
  "realloc_copy b additional h =
     rbind (umul (bm_cap b) 2) (\<lambda>twice.
     rbind (uadd (bm_len b) additional) (\<lambda>need.
     let capacity = max twice need in
     rbind (vec_with_capacity capacity h) (\<lambda>(new_vec, h).
     rbind (copy_nonoverlapping h (bm_ptr b) (v_ptr new_vec) (bm_len b)) (\<lambda>h.
     Ok (new_vec, h)))))"

definition reserve_unpromoted :: "bytes_mut \<Rightarrow> nat \<Rightarrow> nat \<Rightarrow> bool \<Rightarrow> heap \<Rightarrow> ((bytes_mut \<times> bool) \<times> heap) res" where
  "reserve_unpromoted b offset additional allocate h =
     (let p = bm_ptr b; len = bm_len b in
      rbind (usub (bm_cap b) len) (\<lambda>spare.
      rbind (uadd offset spare) (\<lambda>remaining.
      if remaining \<ge> additional \<and> offset \<ge> len
      then rbind (ptr_sub h p offset) (\<lambda>buf_ptr.
           rbind (copy_nonoverlapping h p buf_ptr len) (\<lambda>h.
           rbind (uadd (bm_cap b) offset) (\<lambda>cap.
           rbind (mask_payload (bm_data b) 0) (\<lambda>data.
           Ok ((\<lparr>bm_ptr = buf_ptr, bm_len = len, bm_cap = cap, bm_data = data\<rparr>, True), h)))))
      else if \<not> allocate then Ok ((b, False), h)
      else rbind (realloc_copy b additional h) (\<lambda>(new_vec, h).
           rbind (original_buffer b offset h) (\<lambda>v.
           rbind (vec_drop v h) (\<lambda>h.
           rbind (mask_payload (bm_data b) 0) (\<lambda>data.
           Ok ((\<lparr>bm_ptr = v_ptr new_vec, bm_len = len, bm_cap = v_cap new_vec, bm_data = data\<rparr>, True), h))))))))"

definition reserve_realloc_promoted :: "bytes_mut \<Rightarrow> nat \<Rightarrow> bool \<Rightarrow> heap \<Rightarrow> ((bytes_mut \<times> bool) \<times> heap) res" where
  "reserve_realloc_promoted b additional allocate h =
     (if \<not> allocate then Ok ((b, False), h)
      else rbind (realloc_copy b additional h) (\<lambda>(new_vec, h).
           rbind (release (bm_data b) h) (\<lambda>h.
           Ok ((\<lparr>bm_ptr = v_ptr new_vec, bm_len = bm_len b, bm_cap = v_cap new_vec,
                 bm_data = new_unpromoted\<rparr>, True), h))))"

definition reserve_promoted :: "bytes_mut \<Rightarrow> shared \<Rightarrow> nat \<Rightarrow> bool \<Rightarrow> heap \<Rightarrow> ((bytes_mut \<times> bool) \<times> heap) res" where
  "reserve_promoted b shared additional allocate h =
     (let p = bm_ptr b; len = bm_len b in
      if is_unique shared
      then rbind (offset_from_unsigned p (sh_ptr shared)) (\<lambda>offset.
           rbind (uadd (bm_cap b) offset) (\<lambda>end'.
           rbind (usub (sh_cap shared) end') (\<lambda>remaining_tail.
           rbind (uadd (bm_cap b) remaining_tail) (\<lambda>cap.
           let b = b\<lparr>bm_cap := cap\<rparr> in
           if remaining_tail \<ge> additional then Ok ((b, True), h)
           else rbind (usub (bm_cap b) len) (\<lambda>spare.
                rbind (uadd offset spare) (\<lambda>remaining.
                if remaining \<ge> additional \<and> offset \<ge> len
                then rbind (copy_nonoverlapping h p (sh_ptr shared) len) (\<lambda>h.
                     rbind (uadd (bm_cap b) offset) (\<lambda>cap.
                     Ok ((b\<lparr>bm_ptr := sh_ptr shared, bm_cap := cap\<rparr>, True), h)))
                else reserve_realloc_promoted b additional allocate h))))))
      else reserve_realloc_promoted b additional allocate h)"

definition reserve_inner :: "bytes_mut \<Rightarrow> nat \<Rightarrow> bool \<Rightarrow> heap \<Rightarrow> ((bytes_mut \<times> bool) \<times> heap) res" where
  "reserve_inner b additional allocate h =
     (if additional = 0 then Ok ((b, True), h)
      else rbind (uadd additional (bm_cap b)) (\<lambda>total.
           rbind (rassert (total \<le> isize_max)) (\<lambda>_.
           rbind (as_unpromoted_mut h (bm_data b)) (\<lambda>r.
             case r of
               Inl offset \<Rightarrow> reserve_unpromoted b offset additional allocate h
             | Inr shared \<Rightarrow> reserve_promoted b shared additional allocate h))))"

definition bm_reserve :: "bytes_mut \<Rightarrow> nat \<Rightarrow> heap \<Rightarrow> (bytes_mut \<times> heap) res" where
  "bm_reserve b additional h =
     rbind (usub (bm_cap b) (bm_len b)) (\<lambda>spare.
     if spare \<ge> additional then Ok (b, h)
     else rbind (reserve_inner b additional True h) (\<lambda>((b, _), h). Ok (b, h)))"

definition bm_try_reclaim :: "bytes_mut \<Rightarrow> nat \<Rightarrow> heap \<Rightarrow> ((bytes_mut \<times> bool) \<times> heap) res" where
  "bm_try_reclaim b additional h =
     rbind (usub (bm_cap b) (bm_len b)) (\<lambda>spare.
     if spare \<ge> additional then Ok ((b, True), h) else reserve_inner b additional False h)"

definition bm_try_reclaim_full :: "bytes_mut \<Rightarrow> heap \<Rightarrow> ((bytes_mut \<times> bool) \<times> heap) res" where
  "bm_try_reclaim_full b h =
     rbind (as_unpromoted h (bm_data b)) (\<lambda>r.
     rbind (case r of
              Inl offset \<Rightarrow> rbind (usub (bm_cap b) (bm_len b)) (\<lambda>spare. uadd offset spare)
            | Inr shared \<Rightarrow> usub (sh_cap shared) (bm_len b)) (\<lambda>additional.
     reserve_inner b additional False h))"

subsection \<open>Advancing and splitting\<close>

definition bm_advance_unchecked :: "bytes_mut \<Rightarrow> nat \<Rightarrow> heap \<Rightarrow> bytes_mut res" where
  "bm_advance_unchecked b cnt h =
     (if cnt = 0 then Ok b
      else rbind (rassert (cnt \<le> bm_cap b)) (\<lambda>_.
           rbind (as_unpromoted h (bm_data b)) (\<lambda>r.
           rbind (case r of
                    Inl offset \<Rightarrow>
                      rbind (uadd offset cnt) (\<lambda>n.
                      rbind (mask_payload (bm_data b) n) (\<lambda>data.
                      rbind (rassert (n < isize_max)) (\<lambda>_. Ok data)))
                  | Inr _ \<Rightarrow> Ok (bm_data b)) (\<lambda>data.
           rbind (ptr_add h (bm_ptr b) cnt) (\<lambda>p.
           Ok \<lparr>bm_ptr = p, bm_len = bm_len b - cnt, bm_cap = bm_cap b - cnt, bm_data = data\<rparr>)))))"

definition bm_advance :: "bytes_mut \<Rightarrow> nat \<Rightarrow> heap \<Rightarrow> bytes_mut res" where
  "bm_advance b cnt h = rbind (rassert (cnt \<le> bm_len b)) (\<lambda>_. bm_advance_unchecked b cnt h)"

definition bm_advance_to_ptr :: "bytes_mut \<Rightarrow> ptr \<Rightarrow> heap \<Rightarrow> bytes_mut res" where
  "bm_advance_to_ptr b p h =
     rbind (offset_from_unsigned p (bm_ptr b)) (\<lambda>n. bm_advance_unchecked b n h)"

text \<open>\<open>shallow_clone\<close> duplicates the handle; the caller makes the two disjoint.\<close>

definition shallow_clone :: "bytes_mut \<Rightarrow> heap \<Rightarrow> ((bytes_mut \<times> bytes_mut) \<times> heap) res" where
  "shallow_clone b h =
     rbind (as_unpromoted h (bm_data b)) (\<lambda>r.
       case r of
         Inl offset \<Rightarrow>
           rbind (original_buffer b offset h) (\<lambda>v.
           rbind (promote_with_vec v 2 h) (\<lambda>(data, h).
           rbind (rassert (is_promoted data)) (\<lambda>_.
           let b = b\<lparr>bm_data := data\<rparr> in Ok ((b, b), h))))
       | Inr _ \<Rightarrow> rbind (increment (bm_data b) h) (\<lambda>h. Ok ((b, b), h)))"

definition bm_try_split_to :: "bytes_mut \<Rightarrow> nat \<Rightarrow> heap \<Rightarrow> ((bytes_mut \<times> bytes_mut option) \<times> heap) res" where
  "bm_try_split_to b at h =
     (if at > bm_len b then Ok ((b, None), h)
      else rbind (shallow_clone b h) (\<lambda>((b, clone), h).
           rbind (bm_advance_unchecked b at h) (\<lambda>b.
           Ok ((b, Some (clone\<lparr>bm_cap := at, bm_len := at\<rparr>)), h))))"

definition bm_split_to :: "bytes_mut \<Rightarrow> nat \<Rightarrow> heap \<Rightarrow> ((bytes_mut \<times> bytes_mut) \<times> heap) res" where
  "bm_split_to b at h =
     rbind (bm_try_split_to b at h) (\<lambda>((b, r), h).
       case r of Some ok \<Rightarrow> Ok ((b, ok), h) | None \<Rightarrow> Panic)"

definition bm_split :: "bytes_mut \<Rightarrow> heap \<Rightarrow> ((bytes_mut \<times> bytes_mut) \<times> heap) res" where
  "bm_split b h = bm_split_to b (bm_len b) h"

definition bm_try_split_off :: "bytes_mut \<Rightarrow> nat \<Rightarrow> heap \<Rightarrow> ((bytes_mut \<times> bytes_mut option) \<times> heap) res" where
  "bm_try_split_off b at h =
     (if at > bm_cap b then Ok ((b, None), h)
      else rbind (shallow_clone b h) (\<lambda>((b, other), h).
           rbind (bm_advance_unchecked other at h) (\<lambda>other.
           Ok ((b\<lparr>bm_cap := at, bm_len := min (bm_len b) at\<rparr>, Some other), h))))"

definition bm_split_off :: "bytes_mut \<Rightarrow> nat \<Rightarrow> heap \<Rightarrow> ((bytes_mut \<times> bytes_mut) \<times> heap) res" where
  "bm_split_off b at h =
     rbind (bm_try_split_off b at h) (\<lambda>((b, r), h).
       case r of Some ok \<Rightarrow> Ok ((b, ok), h) | None \<Rightarrow> Panic)"

text \<open>The pointer argument of \<open>split_to_ptr\<close> and \<open>split_off_ptr\<close> only matters as an address.\<close>

definition bm_split_to_ptr :: "bytes_mut \<Rightarrow> nat \<Rightarrow> heap \<Rightarrow> ((bytes_mut \<times> bytes_mut) \<times> heap) res" where
  "bm_split_to_ptr b addr h =
     (if ptr_addr h (bm_ptr b) \<le> addr then bm_split_to b (addr - ptr_addr h (bm_ptr b)) h else Panic)"

definition bm_split_off_ptr :: "bytes_mut \<Rightarrow> nat \<Rightarrow> heap \<Rightarrow> ((bytes_mut \<times> bytes_mut) \<times> heap) res" where
  "bm_split_off_ptr b addr h =
     (if ptr_addr h (bm_ptr b) \<le> addr then bm_split_off b (addr - ptr_addr h (bm_ptr b)) h else Panic)"

subsection \<open>Writing and joining\<close>

definition bm_extend_from_slice :: "bytes_mut \<Rightarrow> u8 list \<Rightarrow> heap \<Rightarrow> (bytes_mut \<times> heap) res" where
  "bm_extend_from_slice b xs h =
     (let additional = length xs in
      rbind (bm_reserve b additional h) (\<lambda>(b, h).
      rbind (spare_capacity_mut b h) (\<lambda>(dst, n).
      rbind (rassert (n \<ge> additional)) (\<lambda>_.
      rbind (copy_from h xs dst) (\<lambda>h.
      rbind (uadd (bm_len b) additional) (\<lambda>len.
      Ok (b\<lparr>bm_len := len\<rparr>, h)))))))"

text \<open>\<open>try_unsplit\<close>: \<open>None\<close> is \<open>Ok(())\<close>, \<open>Some other\<close> is \<open>Err(other)\<close>.\<close>

definition bm_try_unsplit :: "bytes_mut \<Rightarrow> bytes_mut \<Rightarrow> heap \<Rightarrow> ((bytes_mut \<times> bytes_mut option) \<times> heap) res" where
  "bm_try_unsplit b other h =
     (if bm_cap other = 0 then rbind (bm_drop other h) (\<lambda>h. Ok ((b, None), h))
      else rbind (ptr_add h (bm_ptr b) (bm_len b)) (\<lambda>p.
           if ptr_addr h p = ptr_addr h (bm_ptr other) \<and> is_promoted (bm_data b) \<and>
              is_promoted (bm_data other)
           then rbind (uadd (bm_len b) (bm_len other)) (\<lambda>len.
                rbind (uadd (bm_cap b) (bm_cap other)) (\<lambda>cap.
                rbind (bm_drop other h) (\<lambda>h.
                Ok ((b\<lparr>bm_len := len, bm_cap := cap\<rparr>, None), h))))
           else Ok ((b, Some other), h)))"

definition bm_unsplit :: "bytes_mut \<Rightarrow> bytes_mut \<Rightarrow> heap \<Rightarrow> (bytes_mut \<times> heap) res" where
  "bm_unsplit b other h =
     (if bm_len b = 0 then rbind (bm_drop b h) (\<lambda>h. Ok (other, h))
      else rbind (bm_try_unsplit b other h) (\<lambda>((b, r), h).
           case r of
             None \<Rightarrow> Ok (b, h)
           | Some other \<Rightarrow>
               rbind (bm_as_slice other h) (\<lambda>xs.
               rbind (bm_extend_from_slice b xs h) (\<lambda>(b, h).
               rbind (bm_drop other h) (\<lambda>h. Ok (b, h))))))"

definition bm_read :: "bytes_mut \<Rightarrow> nat \<Rightarrow> heap \<Rightarrow> (bytes_mut \<times> u8 list) res" where
  "bm_read b n h =
     (let read = min n (bm_len b) in
      rbind (bm_as_slice b h) (\<lambda>xs.
      rbind (bm_advance b read h) (\<lambda>b. Ok (b, take read xs))))"

definition bm_write :: "bytes_mut \<Rightarrow> u8 list \<Rightarrow> heap \<Rightarrow> ((bytes_mut \<times> nat) \<times> heap) res" where
  "bm_write b xs h =
     rbind (bm_extend_from_slice b xs h) (\<lambda>(b, h). Ok ((b, length xs), h))"

text \<open>The \<open>BufMut\<close> implementation.\<close>

definition bm_remaining_mut :: "bytes_mut \<Rightarrow> nat res" where
  "bm_remaining_mut b = usub isize_max (bm_len b)"

definition bm_chunk_mut :: "bytes_mut \<Rightarrow> heap \<Rightarrow> ((bytes_mut \<times> ptr \<times> nat) \<times> heap) res" where
  "bm_chunk_mut b h =
     rbind (if bm_cap b = bm_len b then bm_reserve b 64 h else Ok (b, h)) (\<lambda>(b, h).
     rbind (spare_capacity_mut b h) (\<lambda>(p, n). Ok ((b, p, n), h)))"

text \<open>What a caller of \<open>chunk_mut\<close> does: it stores bytes at the start of the spare slice.\<close>

definition bm_write_chunk :: "bytes_mut \<Rightarrow> u8 list \<Rightarrow> heap \<Rightarrow> heap res" where
  "bm_write_chunk b xs h =
     rbind (spare_capacity_mut b h) (\<lambda>(p, n). rbind (rassert (length xs \<le> n)) (\<lambda>_. copy_from h xs p))"

definition bm_advance_mut :: "bytes_mut \<Rightarrow> nat \<Rightarrow> bytes_mut res" where
  "bm_advance_mut b cnt = rbind (uadd (bm_len b) cnt) (\<lambda>n. bm_set_len b n)"

subsection \<open>Conversion between the two handles\<close>

definition bm_freeze :: "bytes_mut \<Rightarrow> heap \<Rightarrow> (bytes \<times> heap) res" where
  "bm_freeze b h =
     rbind (as_unpromoted h (bm_data b)) (\<lambda>r.
       case r of
         Inl offset \<Rightarrow>
           rbind (original_buffer b offset h) (\<lambda>v.
           rbind (bytes_from_vec v h) (\<lambda>(bytes, h).
           rbind (bytes_advance bytes offset h) (\<lambda>bytes. Ok (bytes, h))))
       | Inr _ \<Rightarrow> rbind (bytes_from_mut (bm_data b) b) (\<lambda>bytes. Ok (bytes, h)))"

definition into_mut_copy :: "bytes \<Rightarrow> heap \<Rightarrow> (bytes_mut \<times> heap) res" where
  "into_mut_copy b h =
     rbind (bytes_as_slice b h) (\<lambda>xs. rbind (slice_to_vec xs h) (\<lambda>(v, h). Ok (bm_from_vec v, h)))"

definition bytes_into_mut :: "bytes \<Rightarrow> heap \<Rightarrow> (bytes_mut \<times> heap) res" where
  "bytes_into_mut b h =
     (let shared = bs_data b in
      if shared = 0 then into_mut_copy b h
      else rbind (into_unpromoted h shared) (\<lambda>r.
        case r of
          Inl offset \<Rightarrow>
            rbind (build_unpromoted_vec b offset h) (\<lambda>v.
            rbind (bm_advance_unchecked (bm_from_vec v) offset h) (\<lambda>bufm. Ok (bufm, h)))
        | Inr s \<Rightarrow>
            rbind (release_into_vec shared (sh_cap s) h) (\<lambda>(r, h).
            case r of
              Some v \<Rightarrow>
                rbind (offset_from_unsigned (bs_ptr b) (sh_ptr s)) (\<lambda>n.
                rbind (bm_advance_unchecked (bm_from_vec v) n h) (\<lambda>bufm.
                rbind (bm_set_len bufm (bs_len b)) (\<lambda>bufm. Ok (bufm, h))))
            | None \<Rightarrow> into_mut_copy b h)))"

subsection \<open>Ownership facts\<close>

lemma mut_owner:
  assumes "wf_heap h (HMut b # R)"
  shows "owner_ok h (HMut b)" "bm_data b \<noteq> 0" "bm_len b \<le> bm_cap b"
    "ptr_off (bm_ptr b) + bm_cap b \<le> blk_size h (ptr_blk (bm_ptr b))"
    "blk_size h (ptr_blk (bm_ptr b)) < isize_max"
proof -
  have ok: "handle_ok h (HMut b)" and heap: "heap_ok h" using assms by (simp_all add: wf_heap_def)
  then show x: "owner_ok h (HMut b)" and "bm_data b \<noteq> 0"
    by (auto simp: handle_ok_def null_ok_def split: if_splits)
  then show "bm_len b \<le> bm_cap b"
    "ptr_off (bm_ptr b) + bm_cap b \<le> blk_size h (ptr_blk (bm_ptr b))"
    by (simp_all add: owner_ok_def)
  show "blk_size h (ptr_blk (bm_ptr b)) < isize_max" using owner_size [OF heap x] by simp
qed

lemma mut_unpromoted:
  assumes wf: "wf_heap h (HMut b # R)" and un: "is_unpromoted (bm_data b)"
  shows "payload (bm_data b) = ptr_off (bm_ptr b)" "bm_data b = tag (ptr_off (bm_ptr b))"
    "ptr_off (bm_ptr b) + bm_cap b = blk_size h (ptr_blk (bm_ptr b))" "sole (HMut b) R"
proof -
  have heap: "heap_ok h" using wf by (simp add: wf_heap_def)
  note x = mut_owner(1) [OF wf]
  show "payload (bm_data b) = ptr_off (bm_ptr b)" using owner_payload [OF heap x] un by simp
  show "bm_data b = tag (ptr_off (bm_ptr b))"
    "ptr_off (bm_ptr b) + bm_cap b = blk_size h (ptr_blk (bm_ptr b))"
    using x un by (simp_all add: owner_ok_def)
  show "sole (HMut b) R" by (rule sole_unpromoted [OF wf]) (simp add: un)
qed

lemma mut_promoted:
  assumes wf: "wf_heap h (HMut b # R)" and pro: "\<not> is_unpromoted (bm_data b)"
  obtains s where "hp_shared h (bm_data b) = Some s" "sh_ptr s = Ptr (ptr_blk (bm_ptr b)) 0"
    "sh_cap s = blk_size h (ptr_blk (bm_ptr b))" "is_unique s \<longleftrightarrow> sole (HMut b) R"
proof -
  note wfD = wf_ConsD [OF wf]
  have own: "owns (HMut b)" using mut_owner(2) [OF wf] by simp
  obtain s where s: "hp_shared h (bm_data b) = Some s" "sh_ptr s = Ptr (ptr_blk (bm_ptr b)) 0"
    "sh_cap s = blk_size h (ptr_blk (bm_ptr b))"
    using owner_box [OF wfD(2) own] pro by auto
  have "ref_count s = Suc (refs (bm_data b) R)" using counts_box [OF wfD(6) s(1)] by simp
  then have "is_unique s \<longleftrightarrow> sole (HMut b) R"
    using sole_iff_refs [OF wf own] pro by (simp add: is_unique_def)
  with s that show thesis by blast
qed

lemma original_buffer_Ok:
  assumes wf: "wf_heap h (HMut b # R)" and un: "is_unpromoted (bm_data b)"
  shows "original_buffer b (ptr_off (bm_ptr b)) h =
    Ok (whole_vec h (ptr_blk (bm_ptr b)) (bm_len b + ptr_off (bm_ptr b)))"
proof -
  let ?i = "ptr_blk (bm_ptr b)"
  note x = mut_owner [OF wf] and u = mut_unpromoted [OF wf un]
  have "blk_size h ?i \<le> usize_max" using x(5) by (simp add: isize_max_def usize_max_def)
  moreover have "ptr_sub h (bm_ptr b) (ptr_off (bm_ptr b)) = Ok (Ptr ?i 0)"
    using x(1) by (cases "bm_ptr b") (auto simp: ptr_sub_def owner_ok_def)
  moreover have "blk_ok h ?i" "\<not> blk_static (hp_blocks h ! ?i)" using x(1) by (simp_all add: owner_ok_def)
  ultimately show ?thesis
    using x(3) u(3) by (simp add: original_buffer_def uadd_Ok add.commute whole_vec_from_raw)
qed

lemma bm_drop_Ok:
  assumes wf: "wf_heap h (HMut b # R)" and len: "length R \<le> isize_max"
  shows "\<exists>h'. bm_drop b h = Ok h' \<and> wf_heap h' R \<and> quiet h h'"
proof (cases "is_unpromoted (bm_data b)")
  case True
  note x = mut_owner [OF wf] and u = mut_unpromoted [OF wf True]
  have heap: "heap_ok h" using wf by (simp add: wf_heap_def)
  note d = owner_dealloc [OF wf _ u(4)]
  have "bm_drop b h = Ok (dealloc h (ptr_blk (bm_ptr b)))"
    using True original_buffer_Ok [OF wf True] d(1) x u
    by (simp add: bm_drop_def as_unpromoted_Inl)
  then show ?thesis using d(2,3) [OF _ refl le0] x(2) by (simp add: box_free_dealloc_id [OF heap True])
next
  case False
  obtain s where "hp_shared h (bm_data b) = Some s" using mut_promoted [OF wf False] .
  with False release_Ok [OF wf _ _ len] mut_owner(2) [OF wf] show ?thesis
    by (simp add: bm_drop_def as_unpromoted_Inr)
qed

subsection \<open>Advancing and splitting\<close>

definition mut_part :: "bytes_mut \<Rightarrow> nat \<Rightarrow> nat \<Rightarrow> nat \<Rightarrow> usize \<Rightarrow> bytes_mut" where
  "mut_part b m l c data =
     \<lparr>bm_ptr = Ptr (ptr_blk (bm_ptr b)) (ptr_off (bm_ptr b) + m), bm_len = l, bm_cap = c, bm_data = data\<rparr>"

lemma mut_part_simps [simp]:
  "ptr_blk (bm_ptr (mut_part b m l c data)) = ptr_blk (bm_ptr b)"
  "ptr_off (bm_ptr (mut_part b m l c data)) = ptr_off (bm_ptr b) + m"
  "bm_len (mut_part b m l c data) = l" "bm_cap (mut_part b m l c data) = c"
  "bm_data (mut_part b m l c data) = data"
  by (simp_all add: mut_part_def)

lemma mut_part_0: "mut_part b 0 (bm_len b) (bm_cap b) (bm_data b) = b"
  by (cases b) (simp add: mut_part_def)

lemma view_mut_part:
  assumes "handle_ok h (HMut b)" "l \<le> bm_len b - m"
  shows "view h (HMut (mut_part b m l c data)) = take l (drop m (view h (HMut b)))"
proof (cases "m \<le> bm_len b")
  case True
  then show ?thesis
    using view_drop [of "HMut (mut_part b m (bm_len b - m) c data)" "HMut b" m h] assms(2)
      view_take [of "HMut (mut_part b m l c data)" "HMut (mut_part b m (bm_len b - m) c data)" l h]
    by (simp add: mut_part_def)
next
  case False
  then show ?thesis using assms(2) by (simp add: view_def)
qed

lemma init_mut_part:
  assumes "handle_ok h (HMut b)" "l \<le> bm_len b - m"
  shows "None \<notin> set (cells h (bm_ptr (mut_part b m l c data)) l)"
  using init_sub [of h "HMut b" "HMut (mut_part b m l c data)"] handle_init [OF assms(1)] assms(2)
  by (cases "l = 0") simp_all

lemma advance_promoted_eval:
  assumes "hp_shared h (bm_data b) \<noteq> None" "\<not> is_unpromoted (bm_data b)" "bm_data b \<noteq> 0"
    "cnt \<le> bm_cap b" "blk_ok h (ptr_blk (bm_ptr b))"
    "ptr_off (bm_ptr b) + bm_cap b \<le> blk_size h (ptr_blk (bm_ptr b))"
  shows "bm_advance_unchecked b cnt h = Ok (mut_part b cnt (bm_len b - cnt) (bm_cap b - cnt) (bm_data b))"
  using assms mut_part_0 [of b]
  by (auto simp: bm_advance_unchecked_def as_unpromoted_Inr ptr_add_def readable_def mut_part_def)

lemma wf_bm_advance:
  assumes wf: "wf_heap h (HMut b # R)" and cnt: "cnt \<le> bm_cap b"
  shows "\<exists>data. bm_advance_unchecked b cnt h = Ok (mut_part b cnt (bm_len b - cnt) (bm_cap b - cnt) data) \<and>
    wf_heap h (HMut (mut_part b cnt (bm_len b - cnt) (bm_cap b - cnt) data) # R)"
proof -
  let ?c = "\<lambda>data. mut_part b cnt (bm_len b - cnt) (bm_cap b - cnt) data"
  note x = mut_owner [OF wf] and wfD = wf_ConsD [OF wf]
  have init: "None \<notin> set (cells h (bm_ptr (?c data)) (bm_len b - cnt))" for data
    using init_mut_part [OF wfD(2)] by simp
  show ?thesis
  proof (cases "is_unpromoted (bm_data b)")
    case True
    note u = mut_unpromoted [OF wf True]
    let ?n = "ptr_off (bm_ptr b) + cnt"
    have n: "?n < isize_max" "?n \<le> usize_max" using x cnt by (simp_all add: isize_max_def usize_max_def)
    have "bm_advance_unchecked b cnt h = Ok (?c (tag ?n))"
    proof (cases "cnt = 0")
      case True
      then show ?thesis using mut_part_0 [of b] u(2) by (simp add: bm_advance_unchecked_def)
    next
      case False
      then show ?thesis
        using True cnt n u x
        by (simp add: bm_advance_unchecked_def as_unpromoted_Inl uadd_Ok mask_payload_Ok ptr_add_def
            readable_def owner_ok_def mut_part_def)
    qed
    moreover have "owner_ok h (HMut (?c (tag ?n)))"
      using x u cnt init by (auto simp: owner_ok_def)
    then have "wf_heap (box_free (bm_data b) h) (HMut (?c (tag ?n)) # R)"
      using wf_adopt [OF wf _ u(4)] x by simp
    ultimately show ?thesis using box_free_id [OF wfD(1) True] by auto
  next
    case False
    obtain s where s: "hp_shared h (bm_data b) = Some s" using mut_promoted [OF wf False] .
    have "bm_advance_unchecked b cnt h = Ok (?c (bm_data b))"
      by (rule advance_promoted_eval) (use s False x cnt in \<open>simp_all add: owner_ok_def\<close>)
    moreover have "wf_heap h (HMut (?c (bm_data b)) # R)"
      by (rule wf_shrink [OF wf]) (use False x cnt init in \<open>simp_all add: sub_def\<close>)
    ultimately show ?thesis by blast
  qed
qed

lemma bm_advance_Ok:
  assumes wf: "wf_heap h (HMut b # R)" and cnt: "cnt \<le> bm_len b"
  shows "\<exists>b'. bm_advance b cnt h = Ok b' \<and> wf_heap h (HMut b' # R) \<and>
    view h (HMut b') = drop cnt (view h (HMut b))"
proof -
  have "cnt \<le> bm_cap b" using mut_owner(3) [OF wf] cnt by simp
  from wf_bm_advance [OF wf this] obtain data where d:
    "bm_advance_unchecked b cnt h = Ok (mut_part b cnt (bm_len b - cnt) (bm_cap b - cnt) data)"
    "wf_heap h (HMut (mut_part b cnt (bm_len b - cnt) (bm_cap b - cnt) data) # R)" by blast
  have "length (view h (HMut b)) = bm_len b" using length_view [OF wf_ConsD(2) [OF wf]] by simp
  with d cnt view_mut_part [OF wf_ConsD(2) [OF wf], of "bm_len b - cnt" cnt] show ?thesis
    by (simp add: bm_advance_def)
qed

text \<open>After \<open>shallow_clone\<close> the two copies may take any two disjoint parts of the handle.\<close>

lemma shallow_clone_Ok:
  assumes wf: "wf_heap h (HMut b # R)" and room: "room h (HMut b # R)"
  shows "\<exists>a h'. shallow_clone b h = Ok ((b\<lparr>bm_data := a\<rparr>, b\<lparr>bm_data := a\<rparr>), h') \<and>
    a \<noteq> 0 \<and> \<not> is_unpromoted a \<and> hp_shared h' a \<noteq> None \<and> hp_blocks h' = hp_blocks h \<and> quiet h h' \<and>
    (\<forall>m l. m \<le> bm_cap b \<longrightarrow> l \<le> bm_len b \<longrightarrow> l \<le> m \<longrightarrow>
       wf_heap h' (HMut (mut_part b 0 l m a) # HMut (mut_part b m (bm_len b - m) (bm_cap b - m) a) # R))"
proof -
  let ?i = "ptr_blk (bm_ptr b)"
  note x = mut_owner [OF wf] and wfD = wf_ConsD [OF wf]
  have own: "owns (HMut b)" using x(2) by simp
  have parts: "\<forall>m l. m \<le> bm_cap b \<longrightarrow> l \<le> bm_len b \<longrightarrow> l \<le> m \<longrightarrow>
       wf_heap h' (HMut (mut_part b 0 l m a) # HMut (mut_part b m (bm_len b - m) (bm_cap b - m) a) # R)"
    if s: "sh_ptr s = Ptr ?i 0" "sh_cap s = blk_size h ?i" "ref_count s = 2 + refs a R"
      and a: "a = bm_data b \<and> \<not> is_unpromoted a \<or>
        is_unpromoted (bm_data b) \<and> hp_shared h a = None \<and> \<not> is_unpromoted a \<and> a \<noteq> 0"
      and h': "hp_blocks h' = hp_blocks h" "hp_base h' = hp_base h" "hp_empty h' = hp_empty h"
        "hp_shared h' = (hp_shared h)(a \<mapsto> s)" "hp_boxes h \<le> hp_boxes h'" "unat a \<le> 8 * hp_boxes h'"
    for a s h'
  proof (intro allI impI)
    fix m l
    assume ml: "m \<le> bm_cap b" "l \<le> bm_len b" "l \<le> m"
    let ?lo = "HMut (mut_part b 0 l m a)" and ?hi = "HMut (mut_part b m (bm_len b - m) (bm_cap b - m) a)"
    have "wf_heap h' ([?lo, ?hi] @ R)"
    proof (rule wf_share [OF wf own, where a = a and s = s])
      show "h_data y = a \<and> sub y (HMut b) \<and> h_len y \<le> h_ext y \<and> None \<notin> set (cells h (h_ptr y) (h_len y))"
        if "y \<in> set [?lo, ?hi]" for y
        using that ml x(3) init_mut_part [OF wfD(2), of l 0] init_mut_part [OF wfD(2), of "bm_len b - m" m]
        by (auto simp: sub_def)
      show "sorted_wrt compat [?lo, ?hi]"
        using a by (auto simp: compat_def separate_def)
    qed (use s a h' in simp_all)
    then show "wf_heap h' (?lo # ?hi # R)" by simp
  qed
  show ?thesis
  proof (cases "is_unpromoted (bm_data b)")
    case True
    note u = mut_unpromoted [OF wf True]
    let ?a = "box_addr (hp_boxes h)"
    let ?s = "\<lparr>ref_count = 2, sh_ptr = Ptr ?i 0, sh_cap = blk_size h ?i\<rparr>"
    let ?h = "h\<lparr>hp_shared := (hp_shared h)(?a \<mapsto> ?s), hp_boxes := Suc (hp_boxes h)\<rparr>"
    have box: "box_room h" using room True by (simp add: room_def)
    note f = box_fresh [OF wfD(1) box]
    have "shallow_clone b h = Ok ((b\<lparr>bm_data := ?a\<rparr>, b\<lparr>bm_data := ?a\<rparr>), ?h)"
      using True u original_buffer_Ok [OF wf True] promote_Ok [OF box]
      by (simp add: shallow_clone_def as_unpromoted_Inl whole_vec_def Let_def)
    moreover note parts [of ?s ?a ?h]
    ultimately show ?thesis
      using f True box_unused [OF wf box] quiet_blocks [of ?h h] by (auto intro!: exI [of _ ?a])
  next
    case False
    obtain s where s: "hp_shared h (bm_data b) = Some s" "sh_ptr s = Ptr ?i 0" "sh_cap s = blk_size h ?i"
      using mut_promoted [OF wf False] by blast
    let ?a = "bm_data b" let ?s = "s\<lparr>ref_count := Suc (refs ?a (HMut b # R))\<rparr>"
    have inc: "increment ?a h = Ok (box_set ?a ?s h)"
      by (rule increment_Ok [OF wf s(1)]) (use room in \<open>simp add: room_def\<close>)
    have b: "b\<lparr>bm_data := ?a\<rparr> = b" by (cases b) simp
    have "shallow_clone b h = Ok ((b, b), box_set ?a ?s h)"
      using False s x(2) inc by (simp add: shallow_clone_def as_unpromoted_Inr)
    moreover have "unat ?a \<le> 8 * hp_boxes h" using wfD(1) s(1) by (auto simp: heap_ok_def)
    moreover note parts [of ?s ?a "box_set ?a ?s h"]
    ultimately show ?thesis
      using s False x(2) b by (auto intro!: exI [of _ ?a])
  qed
qed

text \<open>The two halves of a split at \<open>at\<close>: adjacent, over one box, and no byte copied or changed.\<close>

definition mut_split :: "heap \<Rightarrow> bytes_mut \<Rightarrow> nat \<Rightarrow> handle list \<Rightarrow> bytes_mut \<Rightarrow> bytes_mut \<Rightarrow> heap \<Rightarrow> bool" where
  "mut_split h b n R lo hi h' \<longleftrightarrow>
     wf_heap h' (HMut lo # HMut hi # R) \<and> quiet h h' \<and>
     view h' (HMut lo) = take n (view h (HMut b)) \<and> view h' (HMut hi) = drop n (view h (HMut b)) \<and>
     bm_cap lo = n \<and> bm_cap hi = bm_cap b - n \<and> bm_ptr lo = bm_ptr b \<and>
     bm_ptr hi = Ptr (ptr_blk (bm_ptr b)) (ptr_off (bm_ptr b) + n) \<and>
     bm_data lo = bm_data hi \<and> \<not> is_unpromoted (bm_data lo)"

lemma clone_split:
  assumes wf: "wf_heap h (HMut b # R)" and room: "room h (HMut b # R)" and at: "at \<le> bm_cap b"
  shows "\<exists>a h'. shallow_clone b h = Ok ((b\<lparr>bm_data := a\<rparr>, b\<lparr>bm_data := a\<rparr>), h') \<and>
    bm_advance_unchecked (b\<lparr>bm_data := a\<rparr>) at h' = Ok (mut_part b at (bm_len b - at) (bm_cap b - at) a) \<and>
    mut_split h b at R (mut_part b 0 (min (bm_len b) at) at a) (mut_part b at (bm_len b - at) (bm_cap b - at) a) h'"
proof -
  let ?i = "ptr_blk (bm_ptr b)"
  note x = mut_owner [OF wf] and ok = wf_ConsD(2) [OF wf]
  have len: "length (view h (HMut b)) = bm_len b" using length_view [OF ok] by simp
  obtain a h' where c: "shallow_clone b h = Ok ((b\<lparr>bm_data := a\<rparr>, b\<lparr>bm_data := a\<rparr>), h')"
      "a \<noteq> 0" "\<not> is_unpromoted a" "hp_shared h' a \<noteq> None" "hp_blocks h' = hp_blocks h" "quiet h h'"
      "wf_heap h' (HMut (mut_part b 0 (min (bm_len b) at) at a) #
         HMut (mut_part b at (bm_len b - at) (bm_cap b - at) a) # R)"
    using shallow_clone_Ok [OF wf room] at by (metis min.cobounded1 min.cobounded2)
  have "bm_advance_unchecked (b\<lparr>bm_data := a\<rparr>) at h' =
      Ok (mut_part (b\<lparr>bm_data := a\<rparr>) at (bm_len b - at) (bm_cap b - at) a)"
    by (rule advance_promoted_eval [of h' "b\<lparr>bm_data := a\<rparr>" at, simplified])
      (use c x at in \<open>simp_all add: owner_ok_def blk_ok_def blk_size_def\<close>)
  then have adv: "bm_advance_unchecked (b\<lparr>bm_data := a\<rparr>) at h' =
      Ok (mut_part b at (bm_len b - at) (bm_cap b - at) a)" by (simp add: mut_part_def)
  have "view h (HMut (mut_part b 0 (min (bm_len b) at) at a)) = take at (view h (HMut b))"
    using view_mut_part [OF ok, of "min (bm_len b) at" 0] len by (simp add: min_def)
  moreover have "view h (HMut (mut_part b at (bm_len b - at) (bm_cap b - at) a)) = drop at (view h (HMut b))"
    using view_mut_part [OF ok, of "bm_len b - at" at] len by simp
  ultimately have "mut_split h b at R (mut_part b 0 (min (bm_len b) at) at a)
      (mut_part b at (bm_len b - at) (bm_cap b - at) a) h'"
    using c by (simp add: mut_split_def quiet_view) (simp add: mut_part_def)
  with c(1) adv show ?thesis by blast
qed

lemma mut_part_eq:
  "b\<lparr>bm_data := a, bm_cap := c, bm_len := l\<rparr> = mut_part b 0 l c a"
  by (cases b; cases "bm_ptr b") (simp add: mut_part_def)

lemma bm_try_split_to_Ok:
  assumes wf: "wf_heap h (HMut b # R)" and room: "room h (HMut b # R)" and at: "at \<le> bm_len b"
  shows "\<exists>lo hi h'. bm_try_split_to b at h = Ok ((hi, Some lo), h') \<and> mut_split h b at R lo hi h'"
proof -
  have "at \<le> bm_cap b" using at mut_owner(3) [OF wf] by simp
  from clone_split [OF wf room this] at mut_part_eq [where b = b and c = at and l = at] show ?thesis
    by (force simp: bm_try_split_to_def min_absorb2)
qed

lemma bm_try_split_off_Ok:
  assumes wf: "wf_heap h (HMut b # R)" and room: "room h (HMut b # R)" and at: "at \<le> bm_cap b"
  shows "\<exists>lo hi h'. bm_try_split_off b at h = Ok ((lo, Some hi), h') \<and> mut_split h b at R lo hi h'"
  using clone_split [OF wf room at] at mut_part_eq [where b = b and c = at and l = "min (bm_len b) at"]
  by (force simp: bm_try_split_off_def)

lemma bm_split_Panic:
  "bm_len b < at \<Longrightarrow> bm_split_to b at h = Panic" "bm_cap b < at \<Longrightarrow> bm_split_off b at h = Panic"
  "bm_len b < at \<Longrightarrow> bm_try_split_to b at h = Ok ((b, None), h)"
  "bm_cap b < at \<Longrightarrow> bm_try_split_off b at h = Ok ((b, None), h)"
  by (simp_all add: bm_split_to_def bm_split_off_def bm_try_split_to_def bm_try_split_off_def)

subsection \<open>Freezing and thawing\<close>

lemma frozen_ok:
  assumes wf: "wf_heap h (HMut b # R)"
  shows "view h (HBytes \<lparr>bs_ptr = bm_ptr b, bs_len = bm_len b, bs_data = a\<rparr>) = view h (HMut b)"
    "None \<notin> set (cells h (bm_ptr b) (bm_len b))"
  using handle_init [OF wf_ConsD(2) [OF wf]] by (simp_all add: view_def)

lemma freeze_unpromoted:
  assumes wf: "wf_heap h (HMut b # R)" and un: "is_unpromoted (bm_data b)"
    and room: "bm_len b + ptr_off (bm_ptr b) \<noteq> 0 \<Longrightarrow> bm_cap b \<noteq> bm_len b \<Longrightarrow> box_room h"
  shows "\<exists>c h'. bm_freeze b h = Ok (c, h') \<and> wf_heap h' (HBytes c # R) \<and> quiet h h' \<and>
    view h' (HBytes c) = view h (HMut b)"
proof -
  let ?i = "ptr_blk (bm_ptr b)" and ?off = "ptr_off (bm_ptr b)"
  let ?v = "whole_vec h ?i (bm_len b + ?off)"
  note x = mut_owner [OF wf] and u = mut_unpromoted [OF wf un] and wfD = wf_ConsD [OF wf]
  have ev: "bm_freeze b h = rbind (bytes_from_vec ?v h) (\<lambda>(c, h).
      rbind (bytes_advance c ?off h) (\<lambda>c. Ok (c, h)))"
    using un x(2) u(1) original_buffer_Ok [OF wf un] by (simp add: bm_freeze_def as_unpromoted_Inl)
  have p: "?off = 0 \<Longrightarrow> Ptr ?i 0 = bm_ptr b" by (metis ptr.collapse)
  have ok: "blk_ok h ?i" "\<not> blk_static (hp_blocks h ! ?i)" using x(1) by (simp_all add: owner_ok_def)
  have small: "?off \<le> isize_max" "?off \<le> usize_max"
    using x(4,5) by (simp_all add: isize_max_def usize_max_def)
  consider (empty) "bm_len b + ?off = 0" | (full) "bm_len b + ?off \<noteq> 0" "blk_size h ?i = bm_len b + ?off"
    | (spare) "bm_len b + ?off \<noteq> 0" "blk_size h ?i \<noteq> bm_len b + ?off" by blast
  then show ?thesis
  proof cases
    case empty
    have drop: "vec_drop ?v h = Ok (dealloc h ?i)" "wf_heap (dealloc h ?i) R" "quiet h (dealloc h ?i)"
      using owner_dealloc [OF wf _ u(4), of ?v 0] x(2) empty
      by (simp_all add: box_free_dealloc_id [OF wfD(1) un])
    have "bm_freeze b h = Ok (bytes_new (dealloc h ?i), dealloc h ?i)"
      using ev drop(1) empty
      by (simp add: bytes_from_vec_def whole_vec_def bytes_advance_def bytes_advance_unchecked_def)
    with drop bytes_new_Ok [OF drop(2)] empty show ?thesis by (simp add: view_def)
  next
    case full
    let ?c = "\<lparr>bs_ptr = bm_ptr b, bs_len = bm_len b, bs_data = tag ?off\<rparr>"
    have "bytes_advance \<lparr>bs_ptr = Ptr ?i 0, bs_len = bm_len b + ?off, bs_data = tag 0\<rparr> ?off h = Ok ?c"
      using full ok small p
      by (auto simp: bytes_advance_def bytes_advance_unchecked_def as_unpromoted_Inl uadd_Ok mask_payload_Ok
          ptr_add_def readable_def)
    moreover have "bytes_from_vec ?v h =
        Ok (\<lparr>bs_ptr = Ptr ?i 0, bs_len = bm_len b + ?off, bs_data = tag 0\<rparr>, h)"
      using full by (auto simp: bytes_from_vec_def whole_vec_def new_unpromoted_tag)
    ultimately have "bm_freeze b h = Ok (?c, h)" using ev by simp
    moreover have "owner_ok h (HBytes ?c)" using x u full frozen_ok [OF wf] by (simp add: owner_ok_def)
    then have "wf_heap h (HBytes ?c # R)"
      using wf_adopt [OF wf _ u(4), of "HBytes ?c"] x(2) by (simp add: box_free_id [OF wfD(1) un])
    ultimately show ?thesis using frozen_ok [OF wf] by simp
  next
    case spare
    have room: "box_room h" using room spare u(3) by auto
    let ?a = "box_addr (hp_boxes h)" and ?h = "boxed h ?i"
    let ?c = "\<lparr>bs_ptr = bm_ptr b, bs_len = bm_len b, bs_data = ?a\<rparr>"
    have wf': "wf_heap ?h (HBytes ?c # R)" "quiet h ?h"
      using wf_box [OF wf _ room, of "HBytes ?c"] un x(3) frozen_ok [OF wf] by (simp_all add: sub_def)
    have "blk_ok ?h ?i" "blk_size ?h ?i = blk_size h ?i"
      using ok by (simp_all add: boxed_def blk_ok_def blk_size_def)
    then have "bytes_advance \<lparr>bs_ptr = Ptr ?i 0, bs_len = bm_len b + ?off, bs_data = ?a\<rparr> ?off ?h = Ok ?c"
      using x(3,4) p
      by (auto simp: bytes_advance_def bytes_advance_unchecked_def as_unpromoted_Inr ptr_add_def readable_def)
    moreover have "bytes_from_vec ?v h =
        Ok (\<lparr>bs_ptr = Ptr ?i 0, bs_len = bm_len b + ?off, bs_data = ?a\<rparr>, ?h)"
      using spare promote_whole [OF room, of ?i "bm_len b + ?off"]
      by (auto simp: bytes_from_vec_def whole_vec_def)
    ultimately have "bm_freeze b h = Ok (?c, ?h)" using ev by simp
    with wf' frozen_ok [OF wf] quiet_view [OF wf'(2)] show ?thesis by simp
  qed
qed

lemma bm_freeze_Ok:
  assumes wf: "wf_heap h (HMut b # R)" and room: "is_unpromoted (bm_data b) \<Longrightarrow>
      bm_len b + ptr_off (bm_ptr b) \<noteq> 0 \<Longrightarrow> bm_cap b \<noteq> bm_len b \<Longrightarrow> box_room h"
  shows "\<exists>c h'. bm_freeze b h = Ok (c, h') \<and> wf_heap h' (HBytes c # R) \<and> quiet h h' \<and>
    view h' (HBytes c) = view h (HMut b)"
proof (cases "is_unpromoted (bm_data b)")
  case True
  then show ?thesis by (intro freeze_unpromoted [OF wf] room)
next
  case False
  let ?c = "\<lparr>bs_ptr = bm_ptr b, bs_len = bm_len b, bs_data = bm_data b\<rparr>"
  obtain s where "hp_shared h (bm_data b) = Some s" using mut_promoted [OF wf False] .
  then have "bm_freeze b h = Ok (?c, h)"
    using False mut_owner(2) [OF wf] by (simp add: bm_freeze_def as_unpromoted_Inr bytes_from_mut_def)
  moreover have "wf_heap h (HBytes ?c # R)"
    by (rule wf_shrink [OF wf]) (use False mut_owner(2,3) [OF wf] frozen_ok [OF wf] in \<open>simp_all add: sub_def\<close>)
  ultimately show ?thesis using frozen_ok [OF wf] by simp
qed

lemma bm_from_vec_Ok:
  assumes wf: "wf_heap h (HVec v # R)"
  shows "wf_heap h (HMut (bm_from_vec v) # R)" "view h (HMut (bm_from_vec v)) = view h (HVec v)"
proof -
  note v = wf_vec [OF wf]
  have heap: "heap_ok h" using wf by (simp add: wf_heap_def)
  have "owner_ok h (HMut (bm_from_vec v))"
    using v(3) by (simp add: owner_ok_def bm_from_vec_def new_unpromoted_tag)
  then show "wf_heap h (HMut (bm_from_vec v) # R)"
    using wf_adopt [OF wf _ v(4), of "HMut (bm_from_vec v)"]
    by (simp add: box_free_id [OF heap]) (simp add: bm_from_vec_def new_unpromoted_tag)
  show "view h (HMut (bm_from_vec v)) = view h (HVec v)" by (simp add: view_def bm_from_vec_def)
qed

lemma bm_with_capacity_Ok:
  assumes wf: "wf_heap h R" and alloc: "alloc_ok h n"
  shows "\<exists>b h'. bm_with_capacity n h = Ok (b, h') \<and> wf_heap h' (HMut b # R) \<and> frame h h' R \<and>
    view h' (HMut b) = [] \<and> n \<le> bm_cap b"
proof -
  note v = vec_with_capacity_Ok [OF wf alloc]
  with bm_from_vec_Ok [OF v(4)] show ?thesis
    by (simp add: bm_with_capacity_def) (simp add: bm_from_vec_def view_def)
qed

lemma bm_copy_from_slice_Ok:
  assumes wf: "wf_heap h R" and alloc: "alloc_ok h (length xs)"
  shows "\<exists>b h'. bm_copy_from_slice xs h = Ok (b, h') \<and> wf_heap h' (HMut b # R) \<and> frame h h' R \<and>
    view h' (HMut b) = xs"
  using slice_to_vec_Ok [OF wf alloc] bm_from_vec_Ok by (fastforce simp: bm_copy_from_slice_def)

lemma bm_as_slice_Ok: "handle_ok h (HMut b) \<Longrightarrow> bm_as_slice b h = Ok (view h (HMut b))"
  using handle_slice [of h "HMut b"] by (simp add: bm_as_slice_def)

lemma bm_clone_Ok:
  assumes wf: "wf_heap h (HMut b # R)" and alloc: "alloc_ok h (bm_len b)"
  shows "\<exists>c h'. bm_clone b h = Ok (c, h') \<and> wf_heap h' (HMut c # HMut b # R) \<and> frame h h' (HMut b # R) \<and>
    view h' (HMut c) = view h (HMut b)"
proof -
  have ok: "handle_ok h (HMut b)" using wf by (simp add: wf_heap_def)
  have "alloc_ok h (length (view h (HMut b)))" using alloc length_view [OF ok] by simp
  from bm_copy_from_slice_Ok [OF wf this] bm_as_slice_Ok [OF ok] show ?thesis by (simp add: bm_clone_def)
qed

lemma thaw_eval:
  assumes "blk_ok h' i" "blk_size h' i = blk_size h i" "off \<le> blk_size h i" "blk_size h i < isize_max"
  shows "bm_advance_unchecked (bm_from_vec (whole_vec h i n)) off h' =
    Ok \<lparr>bm_ptr = Ptr i off, bm_len = n - off, bm_cap = blk_size h i - off, bm_data = tag off\<rparr>"
proof -
  have "off \<le> isize_max" "off \<le> usize_max" using assms by (simp_all add: isize_max_def usize_max_def)
  with assms show ?thesis
    by (simp add: bm_advance_unchecked_def bm_from_vec_def whole_vec_def new_unpromoted_tag as_unpromoted_Inl
        uadd_Ok mask_payload_Ok ptr_add_def readable_def)
qed

definition thawed :: "heap \<Rightarrow> bytes \<Rightarrow> bytes_mut" where
  "thawed h b = \<lparr>bm_ptr = bs_ptr b, bm_len = bs_len b,
     bm_cap = blk_size h (ptr_blk (bs_ptr b)) - ptr_off (bs_ptr b), bm_data = tag (ptr_off (bs_ptr b))\<rparr>"

lemma thaw_adopt:
  assumes wf: "wf_heap h (HBytes b # R)" and own: "bs_data b \<noteq> 0" and sole: "sole (HBytes b) R"
  shows "wf_heap (box_free (bs_data b) h) (HMut (thawed h b) # R)"
    "view (box_free (bs_data b) h) (HMut (thawed h b)) = view h (HBytes b)"
proof -
  have x: "owner_ok h (HBytes b)" using wf own by (simp add: wf_heap_def handle_ok_def)
  then have "owner_ok h (HMut (thawed h b))" by (auto simp: owner_ok_def thawed_def)
  then show "wf_heap (box_free (bs_data b) h) (HMut (thawed h b) # R)"
    using wf_adopt [OF wf _ sole, of "HMut (thawed h b)"] own by (simp add: thawed_def)
  show "view (box_free (bs_data b) h) (HMut (thawed h b)) = view h (HBytes b)"
    by (simp add: view_def thawed_def)
qed

lemma bytes_into_mut_Ok:
  assumes wf: "wf_heap h (HBytes b # R)" and len: "length R \<le> isize_max"
    and alloc: "bs_data b = 0 \<or> \<not> is_unpromoted (bs_data b) \<and> refs (bs_data b) R \<noteq> 0 \<Longrightarrow> alloc_ok h (bs_len b)"
  shows "\<exists>m h'. bytes_into_mut b h = Ok (m, h') \<and> wf_heap h' (HMut m # R) \<and> frame h h' R \<and>
    view h' (HMut m) = view h (HBytes b)"
proof -
  let ?i = "ptr_blk (bs_ptr b)" and ?x = "HBytes b" and ?off = "ptr_off (bs_ptr b)"
  note wfD = wf_ConsD [OF wf]
  have copy: "\<exists>m h''. into_mut_copy b h' = Ok (m, h'') \<and> wf_heap h'' (HMut m # R) \<and> frame h h'' R \<and>
      view h'' (HMut m) = view h ?x"
    if h': "wf_heap h' R" "hp_blocks h' = hp_blocks h" "quiet h h'" "alloc_ok h (bs_len b)" for h'
  proof -
    obtain v h'' where v: "rbind (bytes_as_slice b h') (\<lambda>xs. slice_to_vec xs h') = Ok (v, h'')"
        "wf_heap h'' (HVec v # R)" "frame h h'' R" "view h'' (HVec v) = view h ?x"
      using copy_out_Ok [OF h'(1) wfD(2) h'(2,3)] h'(4) by (auto simp: bytes_as_slice_def)
    then show ?thesis using bm_from_vec_Ok [OF v(2)] by (auto simp: into_mut_copy_def)
  qed
  have thaw: "bm_advance_unchecked (bm_from_vec (whole_vec h ?i n)) ?off (box_free a h) =
      Ok \<lparr>bm_ptr = bs_ptr b, bm_len = n - ?off, bm_cap = blk_size h ?i - ?off, bm_data = tag ?off\<rparr>"
    if own: "bs_data b \<noteq> 0" for n a
  proof -
    have x: "owner_ok h ?x" using wfD(2) own by (simp add: handle_ok_def)
    then have "blk_size h ?i < isize_max" "?off \<le> blk_size h ?i" "blk_ok h ?i"
      using owner_size [OF wfD(1) x] by (simp_all add: owner_ok_def)
    then show ?thesis using thaw_eval [of "box_free a h" ?i h ?off n] by simp
  qed
  consider (null) "bs_data b = 0" | (un) "is_unpromoted (bs_data b)"
    | (pro) "bs_data b \<noteq> 0" "\<not> is_unpromoted (bs_data b)" by blast
  then show ?thesis
  proof cases
    case null
    then show ?thesis
      using copy [of h] wf_null_drop [OF wf] alloc by (simp add: bytes_into_mut_def)
  next
    case un
    then have own: "bs_data b \<noteq> 0" by (auto simp: is_unpromoted_odd)
    have x: "owner_ok h ?x" using wfD(2) own by (simp add: handle_ok_def)
    have "payload (bs_data b) = ?off" using owner_payload [OF wfD(1) x] un by simp
    moreover have "bs_len b = blk_size h ?i - ?off" using x un by (auto simp: owner_ok_def)
    ultimately have "bytes_into_mut b h = Ok (thawed h b, h)"
      using un own build_unpromoted_vec_Ok [OF wf un] thaw [OF own, of "blk_size h ?i" "bs_data b"]
      by (simp add: bytes_into_mut_def as_unpromoted_Inl box_free_id [OF wfD(1) un] thawed_def)
    then show ?thesis
      using thaw_adopt [OF wf own sole_unpromoted [OF wf]] un by (simp add: box_free_id [OF wfD(1) un])
  next
    case pro
    obtain s where s: "hp_shared h (bs_data b) = Some s" "sh_ptr s = Ptr ?i 0" "sh_cap s = blk_size h ?i"
      using owner_box [OF wfD(2)] pro by auto
    have ev: "bytes_into_mut b h = rbind (release_into_vec (bs_data b) (blk_size h ?i) h) (\<lambda>(r, h).
        case r of
          Some v \<Rightarrow> rbind (bm_advance_unchecked (bm_from_vec v) ?off h) (\<lambda>m.
                      rbind (bm_set_len m (bs_len b)) (\<lambda>m. Ok (m, h)))
        | None \<Rightarrow> into_mut_copy b h)"
      using pro s
      by (simp add: bytes_into_mut_def Let_def as_unpromoted_Inr offset_from_unsigned_def
          cong: option.case_cong)
    note rel = release_into_vec_Ok [OF wf _ _ len, of "blk_size h ?i"]
    show ?thesis
    proof (cases "refs (bs_data b) R = 0")
      case True
      have x: "owner_ok h ?x" using wfD(2) pro by (simp add: handle_ok_def)
      then have "bs_len b \<le> blk_size h ?i - ?off" by (auto simp: owner_ok_def)
      then have "bytes_into_mut b h = Ok (thawed h b, box_free (bs_data b) h)"
        using ev rel(1) pro True thaw [OF pro(1)] by (simp add: bm_set_len_def thawed_def)
      moreover have "frame h (box_free (bs_data b) h) R" by (simp add: quiet_frame)
      ultimately show ?thesis
        using thaw_adopt [OF wf pro(1) sole_unique [OF wf]] pro True by simp
    next
      case False
      then obtain h' where "release_into_vec (bs_data b) (blk_size h ?i) h = Ok (None, h')"
          "wf_heap h' R" "quiet h h'" "hp_blocks h' = hp_blocks h"
        using rel(2) pro by auto
      then show ?thesis using ev copy [of h'] alloc pro False by simp
    qed
  qed
qed

subsection \<open>Reserving\<close>

lemma alloc_ok_mono: "alloc_ok h n \<Longrightarrow> m \<le> n \<Longrightarrow> alloc_ok h m"
  by (auto simp: alloc_ok_def Let_def split: if_split_asm)

text \<open>Moving the bytes of the only owner to the start of its allocation.\<close>

lemma copy_back_Ok:
  assumes wf: "wf_heap h (HMut b # R)" and sole: "sole (HMut b) R"
    and full: "ptr_off (bm_ptr b) + bm_cap b = blk_size h (ptr_blk (bm_ptr b))"
    and gap: "bm_len b \<le> ptr_off (bm_ptr b)"
    and c: "c = \<lparr>bm_ptr = Ptr (ptr_blk (bm_ptr b)) 0, bm_len = bm_len b,
      bm_cap = blk_size h (ptr_blk (bm_ptr b)),
      bm_data = (if is_unpromoted (bm_data b) then tag 0 else bm_data b)\<rparr>"
  shows "\<exists>h'. copy_nonoverlapping h (bm_ptr b) (bm_ptr c) (bm_len b) = Ok h' \<and>
    wf_heap h' (HMut c # R) \<and> frame h h' R \<and> view h' (HMut c) = view h (HMut b) \<and>
    length (hp_blocks h') = length (hp_blocks h)"
proof -
  let ?i = "ptr_blk (bm_ptr b)" and ?xs = "cells h (bm_ptr b) (bm_len b)" and ?c = "c\<lparr>bm_len := 0\<rparr>"
  note x = mut_owner [OF wf] and wfD = wf_ConsD [OF wf]
  have len: "length ?xs = bm_len b" using x(3,4) by (simp add: length_cells)
  have "owner_ok h (HMut ?c)"
    using x(1) c by (cases "is_unpromoted (bm_data b)") (simp_all add: owner_ok_def)
  then have wf0: "wf_heap h (HMut ?c # R)"
    using wf_adopt [OF wf _ sole, of "HMut ?c"] wf_move [OF wf _ sole, of "HMut ?c"] x(2) c box_free_id [OF wfD(1)]
    by (cases "is_unpromoted (bm_data b)") simp_all
  let ?h = "store_cells h (bm_ptr c) ?xs"
  have "None \<notin> set ?xs" using x(1) by (simp add: owner_ok_def)
  note w = write_Ok [OF wf0 _ _ this, of "bm_ptr c"]
  have wr: "write_cells h (bm_ptr c) ?xs = Ok ?h" "wf_heap ?h (HMut ?c # R)" "frame h ?h R"
      "cells ?h (bm_ptr c) (bm_len b) = ?xs"
    using w x(2,3,4) c len by simp_all
  have "owner_ok ?h (HMut ?c)" using mut_owner(1) [OF wr(2)] .
  then have "owner_ok ?h (HMut c)"
    using wr(4) x(1,3,4) c by (cases "is_unpromoted (bm_data b)") (simp_all add: owner_ok_def)
  then have "wf_heap ?h (HMut c # R)"
    by (intro wf_move [OF wr(2)]) (use x(2) sole c in \<open>simp_all add: sole_def\<close>)
  moreover have "copy_nonoverlapping h (bm_ptr b) (bm_ptr c) (bm_len b) = Ok ?h"
    using wr(1) x(1,3) gap c
    by (simp add: copy_nonoverlapping_def ptr_copy_def apart_def readable_def owner_ok_def)
  moreover have "view ?h (HMut c) = view h (HMut b)" using wr(4) c by (simp add: view_def)
  ultimately show ?thesis using wr(3) by simp
qed

lemma realloc_copy_Ok:
  assumes wf: "wf_heap h (HMut b # R)" and alloc: "alloc_ok h (max (bm_cap b * 2) (bm_len b + n))"
  shows "\<exists>v c h'. realloc_copy b n h = Ok (v, h') \<and>
    c = \<lparr>bm_ptr = v_ptr v, bm_len = bm_len b, bm_cap = v_cap v, bm_data = tag 0\<rparr> \<and>
    wf_heap h' (HMut c # HMut b # R) \<and> frame h h' (HMut b # R) \<and> view h' (HMut c) = view h (HMut b) \<and>
    bm_len b + n \<le> v_cap v"
proof -
  let ?n = "max (bm_cap b * 2) (bm_len b + n)" and ?p = "Ptr (length (hp_blocks h)) 0"
  let ?c = "fresh_cap h ?n" and ?xs = "cells h (bm_ptr b) (bm_len b)"
  let ?g = "grow h ?c"
  let ?v = "\<lparr>v_ptr = ?p, v_len = 0, v_cap = ?c\<rparr>"
  let ?m = "\<lparr>bm_ptr = ?p, bm_len = bm_len b, bm_cap = ?c, bm_data = tag 0\<rparr>"
  let ?h = "store_cells ?g ?p ?xs"
  note x = mut_owner [OF wf] and v = vec_with_capacity_Ok [OF wf alloc]
  have len: "length ?xs = bm_len b" using x(3,4) by (simp add: length_cells)
  have c: "bm_len b \<le> ?c" "bm_len b + n \<le> ?c" "?n \<le> usize_max" using v(2,3) x(3)
    by (auto simp: isize_max_def usize_max_def)
  have blk: "ptr_blk (bm_ptr b) < length (hp_blocks h)" using x(1) by (simp add: owner_ok_def blk_ok_def)
  have cells: "cells ?g (bm_ptr b) (bm_len b) = ?xs" using grow_old(3) [OF blk refl] by simp
  have "None \<notin> set ?xs" using x(1) by (simp add: owner_ok_def)
  note w = write_Ok [OF v(4) _ _ this, of ?p]
  have wr: "write_cells ?g ?p ?xs = Ok ?h" "wf_heap ?h (HVec ?v # HMut b # R)" "frame ?g ?h (HMut b # R)"
      "cells ?h ?p (bm_len b) = ?xs"
    using w c(1) len by simp_all
  have "owner_ok ?h (HVec ?v)" by (rule wf_vec(3) [OF wr(2)])
  then have "owner_ok ?h (HMut ?m)"
    using wr(4) c(1) x(1) by (simp add: owner_ok_def)
  moreover have "heap_ok ?h" using wr(2) by (simp add: wf_heap_def)
  ultimately have "wf_heap ?h (HMut ?m # HMut b # R)"
    using wf_adopt [OF wr(2) _ wf_vec(4) [OF wr(2)], of "HMut ?m"] by (simp add: box_free_id)
  moreover have "frame h ?h (HMut b # R)" using frame_trans [OF v(5) wr(3)] .
  moreover have "copy_nonoverlapping ?g (bm_ptr b) ?p (bm_len b) = Ok ?h"
    using wr(1) cells x(1,3) blk grow_old(1,2) [OF blk]
    by (simp add: copy_nonoverlapping_def ptr_copy_def apart_def readable_def owner_ok_def)
  then have "realloc_copy b n h = Ok (?v, ?h)"
    using v(1) c(3) by (simp add: realloc_copy_def umul_Ok uadd_Ok Let_def)
  moreover have "view ?h (HMut ?m) = view h (HMut b)" using wr(4) by (simp add: view_def)
  ultimately show ?thesis using c(2) by fastforce
qed

text \<open>What a reservation promises: the same bytes, and the room asked for when it says so.\<close>

definition reserved :: "heap \<Rightarrow> bytes_mut \<Rightarrow> nat \<Rightarrow> handle list \<Rightarrow> bool \<Rightarrow> bytes_mut \<Rightarrow> bool \<Rightarrow> heap \<Rightarrow> bool" where
  "reserved h b n R allocate c ok h' \<longleftrightarrow>
     wf_heap h' (HMut c # R) \<and> frame h h' R \<and> view h' (HMut c) = view h (HMut b) \<and>
     (ok \<longrightarrow> n \<le> bm_cap c - bm_len c) \<and> (allocate \<longrightarrow> ok) \<and>
     (\<not> allocate \<longrightarrow> length (hp_blocks h') = length (hp_blocks h))"

text \<open>A reallocation ends by dropping the old handle.\<close>

lemma realloc_drop_Ok:
  assumes wf: "wf_heap h (HMut b # R)" and len: "length R < isize_max"
    and alloc: "alloc_ok h (max (bm_cap b * 2) (bm_len b + n))"
  shows "\<exists>v h1 h2. realloc_copy b n h = Ok (v, h1) \<and> bm_drop b h1 = Ok h2 \<and> wf_heap h1 (HMut b # HMut
      \<lparr>bm_ptr = v_ptr v, bm_len = bm_len b, bm_cap = v_cap v, bm_data = tag 0\<rparr> # R) \<and>
    reserved h b n R True \<lparr>bm_ptr = v_ptr v, bm_len = bm_len b, bm_cap = v_cap v, bm_data = tag 0\<rparr> True h2"
proof -
  obtain v c h1 where v: "realloc_copy b n h = Ok (v, h1)"
    and c: "c = \<lparr>bm_ptr = v_ptr v, bm_len = bm_len b, bm_cap = v_cap v, bm_data = tag 0\<rparr>"
    and wf1: "wf_heap h1 (HMut c # HMut b # R)" and fr: "frame h h1 (HMut b # R)"
    and view: "view h1 (HMut c) = view h (HMut b)" and cap: "bm_len b + n \<le> v_cap v"
    using realloc_copy_Ok [OF wf alloc] by blast
  have wf2: "wf_heap h1 (HMut b # HMut c # R)" by (rule wf_swap [OF wf1])
  from bm_drop_Ok [OF this] len obtain h2 where d: "bm_drop b h1 = Ok h2" "wf_heap h2 (HMut c # R)" "quiet h1 h2"
    by auto
  have "frame h h2 R" using frame_trans [OF _ quiet_frame [OF d(3)]] fr by simp
  with d view cap quiet_view [OF d(3)] have "reserved h b n R True c True h2"
    by (simp add: reserved_def c)
  with v d(1) wf2 show ?thesis by (auto simp: c)
qed

lemma reserve_unpromoted_Ok:
  assumes wf: "wf_heap h (HMut b # R)" and un: "is_unpromoted (bm_data b)" and len: "length R < isize_max"
    and alloc: "allocate \<longrightarrow> alloc_ok h (max (bm_cap b * 2) (bm_len b + n))"
  shows "\<exists>c ok h'. reserve_unpromoted b (ptr_off (bm_ptr b)) n allocate h = Ok ((c, ok), h') \<and>
    reserved h b n R allocate c ok h'"
proof -
  let ?i = "ptr_blk (bm_ptr b)" and ?off = "ptr_off (bm_ptr b)"
  note x = mut_owner [OF wf] and u = mut_unpromoted [OF wf un]
  have mask: "is_unpromoted a \<Longrightarrow> mask_payload a 0 = Ok (tag 0)" for a by (rule mask_payload_Ok) simp_all
  have small: "?off + bm_cap b \<le> usize_max" "?off + (bm_cap b - bm_len b) \<le> usize_max"
    using x u by (simp_all add: isize_max_def usize_max_def)
  consider (copy) "?off + (bm_cap b - bm_len b) \<ge> n \<and> ?off \<ge> bm_len b"
    | (no) "\<not> (?off + (bm_cap b - bm_len b) \<ge> n \<and> ?off \<ge> bm_len b)" "\<not> allocate"
    | (new) "\<not> (?off + (bm_cap b - bm_len b) \<ge> n \<and> ?off \<ge> bm_len b)" "allocate" by blast
  then show ?thesis
  proof cases
    case copy
    let ?c = "\<lparr>bm_ptr = Ptr ?i 0, bm_len = bm_len b, bm_cap = blk_size h ?i, bm_data = tag 0\<rparr>"
    obtain h' where h': "copy_nonoverlapping h (bm_ptr b) (Ptr ?i 0) (bm_len b) = Ok h'"
        "wf_heap h' (HMut ?c # R)" "frame h h' R" "view h' (HMut ?c) = view h (HMut b)"
        "length (hp_blocks h') = length (hp_blocks h)"
      using copy_back_Ok [OF wf u(4,3), of ?c] copy un by auto
    have "ptr_sub h (bm_ptr b) ?off = Ok (Ptr ?i 0)"
      using x(1) by (cases "bm_ptr b") (auto simp: ptr_sub_def owner_ok_def)
    then have "reserve_unpromoted b ?off n allocate h = Ok ((?c, True), h')"
      using copy h'(1) small x(3) un u(3)
      by (simp add: reserve_unpromoted_def Let_def usub_Ok uadd_Ok mask add.commute)
    moreover have "n \<le> blk_size h ?i - bm_len b" using copy x(3) u(3) by linarith
    ultimately show ?thesis using h' by (auto simp: reserved_def)
  next
    case no
    then have "reserve_unpromoted b ?off n allocate h = Ok ((b, False), h)"
      using small x(3) by (auto simp: reserve_unpromoted_def Let_def usub_Ok uadd_Ok)
    then show ?thesis using wf no by (auto simp: reserved_def)
  next
    case new
    obtain v h1 h2 where v: "realloc_copy b n h = Ok (v, h1)" "bm_drop b h1 = Ok h2"
      and r: "reserved h b n R True \<lparr>bm_ptr = v_ptr v, bm_len = bm_len b, bm_cap = v_cap v, bm_data = tag 0\<rparr> True h2"
      using realloc_drop_Ok [OF wf len] alloc new by blast
    have "rbind (original_buffer b ?off h1) (\<lambda>v. vec_drop v h1) = Ok h2"
      using v(2) un u(1) by (simp add: bm_drop_def as_unpromoted_Inl)
    then have "reserve_unpromoted b ?off n allocate h =
        Ok ((\<lparr>bm_ptr = v_ptr v, bm_len = bm_len b, bm_cap = v_cap v, bm_data = tag 0\<rparr>, True), h2)"
      using new small x(3) un v(1) by (auto simp: reserve_unpromoted_def Let_def usub_Ok uadd_Ok mask)
    with r new show ?thesis by auto
  qed
qed

lemma realloc_promoted_Ok:
  assumes wf: "wf_heap h (HMut b # R)" and pro: "\<not> is_unpromoted (bm_data b)" and len: "length R < isize_max"
    and alloc: "allocate \<longrightarrow> alloc_ok h (max (bm_cap b * 2) (bm_len b + n))"
  shows "\<exists>c ok h'. reserve_realloc_promoted b n allocate h = Ok ((c, ok), h') \<and> reserved h b n R allocate c ok h'"
proof (cases allocate)
  case True
  then obtain v h1 h2 where v: "realloc_copy b n h = Ok (v, h1)" "bm_drop b h1 = Ok h2"
      "wf_heap h1 (HMut b # HMut \<lparr>bm_ptr = v_ptr v, bm_len = bm_len b, bm_cap = v_cap v, bm_data = tag 0\<rparr> # R)"
    and r: "reserved h b n R True \<lparr>bm_ptr = v_ptr v, bm_len = bm_len b, bm_cap = v_cap v, bm_data = tag 0\<rparr> True h2"
    using realloc_drop_Ok [OF wf len] alloc by blast
  obtain s where "hp_shared h1 (bm_data b) = Some s" using mut_promoted [OF v(3) pro] .
  then have "release (bm_data b) h1 = Ok h2"
    using v(2) pro by (simp add: bm_drop_def as_unpromoted_Inr)
  with True v(1) r show ?thesis by (auto simp: reserve_realloc_promoted_def new_unpromoted_tag)
next
  case False
  with wf show ?thesis by (auto simp: reserve_realloc_promoted_def reserved_def)
qed

lemma reserve_promoted_Ok:
  assumes wf: "wf_heap h (HMut b # R)" and pro: "\<not> is_unpromoted (bm_data b)" and len: "length R < isize_max"
    and alloc: "allocate \<longrightarrow> alloc_ok h (max (blk_size h (ptr_blk (bm_ptr b)) * 2) (bm_len b + n))"
    and s: "hp_shared h (bm_data b) = Some s"
  shows "\<exists>c ok h'. reserve_promoted b s n allocate h = Ok ((c, ok), h') \<and> reserved h b n R allocate c ok h'"
proof (cases "is_unique s")
  case False
  have "allocate \<longrightarrow> alloc_ok h (max (bm_cap b * 2) (bm_len b + n))"
    using alloc alloc_ok_mono [of h] mut_owner(4) [OF wf] by (auto intro: alloc_ok_mono)
  with False realloc_promoted_Ok [OF wf pro len] show ?thesis by (simp add: reserve_promoted_def)
next
  case True
  let ?i = "ptr_blk (bm_ptr b)" and ?off = "ptr_off (bm_ptr b)"
  let ?tail = "blk_size h ?i - (bm_cap b + ?off)" and ?b = "b\<lparr>bm_cap := blk_size h ?i - ?off\<rparr>"
  note x = mut_owner [OF wf]
  have sp: "sh_ptr s = Ptr ?i 0" "sh_cap s = blk_size h ?i" and sole: "sole (HMut b) R"
    using mut_promoted [OF wf pro] s True by auto
  have "owner_ok h (HMut ?b)" using x pro by (auto simp: owner_ok_def)
  then have wf': "wf_heap h (HMut ?b # R)"
    by (intro wf_move [OF wf _ sole]) (use x in simp_all)
  have sole': "sole (HMut ?b) R" using sole by (simp add: sole_def)
  have view: "view h (HMut ?b) = view h (HMut b)" by (simp add: view_def)
  have ev: "reserve_promoted b s n allocate h =
      (if n \<le> ?tail then Ok ((?b, True), h)
       else if ?off + (blk_size h ?i - ?off - bm_len b) \<ge> n \<and> ?off \<ge> bm_len b
       then rbind (copy_nonoverlapping h (bm_ptr b) (Ptr ?i 0) (bm_len b)) (\<lambda>h'.
            Ok ((?b\<lparr>bm_ptr := Ptr ?i 0, bm_cap := blk_size h ?i\<rparr>, True), h'))
       else reserve_realloc_promoted ?b n allocate h)"
  proof -
    define t c k where t: "t = ?tail" and c: "c = blk_size h ?i - ?off" and k: "k = c - bm_len b"
    have "uadd (bm_cap b) ?off = Ok (bm_cap b + ?off)" "usub (sh_cap s) (bm_cap b + ?off) = Ok t"
      "uadd (bm_cap b) t = Ok c" "usub c (bm_len b) = Ok k" "uadd ?off k = Ok (?off + k)"
      "uadd c ?off = Ok (blk_size h ?i)"
      using x sp by (simp_all add: uadd_def usub_def t c k isize_max_def usize_max_def)
    then show ?thesis
      using True unfolding t [symmetric] c [symmetric] k [symmetric]
      by (simp add: reserve_promoted_def offset_from_unsigned_def sp(1) Let_def)
  qed
  consider (tail) "n \<le> ?tail"
    | (copy) "\<not> n \<le> ?tail" "?off + (blk_size h ?i - ?off - bm_len b) \<ge> n \<and> ?off \<ge> bm_len b"
    | (new) "\<not> n \<le> ?tail" "\<not> (?off + (blk_size h ?i - ?off - bm_len b) \<ge> n \<and> ?off \<ge> bm_len b)" by blast
  then show ?thesis
  proof cases
    case tail
    then have "reserved h b n R allocate ?b True h" using wf' view x by (auto simp: reserved_def)
    with tail ev show ?thesis by auto
  next
    case copy
    define c where c: "c = ?b\<lparr>bm_ptr := Ptr ?i 0, bm_cap := blk_size h ?i\<rparr>"
    have "c = \<lparr>bm_ptr = Ptr ?i 0, bm_len = bm_len b, bm_cap = blk_size h ?i, bm_data = bm_data b\<rparr>"
      by (cases b) (simp add: c)
    from copy_back_Ok [OF wf' sole', of c] this copy(2) x view pro obtain h' where
      h': "copy_nonoverlapping h (bm_ptr b) (Ptr ?i 0) (bm_len b) = Ok h'" "wf_heap h' (HMut c # R)"
        "frame h h' R" "view h' (HMut c) = view h (HMut b)" "length (hp_blocks h') = length (hp_blocks h)"
      by auto
    have "reserved h b n R allocate c True h'" using h' copy x by (auto simp: reserved_def c)
    with copy ev h'(1) show ?thesis by (auto simp: c)
  next
    case new
    have "allocate \<longrightarrow> alloc_ok h (max (bm_cap ?b * 2) (bm_len ?b + n))"
      using alloc by (auto intro: alloc_ok_mono)
    from realloc_promoted_Ok [OF wf' _ len this] pro obtain c ok h' where
      r: "reserve_realloc_promoted ?b n allocate h = Ok ((c, ok), h')" "reserved h ?b n R allocate c ok h'" by auto
    then have "reserved h b n R allocate c ok h'" using view by (simp add: reserved_def)
    with new ev r(1) show ?thesis by auto
  qed
qed

lemma reserve_inner_Ok:
  assumes wf: "wf_heap h (HMut b # R)" and len: "length R < isize_max" and n: "n + bm_cap b \<le> isize_max"
    and alloc: "allocate \<longrightarrow> alloc_ok h (max (blk_size h (ptr_blk (bm_ptr b)) * 2) (bm_len b + n))"
  shows "\<exists>c ok h'. reserve_inner b n allocate h = Ok ((c, ok), h') \<and> reserved h b n R allocate c ok h'"
proof (cases "n = 0")
  case True
  with wf show ?thesis by (auto simp: reserve_inner_def reserved_def)
next
  case False
  have "n + bm_cap b \<le> usize_max" using n by (simp add: isize_max_def usize_max_def)
  then have ev: "reserve_inner b n allocate h = rbind (as_unpromoted_mut h (bm_data b)) (\<lambda>r.
      case r of Inl offset \<Rightarrow> reserve_unpromoted b offset n allocate h
      | Inr s \<Rightarrow> reserve_promoted b s n allocate h)"
    using False n by (simp add: reserve_inner_def uadd_Ok)
  show ?thesis
  proof (cases "is_unpromoted (bm_data b)")
    case True
    have "allocate \<longrightarrow> alloc_ok h (max (bm_cap b * 2) (bm_len b + n))"
      using alloc mut_owner(4) [OF wf] by (auto intro: alloc_ok_mono)
    from reserve_unpromoted_Ok [OF wf True len this] show ?thesis
      using ev True mut_unpromoted(1) [OF wf True] by (simp add: as_unpromoted_Inl)
  next
    case False
    obtain s where s: "hp_shared h (bm_data b) = Some s" using mut_promoted [OF wf False] .
    from reserve_promoted_Ok [OF wf False len alloc s] show ?thesis
      using ev False s by (simp add: as_unpromoted_Inr)
  qed
qed

lemma bm_reserve_Ok:
  assumes wf: "wf_heap h (HMut b # R)" and len: "length R < isize_max" and n: "n + bm_cap b \<le> isize_max"
    and alloc: "alloc_ok h (max (blk_size h (ptr_blk (bm_ptr b)) * 2) (bm_len b + n))"
  shows "\<exists>c h'. bm_reserve b n h = Ok (c, h') \<and> reserved h b n R True c True h'"
proof (cases "n \<le> bm_cap b - bm_len b")
  case True
  then show ?thesis
    using wf mut_owner(3) [OF wf] by (simp add: bm_reserve_def usub_Ok reserved_def)
next
  case False
  from reserve_inner_Ok [OF wf len n, of True] alloc obtain c ok h' where
    r: "reserve_inner b n True h = Ok ((c, ok), h')" "reserved h b n R True c ok h'" by auto
  then have "reserved h b n R True c True h'" by (simp add: reserved_def)
  with r(1) False mut_owner(3) [OF wf] show ?thesis by (simp add: bm_reserve_def usub_Ok)
qed

lemma bm_try_reclaim_Ok:
  assumes wf: "wf_heap h (HMut b # R)" and len: "length R < isize_max" and n: "n + bm_cap b \<le> isize_max"
  shows "\<exists>c ok h'. bm_try_reclaim b n h = Ok ((c, ok), h') \<and> reserved h b n R False c ok h'"
proof (cases "n \<le> bm_cap b - bm_len b")
  case True
  then show ?thesis
    using wf mut_owner(3) [OF wf] by (auto simp: bm_try_reclaim_def usub_Ok reserved_def)
next
  case False
  from reserve_inner_Ok [OF wf len n, of False] False mut_owner(3) [OF wf] show ?thesis
    by (simp add: bm_try_reclaim_def usub_Ok)
qed

text \<open>What \<open>try_reclaim_full\<close> asks for: everything of the allocation but the bytes.\<close>

definition reclaimable :: "heap \<Rightarrow> bytes_mut \<Rightarrow> nat" where
  "reclaimable h b = blk_size h (ptr_blk (bm_ptr b)) - bm_len b"

lemma bm_try_reclaim_full_Ok:
  assumes wf: "wf_heap h (HMut b # R)" and len: "length R < isize_max"
    and n: "reclaimable h b + bm_cap b \<le> isize_max"
  shows "\<exists>c ok h'. bm_try_reclaim_full b h = Ok ((c, ok), h') \<and>
    reserved h b (reclaimable h b) R False c ok h'"
proof -
  note x = mut_owner [OF wf]
  have "bm_try_reclaim_full b h = reserve_inner b (reclaimable h b) False h"
  proof (cases "is_unpromoted (bm_data b)")
    case True
    note u = mut_unpromoted [OF wf True]
    have "ptr_off (bm_ptr b) + (bm_cap b - bm_len b) = reclaimable h b"
      using x u by (simp add: reclaimable_def)
    moreover have "reclaimable h b \<le> usize_max" using n by (simp add: isize_max_def usize_max_def)
    ultimately show ?thesis
      using True u(1) x by (simp add: bm_try_reclaim_full_def as_unpromoted_Inl usub_Ok uadd_Ok)
  next
    case False
    obtain s where "hp_shared h (bm_data b) = Some s" "sh_cap s = blk_size h (ptr_blk (bm_ptr b))"
      using mut_promoted [OF wf False] .
    with False x show ?thesis
      by (simp add: bm_try_reclaim_full_def as_unpromoted_Inr usub_Ok reclaimable_def)
  qed
  with reserve_inner_Ok [OF wf len n, of False] show ?thesis by simp
qed

subsection \<open>Writing and joining\<close>

text \<open>The length may be any initialised part of the capacity.\<close>

lemma wf_set_len:
  assumes wf: "wf_heap h (HMut c # R)" and l: "l \<le> bm_cap c" "None \<notin> set (cells h (bm_ptr c) l)"
  shows "wf_heap h (HMut (c\<lparr>bm_len := l\<rparr>) # R)"
proof -
  have "owner_ok h (HMut (c\<lparr>bm_len := l\<rparr>))"
    using mut_owner(1) [OF wf] l by (cases "is_unpromoted (bm_data c)") (simp_all add: owner_ok_def)
  then have "handle_ok h (HMut (c\<lparr>bm_len := l\<rparr>))"
    using mut_owner(2) [OF wf] by (simp add: handle_ok_def)
  moreover have "compat (HMut (c\<lparr>bm_len := l\<rparr>)) r = compat (HMut c) r" for r
    by (simp add: compat_def separate_def)
  ultimately show ?thesis
    using wf by (simp add: wf_heap_def counts_ok_def no_leak_def)
qed

lemma bm_truncate_Ok:
  assumes wf: "wf_heap h (HMut b # R)"
  shows "wf_heap h (HMut (bm_truncate b n) # R)" "view h (HMut (bm_truncate b n)) = take n (view h (HMut b))"
proof -
  note ok = wf_ConsD(2) [OF wf]
  have part: "b\<lparr>bm_len := n\<rparr> = mut_part b 0 n (bm_cap b) (bm_data b)"
    by (cases b; cases "bm_ptr b") (simp add: mut_part_def)
  have len: "length (view h (HMut b)) = bm_len b" using length_view [OF ok] by simp
  have init: "None \<notin> set (cells h (bm_ptr b) n)" if "n < bm_len b"
    using init_mut_part [OF ok, of n 0] that by (simp add: mut_part_def)
  show "wf_heap h (HMut (bm_truncate b n) # R)"
    using wf wf_set_len [OF wf _ init] mut_owner(3) [OF wf] by (simp add: bm_truncate_def)
  show "view h (HMut (bm_truncate b n)) = take n (view h (HMut b))"
    using part view_mut_part [OF ok, of n 0] len by (simp add: bm_truncate_def)
qed

lemma bm_truncate_off_eq:
  "bm_truncate_off b off = (if off \<le> bm_len b then bm_truncate b (bm_len b - off) else b)"
  "bm_clear b = bm_truncate b 0"
  by (cases b; auto simp: bm_truncate_off_def bm_truncate_def bm_clear_def)+

text \<open>What a call that may grow the buffer asks of the allocator.\<close>

definition grow_ok :: "heap \<Rightarrow> bytes_mut \<Rightarrow> nat \<Rightarrow> bool" where
  "grow_ok h b n \<longleftrightarrow> n + bm_cap b \<le> isize_max \<and>
     alloc_ok h (max (blk_size h (ptr_blk (bm_ptr b)) * 2) (bm_len b + n))"

text \<open>Storing in the spare capacity is seen by nobody, until the length is set.\<close>

lemma spare_store:
  assumes wf: "wf_heap h (HMut b # R)" and fits: "length xs \<le> bm_cap b - bm_len b"
  obtains h' where "bm_write_chunk b xs h = Ok h'" "wf_heap h' (HMut b # R)" "frame h h' R" "hp_boxes h' = hp_boxes h"
    "view h' (HMut b) = view h (HMut b)"
    "\<forall>n\<le>length xs. wf_heap h' (HMut (b\<lparr>bm_len := bm_len b + n\<rparr>) # R) \<and>
       view h' (HMut (b\<lparr>bm_len := bm_len b + n\<rparr>)) = view h (HMut b) @ take n xs"
proof -
  note x = mut_owner [OF wf]
  let ?p = "Ptr (ptr_blk (bm_ptr b)) (ptr_off (bm_ptr b) + bm_len b)"
  let ?h = "store_cells h ?p (map Some xs)"
  have room: "bm_len b + length xs \<le> bm_cap b" using fits x(3) by simp
  note w = write_Ok [OF wf, of "map Some xs" ?p]
  have w': "copy_from h xs ?p = Ok ?h" "wf_heap ?h (HMut b # R)" "frame h ?h R"
      "cells ?h ?p (length xs) = map Some xs"
    using w x room by (simp_all add: copy_from_def)
  have old: "cells ?h (bm_ptr b) (bm_len b) = cells h (bm_ptr b) (bm_len b)"
    by (rule cells_store_below) (use x room in simp_all)
  have cells: "cells ?h (bm_ptr b) (bm_len b + n) = cells h (bm_ptr b) (bm_len b) @ map Some (take n xs)"
    if "n \<le> length xs" for n
    using cells_add [of ?h "bm_ptr b" "bm_len b" n] old w'(4) cells_take [OF that, of ?h ?p] by (simp add: take_map)
  have set: "wf_heap ?h (HMut (b\<lparr>bm_len := bm_len b + n\<rparr>) # R)" if "n \<le> length xs" for n
    by (rule wf_set_len [OF w'(2)]) (use cells [OF that] x(1) that room in \<open>auto simp: owner_ok_def\<close>)
  have view: "view ?h (HMut (b\<lparr>bm_len := bm_len b + n\<rparr>)) = view h (HMut b) @ take n xs" if "n \<le> length xs" for n
    using cells [OF that] by (simp add: view_def comp_def)
  have "readable h (bm_ptr b) (bm_len b)" using x(1,3,4) by (simp add: readable_def owner_ok_def)
  then have "bm_write_chunk b xs h = Ok ?h"
    using fits w'(1) x(3) by (simp add: bm_write_chunk_def spare_capacity_mut_def ptr_add_def usub_Ok rassert_def)
  then show thesis by (rule that) (use w'(2,3) set view [of 0] view in simp_all)
qed

text \<open>Without a reservation: the bytes go into the spare capacity.\<close>

lemma bm_extend_spare:
  assumes wf: "wf_heap h (HMut c # R)" and fits: "length xs \<le> bm_cap c - bm_len c"
  obtains h' where "bm_extend_from_slice c xs h = Ok (c\<lparr>bm_len := bm_len c + length xs\<rparr>, h')"
    "wf_heap h' (HMut (c\<lparr>bm_len := bm_len c + length xs\<rparr>) # R)" "frame h h' R" "hp_boxes h' = hp_boxes h"
    "view h' (HMut (c\<lparr>bm_len := bm_len c + length xs\<rparr>)) = view h (HMut c) @ xs"
proof -
  note x = mut_owner [OF wf]
  obtain h' where h': "bm_write_chunk c xs h = Ok h'" "frame h h' R" "hp_boxes h' = hp_boxes h"
    "\<forall>n\<le>length xs. wf_heap h' (HMut (c\<lparr>bm_len := bm_len c + n\<rparr>) # R) \<and>
       view h' (HMut (c\<lparr>bm_len := bm_len c + n\<rparr>)) = view h (HMut c) @ take n xs" by (rule spare_store [OF wf fits])
  have "bm_len c + length xs \<le> usize_max" using fits x(3,4,5) by (simp add: isize_max_def usize_max_def)
  then have "bm_extend_from_slice c xs h = Ok (c\<lparr>bm_len := bm_len c + length xs\<rparr>, h')"
    using fits h'(1) x(3)
    by (auto simp: bm_extend_from_slice_def bm_write_chunk_def bm_reserve_def usub_Ok uadd_Ok rassert_def Let_def
        split: if_split_asm)
  with h' that show thesis by auto
qed

lemma bm_extend_Ok:
  assumes wf: "wf_heap h (HMut b # R)" and len: "length R < isize_max" and n: "length xs + bm_cap b \<le> isize_max"
    and alloc: "alloc_ok h (max (blk_size h (ptr_blk (bm_ptr b)) * 2) (bm_len b + length xs))"
  shows "\<exists>c h'. bm_extend_from_slice b xs h = Ok (c, h') \<and> wf_heap h' (HMut c # R) \<and> frame h h' R \<and>
    view h' (HMut c) = view h (HMut b) @ xs"
proof -
  obtain c h1 where c: "bm_reserve b (length xs) h = Ok (c, h1)" "wf_heap h1 (HMut c # R)" "frame h h1 R"
      "view h1 (HMut c) = view h (HMut b)" "length xs \<le> bm_cap c - bm_len c"
    using bm_reserve_Ok [OF wf len n alloc] by (auto simp: reserved_def)
  have "bm_reserve c (length xs) h1 = Ok (c, h1)"
    using c(5) mut_owner(3) [OF c(2)] by (simp add: bm_reserve_def usub_Ok)
  then have "bm_extend_from_slice b xs h = bm_extend_from_slice c xs h1"
    using c(1) by (simp add: bm_extend_from_slice_def)
  moreover obtain h' where "bm_extend_from_slice c xs h1 = Ok (c\<lparr>bm_len := bm_len c + length xs\<rparr>, h')"
    "wf_heap h' (HMut (c\<lparr>bm_len := bm_len c + length xs\<rparr>) # R)" "frame h1 h' R"
    "view h' (HMut (c\<lparr>bm_len := bm_len c + length xs\<rparr>)) = view h1 (HMut c) @ xs"
    by (rule bm_extend_spare [OF c(2,5)])
  ultimately show ?thesis using frame_trans [OF c(3)] c(4) by auto
qed

lemma quiet_size:
  assumes "quiet h h'"
  shows "blk_size h' i = blk_size h i"
proof -
  let ?n = "max (blk_size h i) (blk_size h' i)"
  have "cells h' (Ptr i 0) ?n = cells h (Ptr i 0) ?n" using assms by (simp add: quiet_def)
  then show ?thesis by (simp add: cells_def blk_size_def)
qed

text \<open>A promoted handle may take over a neighbouring extent that nobody else touches.\<close>

lemma wf_extend:
  assumes wf: "wf_heap h (HMut b # R)" and pro: "\<not> is_unpromoted (bm_data b)"
    and c: "l \<le> k" "ptr_off (bm_ptr b) + k \<le> blk_size h (ptr_blk (bm_ptr b))"
      "None \<notin> set (cells h (bm_ptr b) l)"
    and comp: "\<forall>r\<in>set R. compat (HMut (b\<lparr>bm_len := l, bm_cap := k\<rparr>)) r"
  shows "wf_heap h (HMut (b\<lparr>bm_len := l, bm_cap := k\<rparr>) # R)"
proof -
  have "handle_ok h (HMut (b\<lparr>bm_len := l, bm_cap := k\<rparr>))"
    using mut_owner(1,2) [OF wf] pro c by (simp add: handle_ok_def owner_ok_def)
  then show ?thesis
    using wf comp by (simp add: wf_heap_def counts_ok_def no_leak_def)
qed

lemma separate_join:
  assumes "separate x r" "separate y r" "h_off y = h_off x + h_ext x" "h_off z = h_off x"
    "h_ext z = h_ext x + h_ext y"
  shows "separate z r"
  using assms by (auto simp: separate_def)

text \<open>\<open>try_unsplit\<close> merges if the second handle starts where the bytes of the first end.\<close>

definition adjacent :: "heap \<Rightarrow> bytes_mut \<Rightarrow> bytes_mut \<Rightarrow> bool" where
  "adjacent h b c \<longleftrightarrow>
     ptr_addr h (bm_ptr b) + bm_len b = ptr_addr h (bm_ptr c) \<and>
     \<not> is_unpromoted (bm_data b) \<and> \<not> is_unpromoted (bm_data c)"

lemma try_unsplit_eval:
  assumes wf: "wf_heap h (HMut b # R)" and cap: "bm_cap c \<noteq> 0"
  shows "bm_try_unsplit b c h =
    (if adjacent h b c
     then rbind (uadd (bm_len b) (bm_len c)) (\<lambda>len.
          rbind (uadd (bm_cap b) (bm_cap c)) (\<lambda>cap.
          rbind (bm_drop c h) (\<lambda>h. Ok ((b\<lparr>bm_len := len, bm_cap := cap\<rparr>, None), h))))
     else Ok ((b, Some c), h))"
proof -
  have "readable h (bm_ptr b) (bm_len b)" using mut_owner [OF wf] by (simp add: readable_def owner_ok_def)
  then show ?thesis
    using cap by (simp add: bm_try_unsplit_def adjacent_def ptr_add_def ptr_addr_def add.assoc)
qed

lemma try_unsplit_merge:
  assumes wf: "wf_heap h (HMut b # HMut c # R)" and len: "length R < isize_max"
    and adj: "adjacent h b c" and same: "bm_data b = bm_data c" and cap: "bm_cap c \<noteq> 0"
  shows "\<exists>d h'. bm_try_unsplit b c h = Ok ((d, None), h') \<and> wf_heap h' (HMut d # R) \<and> quiet h h' \<and>
    view h' (HMut d) = view h (HMut b) @ view h (HMut c)"
proof -
  let ?d = "b\<lparr>bm_len := bm_len b + bm_len c, bm_cap := bm_cap b + bm_cap c\<rparr>"
  have wf': "wf_heap h (HMut c # HMut b # R)" by (rule wf_swap [OF wf])
  note x = mut_owner [OF wf] and y = mut_owner [OF wf']
  have pro: "\<not> is_unpromoted (bm_data b)" "\<not> is_unpromoted (bm_data c)" using adj by (simp_all add: adjacent_def)
  have blk: "ptr_blk (bm_ptr c) = ptr_blk (bm_ptr b)"
    using mut_promoted [OF wf pro(1)] mut_promoted [OF wf' pro(2)] same by (metis option.inject ptr.inject)
  then have off: "ptr_off (bm_ptr c) = ptr_off (bm_ptr b) + bm_len b"
    using adj by (simp add: adjacent_def ptr_addr_def)
  have "compat (HMut b) (HMut c)" using wf by (simp add: wf_heap_def)
  then have full: "bm_cap b = bm_len b"
    using x(2) same blk off cap x(3) by (auto simp: compat_def separate_def)
  obtain h' where d: "bm_drop c h = Ok h'" "wf_heap h' (HMut b # R)" "quiet h h'"
    using bm_drop_Ok [OF wf'] len by auto
  have size: "ptr_off (bm_ptr b) + (bm_cap b + bm_cap c) \<le> blk_size h (ptr_blk (bm_ptr b))"
    using y(4) blk off full by simp
  have "Ptr (ptr_blk (bm_ptr b)) (ptr_off (bm_ptr b) + bm_len b) = bm_ptr c"
    using blk off by (metis ptr.collapse)
  then have cells: "cells h (bm_ptr b) (bm_len b + bm_len c) =
      cells h (bm_ptr b) (bm_len b) @ cells h (bm_ptr c) (bm_len c)"
    using cells_add by metis
  have "\<forall>r\<in>set R. compat (HMut b) r \<and> compat (HMut c) r" using wf by (auto simp: wf_heap_def)
  then have comp: "\<forall>r\<in>set R. compat (HMut ?d) r"
    using same blk off full x(2) separate_join [of "HMut b" _ "HMut c" "HMut ?d"]
    by (auto simp: compat_def)
  have "wf_heap h' (HMut ?d # R)"
    by (rule wf_extend [OF d(2) pro(1) _ _ _ comp])
      (use x y size cells quiet_size [OF d(3)] d(3) in \<open>auto simp: quiet_def owner_ok_def\<close>)
  moreover have "bm_len b + bm_len c \<le> usize_max" "bm_cap b + bm_cap c \<le> usize_max"
    using size x(5) y(3) full by (simp_all add: isize_max_def usize_max_def)
  then have "bm_try_unsplit b c h = Ok ((?d, None), h')"
    using try_unsplit_eval [OF wf cap] adj d(1) by (simp add: uadd_Ok)
  moreover have "view h' (HMut ?d) = view h (HMut b) @ view h (HMut c)"
    using cells d(3) by (simp add: view_def quiet_def)
  ultimately show ?thesis using d(3) by blast
qed

lemma bm_try_unsplit_Ok:
  assumes wf: "wf_heap h (HMut b # HMut c # R)" and len: "length R < isize_max"
    and same: "adjacent h b c \<longrightarrow> bm_data b = bm_data c"
  shows "(\<exists>d h'. bm_try_unsplit b c h = Ok ((d, None), h') \<and> wf_heap h' (HMut d # R) \<and> quiet h h' \<and>
      view h' (HMut d) = view h (HMut b) @ view h (HMut c)) \<or>
    bm_try_unsplit b c h = Ok ((b, Some c), h)"
proof (cases "bm_cap c = 0")
  case True
  have wf': "wf_heap h (HMut c # HMut b # R)" by (rule wf_swap [OF wf])
  obtain h' where d: "bm_drop c h = Ok h'" "wf_heap h' (HMut b # R)" "quiet h h'"
    using bm_drop_Ok [OF wf'] len by auto
  moreover have "bm_len c = 0" using mut_owner(3) [OF wf'] True by simp
  ultimately show ?thesis
    using True quiet_view [OF d(3)] by (simp add: bm_try_unsplit_def) (simp add: view_def)
next
  case False
  show ?thesis
  proof (cases "adjacent h b c")
    case True
    with try_unsplit_merge [OF wf len True _ False] same show ?thesis by simp
  next
    case adj: False
    with try_unsplit_eval [OF wf False] show ?thesis by simp
  qed
qed

lemma bm_unsplit_Ok:
  assumes wf: "wf_heap h (HMut b # HMut c # R)" and len: "Suc (length R) < isize_max"
    and same: "adjacent h b c \<longrightarrow> bm_data b = bm_data c"
    and n: "bm_len c + bm_cap b \<le> isize_max"
    and alloc: "alloc_ok h (max (blk_size h (ptr_blk (bm_ptr b)) * 2) (bm_len b + bm_len c))"
  shows "\<exists>d h'. bm_unsplit b c h = Ok (d, h') \<and> wf_heap h' (HMut d # R) \<and> frame h h' R \<and>
    view h' (HMut d) = view h (HMut b) @ view h (HMut c)"
proof (cases "bm_len b = 0")
  case True
  obtain h' where "bm_drop b h = Ok h'" "wf_heap h' (HMut c # R)" "quiet h h'"
    using bm_drop_Ok [OF wf] len by auto
  then show ?thesis
    using True quiet_view [of h h'] by (simp add: bm_unsplit_def quiet_frame) (simp add: view_def)
next
  case False
  have len': "length R < isize_max" using len by simp
  from bm_try_unsplit_Ok [OF wf len' same] show ?thesis
  proof (elim disjE exE conjE)
    fix d h'
    assume "bm_try_unsplit b c h = Ok ((d, None), h')" "wf_heap h' (HMut d # R)" "quiet h h'"
      "view h' (HMut d) = view h (HMut b) @ view h (HMut c)"
    with False show ?thesis by (simp add: bm_unsplit_def quiet_frame)
  next
    assume err: "bm_try_unsplit b c h = Ok ((b, Some c), h)"
    have ok: "handle_ok h (HMut c)" using wf by (simp add: wf_heap_def)
    have vl: "length (view h (HMut c)) = bm_len c" using length_view [OF ok] by simp
    have "length (HMut c # R) < isize_max" using len by simp
    from bm_extend_Ok [OF wf this, of "view h (HMut c)"] n alloc vl obtain d h1 where
      d: "bm_extend_from_slice b (view h (HMut c)) h = Ok (d, h1)" "wf_heap h1 (HMut d # HMut c # R)"
        "frame h h1 (HMut c # R)" "view h1 (HMut d) = view h (HMut b) @ view h (HMut c)" by auto
    obtain h2 where e: "bm_drop c h1 = Ok h2" "wf_heap h2 (HMut d # R)" "quiet h1 h2"
      using bm_drop_Ok [OF wf_swap [OF d(2)]] len by auto
    have "bm_unsplit b c h = Ok (d, h2)"
      using False err d(1) e(1) bm_as_slice_Ok [OF ok] by (simp add: bm_unsplit_def)
    moreover have "frame h h2 R" using frame_trans [OF _ quiet_frame [OF e(3)]] d(3) by simp
    ultimately show ?thesis using e(2) d(4) quiet_view [OF e(3)] by auto
  qed
qed

text \<open>
  Two allocations of four bytes that the allocator placed next to each other, each owned by a
  promoted, completely filled handle.
\<close>

definition adj_block :: block where
  "adj_block = \<lparr>blk_cells = [Some 1, Some 2, Some 3, Some 4], blk_live = True, blk_static = False\<rparr>"

definition adj_heap :: heap where
  "adj_heap = \<lparr>hp_blocks = [adj_block, adj_block], hp_base = (\<lambda>i. 16 + 4 * word_of_nat i), hp_extra = (\<lambda>_. 0),
     hp_empty = Ptr 0 0,
     hp_shared = [8 \<mapsto> \<lparr>ref_count = 1, sh_ptr = Ptr 0 0, sh_cap = 4\<rparr>,
                  16 \<mapsto> \<lparr>ref_count = 1, sh_ptr = Ptr 1 0, sh_cap = 4\<rparr>],
     hp_boxes = 2\<rparr>"

definition adj_fst :: bytes_mut where
  "adj_fst = \<lparr>bm_ptr = Ptr 0 0, bm_len = 4, bm_cap = 4, bm_data = 8\<rparr>"

definition adj_snd :: bytes_mut where
  "adj_snd = \<lparr>bm_ptr = Ptr 1 0, bm_len = 4, bm_cap = 4, bm_data = 16\<rparr>"

lemma adj_wf: "wf_heap adj_heap [HMut adj_fst, HMut adj_snd]"
proof -
  have "heap_ok adj_heap"
    by (auto simp: heap_ok_def adj_heap_def adj_block_def blk_size_def less_Suc_eq isize_max_def usize_max_def
        ptr_addr_def is_unpromoted_odd)
  moreover have "handle_ok adj_heap (HMut adj_fst)" "handle_ok adj_heap (HMut adj_snd)"
    by (simp_all add: handle_ok_def owner_ok_def adj_heap_def adj_block_def adj_fst_def adj_snd_def blk_ok_def
        blk_size_def cells_def is_unpromoted_odd)
  moreover have "counts_ok adj_heap [HMut adj_fst, HMut adj_snd]"
    by (simp add: counts_ok_def adj_heap_def adj_fst_def adj_snd_def)
  moreover have "no_leak adj_heap [HMut adj_fst, HMut adj_snd]"
    by (auto simp: no_leak_def blk_ok_def adj_heap_def adj_fst_def adj_snd_def less_Suc_eq)
  ultimately show ?thesis
    by (simp add: wf_heap_def compat_def) (simp add: adj_fst_def adj_snd_def)
qed

lemma adj_merge:
  "\<exists>d h'. bm_try_unsplit adj_fst adj_snd adj_heap = Ok ((d, None), h') \<and> bm_as_slice d h' = UB"
  by (simp add: bm_try_unsplit_def bm_drop_def into_unpromoted_def box_deref_def release_def fetch_sub_def
      ptr_add_def readable_def ptr_addr_def blk_ok_def blk_size_def is_unpromoted_odd uadd_def usize_max_def
      vec_from_raw_parts_def vec_drop_def bm_as_slice_def slice_from_raw_parts_def free_block_def box_free_def
      box_set_def adj_heap_def adj_block_def adj_fst_def adj_snd_def)

end
