(* ===== verification/Bytes_Spec.thy ===== *)
theory Bytes_Spec
  imports Bytes_Mut
begin

text \<open>
  The contracts of \<open>Bytes\<close> and \<open>BytesMut\<close>: what each public operation does to the bytes its handles
  show, to every other live handle, and to the ownership invariant \<open>wf_heap\<close>. Each is followed by an
  instance on a small concrete heap.
\<close>

subsection \<open>What \<open>Bytes\<close> promises\<close>

text \<open>
  A small heap for the instances below: one allocation of four bytes, owned by an unpromoted handle
  that has been advanced by one.
\<close>

definition demo_heap :: heap where
  "demo_heap = \<lparr>hp_blocks = [\<lparr>blk_cells = [Some 1, Some 2, Some 3, Some 4], blk_live = True, blk_static = False\<rparr>],
     hp_base = (\<lambda>i. 16 + 64 * word_of_nat i), hp_extra = (\<lambda>_. 0), hp_empty = Ptr 0 0, hp_shared = (\<lambda>_. None), hp_boxes = 0\<rparr>"

definition demo_bytes :: bytes where
  "demo_bytes = \<lparr>bs_ptr = Ptr 0 1, bs_len = 3, bs_data = tag 1\<rparr>"

definition demo_vec :: vec where
  "demo_vec = \<lparr>v_ptr = Ptr 0 0, v_len = 2, v_cap = 4\<rparr>"

text \<open>For evaluating a run on it.\<close>

lemmas eval_simps = demo_heap_def demo_bytes_def as_unpromoted_def into_unpromoted_def to_unpromoted_def
  is_unpromoted_odd payload_def data_consts build_unpromoted_vec_def ptr_sub_def ptr_add_def readable_def
  blk_ok_def blk_size_def uadd_def vec_from_raw_parts_def promote_with_vec_def box_new_def box_room_def
  box_addr_def box_deref_def release_def increment_def fetch_sub_def fetch_add_def box_set_def
  usize_max_def isize_max_def tag_def

lemma demo_heap_ok: "heap_ok demo_heap"
  by (simp add: heap_ok_def demo_heap_def blk_size_def isize_max_def usize_max_def ptr_addr_def)

lemma demo_wf: "wf_heap demo_heap [HBytes demo_bytes]"
proof -
  have "handle_ok demo_heap (HBytes demo_bytes)" "no_leak demo_heap [HBytes demo_bytes]"
    by (simp_all add: handle_ok_def owner_ok_def no_leak_def demo_heap_def demo_bytes_def blk_ok_def
        blk_size_def cells_def)
  then show ?thesis
    using demo_heap_ok by (simp add: wf_heap_def counts_ok_def) (simp add: demo_heap_def)
qed

lemma demo_wf_vec: "wf_heap demo_heap [HVec demo_vec]"
proof -
  have "handle_ok demo_heap (HVec demo_vec)" "no_leak demo_heap [HVec demo_vec]"
    by (simp_all add: handle_ok_def owner_ok_def no_leak_def demo_heap_def demo_vec_def blk_ok_def
        blk_size_def cells_def)
  then show ?thesis
    using demo_heap_ok by (simp add: wf_heap_def counts_ok_def) (simp add: demo_heap_def)
qed

lemma demo_room: "room demo_heap [x]" "box_room demo_heap" "n \<le> 1000 \<Longrightarrow> alloc_ok demo_heap n"
  by (simp_all add: room_def box_room_def alloc_ok_def demo_heap_def isize_max_def usize_max_def)

lemma demo_view [simp]:
  "view demo_heap (HBytes demo_bytes) = [2, 3, 4]" "view demo_heap (HVec demo_vec) = [1, 2]"
  by (simp_all add: view_def cells_def demo_heap_def demo_bytes_def demo_vec_def)

lemma demo_len [simp]:
  "bs_len demo_bytes = 3" "bs_data demo_bytes = tag 1" "ptr_addr demo_heap (bs_ptr demo_bytes) = 17"
  by (simp_all add: demo_bytes_def demo_heap_def ptr_addr_def)

text \<open>\<open>From<Vec<u8>>\<close>: on each of its three branches (empty, full, spare capacity) the vector's
  bytes are taken over without a copy, and the vector's allocation keeps exactly one owner.\<close>

theorem bytes_from_vec_spec:
  assumes "wf_heap h (HVec v # R)" "box_room h"
  shows "\<exists>b h'. bytes_from_vec v h = Ok (b, h') \<and> wf_heap h' (HBytes b # R) \<and> quiet h h' \<and>
    view h' (HBytes b) = view h (HVec v)"
  by (rule bytes_from_vec_Ok [OF assms])

theorem bytes_from_vec_witness:
  "\<exists>b h'. bytes_from_vec demo_vec demo_heap = Ok (b, h') \<and> wf_heap h' [HBytes b] \<and>
    view h' (HBytes b) = [1, 2]"
  using bytes_from_vec_spec [OF demo_wf_vec demo_room(2)] by auto

text \<open>\<open>Clone for Bytes\<close> is a second handle on the same bytes: same pointer, same length, one box
  that counts both, no byte copied. The receiver stays valid although promotion rewrites its \<open>data\<close> word.\<close>

theorem bytes_clone_spec:
  assumes "wf_heap h (HBytes b # R)" "room h (HBytes b # R)"
  shows "\<exists>b' c h'. clone_inner b h = Ok ((b', c), h') \<and> wf_heap h' (HBytes b' # HBytes c # R) \<and> quiet h h' \<and>
    bs_ptr b' = bs_ptr b \<and> bs_ptr c = bs_ptr b \<and>
    view h' (HBytes b') = view h (HBytes b) \<and> view h' (HBytes c) = view h (HBytes b)"
proof -
  obtain b' c h' where c: "clone_inner b h = Ok ((b', c), h')" "cloned h b R b' c h'"
    using clone_inner_mut_Ok [OF assms] by (auto simp: clone_inner_mut_eq)
  then have "view h' (HBytes b') = view h (HBytes b)" "view h' (HBytes c) = view h (HBytes b)"
    by (simp_all add: cloned_def quiet_def view_def)
  with c show ?thesis by (auto simp: cloned_def)
qed

theorem bytes_clone_witness:
  "\<exists>b' c h'. clone_inner demo_bytes demo_heap = Ok ((b', c), h') \<and> wf_heap h' [HBytes b', HBytes c] \<and>
    view h' (HBytes b') = [2, 3, 4] \<and> view h' (HBytes c) = [2, 3, 4]"
  using bytes_clone_spec [OF demo_wf demo_room(1)] by auto

text \<open>\<open>Drop for Bytes\<close> never frees twice and never frees too early: without the dropped handle the
  heap is well-formed for the remaining ones, so they still show their bytes, and an allocation that
  nobody owns any more has been freed.\<close>

theorem bytes_drop_spec:
  assumes "wf_heap h (HBytes b # R)" "length R \<le> isize_max"
  shows "\<exists>h'. bytes_drop b h = Ok h' \<and> wf_heap h' R \<and> quiet h h'"
  by (rule bytes_drop_Ok [OF assms])

theorem bytes_drop_witness:
  "\<exists>h'. bytes_drop demo_bytes demo_heap = Ok h' \<and> wf_heap h' []"
  using bytes_drop_spec [OF demo_wf] by auto

text \<open>\<open>split_off\<close> and \<open>split_to\<close> divide the view at \<open>at\<close> without copying: the two handles show
  the two parts, keep the allocation alive together, and nothing else changes; past the end they panic.\<close>

theorem bytes_split_spec:
  assumes "wf_heap h (HBytes b # R)" "room h (HBytes b # R)"
  shows "if at \<le> bs_len b
    then (\<exists>lo hi h'. bytes_split_off b at h = Ok ((lo, hi), h') \<and> split_at h b at R lo hi h') \<and>
         (\<exists>lo hi h'. bytes_split_to b at h = Ok ((hi, lo), h') \<and> split_at h b at R lo hi h')
    else bytes_split_off b at h = Panic \<and> bytes_split_to b at h = Panic"
  using try_split_off_Ok [OF assms, of at] try_split_to_Ok [OF assms, of at] split_Panic [of b at h]
  by (auto simp: bytes_split_off_def bytes_split_to_def)

theorem bytes_split_witness:
  "\<exists>lo hi h'. bytes_split_off demo_bytes 1 demo_heap = Ok ((lo, hi), h') \<and> wf_heap h' [HBytes lo, HBytes hi] \<and>
    view h' (HBytes lo) = [2] \<and> view h' (HBytes hi) = [3, 4]"
  using bytes_split_spec [OF demo_wf demo_room(1), of 1] by (auto simp: split_at_def)

text \<open>\<open>truncate\<close>, \<open>truncate_off\<close> and \<open>clear\<close> keep exactly a prefix of the bytes;
  \<open>truncate_off\<close> of more bytes than there are has no effect.\<close>

theorem bytes_truncate_spec:
  assumes "wf_heap h (HBytes b # R)" "room h (HBytes b # R)"
  shows "(\<exists>c h'. bytes_truncate b n h = Ok (c, h') \<and> wf_heap h' (HBytes c # R) \<and> quiet h h' \<and>
           view h' (HBytes c) = take n (view h (HBytes b))) \<and>
    (\<exists>c h'. bytes_truncate_off b n h = Ok (c, h') \<and> wf_heap h' (HBytes c # R) \<and> quiet h h' \<and>
       view h' (HBytes c) = (if n \<le> bs_len b then take (bs_len b - n) (view h (HBytes b)) else view h (HBytes b))) \<and>
    (\<exists>c h'. bytes_clear b h = Ok (c, h') \<and> wf_heap h' (HBytes c # R) \<and> quiet h h' \<and> view h' (HBytes c) = [])"
  using bytes_truncate_Ok [OF assms, of n] bytes_truncate_off_Ok [OF assms, of n]
    bytes_clear_Ok [OF assms(1)] assms(2) by (simp add: room_def)

theorem bytes_truncate_witness:
  "(\<exists>c h'. bytes_truncate demo_bytes 2 demo_heap = Ok (c, h') \<and> view h' (HBytes c) = [2, 3]) \<and>
   (\<exists>c h'. bytes_truncate_off demo_bytes 3 demo_heap = Ok (c, h') \<and> view h' (HBytes c) = [])"
  using bytes_truncate_spec [OF demo_wf demo_room(1), of 2] bytes_truncate_spec [OF demo_wf demo_room(1), of 3]
  by auto

text \<open>\<open>slice\<close> with any pair of bounds: in range it gives a handle on exactly that part of the bytes
  and leaves the receiver's bytes as they were; an inverted or overlong range, or a bound whose successor
  overflows, panics.\<close>

theorem bytes_slice_spec:
  assumes "wf_heap h (HBytes b # R)" "room h (HBytes b # R)"
  shows "if bound_lo s \<le> bound_hi e (bs_len b) \<and> bound_hi e (bs_len b) \<le> bs_len b
    then \<exists>b' c h'. slice_bound b s e h = Ok ((b', c), h') \<and>
      sliced h b (bound_lo s) (bound_hi e (bs_len b) - bound_lo s) R b' c h'
    else slice_bound b s e h = Panic"
  using slice_bound_Ok [OF assms, of s e] slice_bound_Panic [of s e b h]
    handle_len [OF wf_ConsD(1,2) [OF assms(1)]] by simp

theorem bytes_slice_witness:
  "\<exists>b' c h'. slice_bound demo_bytes (Included 1) Unbounded demo_heap = Ok ((b', c), h') \<and>
    wf_heap h' [HBytes b', HBytes c] \<and> view h' (HBytes b') = [2, 3, 4] \<and> view h' (HBytes c) = [3, 4]"
  using bytes_slice_spec [OF demo_wf demo_room(1), of "Included 1" Unbounded]
  by (auto simp: bound_lo_def bound_hi_def sliced_def)

text \<open>\<open>slice_from_raw\<close>, which takes a subslice by its address, gives a handle on exactly the bytes
  between the address and \<open>len\<close> further on, and panics if they are not all inside the view.\<close>

theorem bytes_slice_from_raw_spec:
  assumes "wf_heap h (HBytes b # R)" "room h (HBytes b # R)"
  shows "if ptr_addr h (bs_ptr b) \<le> addr \<and> addr + n \<le> ptr_addr h (bs_ptr b) + bs_len b
    then \<exists>b' c h'. slice_from_raw b addr n h = Ok ((b', c), h') \<and>
      sliced h b (addr - ptr_addr h (bs_ptr b)) n R b' c h'
    else slice_from_raw b addr n h = Panic"
proof -
  have "addr = ptr_addr h (bs_ptr b) + (addr - ptr_addr h (bs_ptr b))" if "ptr_addr h (bs_ptr b) \<le> addr"
    using that by simp
  then show ?thesis
    using slice_from_raw_Ok [OF assms, of "addr - ptr_addr h (bs_ptr b)" n]
      slice_from_raw_Panic [OF wf_ConsD(1,2) [OF assms(1)], of addr n] by auto
qed

theorem bytes_slice_from_raw_witness:
  "\<exists>b' c h'. slice_from_raw demo_bytes 18 2 demo_heap = Ok ((b', c), h') \<and> view h' (HBytes c) = [3, 4]"
  using bytes_slice_from_raw_spec [OF demo_wf demo_room(1), of 18 2]
  by (auto simp: sliced_def)

text \<open>C21: \<open>is_unique\<close> is exact: it answers yes if and only if the handle owns an allocation that no other
  live handle owns. Handles on static bytes own nothing and are never unique.\<close>

theorem bytes_is_unique_spec:
  assumes "wf_heap h (HBytes b # R)"
  shows "bytes_is_unique b h = Ok (bs_data b \<noteq> 0 \<and> (\<forall>r\<in>set R. owns r \<longrightarrow> h_blk r \<noteq> ptr_blk (bs_ptr b)))"
  using bytes_is_unique_Ok [OF assms] by (simp add: sole_def)

theorem bytes_is_unique_witness: "bytes_is_unique demo_bytes demo_heap = Ok True"
  using bytes_is_unique_spec [OF demo_wf] by simp

text \<open>\<open>into_vec\<close> gives a vector with exactly the handle's bytes on every branch (static, unpromoted,
  last reference, shared), whether it takes the allocation over, moves the bytes back or copies them out;
  every other handle still shows its bytes, and nothing is leaked.\<close>

theorem bytes_into_vec_spec:
  assumes "wf_heap h (HBytes b # R)" "length R \<le> isize_max" "alloc_ok h (bs_len b)"
  shows "\<exists>v h'. bytes_into_vec b h = Ok (v, h') \<and> wf_heap h' (HVec v # R) \<and> frame h h' R \<and>
    view h' (HVec v) = view h (HBytes b)"
  by (rule bytes_into_vec_Ok [OF assms])

theorem bytes_into_vec_witness:
  "\<exists>v h'. bytes_into_vec demo_bytes demo_heap = Ok (v, h') \<and> wf_heap h' [HVec v] \<and>
    view h' (HVec v) = [2, 3, 4]"
  using bytes_into_vec_spec [OF demo_wf] demo_room(3) [of 3] by auto

subsection \<open>What \<open>BytesMut\<close> promises\<close>

text \<open>The same allocation as a \<open>BytesMut\<close> with two bytes and one spare, and as two promoted halves.\<close>

definition demo_mut :: bytes_mut where
  "demo_mut = \<lparr>bm_ptr = Ptr 0 1, bm_len = 2, bm_cap = 3, bm_data = tag 1\<rparr>"

definition demo_half :: "nat \<Rightarrow> bytes_mut" where
  "demo_half k = \<lparr>bm_ptr = Ptr 0 (2 * k), bm_len = 2, bm_cap = 2, bm_data = 8\<rparr>"

definition demo_halves :: heap where
  "demo_halves = demo_heap\<lparr>hp_shared := [8 \<mapsto> \<lparr>ref_count = 2, sh_ptr = Ptr 0 0, sh_cap = 4\<rparr>], hp_boxes := 1\<rparr>"

lemma demo_mut_wf: "wf_heap demo_heap [HMut demo_mut]"
proof -
  have "handle_ok demo_heap (HMut demo_mut)" "no_leak demo_heap [HMut demo_mut]"
    by (simp_all add: handle_ok_def owner_ok_def no_leak_def demo_heap_def demo_mut_def blk_ok_def
        blk_size_def cells_def)
  then show ?thesis
    using demo_heap_ok by (simp add: wf_heap_def counts_ok_def) (simp add: demo_heap_def)
qed

lemma demo_halves_wf: "wf_heap demo_halves [HMut (demo_half 0), HMut (demo_half 1)]"
proof -
  have "heap_ok demo_halves"
    by (simp add: heap_ok_def demo_halves_def demo_heap_def blk_size_def isize_max_def usize_max_def
        ptr_addr_def is_unpromoted_odd)
  moreover have "handle_ok demo_halves (HMut (demo_half 0))" "handle_ok demo_halves (HMut (demo_half 1))"
    by (simp_all add: handle_ok_def owner_ok_def demo_halves_def demo_heap_def demo_half_def blk_ok_def
        blk_size_def cells_def is_unpromoted_odd)
  moreover have "counts_ok demo_halves [HMut (demo_half 0), HMut (demo_half 1)]"
    by (simp add: counts_ok_def demo_halves_def demo_half_def)
  moreover have "no_leak demo_halves [HMut (demo_half 0), HMut (demo_half 1)]"
    by (simp add: no_leak_def blk_ok_def demo_halves_def demo_heap_def demo_half_def)
  ultimately show ?thesis
    by (simp add: wf_heap_def compat_def separate_def) (simp add: demo_half_def is_unpromoted_odd)
qed

lemma demo_mut_simps [simp]:
  "view demo_heap (HMut demo_mut) = [2, 3]" "view demo_halves (HMut (demo_half 0)) = [1, 2]"
  "view demo_halves (HMut (demo_half (Suc 0))) = [3, 4]"
  "bm_len demo_mut = 2" "bm_cap demo_mut = 3" "bm_len (demo_half k) = 2" "bm_cap (demo_half k) = 2"
  "bm_data (demo_half k) = 8" "blk_size demo_heap (ptr_blk (bm_ptr demo_mut)) = 4"
  "blk_size demo_halves (ptr_blk (bm_ptr (demo_half k))) = 4" "alloc_ok demo_halves 8"
  by (simp_all add: view_def cells_def demo_heap_def demo_halves_def demo_mut_def demo_half_def blk_size_def
      alloc_ok_def isize_max_def usize_max_def)

lemma isize_big [simp]: "n \<le> 1000 \<Longrightarrow> n < isize_max"
  by (simp add: isize_max_def)

text \<open>C17: \<open>reserve\<close>: whichever branch is taken (enough spare, moving the bytes to the front, taking the
  tail of the allocation, reallocating), afterwards there is room for \<open>n\<close> more bytes, the bytes are the
  same, and no other handle notices.\<close>

theorem bm_reserve_spec:
  assumes "wf_heap h (HMut b # R)" "length R < isize_max" "n + bm_cap b \<le> isize_max"
    "alloc_ok h (max (blk_size h (ptr_blk (bm_ptr b)) * 2) (bm_len b + n))"
  shows "\<exists>c h'. bm_reserve b n h = Ok (c, h') \<and> wf_heap h' (HMut c # R) \<and> frame h h' R \<and>
    view h' (HMut c) = view h (HMut b) \<and> n \<le> bm_cap c - bm_len c"
  using bm_reserve_Ok [OF assms] by (auto simp: reserved_def)

theorem bm_reserve_witness:
  "\<exists>c h'. bm_reserve demo_mut 5 demo_heap = Ok (c, h') \<and> wf_heap h' [HMut c] \<and>
    view h' (HMut c) = [2, 3] \<and> 5 \<le> bm_cap c - bm_len c"
  using bm_reserve_spec [OF demo_mut_wf, of 5] demo_room(3) [of 8] isize_big [of 8]
  by (auto simp del: isize_big)

text \<open>\<open>try_reclaim\<close> and \<open>try_reclaim_full\<close> never allocate, keep the bytes, and answer yes only when
  the room asked for is there.\<close>

theorem bm_try_reclaim_spec:
  assumes "wf_heap h (HMut b # R)" "length R < isize_max" "n + bm_cap b \<le> isize_max"
    "reclaimable h b + bm_cap b \<le> isize_max"
  shows "(\<exists>c ok h'. bm_try_reclaim b n h = Ok ((c, ok), h') \<and> reserved h b n R False c ok h') \<and>
    (\<exists>c ok h'. bm_try_reclaim_full b h = Ok ((c, ok), h') \<and> reserved h b (reclaimable h b) R False c ok h')"
  using bm_try_reclaim_Ok [OF assms(1-3)] bm_try_reclaim_full_Ok [OF assms(1,2,4)] by simp

theorem bm_try_reclaim_witness:
  "\<exists>c ok h'. bm_try_reclaim demo_mut 2 demo_heap = Ok ((c, ok), h') \<and> wf_heap h' [HMut c] \<and>
    length (hp_blocks h') = length (hp_blocks demo_heap)"
  using bm_try_reclaim_spec [OF demo_mut_wf, of 2]
  by (auto simp: reserved_def reclaimable_def isize_max_def)

text \<open>\<open>extend_from_slice\<close> appends: the handle shows its old bytes followed by the slice, also when it
  had to move or reallocate, and no other handle of the same allocation notices.\<close>

theorem bm_extend_spec:
  assumes "wf_heap h (HMut b # R)" "length R < isize_max" "length xs + bm_cap b \<le> isize_max"
    "alloc_ok h (max (blk_size h (ptr_blk (bm_ptr b)) * 2) (bm_len b + length xs))"
  shows "\<exists>c h'. bm_extend_from_slice b xs h = Ok (c, h') \<and> wf_heap h' (HMut c # R) \<and> frame h h' R \<and>
    view h' (HMut c) = view h (HMut b) @ xs"
  by (rule bm_extend_Ok [OF assms])

theorem bm_extend_witness:
  "\<exists>c h'. bm_extend_from_slice (demo_half 0) [9, 9] demo_halves = Ok (c, h') \<and>
    view h' (HMut c) = [1, 2, 9, 9] \<and> view h' (HMut (demo_half 1)) = [3, 4]"
  using bm_extend_spec [OF demo_halves_wf, of "[9, 9]"] by (auto simp: isize_max_def)

text \<open>\<open>split_off\<close> at any index up to the capacity and \<open>split_to\<close> at any index up to the length divide
  bytes and capacity between two adjacent handles over one box; outside they panic.\<close>

theorem bm_split_spec:
  assumes "wf_heap h (HMut b # R)" "room h (HMut b # R)"
  shows "(if at \<le> bm_cap b
      then \<exists>lo hi h'. bm_split_off b at h = Ok ((lo, hi), h') \<and> mut_split h b at R lo hi h'
      else bm_split_off b at h = Panic) \<and>
    (if at \<le> bm_len b
      then \<exists>lo hi h'. bm_split_to b at h = Ok ((hi, lo), h') \<and> mut_split h b at R lo hi h'
      else bm_split_to b at h = Panic)"
  using bm_try_split_off_Ok [OF assms, of at] bm_try_split_to_Ok [OF assms, of at] bm_split_Panic [of b at h]
  by (auto simp: bm_split_off_def bm_split_to_def)

theorem bm_split_witness:
  "\<exists>lo hi h'. bm_split_off demo_mut 1 demo_heap = Ok ((lo, hi), h') \<and> wf_heap h' [HMut lo, HMut hi] \<and>
    view h' (HMut lo) = [2] \<and> view h' (HMut hi) = [3] \<and> bm_cap hi = 2"
  using bm_split_spec [OF demo_mut_wf demo_room(1), of 1] by (auto simp: mut_split_def)






text \<open>\<open>freeze\<close> turns a \<open>BytesMut\<close> into a \<open>Bytes\<close> with the same bytes, in place, whether or not it was
  promoted, advanced, or has spare capacity.\<close>

theorem bm_freeze_spec:
  assumes "wf_heap h (HMut b # R)" "box_room h"
  shows "\<exists>c h'. bm_freeze b h = Ok (c, h') \<and> wf_heap h' (HBytes c # R) \<and> quiet h h' \<and>
    view h' (HBytes c) = view h (HMut b)"
  by (rule bm_freeze_Ok [OF assms])

theorem bm_freeze_witness:
  "\<exists>c h'. bm_freeze demo_mut demo_heap = Ok (c, h') \<and> wf_heap h' [HBytes c] \<and> view h' (HBytes c) = [2, 3]"
  using bm_freeze_spec [OF demo_mut_wf demo_room(2)] by auto

text \<open>\<open>into_mut\<close> gives exclusive access to the same bytes: on every branch the resulting \<open>BytesMut\<close>
  overlaps no other handle, and the others still show their bytes.\<close>

theorem bytes_into_mut_spec:
  assumes "wf_heap h (HBytes b # R)" "length R \<le> isize_max" "alloc_ok h (bs_len b)"
  shows "\<exists>m h'. bytes_into_mut b h = Ok (m, h') \<and> wf_heap h' (HMut m # R) \<and> frame h h' R \<and>
    view h' (HMut m) = view h (HBytes b)"
  by (rule bytes_into_mut_Ok [OF assms])

theorem bytes_into_mut_witness:
  "\<exists>m h'. bytes_into_mut demo_bytes demo_heap = Ok (m, h') \<and> wf_heap h' [HMut m] \<and>
    view h' (HMut m) = [2, 3, 4]"
  using bytes_into_mut_spec [OF demo_wf] demo_room(3) [of 3] by auto

text \<open>\<open>Drop for BytesMut\<close> never frees twice or too early, and frees what nobody owns any more.\<close>

theorem bm_drop_spec:
  assumes "wf_heap h (HMut b # R)" "length R \<le> isize_max"
  shows "\<exists>h'. bm_drop b h = Ok h' \<and> wf_heap h' R \<and> quiet h h'"
  by (rule bm_drop_Ok [OF assms])

theorem bm_drop_witness:
  "\<exists>h'. bm_drop (demo_half 0) demo_halves = Ok h' \<and> wf_heap h' [HMut (demo_half 1)] \<and>
    view h' (HMut (demo_half 1)) = [3, 4]"
  using bm_drop_spec [OF demo_halves_wf] by (auto simp: quiet_view isize_max_def)

text \<open>the constructors of \<open>BytesMut\<close> and its \<open>Clone\<close>: the capacity asked for, the bytes given, a deep copy.\<close>

theorem bm_constructors_spec:
  assumes "wf_heap h R" "alloc_ok h n" "alloc_ok h (length xs)"
  shows "(\<exists>b h'. bm_with_capacity n h = Ok (b, h') \<and> wf_heap h' (HMut b # R) \<and> frame h h' R \<and>
      view h' (HMut b) = [] \<and> n \<le> bm_cap b) \<and>
    (\<exists>b h'. bm_copy_from_slice xs h = Ok (b, h') \<and> wf_heap h' (HMut b # R) \<and> frame h h' R \<and>
      view h' (HMut b) = xs)"
  using bm_with_capacity_Ok [OF assms(1,2)] bm_copy_from_slice_Ok [OF assms(1,3)] by blast

theorem bm_constructors_witness:
  "(\<exists>b h'. bm_with_capacity 16 demo_heap = Ok (b, h') \<and> 16 \<le> bm_cap b) \<and>
   (\<exists>b h'. bm_copy_from_slice [5] demo_heap = Ok (b, h') \<and> view h' (HMut b) = [5])"
  using bm_constructors_spec [OF demo_wf, of 16 "[5]"] demo_room(3) by auto

text \<open>\<open>advance\<close>, \<open>truncate\<close> and \<open>clear\<close> of a \<open>BytesMut\<close> show a suffix, a prefix and nothing;
  \<open>truncate_off\<close> of exactly the length shows nothing either.\<close>

theorem bm_cut_spec:
  assumes "wf_heap h (HMut b # R)"
  shows "(if n \<le> bm_len b
      then \<exists>c. bm_advance b n h = Ok c \<and> wf_heap h (HMut c # R) \<and> view h (HMut c) = drop n (view h (HMut b))
      else bm_advance b n h = Panic) \<and>
    wf_heap h (HMut (bm_truncate b n) # R) \<and> view h (HMut (bm_truncate b n)) = take n (view h (HMut b)) \<and>
    wf_heap h (HMut (bm_clear b) # R) \<and> view h (HMut (bm_clear b)) = [] \<and>
    view h (HMut (bm_truncate_off b (bm_len b))) = []"
  using bm_advance_Ok [OF assms, of n] bm_truncate_Ok [OF assms, of n] bm_truncate_Ok [OF assms, of 0]
  by (simp add: bm_advance_def bm_truncate_off_eq)

theorem bm_cut_witness:
  "(\<exists>c. bm_advance demo_mut 1 demo_heap = Ok c \<and> view demo_heap (HMut c) = [3]) \<and>
   view demo_heap (HMut (bm_truncate demo_mut 1)) = [2]"
  using bm_cut_spec [OF demo_mut_wf, of 1] by auto

text \<open>C40: \<open>try_reclaim\<close> may refuse although it has just made the room: of a unique promoted handle with four
  bytes at the start of an allocation of sixteen and a capacity of ten, it takes the tail of six over, compares
  only that tail with the ten bytes asked for, and answers no with twelve bytes to spare.\<close>

theorem try_reclaim_refuses:
  "\<exists>h b c. wf_heap h [HMut b] \<and> bm_try_reclaim b 10 h = Ok ((c, False), h) \<and> 10 \<le> bm_cap c - bm_len c"
proof -
  let ?h = "demo_heap\<lparr>hp_blocks := [\<lparr>blk_cells = replicate 16 (Some 0), blk_live = True, blk_static = False\<rparr>],
    hp_shared := [8 \<mapsto> \<lparr>ref_count = 1, sh_ptr = Ptr 0 0, sh_cap = 16\<rparr>], hp_boxes := 1\<rparr>"
  let ?b = "\<lparr>bm_ptr = Ptr 0 0, bm_len = 4, bm_cap = 10, bm_data = 8\<rparr>"
  have "heap_ok ?h"
    by (simp add: heap_ok_def demo_heap_def blk_size_def isize_max_def usize_max_def ptr_addr_def is_unpromoted_odd)
  moreover have "handle_ok ?h (HMut ?b)" "no_leak ?h [HMut ?b]" "counts_ok ?h [HMut ?b]"
    by (simp_all add: handle_ok_def owner_ok_def no_leak_def counts_ok_def blk_ok_def blk_size_def cells_def
        is_unpromoted_odd demo_heap_def)
  ultimately have "wf_heap ?h [HMut ?b]" by (simp add: wf_heap_def)
  moreover have "bm_try_reclaim ?b 10 ?h = Ok ((?b\<lparr>bm_cap := 16\<rparr>, False), ?h)"
    by (simp add: bm_try_reclaim_def reserve_inner_def reserve_promoted_def reserve_realloc_promoted_def
        as_unpromoted_mut_def box_deref_def is_unique_def offset_from_unsigned_def is_unpromoted_odd
        uadd_def usub_def usize_max_def isize_max_def Let_def demo_heap_def)
  ultimately show ?thesis by (intro exI [of _ ?h] exI [of _ ?b] exI [of _ "?b\<lparr>bm_cap := 16\<rparr>"]) simp
qed

end
