(* ===== verification/Promotion.thy ===== *)
theory Promotion
  imports Bytes_Spec
begin

text \<open>
  Concurrent \<open>clone\<close> of one \<open>Bytes\<close>. A \<open>&Bytes\<close> may be shared by many threads, and \<open>clone\<close> of an unpromoted
  handle rewrites its \<open>data\<close> word: \<open>clone_inner\<close> and \<open>promote_ref\<close> of \<open>src/bytes/bytes.rs\<close> are cut here at
  their atomic accesses, and the turns of the threads interleave freely (sequentially consistently; the
  memory orderings are not modelled). While threads hold references the handle itself is not dropped; the
  clones they got are, by any thread at any time.
\<close>

subsection \<open>The threads\<close>

text \<open>
  Where a thread is in its call: before the load of \<open>data\<close>; after it, with the word it read; having boxed a new
  \<open>Shared\<close> (second argument), before its compare-exchange; having lost the exchange with the word it found
  (second argument), before it releases its box; and before it increments the counter of the winner's box.
\<close>

datatype clone_pc = Start | Loaded usize | Boxed usize usize | Lost usize usize | Released usize

record shared_run =
  sr_data :: usize
  sr_heap :: heap
  sr_pc :: "nat \<Rightarrow> clone_pc"
  sr_clones :: "bytes list"

definition hand_out :: "bytes \<Rightarrow> usize \<Rightarrow> nat \<Rightarrow> shared_run \<Rightarrow> shared_run" where
  "hand_out me data i s =
     s\<lparr>sr_pc := (sr_pc s)(i := Start),
       sr_clones := \<lparr>bs_ptr = bs_ptr me, bs_len = bs_len me, bs_data = data\<rparr> # sr_clones s\<rparr>"

definition clone_turn :: "bytes \<Rightarrow> nat \<Rightarrow> shared_run \<Rightarrow> shared_run res" where
  "clone_turn me i s =
     (case sr_pc s i of
        Start \<Rightarrow> Ok (s\<lparr>sr_pc := (sr_pc s)(i := Loaded (sr_data s))\<rparr>)
      | Loaded shared \<Rightarrow>
          if shared = 0 then Ok (hand_out me 0 i s)
          else rbind (as_unpromoted (sr_heap s) shared) (\<lambda>r.
            case r of
              Inl offset \<Rightarrow>
                rbind (build_unpromoted_vec me offset (sr_heap s)) (\<lambda>v.
                rbind (promote_with_vec v 2 (sr_heap s)) (\<lambda>(new_shared, h).
                Ok (s\<lparr>sr_heap := h, sr_pc := (sr_pc s)(i := Boxed shared new_shared)\<rparr>)))
            | Inr _ \<Rightarrow>
                rbind (increment shared (sr_heap s)) (\<lambda>h. Ok (hand_out me shared i (s\<lparr>sr_heap := h\<rparr>))))
      | Boxed shared new_shared \<Rightarrow>
          if sr_data s = shared then Ok (hand_out me new_shared i (s\<lparr>sr_data := new_shared\<rparr>))
          else rbind (rassert (new_shared \<noteq> sr_data s)) (\<lambda>_.
               rbind (rassert (is_promoted (sr_data s))) (\<lambda>_.
               Ok (s\<lparr>sr_pc := (sr_pc s)(i := Lost new_shared (sr_data s))\<rparr>)))
      | Lost new_shared promoted_shared \<Rightarrow>
          rbind (release new_shared (sr_heap s)) (\<lambda>h.
          Ok (s\<lparr>sr_heap := h, sr_pc := (sr_pc s)(i := Released promoted_shared)\<rparr>))
      | Released promoted_shared \<Rightarrow>
          rbind (increment promoted_shared (sr_heap s)) (\<lambda>h.
          Ok (hand_out me promoted_shared i (s\<lparr>sr_heap := h\<rparr>))))"

definition drop_turn :: "nat \<Rightarrow> shared_run \<Rightarrow> shared_run res" where
  "drop_turn j s =
     rbind (bytes_drop (sr_clones s ! j) (sr_heap s)) (\<lambda>h.
     Ok (s\<lparr>sr_heap := h, sr_clones := take j (sr_clones s) @ drop (Suc j) (sr_clones s)\<rparr>))"

inductive run_step :: "bytes \<Rightarrow> shared_run \<Rightarrow> shared_run \<Rightarrow> bool" for me where
  clone: "clone_turn me i s = Ok s' \<Longrightarrow> run_step me s s'"
| drop: "j < length (sr_clones s) \<Longrightarrow> drop_turn j s = Ok s' \<Longrightarrow> run_step me s s'"

inductive_cases run_stepE: "run_step me s s'"

definition run_init :: "bytes \<Rightarrow> heap \<Rightarrow> shared_run" where
  "run_init me h = \<lparr>sr_data = bs_data me, sr_heap = h, sr_pc = (\<lambda>_. Start), sr_clones = []\<rparr>"

inductive reachable :: "bytes \<Rightarrow> heap \<Rightarrow> shared_run \<Rightarrow> bool" for me h where
  init: "reachable me h (run_init me h)"
| step: "reachable me h s \<Longrightarrow> run_step me s s' \<Longrightarrow> reachable me h s'"

subsection \<open>Boxes out of sight\<close>

text \<open>
  A box that only a thread knows, or that nobody knows any more, belongs to no handle: the ownership
  invariant holds of the heap without it.
\<close>

definition hide :: "usize set \<Rightarrow> heap \<Rightarrow> heap" where
  "hide X h = h\<lparr>hp_shared := (hp_shared h) |` (- X)\<rparr>"

lemma hide_simps [simp]:
  "hp_blocks (hide X h) = hp_blocks h" "hp_base (hide X h) = hp_base h" "hp_extra (hide X h) = hp_extra h"
  "hp_empty (hide X h) = hp_empty h" "hp_boxes (hide X h) = hp_boxes h"
  "hp_shared (hide X h) a = (if a \<in> X then None else hp_shared h a)"
  by (simp_all add: hide_def restrict_map_def)

lemma hide_blocks [simp]:
  "cells (hide X h) p n = cells h p n" "blk_size (hide X h) i = blk_size h i" "view (hide X h) x = view h x"
  "ptr_addr (hide X h) p = ptr_addr h p" "blk_ok (hide X h) i = blk_ok h i"
  by (simp_all add: cells_def blk_size_def view_def ptr_addr_def blk_ok_def)

lemma hide_empty [simp]: "hide {} h = h"
  by (simp add: hide_def restrict_map_def)

lemma hide_heap_ok: "heap_ok h \<Longrightarrow> heap_ok (hide X h)"
  by (auto simp: heap_ok_def)

lemma hide_box_set: "hide X (box_set a s h) = (if a \<in> X then hide X h else box_set a s (hide X h))"
  by (auto simp: hide_def box_set_def fun_eq_iff restrict_map_def)

lemma hide_insert:
  assumes "hp_shared h a = None"
  shows "hide (insert a X) (h\<lparr>hp_shared := (hp_shared h)(a \<mapsto> b), hp_boxes := n\<rparr>) = (hide X h)\<lparr>hp_boxes := n\<rparr>"
proof -
  have "((hp_shared h)(a \<mapsto> b)) |` (- insert a X) = hp_shared h |` (- X)"
    using assms by (auto simp: fun_eq_iff restrict_map_def)
  then show ?thesis by (simp add: hide_def)
qed

text \<open>The box a thread is about to publish or to release.\<close>

fun pc_new :: "clone_pc \<Rightarrow> usize option" where
  "pc_new (Boxed d a) = Some a"
| "pc_new (Lost a p) = Some a"
| "pc_new _ = None"

definition pending :: "shared_run \<Rightarrow> usize set" where
  "pending s = {a. \<exists>i. pc_new (sr_pc s i) = Some a}"

definition promoted :: "usize \<Rightarrow> bool" where
  "promoted d \<longleftrightarrow> d \<noteq> 0 \<and> \<not> is_unpromoted d"

fun pc_ok :: "usize \<Rightarrow> usize \<Rightarrow> clone_pc \<Rightarrow> bool" where
  "pc_ok d0 d Start \<longleftrightarrow> True"
| "pc_ok d0 d (Loaded x) \<longleftrightarrow> x = d \<or> x = d0"
| "pc_ok d0 d (Boxed x a) \<longleftrightarrow> x = d0 \<and> is_unpromoted d0"
| "pc_ok d0 d (Lost a p) \<longleftrightarrow> p = d \<and> promoted d"
| "pc_ok d0 d (Released p) \<longleftrightarrow> p = d \<and> promoted d"

definition box_of :: "heap \<Rightarrow> bytes \<Rightarrow> usize \<Rightarrow> nat \<Rightarrow> bool" where
  "box_of h me a n \<longleftrightarrow>
     hp_shared h a = Some \<lparr>ref_count = n, sh_ptr = Ptr (ptr_blk (bs_ptr me)) 0,
       sh_cap = blk_size h (ptr_blk (bs_ptr me))\<rparr>"

text \<open>The handles a state shows: the shared one with its current word, the clones, and those of others.\<close>

definition run_handles :: "bytes \<Rightarrow> handle list \<Rightarrow> shared_run \<Rightarrow> handle list" where
  "run_handles me R s = HBytes (me\<lparr>bs_data := sr_data s\<rparr>) # map HBytes (sr_clones s) @ R"

definition run_inv :: "bytes \<Rightarrow> heap \<Rightarrow> handle list \<Rightarrow> shared_run \<Rightarrow> usize set \<Rightarrow> bool" where
  "run_inv me h R s L \<longleftrightarrow>
     wf_heap (hide (pending s \<union> L) (sr_heap s)) (run_handles me R s) \<and> heap_ok (sr_heap s) \<and>
     quiet h (sr_heap s) \<and> hp_blocks (sr_heap s) = hp_blocks h \<and>
     (sr_data s = bs_data me \<or> is_unpromoted (bs_data me) \<and> promoted (sr_data s)) \<and>
     (\<forall>c\<in>set (sr_clones s). c = me\<lparr>bs_data := sr_data s\<rparr> \<and> \<not> is_unpromoted (sr_data s)) \<and>
     (\<forall>i. pc_ok (bs_data me) (sr_data s) (sr_pc s i)) \<and>
     (\<forall>i j a. pc_new (sr_pc s i) = Some a \<and> pc_new (sr_pc s j) = Some a \<longrightarrow> i = j) \<and>
     (\<forall>a\<in>pending s. box_of (sr_heap s) me a 2) \<and> (\<forall>a\<in>L. box_of (sr_heap s) me a 1) \<and>
     pending s \<inter> L = {} \<and>
     (promoted (sr_data s) \<longrightarrow> refs (sr_data s) (run_handles me R s) \<le> Suc isize_max)"

subsection \<open>Every turn keeps the invariant\<close>

lemma me_data [simp]: "\<lparr>bs_ptr = bs_ptr me, bs_len = bs_len me, bs_data = d\<rparr> = me\<lparr>bs_data := d\<rparr>"
  by (cases me) simp

lemma hand_out_simps [simp]:
  "sr_data (hand_out me d i s) = sr_data s" "sr_heap (hand_out me d i s) = sr_heap s"
  "sr_pc (hand_out me d i s) = (sr_pc s)(i := Start)"
  "sr_clones (hand_out me d i s) = me\<lparr>bs_data := d\<rparr> # sr_clones s"
  by (simp_all add: hand_out_def)

lemma pending_upd:
  assumes "sr_pc t = (sr_pc s)(i := p)"
    and "\<forall>i j a. pc_new (sr_pc s i) = Some a \<and> pc_new (sr_pc s j) = Some a \<longrightarrow> i = j"
  shows "pending t = (pending s - set_option (pc_new (sr_pc s i))) \<union> set_option (pc_new p)"
proof -
  have "a \<in> pending t \<longleftrightarrow> (a \<in> pending s \<and> pc_new (sr_pc s i) \<noteq> Some a) \<or> pc_new p = Some a" for a
  proof -
    have "a \<in> pending t \<longleftrightarrow> pc_new p = Some a \<or> (\<exists>j. j \<noteq> i \<and> pc_new (sr_pc s j) = Some a)"
      by (auto simp: pending_def assms(1))
    moreover have "(\<exists>j. j \<noteq> i \<and> pc_new (sr_pc s j) = Some a) \<longleftrightarrow> a \<in> pending s \<and> pc_new (sr_pc s i) \<noteq> Some a"
      using assms(2) by (fastforce simp: pending_def)
    ultimately show ?thesis by blast
  qed
  then show ?thesis by (auto simp: set_eq_iff)
qed

lemma pending_cong: "sr_pc s = sr_pc t \<Longrightarrow> pending s = pending t"
  by (simp add: pending_def)

lemma run_init_inv:
  assumes "wf_heap h (HBytes me # R)" "length R \<le> isize_max"
  shows "run_inv me h R (run_init me h) {}"
  using assms refs_le_length [of "bs_data me" R]
  by (simp add: run_inv_def run_init_def pending_def run_handles_def wf_heap_def)

lemma increment_OkD:
  assumes "increment a h = Ok h'"
  obtains s where "hp_shared h a = Some s" "ref_count s \<le> isize_max"
    "h' = box_set a (s\<lparr>ref_count := Suc (ref_count s)\<rparr>) h"
proof -
  obtain s where s: "hp_shared h a = Some s"
    using assms by (cases "hp_shared h a") (auto simp: increment_def fetch_add_def box_deref_def)
  moreover have "ref_count s \<le> isize_max"
    using assms s by (auto simp: increment_def fetch_add_def box_deref_def split: if_splits)
  ultimately show thesis
    using that [OF s] assms s by (simp add: increment_def fetch_add_def box_deref_def isize_max_def)
qed

lemma run_invD:
  assumes "run_inv me h R s L"
  shows "wf_heap (hide (pending s \<union> L) (sr_heap s)) (run_handles me R s)" "heap_ok (sr_heap s)"
    "quiet h (sr_heap s)" "hp_blocks (sr_heap s) = hp_blocks h"
    "sr_data s = bs_data me \<or> is_unpromoted (bs_data me) \<and> promoted (sr_data s)"
    "\<forall>c\<in>set (sr_clones s). c = me\<lparr>bs_data := sr_data s\<rparr> \<and> \<not> is_unpromoted (sr_data s)"
    "pc_ok (bs_data me) (sr_data s) (sr_pc s i)"
    "\<forall>i j a. pc_new (sr_pc s i) = Some a \<and> pc_new (sr_pc s j) = Some a \<longrightarrow> i = j"
    "\<forall>a\<in>pending s. box_of (sr_heap s) me a 2" "\<forall>a\<in>L. box_of (sr_heap s) me a 1" "pending s \<inter> L = {}"
    "promoted (sr_data s) \<Longrightarrow> refs (sr_data s) (run_handles me R s) \<le> Suc isize_max"
  using assms by (auto simp: run_inv_def)

lemma run_invI:
  assumes "wf_heap (hide (pending s \<union> L) (sr_heap s)) (run_handles me R s)" "heap_ok (sr_heap s)"
    "quiet h (sr_heap s)" "hp_blocks (sr_heap s) = hp_blocks h"
    "sr_data s = bs_data me \<or> is_unpromoted (bs_data me) \<and> promoted (sr_data s)"
    "\<And>c. c \<in> set (sr_clones s) \<Longrightarrow> c = me\<lparr>bs_data := sr_data s\<rparr> \<and> \<not> is_unpromoted (sr_data s)"
    "\<And>i. pc_ok (bs_data me) (sr_data s) (sr_pc s i)"
    "\<And>i j a. pc_new (sr_pc s i) = Some a \<Longrightarrow> pc_new (sr_pc s j) = Some a \<Longrightarrow> i = j"
    "\<And>a. a \<in> pending s \<Longrightarrow> box_of (sr_heap s) me a 2" "\<And>a. a \<in> L \<Longrightarrow> box_of (sr_heap s) me a 1"
    "pending s \<inter> L = {}" "promoted (sr_data s) \<Longrightarrow> refs (sr_data s) (run_handles me R s) \<le> Suc isize_max"
  shows "run_inv me h R s L"
  unfolding run_inv_def using assms by blast

text \<open>The box of a promoted handle is in sight.\<close>

lemma shared_box:
  assumes inv: "run_inv me h R s L" and pro: "promoted (sr_data s)"
  obtains b where "hp_shared (sr_heap s) (sr_data s) = Some b" "sr_data s \<notin> pending s \<union> L"
    "sh_ptr b = Ptr (ptr_blk (bs_ptr me)) 0" "sh_cap b = blk_size (sr_heap s) (ptr_blk (bs_ptr me))"
    "ref_count b = refs (sr_data s) (run_handles me R s)"
proof -
  let ?H = "hide (pending s \<union> L) (sr_heap s)"
  note wf = run_invD(1) [OF inv]
  have "handle_ok ?H (HBytes (me\<lparr>bs_data := sr_data s\<rparr>))" using wf by (simp add: wf_heap_def run_handles_def)
  then obtain b where b: "hp_shared ?H (sr_data s) = Some b" "sh_ptr b = Ptr (ptr_blk (bs_ptr me)) 0"
    "sh_cap b = blk_size ?H (ptr_blk (bs_ptr me))"
    using pro by (auto simp: promoted_def elim: owner_box)
  have "ref_count b = refs (sr_data s) (run_handles me R s)"
    using wf b(1) counts_box by (auto simp: wf_heap_def)
  with b show thesis by (intro that) (auto split: if_splits)
qed

lemma inc_inv:
  assumes inv: "run_inv me h R s L" and pro: "promoted (sr_data s)" and pc: "pc_new (sr_pc s i) = None"
    and inc: "increment (sr_data s) (sr_heap s) = Ok h'"
  shows "run_inv me h R (hand_out me (sr_data s) i (s\<lparr>sr_heap := h'\<rparr>)) L"
proof -
  let ?d = "sr_data s" and ?me = "me\<lparr>bs_data := sr_data s\<rparr>" and ?X = "pending s \<union> L"
  let ?H = "hide ?X (sr_heap s)" and ?t = "hand_out me (sr_data s) i (s\<lparr>sr_heap := h'\<rparr>)"
  note I = run_invD [OF inv]
  obtain b where b: "hp_shared (sr_heap s) ?d = Some b" "?d \<notin> ?X" "sh_ptr b = Ptr (ptr_blk (bs_ptr me)) 0"
    "sh_cap b = blk_size (sr_heap s) (ptr_blk (bs_ptr me))" "ref_count b = refs ?d (run_handles me R s)"
    by (rule shared_box [OF inv pro])
  let ?b = "b\<lparr>ref_count := Suc (ref_count b)\<rparr>"
  have h': "h' = box_set ?d ?b (sr_heap s)" and max: "ref_count b \<le> isize_max"
    using increment_OkD [OF inc] b(1) by auto
  have pend: "pending ?t = pending s" using pending_upd [of ?t s i Start] I(8) pc by simp
  have wf: "wf_heap ?H (HBytes ?me # map HBytes (sr_clones s) @ R)" using I(1) by (simp add: run_handles_def)
  have ok: "handle_ok ?H (HBytes ?me)" using wf by (simp add: wf_heap_def)
  have init: "None \<notin> set (cells ?H (bs_ptr me) (bs_len me))" using handle_init [OF ok] by simp
  have "unat ?d \<le> 8 * hp_boxes ?H" using I(2) b(1) by (auto simp: heap_ok_def)
  then have "wf_heap (box_set ?d ?b ?H) ([HBytes ?me, HBytes ?me] @ map HBytes (sr_clones s) @ R)"
    by (intro wf_share [OF wf, where a = ?d and s = ?b])
      (use pro b init in \<open>auto simp: sub_def compat_def promoted_def run_handles_def box_set_def\<close>)
  then have wf': "wf_heap (hide (pending s \<union> L) h') (run_handles me R ?t)"
    using b(2) by (simp add: h' hide_box_set run_handles_def)
  have box: "box_of h' me a n \<longleftrightarrow> box_of (sr_heap s) me a n" if "a \<in> ?X" for a n
    using that b(2) by (auto simp: h' box_of_def box_set_def blk_size_def)
  have heap: "heap_ok h'" using I(2) b(1) by (auto simp: h' box_set_def heap_ok_def blk_size_def ptr_addr_def)
  have q: "quiet h h'" "hp_blocks h' = hp_blocks h" using I(3,4) by (simp_all add: h' quiet_def box_set_def cells_def)
  show ?thesis
  proof (rule run_invI, unfold pend)
    show "wf_heap (hide (pending s \<union> L) (sr_heap ?t)) (run_handles me R ?t)" using wf' by simp
    show "a \<in> pending s \<Longrightarrow> box_of (sr_heap ?t) me a 2" for a using box I(9) by simp
    show "a \<in> L \<Longrightarrow> box_of (sr_heap ?t) me a 1" for a using box I(10) by simp
    show "pc_new (sr_pc ?t i) = Some a \<Longrightarrow> pc_new (sr_pc ?t j) = Some a \<Longrightarrow> i = j" for i j a
      using I(8) by (auto split: if_splits)
    show "pc_ok (bs_data me) (sr_data ?t) (sr_pc ?t j)" for j
      using run_invD(7) [OF inv, of j] by simp
    show "c \<in> set (sr_clones ?t) \<Longrightarrow> c = me\<lparr>bs_data := sr_data ?t\<rparr> \<and> \<not> is_unpromoted (sr_data ?t)" for c
      using I(6) pro by (auto simp: promoted_def)
    show "refs (sr_data ?t) (run_handles me R ?t) \<le> Suc isize_max"
      using max b(5) by (simp add: run_handles_def)
  qed (use I(5,11) heap q in simp_all)
qed

lemma null_inv:
  assumes inv: "run_inv me h R s L" and null: "sr_data s = 0" and pc: "pc_new (sr_pc s i) = None"
  shows "run_inv me h R (hand_out me 0 i s) L"
proof -
  note I = run_invD [OF inv]
  let ?t = "hand_out me 0 i s"
  have pend: "pending ?t = pending s" using pending_upd [of ?t s i Start] I(8) pc by simp
  have wf: "wf_heap (hide (pending s \<union> L) (sr_heap s)) (run_handles me R s)" by (rule I(1))
  then have "handle_ok (hide (pending s \<union> L) (sr_heap s)) (HBytes (me\<lparr>bs_data := 0\<rparr>))"
    by (simp add: wf_heap_def run_handles_def null)
  then have "wf_heap (hide (pending s \<union> L) (sr_heap s)) (HBytes (me\<lparr>bs_data := 0\<rparr>) # run_handles me R s)"
    by (intro wf_null_add [OF wf]) simp_all
  then have wf': "wf_heap (hide (pending s \<union> L) (sr_heap s)) (run_handles me R ?t)"
    by (simp add: run_handles_def null)
  show ?thesis
  proof (rule run_invI, unfold pend)
    show "wf_heap (hide (pending s \<union> L) (sr_heap ?t)) (run_handles me R ?t)" using wf' by simp
    show "pc_new (sr_pc ?t i) = Some a \<Longrightarrow> pc_new (sr_pc ?t j) = Some a \<Longrightarrow> i = j" for i j a
      using I(8) by (auto split: if_splits)
    show "pc_ok (bs_data me) (sr_data ?t) (sr_pc ?t j)" for j
      using run_invD(7) [OF inv, of j] by simp
    show "c \<in> set (sr_clones ?t) \<Longrightarrow> c = me\<lparr>bs_data := sr_data ?t\<rparr> \<and> \<not> is_unpromoted (sr_data ?t)" for c
      using I(6) null by (auto simp: is_unpromoted_odd)
  qed (use I null in \<open>simp_all add: promoted_def\<close>)
qed

text \<open>Boxing: the vector a thread rebuilds is the allocation, whether or not another thread has promoted.\<close>

lemma build_unpromoted_vec_cong:
  "hp_blocks h' = hp_blocks h \<Longrightarrow> build_unpromoted_vec b n h' = build_unpromoted_vec b n h"
  by (simp add: build_unpromoted_vec_def ptr_sub_def vec_from_raw_parts_def blk_ok_def blk_size_def)

lemma wf_boxes: "wf_heap h hs \<Longrightarrow> wf_heap (h\<lparr>hp_boxes := Suc (hp_boxes h)\<rparr>) hs"
proof -
  let ?h = "h\<lparr>hp_boxes := Suc (hp_boxes h)\<rparr>"
  assume wf: "wf_heap h hs"
  have "heap_ok ?h" using wf by (fastforce simp: wf_heap_def heap_ok_def blk_size_def ptr_addr_def)
  moreover have "handle_ok ?h x" if "x \<in> set hs" for x
    using handle_ok_cong [of h x ?h] wf that by (auto simp: wf_heap_def)
  moreover have "no_leak ?h hs" by (rule no_leak_cong [of h hs]) (use wf in \<open>auto simp: wf_heap_def\<close>)
  ultimately show ?thesis using wf by (simp add: wf_heap_def counts_ok_def)
qed

lemma heap_ok_box:
  assumes "heap_ok h" "box_room h"
  shows "heap_ok (h\<lparr>hp_shared := (hp_shared h)(box_addr (hp_boxes h) \<mapsto> b), hp_boxes := Suc (hp_boxes h)\<rparr>)"
proof (rule heap_ok_cong [OF assms(1)])
  fix a
  assume "hp_shared (h\<lparr>hp_shared := (hp_shared h)(box_addr (hp_boxes h) \<mapsto> b), hp_boxes := Suc (hp_boxes h)\<rparr>) a \<noteq> None"
  then have "a = box_addr (hp_boxes h) \<or> hp_shared h a \<noteq> None" by (simp split: if_splits)
  moreover have "a \<noteq> 0 \<and> \<not> is_unpromoted a \<and> unat a \<le> 8 * hp_boxes h" if "hp_shared h a \<noteq> None"
    using assms(1) that by (simp add: heap_ok_def)
  ultimately have "a \<noteq> 0 \<and> \<not> is_unpromoted a \<and> unat a \<le> 8 * Suc (hp_boxes h)"
    using box_fresh [OF assms] by fastforce
  then show "a \<noteq> 0 \<and> \<not> is_unpromoted a \<and> unat a \<le>
      8 * hp_boxes (h\<lparr>hp_shared := (hp_shared h)(box_addr (hp_boxes h) \<mapsto> b), hp_boxes := Suc (hp_boxes h)\<rparr>)"
    by simp
qed simp_all

lemma fresh_hidden:
  assumes inv: "run_inv me h R s L" and room: "box_room (sr_heap s)"
  shows "box_addr (hp_boxes (sr_heap s)) \<notin> pending s \<union> L"
  using box_fresh [OF run_invD(2) [OF inv] room] run_invD(9,10) [OF inv] by (auto simp: box_of_def)

text \<open>An unpromoted handle reaches to the end of its allocation, so the allocation can be rebuilt from it.\<close>

definition whole_alloc :: "heap \<Rightarrow> bytes \<Rightarrow> bool" where
  "whole_alloc h me \<longleftrightarrow> (is_unpromoted (bs_data me) \<longrightarrow>
     build_unpromoted_vec me (payload (bs_data me)) h =
       Ok (whole_vec h (ptr_blk (bs_ptr me)) (blk_size h (ptr_blk (bs_ptr me)))))"

lemma wf_whole_alloc: "wf_heap h (HBytes me # R) \<Longrightarrow> whole_alloc h me"
  using build_unpromoted_vec_Ok [of h me R] by (simp add: whole_alloc_def)

lemma box_inv:
  assumes whole: "whole_alloc h me" and inv: "run_inv me h R s L"
    and pc: "sr_pc s i = Loaded (bs_data me)" and un: "is_unpromoted (bs_data me)" and room: "box_room (sr_heap s)"
  shows "\<exists>t. clone_turn me i s = Ok t \<and> run_inv me h R t L"
proof -
  note I = run_invD [OF inv]
  let ?a = "box_addr (hp_boxes (sr_heap s))" and ?X = "pending s \<union> L"
  let ?b = "\<lparr>ref_count = 2, sh_ptr = Ptr (ptr_blk (bs_ptr me)) 0, sh_cap = blk_size h (ptr_blk (bs_ptr me))\<rparr>"
  let ?h = "(sr_heap s)\<lparr>hp_shared := (hp_shared (sr_heap s))(?a \<mapsto> ?b), hp_boxes := Suc (hp_boxes (sr_heap s))\<rparr>"
  let ?t = "s\<lparr>sr_heap := ?h, sr_pc := (sr_pc s)(i := Boxed (bs_data me) ?a)\<rparr>"
  note fresh = box_fresh [OF I(2) room] and hid = fresh_hidden [OF inv room]
  have vec: "build_unpromoted_vec me (payload (bs_data me)) (sr_heap s) =
      Ok (whole_vec h (ptr_blk (bs_ptr me)) (blk_size h (ptr_blk (bs_ptr me))))"
    using whole un build_unpromoted_vec_cong [OF I(4)] by (simp add: whole_alloc_def)
  have eval: "clone_turn me i s = Ok ?t"
    using pc un vec promote_Ok [OF room]
    by (auto simp: clone_turn_def as_unpromoted_Inl whole_vec_def is_unpromoted_odd)
  have pend: "pending ?t = insert ?a (pending s)"
    using pending_upd [of ?t s i "Boxed (bs_data me) ?a"] I(8) pc by auto
  have "hide (pending ?t \<union> L) ?h = (hide ?X (sr_heap s))\<lparr>hp_boxes := Suc (hp_boxes (sr_heap s))\<rparr>"
    using hide_insert [OF fresh(1), of ?X] by (simp add: pend)
  then have wf': "wf_heap (hide (pending ?t \<union> L) (sr_heap ?t)) (run_handles me R ?t)"
    using wf_boxes [OF I(1)] by (simp add: run_handles_def)
  have heap: "heap_ok ?h" by (rule heap_ok_box [OF I(2) room])
  have box: "box_of ?h me x n \<longleftrightarrow> box_of (sr_heap s) me x n" if "x \<in> ?X" for x n
    using that hid by (auto simp: box_of_def blk_size_def)
  have new: "box_of ?h me ?a 2" using I(4) by (simp add: box_of_def blk_size_def)
  have "run_inv me h R ?t L"
  proof (rule run_invI)
    show "wf_heap (hide (pending ?t \<union> L) (sr_heap ?t)) (run_handles me R ?t)" by (rule wf')
    show "x \<in> pending ?t \<Longrightarrow> box_of (sr_heap ?t) me x 2" for x using box new I(9) by (auto simp: pend)
    show "x \<in> L \<Longrightarrow> box_of (sr_heap ?t) me x 1" for x using box I(10) by simp
    show "pending ?t \<inter> L = {}" using I(11) hid by (simp add: pend)
    show "pc_new (sr_pc ?t j) = Some x \<Longrightarrow> pc_new (sr_pc ?t k) = Some x \<Longrightarrow> j = k" for j k x
      using I(8) hid by (auto simp: pending_def split: if_splits)
    show "pc_ok (bs_data me) (sr_data ?t) (sr_pc ?t j)" for j
      using run_invD(7) [OF inv, of j] un by simp
    show "quiet h (sr_heap ?t)" using I(3) by (simp add: quiet_def cells_def)
    show "promoted (sr_data ?t) \<Longrightarrow> refs (sr_data ?t) (run_handles me R ?t) \<le> Suc isize_max"
      using I(12) by (simp add: run_handles_def)
  qed (use I(4-6) heap in auto)
  with eval show ?thesis by blast
qed

text \<open>The compare-exchange, won and lost.\<close>

lemma box_promoted: "heap_ok h \<Longrightarrow> box_of h me a n \<Longrightarrow> promoted a"
  by (auto simp: heap_ok_def box_of_def promoted_def)

lemma unboxed_refs:
  assumes "wf_heap h hs" "hp_shared h a = None" "promoted a"
  shows "refs a hs = 0"
proof -
  have "h_data x \<noteq> a" if "x \<in> set hs" for x
  proof
    assume "h_data x = a"
    moreover have "handle_ok h x" using assms(1) that by (simp add: wf_heap_def)
    ultimately obtain b where "hp_shared h a = Some b"
      using assms(3) owner_box [of h x] by (auto simp: promoted_def)
    then show False using assms(2) by simp
  qed
  then show ?thesis by (simp add: refs_eq_0)
qed

lemma pendingI: "pc_new (sr_pc s i) = Some a \<Longrightarrow> a \<in> pending s"
  by (auto simp: pending_def)

lemma win_inv:
  assumes inv: "run_inv me h R s L" and pc: "sr_pc s i = Boxed (sr_data s) a"
  shows "run_inv me h R (hand_out me a i (s\<lparr>sr_data := a\<rparr>)) L"
proof -
  note I = run_invD [OF inv]
  let ?X = "pending s \<union> L" and ?t = "hand_out me a i (s\<lparr>sr_data := a\<rparr>)"
  let ?H = "hide ?X (sr_heap s)" and ?H' = "hide (pending s - {a} \<union> L) (sr_heap s)" and ?me = "me\<lparr>bs_data := a\<rparr>"
  let ?b = "\<lparr>ref_count = 2, sh_ptr = Ptr (ptr_blk (bs_ptr me)) 0, sh_cap = blk_size (sr_heap s) (ptr_blk (bs_ptr me))\<rparr>"
  have d: "sr_data s = bs_data me" "is_unpromoted (bs_data me)" using run_invD(7) [OF inv, of i] pc by auto
  then have no: "sr_clones s = []" using I(6) by (cases "sr_clones s") auto
  have a: "a \<in> pending s" using pc by (intro pendingI [of s i]) simp
  then have b: "hp_shared (sr_heap s) a = Some ?b" and pro: "promoted a" and aL: "a \<notin> L"
    using I(9,11) box_promoted [OF I(2)] by (auto simp: box_of_def)
  have pend: "pending ?t = pending s - {a}" using pending_upd [of ?t s i Start] I(8) pc by simp
  have wf: "wf_heap ?H (HBytes (me\<lparr>bs_data := sr_data s\<rparr>) # R)" using I(1) no by (simp add: run_handles_def)
  have "handle_ok ?H (HBytes (me\<lparr>bs_data := sr_data s\<rparr>))" using wf by (simp add: wf_heap_def)
  then have init: "None \<notin> set (cells ?H (bs_ptr me) (bs_len me))" using handle_init by fastforce
  have refs: "refs a R = 0" using unboxed_refs [OF wf _ pro] a by (simp split: if_splits)
  have own: "owns (HBytes (me\<lparr>bs_data := sr_data s\<rparr>))" using d by (auto simp: is_unpromoted_odd)
  have size: "unat a \<le> 8 * hp_boxes ?H'" using I(2) b by (auto simp: heap_ok_def)
  have share: "hp_shared ?H' = (hp_shared ?H)(a \<mapsto> ?b)" using a aL b by (auto simp: fun_eq_iff)
  have wf': "wf_heap ?H' ([HBytes ?me, HBytes ?me] @ R)"
    by (rule wf_share [OF wf own, where a = a and s = ?b])
      (use d a pro init refs share size in \<open>auto simp: sub_def compat_def promoted_def\<close>)
  show ?thesis
  proof (rule run_invI, unfold pend)
    show "wf_heap (hide (pending s - {a} \<union> L) (sr_heap ?t)) (run_handles me R ?t)"
      using wf' no by (simp add: run_handles_def)
    show "pc_new (sr_pc ?t j) = Some x \<Longrightarrow> pc_new (sr_pc ?t k) = Some x \<Longrightarrow> j = k" for j k x
      using I(8) by (auto split: if_splits)
    show "pc_ok (bs_data me) (sr_data ?t) (sr_pc ?t j)" for j
      using run_invD(7) [OF inv, of j] d by (cases "sr_pc s j") (auto simp: promoted_def)
    show "c \<in> set (sr_clones ?t) \<Longrightarrow> c = me\<lparr>bs_data := sr_data ?t\<rparr> \<and> \<not> is_unpromoted (sr_data ?t)" for c
      using no pro by (simp add: promoted_def)
    show "refs (sr_data ?t) (run_handles me R ?t) \<le> Suc isize_max"
      using no refs by (simp add: run_handles_def isize_max_def)
  qed (use I d pro in auto)
qed

lemma lose_inv:
  assumes inv: "run_inv me h R s L" and pc: "sr_pc s i = Boxed x a" and x: "sr_data s \<noteq> x"
  shows "promoted (sr_data s)" "a \<noteq> sr_data s"
    "run_inv me h R (s\<lparr>sr_pc := (sr_pc s)(i := Lost a (sr_data s))\<rparr>) L"
proof -
  note I = run_invD [OF inv]
  let ?t = "s\<lparr>sr_pc := (sr_pc s)(i := Lost a (sr_data s))\<rparr>"
  show pro: "promoted (sr_data s)" using run_invD(7) [OF inv, of i] I(5) pc x by auto
  have a: "a \<in> pending s" using pc by (intro pendingI [of s i]) simp
  then show "a \<noteq> sr_data s" using shared_box [OF inv pro] by (metis UnCI)
  have pend: "pending ?t = pending s" using pending_upd [of ?t s i "Lost a (sr_data s)"] I(8) pc a by auto
  show "run_inv me h R ?t L"
  proof (rule run_invI, unfold pend)
    show "wf_heap (hide (pending s \<union> L) (sr_heap ?t)) (run_handles me R ?t)"
      using I(1) by (simp add: run_handles_def)
    show "pc_new (sr_pc ?t j) = Some y \<Longrightarrow> pc_new (sr_pc ?t k) = Some y \<Longrightarrow> j = k" for j k y
      using I(8) pc by (auto split: if_splits)
    show "pc_ok (bs_data me) (sr_data ?t) (sr_pc ?t j)" for j
      using run_invD(7) [OF inv, of j] pro by simp
    show "refs (sr_data ?t) (run_handles me R ?t) \<le> Suc isize_max"
      using I(12) [OF pro] by (simp add: run_handles_def)
  qed (use I in auto)
qed

text \<open>The loser gives one of the two references of its box up; the box stays, with a count of one.\<close>

lemma release_dec:
  assumes "hp_shared h a = Some s" "1 < ref_count s" "ref_count s < 2 ^ 64"
  shows "release a h = Ok (box_set a (s\<lparr>ref_count := ref_count s - 1\<rparr>) h)"
  using fetch_sub_pred [OF assms(1) _ assms(3)] assms(2) by (simp add: release_def)

lemma lost_inv:
  assumes inv: "run_inv me h R s L" and pc: "sr_pc s i = Lost a p"
  shows "\<exists>t. clone_turn me i s = Ok t \<and> run_inv me h R t (insert a L) \<and> sr_pc t = (sr_pc s)(i := Released p)"
proof -
  note I = run_invD [OF inv]
  let ?b = "\<lparr>ref_count = 1, sh_ptr = Ptr (ptr_blk (bs_ptr me)) 0, sh_cap = blk_size (sr_heap s) (ptr_blk (bs_ptr me))\<rparr>"
  let ?h = "box_set a ?b (sr_heap s)" and ?X = "pending s \<union> L"
  let ?t = "s\<lparr>sr_heap := ?h, sr_pc := (sr_pc s)(i := Released p)\<rparr>"
  have a: "a \<in> pending s" using pc by (intro pendingI [of s i]) simp
  then have box: "hp_shared (sr_heap s) a = Some (?b\<lparr>ref_count := 2\<rparr>)" and aL: "a \<notin> L"
    using I(9,11) by (auto simp: box_of_def)
  have "release a (sr_heap s) = Ok ?h" using release_dec [OF box] by simp
  then have eval: "clone_turn me i s = Ok ?t" using pc by (simp add: clone_turn_def)
  have pend: "pending ?t = pending s - {a}" using pending_upd [of ?t s i "Released p"] I(8) pc by simp
  have set: "pending s - {a} \<union> insert a L = ?X" using a by auto
  have hid: "hide ?X ?h = hide ?X (sr_heap s)" using a by (simp add: hide_box_set)
  have same: "box_of ?h me x n \<longleftrightarrow> box_of (sr_heap s) me x n" if "x \<noteq> a" for x n
    using that by (simp add: box_of_def box_set_def blk_size_def)
  have new: "box_of ?h me a 1" by (simp add: box_of_def box_set_def blk_size_def)
  have "run_inv me h R ?t (insert a L)"
  proof (rule run_invI, unfold pend set)
    show "wf_heap (hide ?X (sr_heap ?t)) (run_handles me R ?t)" using I(1) hid by (simp add: run_handles_def)
    show "heap_ok (sr_heap ?t)" using I(2) box by (auto simp: box_set_def heap_ok_def blk_size_def ptr_addr_def)
    show "quiet h (sr_heap ?t)" "hp_blocks (sr_heap ?t) = hp_blocks h"
      using I(3,4) by (simp_all add: quiet_def box_set_def cells_def)
    show "x \<in> pending s - {a} \<Longrightarrow> box_of (sr_heap ?t) me x 2" for x using same I(9) by simp
    show "x \<in> insert a L \<Longrightarrow> box_of (sr_heap ?t) me x 1" for x using same [of x] new I(10) by auto
    show "pc_new (sr_pc ?t j) = Some x \<Longrightarrow> pc_new (sr_pc ?t k) = Some x \<Longrightarrow> j = k" for j k x
      using I(8) by (auto split: if_splits)
    show "pc_ok (bs_data me) (sr_data ?t) (sr_pc ?t j)" for j
      using run_invD(7) [OF inv, of j] run_invD(7) [OF inv, of i] pc by simp
    show "promoted (sr_data ?t) \<Longrightarrow> refs (sr_data ?t) (run_handles me R ?t) \<le> Suc isize_max"
      using I(12) by (simp add: run_handles_def)
  qed (use I(5,6,11) in auto)
  with eval show ?thesis by auto
qed

text \<open>Dropping a clone never frees: the shared handle still holds a reference.\<close>

lemma drop_inv:
  assumes inv: "run_inv me h R s L" and j: "j < length (sr_clones s)"
  shows "\<exists>t. drop_turn j s = Ok t \<and> run_inv me h R t L"
proof -
  note I = run_invD [OF inv]
  let ?me = "me\<lparr>bs_data := sr_data s\<rparr>" and ?X = "pending s \<union> L"
  let ?H = "hide ?X (sr_heap s)" and ?cs = "take j (sr_clones s) @ drop (Suc j) (sr_clones s)"
  let ?rest = "HBytes ?me # map HBytes ?cs @ R"
  have c: "sr_clones s ! j = ?me" and pro: "\<not> is_unpromoted (sr_data s)" using I(6) j nth_mem by blast+
  have "mset (sr_clones s) = mset (?me # ?cs)"
    using c id_take_nth_drop [OF j] by (metis append_Cons append_Nil mset_append union_commute append_assoc mset.simps(2))
  then have "mset (run_handles me R s) = mset (HBytes ?me # ?rest)" by (simp add: run_handles_def)
  then have wf: "wf_heap ?H (HBytes ?me # ?rest)" by (rule wf_heap_perm [OF _ I(1)])
  have rest: "run_handles me R (s\<lparr>sr_heap := h', sr_clones := ?cs\<rparr>) = ?rest" for h' by (simp add: run_handles_def)
  have keep: "run_inv me h R (s\<lparr>sr_heap := h', sr_clones := ?cs\<rparr>) L"
    if w: "wf_heap (hide ?X h') ?rest" "heap_ok h'" "quiet h h'" "hp_blocks h' = hp_blocks h"
      and box: "\<And>x n. x \<in> ?X \<Longrightarrow> box_of h' me x n = box_of (sr_heap s) me x n" for h'
  proof -
    let ?t = "s\<lparr>sr_heap := h', sr_clones := ?cs\<rparr>"
    have pend: "pending ?t = pending s" by (rule pending_cong) simp
    have "refs (sr_data s) ?rest \<le> refs (sr_data s) (run_handles me R s)"
      using \<open>mset (run_handles me R s) = _\<close> by (simp add: refs_mset)
    then show ?thesis
      using w box I(5-12) set_take_subset [of j "sr_clones s"] set_drop_subset [of "Suc j" "sr_clones s"]
      by (intro run_invI, unfold pend rest) auto
  qed
  show ?thesis
  proof (cases "sr_data s = 0")
    case True
    then have "drop_turn j s = Ok (s\<lparr>sr_heap := sr_heap s, sr_clones := ?cs\<rparr>)"
      by (simp add: drop_turn_def c bytes_drop_def)
    moreover have "wf_heap ?H ?rest" using wf_null_drop [OF wf] True by simp
    ultimately show ?thesis using keep [of "sr_heap s"] I(2-4) by blast
  next
    case False
    then have "promoted (sr_data s)" using pro by (simp add: promoted_def)
    then obtain b where b: "hp_shared (sr_heap s) (sr_data s) = Some b" "sr_data s \<notin> ?X"
      "ref_count b = refs (sr_data s) (run_handles me R s)" by (rule shared_box [OF inv])
    let ?b = "b\<lparr>ref_count := refs (sr_data s) ?rest\<rparr>" and ?h = "box_set (sr_data s) (b\<lparr>ref_count := ref_count b - 1\<rparr>) (sr_heap s)"
    have rc: "ref_count b = Suc (refs (sr_data s) ?rest)" "0 < refs (sr_data s) ?rest"
      using b(3) \<open>mset (run_handles me R s) = _\<close> by (simp_all add: refs_mset)
    moreover have "ref_count b < 2 ^ 64"
      using I(12) \<open>promoted (sr_data s)\<close> b(3) by (simp add: isize_max_def)
    ultimately have "release (sr_data s) (sr_heap s) = Ok ?h" using release_dec [OF b(1)] by simp
    then have "drop_turn j s = Ok (s\<lparr>sr_heap := ?h, sr_clones := ?cs\<rparr>)"
      using b(1) pro False by (simp add: drop_turn_def c bytes_drop_def as_unpromoted_Inr)
    moreover have "wf_heap (box_set (sr_data s) ?b ?H) ?rest"
      using wf_release [OF wf _ _, of b] b(1,2) False rc(2) by simp
    then have "wf_heap (hide ?X ?h) ?rest" using b(2) rc(1) by (simp add: hide_box_set)
    moreover have "heap_ok ?h" using I(2) b(1) by (auto simp: box_set_def heap_ok_def blk_size_def ptr_addr_def)
    moreover have "quiet h ?h" "hp_blocks ?h = hp_blocks h"
      using I(3,4) by (simp_all add: quiet_def box_set_def cells_def)
    moreover have "box_of ?h me x n = box_of (sr_heap s) me x n" if "x \<in> ?X" for x n
      using that b(2) by (auto simp: box_of_def box_set_def blk_size_def)
    ultimately show ?thesis using keep by blast
  qed
qed

text \<open>Room for one more reference and one more box.\<close>

definition run_room :: "bytes \<Rightarrow> handle list \<Rightarrow> shared_run \<Rightarrow> bool" where
  "run_room me R s \<longleftrightarrow> box_room (sr_heap s) \<and> length (sr_clones s) + length R < isize_max"

lemma increment_run:
  assumes inv: "run_inv me h R s L" and pro: "promoted (sr_data s)"
  shows "increment (sr_data s) (sr_heap s) \<noteq> UB \<and> increment (sr_data s) (sr_heap s) \<noteq> Panic"
    "run_room me R s \<Longrightarrow> \<exists>h'. increment (sr_data s) (sr_heap s) = Ok h'"
proof -
  obtain b where b: "hp_shared (sr_heap s) (sr_data s) = Some b"
    "ref_count b = refs (sr_data s) (run_handles me R s)" by (rule shared_box [OF inv pro])
  have "refs (sr_data s) (run_handles me R s) \<le> Suc (length (sr_clones s) + length R)"
    using refs_le_length [of "sr_data s" "run_handles me R s"] by (simp add: run_handles_def)
  then show "run_room me R s \<Longrightarrow> \<exists>h'. increment (sr_data s) (sr_heap s) = Ok h'"
    using b by (simp add: increment_def fetch_add_def box_deref_def run_room_def)
  show "increment (sr_data s) (sr_heap s) \<noteq> UB \<and> increment (sr_data s) (sr_heap s) \<noteq> Panic"
    using b by (simp add: increment_def fetch_add_def box_deref_def)
qed

text \<open>How far a thread still is from the end of its call.\<close>

fun pc_rank :: "clone_pc \<Rightarrow> nat" where
  "pc_rank Start = 5"
| "pc_rank (Loaded d) = 4"
| "pc_rank (Boxed d a) = 3"
| "pc_rank (Lost a p) = 2"
| "pc_rank (Released p) = 1"

definition turn_ok :: "bytes \<Rightarrow> heap \<Rightarrow> handle list \<Rightarrow> nat \<Rightarrow> shared_run \<Rightarrow> usize set \<Rightarrow> shared_run \<Rightarrow> bool" where
  "turn_ok me h R i s L t \<longleftrightarrow>
     (\<exists>L'. run_inv me h R t L' \<and> L \<subseteq> L' \<and> (L' = L \<or> (\<exists>a p. sr_pc s i = Lost a p \<and> L' = insert a L))) \<and>
     (pc_rank (sr_pc t i) < pc_rank (sr_pc s i) \<and> sr_clones t = sr_clones s \<or>
      sr_pc t i = Start \<and> (\<exists>c. sr_clones t = c # sr_clones s))"

lemma handed_rank:
  "run_inv me h R t L \<Longrightarrow> sr_pc t i = Start \<Longrightarrow> sr_clones t = c # sr_clones s \<Longrightarrow> turn_ok me h R i s L t"
  unfolding turn_ok_def by blast

lemma lower_rank:
  "run_inv me h R t L \<Longrightarrow> pc_rank (sr_pc t i) < pc_rank (sr_pc s i) \<Longrightarrow> sr_clones t = sr_clones s \<Longrightarrow>
   turn_ok me h R i s L t"
  unfolding turn_ok_def by blast

text \<open>The outcomes of one turn: \<open>Abort\<close> only for want of room.\<close>

definition turn_res :: "bytes \<Rightarrow> heap \<Rightarrow> handle list \<Rightarrow> nat \<Rightarrow> shared_run \<Rightarrow> usize set \<Rightarrow> bool" where
  "turn_res me h R i s L \<longleftrightarrow>
     (case clone_turn me i s of Ok t \<Rightarrow> turn_ok me h R i s L t | Abort \<Rightarrow> \<not> run_room me R s | _ \<Rightarrow> False)"

lemma turn_resI: "clone_turn me i s = Ok t \<Longrightarrow> turn_ok me h R i s L t \<Longrightarrow> turn_res me h R i s L"
  by (simp add: turn_res_def)

lemma inc_res:
  assumes inv: "run_inv me h R s L" and pro: "promoted (sr_data s)" and pc: "pc_new (sr_pc s i) = None"
    and eval: "clone_turn me i s = rbind (increment (sr_data s) (sr_heap s))
      (\<lambda>h. Ok (hand_out me (sr_data s) i (s\<lparr>sr_heap := h\<rparr>)))"
  shows "turn_res me h R i s L"
proof (cases "increment (sr_data s) (sr_heap s)")
  case (Ok h')
  then have "turn_ok me h R i s L (hand_out me (sr_data s) i (s\<lparr>sr_heap := h'\<rparr>))"
    using inc_inv [OF inv pro pc] by (intro handed_rank) auto
  then show ?thesis using Ok eval by (intro turn_resI) auto
qed (use increment_run [OF inv pro] eval in \<open>auto simp: turn_res_def\<close>)

lemma loaded_res:
  assumes whole: "whole_alloc h me" and inv: "run_inv me h R s L" and pc: "sr_pc s i = Loaded d"
  shows "turn_res me h R i s L"
proof -
  note I = run_invD [OF inv]
  have new: "pc_new (sr_pc s i) = None" using pc by simp
  have d: "d = sr_data s \<or> d = bs_data me" using run_invD(7) [OF inv, of i] pc by simp
  show ?thesis
  proof (cases "is_unpromoted d")
    case True
    have dm: "d = bs_data me" using d I(5) True by (auto simp: promoted_def)
    have nz: "d \<noteq> 0" using True by (auto simp: is_unpromoted_odd)
    show ?thesis
    proof (cases "box_room (sr_heap s)")
      case room: True
      obtain t where t: "clone_turn me i s = Ok t" "run_inv me h R t L"
        using box_inv [OF whole inv _ _ room] pc dm True by auto
      then obtain a where "sr_pc t = (sr_pc s)(i := Boxed d a)" "sr_clones t = sr_clones s"
        using pc True nz by (auto simp: clone_turn_def as_unpromoted_Inl)
      then show ?thesis using t pc by (intro turn_resI [OF t(1)] lower_rank) auto
    next
      case False
      have "build_unpromoted_vec me (payload d) (sr_heap s) =
          Ok (whole_vec h (ptr_blk (bs_ptr me)) (blk_size h (ptr_blk (bs_ptr me))))"
        using whole build_unpromoted_vec_cong [OF I(4)] True dm by (simp add: whole_alloc_def)
      then have "clone_turn me i s = Abort"
        using pc True False nz
        by (simp add: clone_turn_def as_unpromoted_Inl promote_with_vec_def box_new_def)
      then show ?thesis using False by (simp add: turn_res_def run_room_def)
    qed
  next
    case un: False
    then have d: "d = sr_data s" using d I(5) by auto
    show ?thesis
    proof (cases "d = 0")
      case True
      then have "run_inv me h R (hand_out me 0 i s) L" using null_inv [OF inv _ new] d by simp
      then have "turn_ok me h R i s L (hand_out me 0 i s)" by (intro handed_rank) auto
      then show ?thesis using pc True by (intro turn_resI) (auto simp: clone_turn_def)
    next
      case False
      then have pro: "promoted (sr_data s)" using un d by (simp add: promoted_def)
      obtain b where "hp_shared (sr_heap s) (sr_data s) = Some b" by (rule shared_box [OF inv pro])
      then show ?thesis
        using pc False un d by (intro inc_res [OF inv pro new]) (simp add: clone_turn_def as_unpromoted_Inr)
    qed
  qed
qed

lemma clone_turn_res:
  assumes whole: "whole_alloc h me" and inv: "run_inv me h R s L"
  shows "turn_res me h R i s L"
proof -
  note I = run_invD [OF inv]
  show ?thesis
  proof (cases "sr_pc s i")
    case Start
    let ?t = "s\<lparr>sr_pc := (sr_pc s)(i := Loaded (sr_data s))\<rparr>"
    have pend: "pending ?t = pending s" using pending_upd [of ?t s i "Loaded (sr_data s)"] I(8) Start by simp
    have "run_inv me h R ?t L"
    proof (rule run_invI, unfold pend)
      show "pc_new (sr_pc ?t j) = Some x \<Longrightarrow> pc_new (sr_pc ?t k) = Some x \<Longrightarrow> j = k" for j k x
        using I(8) by (auto split: if_splits)
      show "pc_ok (bs_data me) (sr_data ?t) (sr_pc ?t j)" for j using run_invD(7) [OF inv, of j] by simp
    qed (use I in \<open>auto simp: run_handles_def\<close>)
    then show ?thesis
      using Start by (intro turn_resI [of _ _ _ ?t] lower_rank) (simp_all add: clone_turn_def)
  next
    case (Loaded d)
    then show ?thesis by (rule loaded_res [OF whole inv])
  next
    case (Boxed x a)
    show ?thesis
    proof (cases "sr_data s = x")
      case True
      let ?t = "hand_out me a i (s\<lparr>sr_data := a\<rparr>)"
      have "turn_ok me h R i s L ?t" using win_inv [OF inv, of i a] True Boxed by (intro handed_rank) auto
      then show ?thesis using True Boxed by (intro turn_resI) (auto simp: clone_turn_def)
    next
      case False
      note l = lose_inv [OF inv Boxed False]
      let ?t = "s\<lparr>sr_pc := (sr_pc s)(i := Lost a (sr_data s))\<rparr>"
      have "turn_ok me h R i s L ?t" using l(3) Boxed by (intro lower_rank) auto
      then show ?thesis
        using False Boxed l by (intro turn_resI) (auto simp: clone_turn_def promoted_def)
    qed
  next
    case (Lost a p)
    obtain t where t: "clone_turn me i s = Ok t" "run_inv me h R t (insert a L)" "sr_pc t = (sr_pc s)(i := Released p)"
      using lost_inv [OF inv Lost] by blast
    then have "sr_clones t = sr_clones s" using Lost by (auto simp: clone_turn_def)
    then have "turn_ok me h R i s L t" using t Lost unfolding turn_ok_def by auto
    then show ?thesis by (rule turn_resI [OF t(1)])
  next
    case (Released p)
    then have "p = sr_data s" "promoted (sr_data s)" using run_invD(7) [OF inv, of i] by simp_all
    then show ?thesis using Released by (intro inc_res [OF inv]) (simp_all add: clone_turn_def)
  qed
qed

lemma drop_turn_res:
  assumes "run_inv me h R s L" "j < length (sr_clones s)"
  obtains t where "drop_turn j s = Ok t" "run_inv me h R t L"
  using drop_inv [OF assms] by blast

lemma run_step_inv:
  assumes wf0: "wf_heap h (HBytes me # R)" and inv: "run_inv me h R s L" and step: "run_step me s t"
  shows "\<exists>L'. run_inv me h R t L'"
  using step
proof (rule run_stepE)
  fix i assume "clone_turn me i s = Ok t"
  then show ?thesis using clone_turn_res [OF wf_whole_alloc [OF wf0] inv, of i] by (auto simp: turn_res_def turn_ok_def)
next
  fix j assume "j < length (sr_clones s)" "drop_turn j s = Ok t"
  then show ?thesis using drop_turn_res [OF inv] by (metis res.inject)
qed

lemma reachable_inv:
  assumes reach: "reachable me h s" and wf0: "wf_heap h (HBytes me # R)" and len: "length R \<le> isize_max"
  obtains L where "run_inv me h R s L"
proof -
  have "\<exists>L. run_inv me h R s L"
    using reach by (induction rule: reachable.induct) (use run_init_inv [OF wf0 len] run_step_inv [OF wf0] in blast)+
  then show thesis using that by blast
qed

text \<open>What the invariant says of the bytes: the shared handle and each clone show what they always did.\<close>

lemma hide_slice: "slice_from_raw_parts (hide X h) p n = slice_from_raw_parts h p n"
  by (simp add: slice_from_raw_parts_def readable_def)

lemma run_slices:
  assumes inv: "run_inv me h R s L" and d: "HBytes b \<in> set (run_handles me R s)"
    and b: "bs_ptr b = bs_ptr me" "bs_len b = bs_len me"
  shows "bytes_as_slice b (sr_heap s) = Ok (view h (HBytes me))"
proof -
  note I = run_invD [OF inv]
  let ?H = "hide (pending s \<union> L) (sr_heap s)"
  have "handle_ok ?H (HBytes b)" using I(1) d by (simp add: wf_heap_def)
  then have "bytes_as_slice b ?H = Ok (view ?H (HBytes b))" by (rule bytes_as_slice_Ok)
  moreover have "view ?H (HBytes b) = view h (HBytes me)"
    using I(3) b by (simp add: view_def quiet_def)
  ultimately show ?thesis by (simp add: bytes_as_slice_def hide_slice)
qed

lemma run_clone_slices:
  assumes inv: "run_inv me h R s L" and c: "c = me\<lparr>bs_data := sr_data s\<rparr> \<or> c \<in> set (sr_clones s)"
  shows "bytes_as_slice c (sr_heap s) = Ok (view h (HBytes me))"
proof (rule run_slices [OF inv])
  have "c = me\<lparr>bs_data := sr_data s\<rparr>" using c run_invD(6) [OF inv] by blast
  then show "bs_ptr c = bs_ptr me" "bs_len c = bs_len me" by simp_all
  show "HBytes c \<in> set (run_handles me R s)" using c by (auto simp: run_handles_def)
qed

subsection \<open>Schedules\<close>

text \<open>A schedule says who moves next: a thread takes a turn of its \<open>clone\<close>, or a clone, if it is there, is dropped.\<close>

datatype act = Turn nat | Drop nat

fun run_act :: "bytes \<Rightarrow> act \<Rightarrow> shared_run \<Rightarrow> shared_run res" where
  "run_act me (Turn i) s = clone_turn me i s"
| "run_act me (Drop j) s = (if j < length (sr_clones s) then drop_turn j s else Ok s)"

fun run_acts :: "bytes \<Rightarrow> act list \<Rightarrow> shared_run \<Rightarrow> shared_run res" where
  "run_acts me [] s = Ok s"
| "run_acts me (a # as) s = rbind (run_act me a s) (run_acts me as)"

lemma run_act_reachable: "reachable me h s \<Longrightarrow> run_act me a s = Ok t \<Longrightarrow> reachable me h t"
  by (cases a) (auto intro: reachable.step run_step.intros split: if_splits)

lemma run_acts_reachable: "reachable me h s \<Longrightarrow> run_acts me as s = Ok t \<Longrightarrow> reachable me h t"
  by (induction "as" arbitrary: s) (auto dest: run_act_reachable)

lemma run_acts_append: "run_acts me (as @ bs) s = rbind (run_acts me as s) (run_acts me bs)"
proof (induction "as" arbitrary: s)
  case (Cons a "as")
  then show ?case by (cases "run_act me a s") simp_all
qed simp

text \<open>Only its own turns move a thread, and each needs at most one box and makes at most one clone.\<close>

lemma case_sum_Ok:
  "(case r of Inl x \<Rightarrow> f x | Inr y \<Rightarrow> g y) = Ok z \<longleftrightarrow>
   (\<exists>x. r = Inl x \<and> f x = Ok z) \<or> (\<exists>y. r = Inr y \<and> g y = Ok z)"
  by (cases r) auto

lemma clone_turn_pc:
  assumes "clone_turn me j s = Ok t" "i \<noteq> j"
  shows "sr_pc t i = sr_pc s i"
  using assms by (auto simp: case_sum_Ok clone_turn_def split: clone_pc.split_asm if_split_asm)

definition act_room :: "bytes \<Rightarrow> handle list \<Rightarrow> nat \<Rightarrow> shared_run \<Rightarrow> bool" where
  "act_room me R n s \<longleftrightarrow> 8 * (hp_boxes (sr_heap s) + n + 1) < 2 ^ 64 \<and> length (sr_clones s) + length R + n < isize_max"

lemma release_boxes: "release a h = Ok h' \<Longrightarrow> hp_boxes h' = hp_boxes h"
  by (auto simp: release_def fetch_sub_def vec_drop_def box_set_def box_free_def free_block_def split: if_splits)

lemma increment_boxes: "increment a h = Ok h' \<Longrightarrow> hp_boxes h' = hp_boxes h"
  by (auto simp: increment_def fetch_add_def box_set_def split: if_splits)

lemma clone_turn_grow:
  "clone_turn me i s = Ok t \<Longrightarrow>
   hp_boxes (sr_heap t) \<le> Suc (hp_boxes (sr_heap s)) \<and> length (sr_clones t) \<le> Suc (length (sr_clones s))"
  by (auto simp: case_sum_Ok clone_turn_def promote_with_vec_def box_new_def Let_def
      dest!: release_boxes increment_boxes split: clone_pc.split_asm if_split_asm)

lemma bytes_drop_boxes: "bytes_drop b h = Ok h' \<Longrightarrow> hp_boxes h' = hp_boxes h"
  by (auto simp: case_sum_Ok bytes_drop_def vec_drop_def free_block_def Let_def dest!: release_boxes split: if_split_asm)

lemma drop_turn_grow:
  "drop_turn j s = Ok t \<Longrightarrow>
   hp_boxes (sr_heap t) = hp_boxes (sr_heap s) \<and> length (sr_clones t) \<le> length (sr_clones s)"
  by (auto simp: drop_turn_def dest!: bytes_drop_boxes)

lemma run_act_room: "act_room me R (Suc n) s \<Longrightarrow> run_act me a s = Ok t \<Longrightarrow> act_room me R n t"
  using clone_turn_grow [of me _ s t] drop_turn_grow [of _ s t]
  by (cases a) (fastforce simp: act_room_def split: if_splits)+

lemma run_act_inv:
  assumes wf0: "wf_heap h (HBytes me # R)" and inv: "run_inv me h R s L" and room: "act_room me R (Suc n) s"
  obtains t L' where "run_act me a s = Ok t" "run_inv me h R t L'"
proof (cases a)
  case (Turn i)
  have "run_room me R s" using room by (simp add: run_room_def act_room_def box_room_def)
  then show thesis
    using that Turn clone_turn_res [OF wf_whole_alloc [OF wf0] inv, of i]
    by (auto simp: turn_res_def turn_ok_def split: res.split_asm)
next
  case (Drop j)
  then show thesis
    using that inv drop_inv [OF inv, of j] by (cases "j < length (sr_clones s)") auto
qed

lemma run_acts_total:
  assumes wf0: "wf_heap h (HBytes me # R)"
  shows "run_inv me h R s L \<Longrightarrow> act_room me R (length as) s \<Longrightarrow> \<exists>t L'. run_acts me as s = Ok t \<and> run_inv me h R t L'"
proof (induction "as" arbitrary: s L)
  case (Cons a "as")
  obtain t L' where t: "run_act me a s = Ok t" "run_inv me h R t L'"
    by (rule run_act_inv [OF wf0 Cons.prems(1), of "length as" a]) (use Cons.prems(2) in simp)
  moreover have "act_room me R (length as) t" using run_act_room [OF _ t(1)] Cons.prems(2) by simp
  ultimately show ?case using Cons.IH by simp
qed auto

text \<open>A thread returns from its call at one of its turns, if it takes as many as its rank says.\<close>

definition returns_at :: "bytes \<Rightarrow> heap \<Rightarrow> nat \<Rightarrow> shared_run \<Rightarrow> act list \<Rightarrow> bool" where
  "returns_at me h i s as \<longleftrightarrow>
     (\<exists>pre post u v c. as = pre @ Turn i # post \<and> run_acts me pre s = Ok u \<and> clone_turn me i u = Ok v \<and>
       sr_pc v i = Start \<and> sr_clones v = c # sr_clones u \<and>
       bytes_as_slice c (sr_heap v) = Ok (view h (HBytes me)))"

lemma returns_at_Cons:
  assumes "run_act me a s = Ok t" "returns_at me h i t as"
  shows "returns_at me h i s (a # as)"
proof -
  obtain pre post u v c where "as = pre @ Turn i # post" "run_acts me pre t = Ok u" "clone_turn me i u = Ok v"
    "sr_pc v i = Start" "sr_clones v = c # sr_clones u" "bytes_as_slice c (sr_heap v) = Ok (view h (HBytes me))"
    using assms(2) by (auto simp: returns_at_def)
  then show ?thesis
    unfolding returns_at_def using assms(1)
    by (intro exI [of _ "a # pre"] exI [of _ post] exI [of _ u] exI [of _ v] exI [of _ c]) simp
qed

lemma pc_rank_bounds: "0 < pc_rank p" "pc_rank p \<le> 5"
  by (cases p; simp)+

lemma returns_in_rank:
  assumes wf0: "wf_heap h (HBytes me # R)"
  shows "run_inv me h R s L \<Longrightarrow> act_room me R (length as) s \<Longrightarrow>
    pc_rank (sr_pc s i) \<le> length (filter ((=) (Turn i)) as) \<Longrightarrow> returns_at me h i s as"
proof (induction "as" arbitrary: s L)
  case Nil
  then show ?case using pc_rank_bounds(1) [of "sr_pc s i"] by simp
next
  case (Cons a "as")
  obtain t L' where t: "run_act me a s = Ok t" "run_inv me h R t L'"
    by (rule run_act_inv [OF wf0 Cons.prems(1), of "length as" a]) (use Cons.prems(2) in simp)
  have room: "act_room me R (length as) t" using run_act_room [OF _ t(1)] Cons.prems(2) by simp
  show ?case
  proof (cases "a = Turn i")
    case True
    then have turn: "clone_turn me i s = Ok t" using t(1) by simp
    then have "turn_ok me h R i s L t"
      using clone_turn_res [OF wf_whole_alloc [OF wf0] Cons.prems(1), of i] by (simp add: turn_res_def)
    then consider c where "sr_pc t i = Start" "sr_clones t = c # sr_clones s"
      | "pc_rank (sr_pc t i) < pc_rank (sr_pc s i)" by (auto simp: turn_ok_def)
    then show ?thesis
    proof cases
      case 1
      then show ?thesis
        unfolding returns_at_def using turn True run_clone_slices [OF t(2), of c]
        by (intro exI [of _ "[]"] exI [of _ "as"] exI [of _ s] exI [of _ t] exI [of _ c]) simp
    next
      case 2
      then show ?thesis using Cons.IH [OF t(2) room] Cons.prems(3) True returns_at_Cons [OF t(1)] by simp
    qed
  next
    case False
    then have "sr_pc t i = sr_pc s i"
      using t(1) clone_turn_pc [of me _ s t i] by (cases a) (auto simp: drop_turn_def split: if_split_asm)
    then show ?thesis using Cons.IH [OF t(2) room] Cons.prems(3) False returns_at_Cons [OF t(1)] by simp
  qed
qed

subsection \<open>The properties\<close>

lemma rbind_pair: "rbind (case x of (a, b) \<Rightarrow> Ok (f a b)) g = (case x of (a, b) \<Rightarrow> g (f a b))"
  by (cases x) simp

text \<open>A thread that runs alone does what the sequential \<open>clone_inner\<close> does, in at most three turns.\<close>

theorem clone_turns_sequential:
  "\<exists>n\<le>3. run_acts me (replicate n (Turn i)) (run_init me h) =
     rbind (clone_inner me h) (\<lambda>((me', c), h').
       Ok ((run_init me h)\<lparr>sr_data := bs_data me', sr_heap := h', sr_clones := [c]\<rparr>))"
proof -
  have upd: "(\<lambda>_. Start)(i := Start) = (\<lambda>_. Start)" by (simp add: fun_eq_iff)
  consider "bs_data me \<noteq> 0" "is_unpromoted (bs_data me)" | "bs_data me = 0" | "bs_data me \<noteq> 0" "\<not> is_unpromoted (bs_data me)"
    by blast
  then show ?thesis
  proof cases
    case 1
    then show ?thesis
      by (intro exI [of _ 3])
        (simp add: numeral_3_eq_3 clone_turn_def run_init_def clone_inner_def promote_ref_def hand_out_def
          as_unpromoted_Inl rbind_assoc rbind_pair upd split: prod.split)
  next
    case 2
    then show ?thesis
      by (intro exI [of _ 2])
        (simp add: numeral_2_eq_2 clone_turn_def run_init_def clone_inner_def hand_out_def upd)
  next
    case 3
    then show ?thesis
      by (intro exI [of _ 2])
        (simp add: numeral_2_eq_2 clone_turn_def run_init_def clone_inner_def hand_out_def
          as_unpromoted_def rbind_assoc Let_def upd)
  qed
qed

text \<open>in every state that threads cloning one shared \<open>Bytes\<close> can reach, whatever the interleaving, no
  next turn of any thread and no drop of a clone reaches undefined behaviour or a panic, and the handle and
  every clone handed out show the bytes it had at the start.\<close>

theorem clone_shared_safe:
  assumes "wf_heap h (HBytes me # R)" "length R \<le> isize_max" "reachable me h s"
  shows "clone_turn me i s \<noteq> UB \<and> clone_turn me i s \<noteq> Panic \<and>
    (j < length (sr_clones s) \<longrightarrow> (\<exists>t. drop_turn j s = Ok t)) \<and>
    (c = me\<lparr>bs_data := sr_data s\<rparr> \<or> c \<in> set (sr_clones s) \<longrightarrow>
       bytes_as_slice c (sr_heap s) = Ok (view h (HBytes me)))"
proof -
  obtain L where inv: "run_inv me h R s L" by (rule reachable_inv [OF assms(3,1,2)])
  have "clone_turn me i s \<noteq> UB \<and> clone_turn me i s \<noteq> Panic"
    using clone_turn_res [OF wf_whole_alloc [OF assms(1)] inv, of i] by (auto simp: turn_res_def)
  then show ?thesis using drop_inv [OF inv] run_clone_slices [OF inv] by blast
qed

text \<open>Two threads race: both load the odd word, both box, the first wins, the second gives up its box.\<close>

definition race :: "act list" where
  "race = [Turn 0, Turn 1, Turn 0, Turn 1, Turn 0, Turn 1, Turn 1, Turn 1]"

lemmas race_simps = eval_simps clone_turn_def hand_out_def

text \<open>The heap of the race, with the two boxes and their counts.\<close>

definition two_boxes :: "nat \<Rightarrow> nat \<Rightarrow> heap" where
  "two_boxes m n = demo_heap\<lparr>hp_shared := [8 \<mapsto> \<lparr>ref_count = m, sh_ptr = Ptr 0 0, sh_cap = 4\<rparr>,
     16 \<mapsto> \<lparr>ref_count = n, sh_ptr = Ptr 0 0, sh_cap = 4\<rparr>], hp_boxes := 2\<rparr>"

lemma race_boxed:
  "run_acts demo_bytes [Turn 0, Turn 1, Turn 0, Turn 1] (run_init demo_bytes demo_heap) = Ok
    \<lparr>sr_data = tag 1, sr_heap = two_boxes 2 2,
      sr_pc = (\<lambda>_. Start)(0 := Boxed (tag 1) 8, 1 := Boxed (tag 1) 16), sr_clones = []\<rparr>"
  by (simp add: run_init_def two_boxes_def race_simps)

lemma race_decided:
  "run_acts demo_bytes [Turn 0, Turn 1, Turn 1, Turn 1]
    \<lparr>sr_data = tag 1, sr_heap = two_boxes 2 2,
      sr_pc = (\<lambda>_. Start)(0 := Boxed (tag 1) 8, 1 := Boxed (tag 1) 16), sr_clones = []\<rparr> = Ok
    \<lparr>sr_data = 8, sr_heap = two_boxes 3 1, sr_pc = (\<lambda>_. Start),
      sr_clones = [demo_bytes\<lparr>bs_data := 8\<rparr>, demo_bytes\<lparr>bs_data := 8\<rparr>]\<rparr>"
  by (simp add: two_boxes_def race_simps fun_eq_iff)

lemma race_dropped:
  "run_acts demo_bytes [Drop 0, Drop 0]
    \<lparr>sr_data = 8, sr_heap = two_boxes 3 1, sr_pc = (\<lambda>_. Start),
      sr_clones = [demo_bytes\<lparr>bs_data := 8\<rparr>, demo_bytes\<lparr>bs_data := 8\<rparr>]\<rparr> = Ok
    \<lparr>sr_data = 8, sr_heap = two_boxes 1 1, sr_pc = (\<lambda>_. Start), sr_clones = []\<rparr>"
  by (simp add: drop_turn_def bytes_drop_def into_unpromoted_def two_boxes_def race_simps fun_eq_iff)

lemma race_freed:
  "bytes_drop (demo_bytes\<lparr>bs_data := 8\<rparr>) (two_boxes 1 1) = Ok (box_free 8 (free_block (two_boxes 0 1) 0))"
  by (simp add: bytes_drop_def vec_drop_def into_unpromoted_def two_boxes_def race_simps fun_upd_twist)

theorem clone_shared_safe_witness:
  "reachable demo_bytes demo_heap (run_init demo_bytes demo_heap) \<and>
   clone_turn demo_bytes 7 (run_init demo_bytes demo_heap) \<noteq> UB \<and>
   bytes_as_slice demo_bytes demo_heap = Ok [2, 3, 4]"
  using clone_shared_safe [OF demo_wf _ reachable.init, of 7 0 demo_bytes] reachable.init [of demo_bytes demo_heap]
  by (simp add: run_init_def)

text \<open>counts are exact whenever no call is in progress: the heap, without the boxes that lost races, is
  well-formed for the shared handle, the clones that are left and all other handles, so the box counts
  exactly these, and what is left of each lost race is one box with a count of one.\<close>

theorem clone_shared_counts:
  assumes "wf_heap h (HBytes me # R)" "length R \<le> isize_max" "reachable me h s" "\<forall>i. sr_pc s i = Start"
  shows "\<exists>L. wf_heap (hide L (sr_heap s)) (run_handles me R s) \<and> quiet h (sr_heap s) \<and>
    L \<subseteq> {a. box_of (sr_heap s) me a 1} \<and> (\<not> is_unpromoted (bs_data me) \<longrightarrow> sr_data s = bs_data me)"
proof -
  obtain L where inv: "run_inv me h R s L" by (rule reachable_inv [OF assms(3,1,2)])
  have "pending s = {}" using assms(4) by (simp add: pending_def)
  then have "wf_heap (hide L (sr_heap s)) (run_handles me R s)" using run_invD(1) [OF inv] by simp
  then show ?thesis using run_invD(3,5,10) [OF inv] by blast
qed

theorem clone_shared_counts_witness:
  "\<exists>L. wf_heap (hide L (two_boxes 3 1)) (replicate 3 (HBytes (demo_bytes\<lparr>bs_data := 8\<rparr>)))"
proof -
  let ?s = "\<lparr>sr_data = 8, sr_heap = two_boxes 3 1, sr_pc = (\<lambda>_. Start),
      sr_clones = [demo_bytes\<lparr>bs_data := 8\<rparr>, demo_bytes\<lparr>bs_data := 8\<rparr>]\<rparr>"
  have "run_acts demo_bytes ([Turn 0, Turn 1, Turn 0, Turn 1] @ [Turn 0, Turn 1, Turn 1, Turn 1])
      (run_init demo_bytes demo_heap) = Ok ?s"
    unfolding run_acts_append race_boxed race_decided rbind.simps by (rule refl)
  then have "reachable demo_bytes demo_heap ?s" by (rule run_acts_reachable [OF reachable.init])
  then show ?thesis using clone_shared_counts [OF demo_wf, of ?s] by (auto simp: run_handles_def numeral_3_eq_3)
qed

text \<open>C7: \<open>clone\<close> is wait-free: with room left, no schedule gets stuck, and a thread that takes five turns in it
  returns from its call at one of them, with a clone that shows the bytes, whatever the others do.\<close>

theorem clone_wait_free:
  assumes "wf_heap h (HBytes me # R)" "length R \<le> isize_max" "reachable me h s" "act_room me R (length as) s"
    "5 \<le> length (filter ((=) (Turn i)) as)"
  shows "(\<exists>t. run_acts me as s = Ok t) \<and> returns_at me h i s as"
proof -
  obtain L where inv: "run_inv me h R s L" by (rule reachable_inv [OF assms(3,1,2)])
  have "pc_rank (sr_pc s i) \<le> length (filter ((=) (Turn i)) as)"
    using pc_rank_bounds(2) assms(5) order_trans by blast
  then show ?thesis
    using returns_in_rank [OF assms(1) inv assms(4)] run_acts_total [OF assms(1) inv assms(4)] by blast
qed

theorem clone_wait_free_witness:
  "returns_at demo_bytes demo_heap 1 (run_init demo_bytes demo_heap) (race @ [Drop 0, Turn 1])"
proof -
  have "act_room demo_bytes [] (length (race @ [Drop 0, Turn 1])) (run_init demo_bytes demo_heap)"
    by (simp add: act_room_def run_init_def demo_heap_def isize_max_def race_def)
  moreover have "5 \<le> length (filter ((=) (Turn 1)) (race @ [Drop 0, Turn 1]))" by (simp add: race_def)
  ultimately show ?thesis using clone_wait_free [OF demo_wf _ reachable.init] by simp
qed


end
