(* ===== verification/Pool_Runs.thy ===== *)
theory Pool_Runs
  imports Bytes_Spec
begin

text \<open>
  Programs over the handles: a pool of live handles, commands that call the modelled operations of \<open>Bytes\<close>,
  \<open>BytesMut\<close> and \<open>Vec<u8>\<close> on members of the pool, and runs of command lists. Ownership is the pool's: a
  consumed or dropped handle leaves it. The abstract machine works on lists of byte lists and knows no
  memory at all; the simulation between the two says that sharing, promotion, reallocation and copying
  cannot be observed, whatever is called in whatever order.
\<close>

subsection \<open>Commands\<close>

datatype kind = KBytes | KMut | KVec

fun kind_of :: "handle \<Rightarrow> kind" where
  "kind_of (HBytes b) = KBytes" | "kind_of (HMut b) = KMut" | "kind_of (HVec v) = KVec"

text \<open>Constructors; calls that replace their receiver; calls that also return a new handle.\<close>

datatype op0 = NewBytes | CopyBytes "u8 list" | CopyMut "u8 list" | MutWithCapacity nat | CopyVec "u8 list"

datatype op1 = Truncate nat | TruncateOff nat | Clear | Advance nat | Reserve nat | TryReclaim nat
  | Extend "u8 list" | Freeze | IntoMut | IntoVec | FromVec | MutFromVec

datatype op2 = Clone | SplitOff nat | SplitTo nat | Slice bound bound

datatype cmd = New op0 | On nat op1 | Branch nat op2 | Unsplit nat nat | Discard nat

definition as_handle :: "('a \<Rightarrow> handle) \<Rightarrow> ('a \<times> heap) res \<Rightarrow> (handle \<times> heap) res" where
  "as_handle f r = rbind r (\<lambda>(x, h). Ok (f x, h))"

definition as_handles :: "('a \<Rightarrow> handle) \<Rightarrow> (('a \<times> 'a) \<times> heap) res \<Rightarrow> ((handle \<times> handle) \<times> heap) res" where
  "as_handles f r = rbind r (\<lambda>((x, y), h). Ok ((f x, f y), h))"

fun run0 :: "op0 \<Rightarrow> heap \<Rightarrow> (handle \<times> heap) res" where
  "run0 NewBytes h = Ok (HBytes (bytes_new h), h)"
| "run0 (CopyBytes xs) h = as_handle HBytes (bytes_copy_from_slice xs h)"
| "run0 (CopyMut xs) h = as_handle HMut (bm_copy_from_slice xs h)"
| "run0 (MutWithCapacity n) h = as_handle HMut (bm_with_capacity n h)"
| "run0 (CopyVec xs) h = as_handle HVec (slice_to_vec xs h)"

text \<open>A call that the receiver's type does not have is no program; the type check below excludes it.\<close>

fun run1 :: "op1 \<Rightarrow> handle \<Rightarrow> heap \<Rightarrow> (handle \<times> heap) res" where
  "run1 (Truncate n) (HBytes b) h = as_handle HBytes (bytes_truncate b n h)"
| "run1 (TruncateOff n) (HBytes b) h = as_handle HBytes (bytes_truncate_off b n h)"
| "run1 Clear (HBytes b) h = as_handle HBytes (bytes_clear b h)"
| "run1 (Advance n) (HBytes b) h = rbind (bytes_advance b n h) (\<lambda>b. Ok (HBytes b, h))"
| "run1 IntoMut (HBytes b) h = as_handle HMut (bytes_into_mut b h)"
| "run1 IntoVec (HBytes b) h = as_handle HVec (bytes_into_vec b h)"
| "run1 (Truncate n) (HMut b) h = Ok (HMut (bm_truncate b n), h)"
| "run1 (TruncateOff n) (HMut b) h = Ok (HMut (bm_truncate_off b n), h)"
| "run1 Clear (HMut b) h = Ok (HMut (bm_clear b), h)"
| "run1 (Advance n) (HMut b) h = rbind (bm_advance b n h) (\<lambda>b. Ok (HMut b, h))"
| "run1 (Reserve n) (HMut b) h = as_handle HMut (bm_reserve b n h)"
| "run1 (TryReclaim n) (HMut b) h = rbind (bm_try_reclaim b n h) (\<lambda>((b, _), h). Ok (HMut b, h))"
| "run1 (Extend xs) (HMut b) h = as_handle HMut (bm_extend_from_slice b xs h)"
| "run1 Freeze (HMut b) h = as_handle HBytes (bm_freeze b h)"
| "run1 FromVec (HVec v) h = as_handle HBytes (bytes_from_vec v h)"
| "run1 MutFromVec (HVec v) h = Ok (HMut (bm_from_vec v), h)"
| "run1 _ _ _ = UB"

fun run2 :: "op2 \<Rightarrow> handle \<Rightarrow> heap \<Rightarrow> ((handle \<times> handle) \<times> heap) res" where
  "run2 Clone (HBytes b) h = as_handles HBytes (clone_inner b h)"
| "run2 Clone (HMut b) h = rbind (bm_clone b h) (\<lambda>(c, h). Ok ((HMut b, HMut c), h))"
| "run2 (SplitOff n) (HBytes b) h = as_handles HBytes (bytes_split_off b n h)"
| "run2 (SplitOff n) (HMut b) h = as_handles HMut (bm_split_off b n h)"
| "run2 (SplitTo n) (HBytes b) h = as_handles HBytes (bytes_split_to b n h)"
| "run2 (SplitTo n) (HMut b) h = as_handles HMut (bm_split_to b n h)"
| "run2 (Slice s e) (HBytes b) h = as_handles HBytes (slice_bound b s e h)"
| "run2 _ _ _ = UB"

fun discard :: "handle \<Rightarrow> heap \<Rightarrow> heap res" where
  "discard (HBytes b) h = bytes_drop b h"
| "discard (HMut b) h = bm_drop b h"
| "discard (HVec v) h = vec_drop v h"

fun unsplit :: "handle \<Rightarrow> handle \<Rightarrow> heap \<Rightarrow> (handle \<times> heap) res" where
  "unsplit (HMut b) (HMut c) h = as_handle HMut (bm_unsplit b c h)"
| "unsplit _ _ _ = UB"

definition leave :: "nat \<Rightarrow> 'a list \<Rightarrow> 'a list" where
  "leave i xs = take i xs @ drop (Suc i) xs"

type_synonym pool = "handle list \<times> heap"

fun exec :: "cmd \<Rightarrow> pool \<Rightarrow> pool res" where
  "exec (New f) (hs, h) = rbind (run0 f h) (\<lambda>(x, h). Ok (hs @ [x], h))"
| "exec (On i f) (hs, h) =
     (if i < length hs then rbind (run1 f (hs ! i) h) (\<lambda>(x, h). Ok (hs[i := x], h)) else UB)"
| "exec (Branch i f) (hs, h) =
     (if i < length hs then rbind (run2 f (hs ! i) h) (\<lambda>((x, y), h). Ok (hs[i := x] @ [y], h)) else UB)"
| "exec (Unsplit i j) (hs, h) =
     (if i < length hs \<and> j < length hs \<and> i \<noteq> j
      then rbind (unsplit (hs ! i) (hs ! j) h) (\<lambda>(x, h). Ok (leave j (hs[i := x]), h)) else UB)"
| "exec (Discard i) (hs, h) =
     (if i < length hs then rbind (discard (hs ! i) h) (\<lambda>h. Ok (leave i hs, h)) else UB)"

fun exec_all :: "cmd list \<Rightarrow> pool \<Rightarrow> pool res" where
  "exec_all [] s = Ok s"
| "exec_all (c # cs) s = rbind (exec c s) (exec_all cs)"

subsection \<open>The type check\<close>

fun type0 :: "op0 \<Rightarrow> kind" where
  "type0 NewBytes = KBytes" | "type0 (CopyBytes xs) = KBytes" | "type0 (CopyMut xs) = KMut"
| "type0 (MutWithCapacity n) = KMut" | "type0 (CopyVec xs) = KVec"

fun type1 :: "op1 \<Rightarrow> kind \<Rightarrow> kind option" where
  "type1 IntoMut KBytes = Some KMut"
| "type1 IntoVec KBytes = Some KVec"
| "type1 (Reserve n) KMut = Some KMut"
| "type1 (TryReclaim n) KMut = Some KMut"
| "type1 (Extend xs) KMut = Some KMut"
| "type1 Freeze KMut = Some KBytes"
| "type1 FromVec KVec = Some KBytes"
| "type1 MutFromVec KVec = Some KMut"
| "type1 (Truncate n) k = (if k = KVec then None else Some k)"
| "type1 (TruncateOff n) k = (if k = KVec then None else Some k)"
| "type1 Clear k = (if k = KVec then None else Some k)"
| "type1 (Advance n) k = (if k = KVec then None else Some k)"
| "type1 _ _ = None"

fun type2 :: "op2 \<Rightarrow> kind \<Rightarrow> bool" where
  "type2 (Slice s e) k \<longleftrightarrow> k = KBytes" | "type2 _ k \<longleftrightarrow> k \<noteq> KVec"

fun check :: "cmd \<Rightarrow> kind list \<Rightarrow> kind list option" where
  "check (New f) ks = Some (ks @ [type0 f])"
| "check (On i f) ks =
     (if i < length ks then map_option (\<lambda>k. ks[i := k]) (type1 f (ks ! i)) else None)"
| "check (Branch i f) ks = (if i < length ks \<and> type2 f (ks ! i) then Some (ks @ [ks ! i]) else None)"
| "check (Unsplit i j) ks =
     (if i < length ks \<and> j < length ks \<and> i \<noteq> j \<and> ks ! i = KMut \<and> ks ! j = KMut
      then Some (leave j ks) else None)"
| "check (Discard i) ks = (if i < length ks then Some (leave i ks) else None)"

fun check_all :: "cmd list \<Rightarrow> kind list \<Rightarrow> kind list option" where
  "check_all [] ks = Some ks"
| "check_all (c # cs) ks = Option.bind (check c ks) (check_all cs)"

subsection \<open>The abstract machine\<close>

text \<open>A value is its bytes; of a \<open>BytesMut\<close> also the capacity, which calls choose within bounds.\<close>

datatype aval = BytesV "u8 list" | MutV "u8 list" nat | VecV "u8 list"

fun abs_of :: "heap \<Rightarrow> handle \<Rightarrow> aval" where
  "abs_of h (HBytes b) = BytesV (view h (HBytes b))"
| "abs_of h (HMut b) = MutV (view h (HMut b)) (bm_cap b)"
| "abs_of h (HVec v) = VecV (view h (HVec v))"

definition a_mut :: "u8 list \<Rightarrow> nat \<Rightarrow> aval \<Rightarrow> bool" where
  "a_mut xs n v \<longleftrightarrow> (\<exists>c. v = MutV xs c \<and> length xs + n \<le> c)"

fun spec0 :: "op0 \<Rightarrow> aval \<Rightarrow> bool" where
  "spec0 NewBytes v \<longleftrightarrow> v = BytesV []"
| "spec0 (CopyBytes xs) v \<longleftrightarrow> v = BytesV xs"
| "spec0 (CopyMut xs) v \<longleftrightarrow> a_mut xs 0 v"
| "spec0 (MutWithCapacity n) v \<longleftrightarrow> a_mut [] n v"
| "spec0 (CopyVec xs) v \<longleftrightarrow> v = VecV xs"

text \<open>The second argument is the receiver, the third the outcome: a value, or \<open>None\<close> for a panic.\<close>

fun spec1 :: "op1 \<Rightarrow> aval \<Rightarrow> aval option \<Rightarrow> bool" where
  "spec1 (Truncate n) (BytesV xs) r \<longleftrightarrow> r = Some (BytesV (take n xs))"
| "spec1 (TruncateOff n) (BytesV xs) r \<longleftrightarrow>
     r = Some (BytesV (if n \<le> length xs then take (length xs - n) xs else xs))"
| "spec1 Clear (BytesV xs) r \<longleftrightarrow> r = Some (BytesV [])"
| "spec1 (Advance n) (BytesV xs) r \<longleftrightarrow> r = (if n \<le> length xs then Some (BytesV (drop n xs)) else None)"
| "spec1 IntoMut (BytesV xs) r \<longleftrightarrow> (\<exists>v. r = Some v \<and> a_mut xs 0 v)"
| "spec1 IntoVec (BytesV xs) r \<longleftrightarrow> r = Some (VecV xs)"
| "spec1 (Truncate n) (MutV xs c) r \<longleftrightarrow> r = Some (MutV (take n xs) c)"
| "spec1 (TruncateOff n) (MutV xs c) r \<longleftrightarrow>
     r = Some (MutV (if n \<le> length xs then take (length xs - n) xs else xs) c)"
| "spec1 Clear (MutV xs c) r \<longleftrightarrow> r = Some (MutV [] c)"
| "spec1 (Advance n) (MutV xs c) r \<longleftrightarrow>
     (if n \<le> length xs then \<exists>v. r = Some v \<and> a_mut (drop n xs) 0 v else r = None)"
| "spec1 (Reserve n) (MutV xs c) r \<longleftrightarrow> (\<exists>v. r = Some v \<and> a_mut xs n v)"
| "spec1 (TryReclaim n) (MutV xs c) r \<longleftrightarrow> (\<exists>v. r = Some v \<and> a_mut xs 0 v)"
| "spec1 (Extend ys) (MutV xs c) r \<longleftrightarrow> (\<exists>v. r = Some v \<and> a_mut (xs @ ys) 0 v)"
| "spec1 Freeze (MutV xs c) r \<longleftrightarrow> r = Some (BytesV xs)"
| "spec1 FromVec (VecV xs) r \<longleftrightarrow> r = Some (BytesV xs)"
| "spec1 MutFromVec (VecV xs) r \<longleftrightarrow> (\<exists>v. r = Some v \<and> a_mut xs 0 v)"
| "spec1 _ _ r \<longleftrightarrow> False"

fun spec2 :: "op2 \<Rightarrow> aval \<Rightarrow> (aval \<times> aval) option \<Rightarrow> bool" where
  "spec2 Clone (BytesV xs) r \<longleftrightarrow> r = Some (BytesV xs, BytesV xs)"
| "spec2 Clone (MutV xs c) r \<longleftrightarrow> (\<exists>v. r = Some (MutV xs c, v) \<and> a_mut xs 0 v)"
| "spec2 (SplitOff n) (BytesV xs) r \<longleftrightarrow>
     r = (if n \<le> length xs then Some (BytesV (take n xs), BytesV (drop n xs)) else None)"
| "spec2 (SplitOff n) (MutV xs c) r \<longleftrightarrow>
     r = (if n \<le> c then Some (MutV (take n xs) n, MutV (drop n xs) (c - n)) else None)"
| "spec2 (SplitTo n) (BytesV xs) r \<longleftrightarrow>
     r = (if n \<le> length xs then Some (BytesV (drop n xs), BytesV (take n xs)) else None)"
| "spec2 (SplitTo n) (MutV xs c) r \<longleftrightarrow>
     r = (if n \<le> length xs then Some (MutV (drop n xs) (c - n), MutV (take n xs) n) else None)"
| "spec2 (Slice s e) (BytesV xs) r \<longleftrightarrow>
     r = (if bound_lo s \<le> bound_hi e (length xs) \<and> bound_hi e (length xs) \<le> length xs
          then Some (BytesV xs, BytesV (take (bound_hi e (length xs) - bound_lo s) (drop (bound_lo s) xs)))
          else None)"
| "spec2 _ _ r \<longleftrightarrow> False"

fun spec_unsplit :: "aval \<Rightarrow> aval \<Rightarrow> aval \<Rightarrow> bool" where
  "spec_unsplit (MutV xs c) (MutV ys d) v \<longleftrightarrow> a_mut (xs @ ys) 0 v"
| "spec_unsplit _ _ v \<longleftrightarrow> False"

fun spec :: "cmd \<Rightarrow> aval list \<Rightarrow> aval list option \<Rightarrow> bool" where
  "spec (New f) A r \<longleftrightarrow> (\<exists>v. r = Some (A @ [v]) \<and> spec0 f v)"
| "spec (On i f) A r \<longleftrightarrow> (\<exists>q. spec1 f (A ! i) q \<and> r = map_option (\<lambda>v. A[i := v]) q)"
| "spec (Branch i f) A r \<longleftrightarrow>
     (\<exists>q. spec2 f (A ! i) q \<and> r = map_option (\<lambda>(v, w). A[i := v] @ [w]) q)"
| "spec (Unsplit i j) A r \<longleftrightarrow> (\<exists>v. spec_unsplit (A ! i) (A ! j) v \<and> r = Some (leave j (A[i := v])))"
| "spec (Discard i) A r \<longleftrightarrow> r = Some (leave i A)"

fun spec_all :: "cmd list \<Rightarrow> aval list \<Rightarrow> aval list option \<Rightarrow> bool" where
  "spec_all [] A r \<longleftrightarrow> r = Some A"
| "spec_all (c # cs) A r \<longleftrightarrow>
     spec c A None \<and> r = None \<or> (\<exists>B. spec c A (Some B) \<and> spec_all cs B r)"

subsection \<open>Resources\<close>

text \<open>
  What the machine must have for a command: fewer than \<open>isize::MAX\<close> handles, an address for one more box,
  and an allocator that serves the request. \<open>unsplit\<close> also needs that it is not misled by two buffers of
  different allocations whose addresses happen to meet.
\<close>

fun needs0 :: "op0 \<Rightarrow> heap \<Rightarrow> bool" where
  "needs0 NewBytes h \<longleftrightarrow> True"
| "needs0 (MutWithCapacity n) h \<longleftrightarrow> alloc_ok h n"
| "needs0 (CopyBytes xs) h \<longleftrightarrow> alloc_ok h (length xs)"
| "needs0 (CopyMut xs) h \<longleftrightarrow> alloc_ok h (length xs)"
| "needs0 (CopyVec xs) h \<longleftrightarrow> alloc_ok h (length xs)"

fun needs1 :: "op1 \<Rightarrow> handle \<Rightarrow> heap \<Rightarrow> bool" where
  "needs1 (Reserve n) (HMut b) h \<longleftrightarrow> grow_ok h b n"
| "needs1 (Extend xs) (HMut b) h \<longleftrightarrow> grow_ok h b (length xs)"
| "needs1 (TryReclaim n) (HMut b) h \<longleftrightarrow> n + bm_cap b \<le> isize_max"
| "needs1 IntoMut (HBytes b) h \<longleftrightarrow> alloc_ok h (bs_len b)"
| "needs1 IntoVec (HBytes b) h \<longleftrightarrow> alloc_ok h (bs_len b)"
| "needs1 _ _ _ \<longleftrightarrow> True"

fun needs2 :: "op2 \<Rightarrow> handle \<Rightarrow> heap \<Rightarrow> bool" where
  "needs2 Clone (HMut b) h \<longleftrightarrow> alloc_ok h (bm_len b)" | "needs2 _ _ _ \<longleftrightarrow> True"

fun needs_unsplit :: "handle \<Rightarrow> handle \<Rightarrow> heap \<Rightarrow> bool" where
  "needs_unsplit (HMut b) (HMut c) h \<longleftrightarrow>
     grow_ok h b (bm_len c) \<and> (adjacent h b c \<longrightarrow> bm_data b = bm_data c)"
| "needs_unsplit _ _ _ \<longleftrightarrow> True"

fun needs :: "cmd \<Rightarrow> pool \<Rightarrow> bool" where
  "needs (New f) (hs, h) \<longleftrightarrow> needs0 f h"
| "needs (On i f) (hs, h) \<longleftrightarrow> needs1 f (hs ! i) h"
| "needs (Branch i f) (hs, h) \<longleftrightarrow> needs2 f (hs ! i) h"
| "needs (Unsplit i j) (hs, h) \<longleftrightarrow> needs_unsplit (hs ! i) (hs ! j) h"
| "needs (Discard i) (hs, h) \<longleftrightarrow> True"

fun fits :: "cmd list \<Rightarrow> pool \<Rightarrow> bool" where
  "fits [] s \<longleftrightarrow> True"
| "fits (c # cs) s \<longleftrightarrow> box_room (snd s) \<and> length (fst s) < isize_max \<and> needs c s \<and>
     (case exec c s of Ok t \<Rightarrow> fits cs t | _ \<Rightarrow> True)"

subsection \<open>One call\<close>

definition simulates1 :: "heap \<Rightarrow> handle list \<Rightarrow> kind \<Rightarrow> (aval option \<Rightarrow> bool) \<Rightarrow> (handle \<times> heap) res \<Rightarrow> bool" where
  "simulates1 h R k P r \<longleftrightarrow>
     (case r of
        Ok (x, h') \<Rightarrow> wf_heap h' (x # R) \<and> frame h h' R \<and> kind_of x = k \<and> P (Some (abs_of h' x))
      | Panic \<Rightarrow> P None | _ \<Rightarrow> False)"

definition simulates2 :: "heap \<Rightarrow> handle list \<Rightarrow> kind \<Rightarrow> ((aval \<times> aval) option \<Rightarrow> bool) \<Rightarrow>
    ((handle \<times> handle) \<times> heap) res \<Rightarrow> bool" where
  "simulates2 h R k P r \<longleftrightarrow>
     (case r of
        Ok ((x, y), h') \<Rightarrow> wf_heap h' (x # y # R) \<and> frame h h' R \<and> kind_of x = k \<and> kind_of y = k \<and>
          P (Some (abs_of h' x, abs_of h' y))
      | Panic \<Rightarrow> P None | _ \<Rightarrow> False)"

lemma a_mut_wf:
  "wf_heap h (HMut b # R) \<Longrightarrow> view h (HMut b) = xs \<Longrightarrow> n \<le> bm_cap b - bm_len b \<Longrightarrow> a_mut xs n (abs_of h (HMut b))"
  using mut_owner(3) [of h b R] length_view [of h "HMut b"] by (auto simp: a_mut_def wf_heap_def)

lemma sim_bytes:
  "\<exists>b h'. r = Ok (b, h') \<and> wf_heap h' (HBytes b # R) \<and> frame h h' R \<and> view h' (HBytes b) = xs \<Longrightarrow>
   P (Some (BytesV xs)) \<Longrightarrow> simulates1 h R KBytes P (as_handle HBytes r)"
  by (auto simp: simulates1_def as_handle_def)

lemma sim_mut:
  assumes "\<exists>b h'. r = Ok (b, h') \<and> wf_heap h' (HMut b # R) \<and> frame h h' R \<and> view h' (HMut b) = xs \<and>
      n \<le> bm_cap b - bm_len b"
    and P: "\<And>v. a_mut xs n v \<Longrightarrow> P (Some v)"
  shows "simulates1 h R KMut P (as_handle HMut r)"
proof -
  obtain b h' where b: "r = Ok (b, h')" "wf_heap h' (HMut b # R)" "frame h h' R" "view h' (HMut b) = xs"
    "n \<le> bm_cap b - bm_len b" using assms(1) by blast
  have "P (Some (abs_of h' (HMut b)))" by (rule P [OF a_mut_wf [OF b(2,4,5)]])
  with b show ?thesis by (simp add: simulates1_def as_handle_def)
qed

lemma sim_vec:
  "\<exists>v h'. r = Ok (v, h') \<and> wf_heap h' (HVec v # R) \<and> frame h h' R \<and> view h' (HVec v) = xs \<Longrightarrow>
   P (Some (VecV xs)) \<Longrightarrow> simulates1 h R KVec P (as_handle HVec r)"
  by (auto simp: simulates1_def as_handle_def)

lemma run0_simulates:
  assumes wf: "wf_heap h R" and room: "box_room h" and needs: "needs0 f h"
  shows "simulates1 h R (type0 f) (\<lambda>r. \<exists>v. r = Some v \<and> spec0 f v) (run0 f h)"
proof (cases f)
  case NewBytes
  then show ?thesis using bytes_new_Ok [OF wf] by (simp add: simulates1_def)
next
  case (CopyBytes xs)
  then show ?thesis
    using bytes_copy_from_slice_Ok [OF wf _ room, of xs] needs by (auto intro!: sim_bytes)
next
  case (CopyMut xs)
  then show ?thesis using bm_copy_from_slice_Ok [OF wf, of xs] needs by (auto intro!: sim_mut)
next
  case (MutWithCapacity n)
  obtain b h' where b: "bm_with_capacity n h = Ok (b, h')" "wf_heap h' (HMut b # R)" "frame h h' R"
    "view h' (HMut b) = []" "n \<le> bm_cap b"
    using bm_with_capacity_Ok [OF wf, of n] needs MutWithCapacity by auto
  moreover have "bm_len b = 0" using length_view [of h' "HMut b"] b(2,4) by (simp add: wf_heap_def)
  ultimately show ?thesis using MutWithCapacity by (auto intro!: sim_mut [where n = n])
next
  case (CopyVec xs)
  then show ?thesis using slice_to_vec_Ok [OF wf, of xs] needs by (auto intro!: sim_vec)
qed

text \<open>The calls that may make a box: splitting off what is truncated, and giving up a vector's spare capacity.\<close>

fun boxes :: "op1 \<Rightarrow> bool" where
  "boxes (Truncate n) \<longleftrightarrow> True" | "boxes (TruncateOff n) \<longleftrightarrow> True" | "boxes Freeze \<longleftrightarrow> True"
| "boxes FromVec \<longleftrightarrow> True" | "boxes _ \<longleftrightarrow> False"

lemma run1_bytes:
  assumes wf: "wf_heap h (HBytes b # R)" and room: "boxes f \<longrightarrow> box_room h" "Suc (length R) < isize_max"
    and type: "type1 f KBytes = Some k" and needs: "needs1 f (HBytes b) h"
  shows "simulates1 h R k (spec1 f (abs_of h (HBytes b))) (run1 f (HBytes b) h)"
proof -
  have r: "boxes f \<Longrightarrow> room h (HBytes b # R)" using room by (simp add: room_def)
  have len: "length (view h (HBytes b)) = bs_len b" using length_view [OF wf_ConsD(2) [OF wf]] by simp
  consider n where "f = Truncate n" | n where "f = TruncateOff n" | "f = Clear" | n where "f = Advance n"
    | "f = IntoMut" | "f = IntoVec" using type by (cases f) auto
  then show ?thesis
  proof cases
    case 1
    then have "room h (HBytes b # R)" using r by simp
    with 1 show ?thesis using type bytes_truncate_Ok [OF wf] quiet_frame by (fastforce intro!: sim_bytes)
  next
    case 2
    then have "room h (HBytes b # R)" using r by simp
    with 2 show ?thesis using type bytes_truncate_off_Ok [OF wf] quiet_frame len by (fastforce intro!: sim_bytes)
  next
    case 3
    then show ?thesis using type bytes_clear_Ok [OF wf] room(2) quiet_frame by (fastforce intro!: sim_bytes)
  next
    case (4 n)
    show ?thesis
    proof (cases "n \<le> bs_len b")
      case True
      then obtain c where "bytes_advance b n h = Ok c" "wf_heap h (HBytes c # R)"
        "view h (HBytes c) = drop n (view h (HBytes b))" using bytes_advance_Ok [OF wf] by blast
      then show ?thesis using 4 type True len by (auto simp: simulates1_def)
    next
      case False
      then have "bytes_advance b n h = Panic" by (simp add: bytes_advance_def rassert_def)
      then show ?thesis using 4 False len by (simp add: simulates1_def)
    qed
  next
    case 5
    obtain m h' where m: "bytes_into_mut b h = Ok (m, h')" "wf_heap h' (HMut m # R)" "frame h h' R"
      "view h' (HMut m) = view h (HBytes b)"
      using bytes_into_mut_Ok [OF wf] room(2) needs 5 by auto
    then show ?thesis using 5 type by (auto intro!: sim_mut [where n = 0])
  next
    case 6
    then show ?thesis using type bytes_into_vec_Ok [OF wf] room(2) needs by (auto intro!: sim_vec)
  qed
qed

lemma run1_mut:
  assumes wf: "wf_heap h (HMut b # R)" and room: "f = Freeze \<longrightarrow> box_room h" "Suc (length R) < isize_max"
    and type: "type1 f KMut = Some k" and needs: "needs1 f (HMut b) h"
  shows "simulates1 h R k (spec1 f (abs_of h (HMut b))) (run1 f (HMut b) h)"
proof -
  have R: "length R < isize_max" using room(2) by simp
  have len: "length (view h (HMut b)) = bm_len b" using length_view [OF wf_ConsD(2) [OF wf]] by simp
  have full: "wf_heap h (HMut b # R) \<and> view h (HMut b) = take (bm_len b) (view h (HMut b))"
    using wf len by simp
  consider n where "f = Truncate n" | n where "f = TruncateOff n" | "f = Clear" | n where "f = Advance n"
    | n where "f = Reserve n" | n where "f = TryReclaim n" | xs where "f = Extend xs" | "f = Freeze"
    using type by (cases f) auto
  then show ?thesis
  proof cases
    case (1 n)
    then show ?thesis using type bm_truncate_Ok [OF wf, of n] by (simp add: simulates1_def bm_truncate_def)
  next
    case (2 n)
    then show ?thesis
      using type wf len bm_truncate_Ok [OF wf, of "bm_len b - n"]
      by (simp add: simulates1_def bm_truncate_off_eq) (simp add: bm_truncate_def)
  next
    case 3
    then show ?thesis
      using type bm_truncate_Ok [OF wf, of 0]
      by (simp add: simulates1_def bm_truncate_off_eq(2)) (simp add: bm_truncate_def)
  next
    case (4 n)
    show ?thesis
    proof (cases "n \<le> bm_len b")
      case True
      then obtain c where c: "bm_advance b n h = Ok c" "wf_heap h (HMut c # R)"
        "view h (HMut c) = drop n (view h (HMut b))" using bm_advance_Ok [OF wf] by blast
      then have "a_mut (drop n (view h (HMut b))) 0 (abs_of h (HMut c))" by (intro a_mut_wf) simp_all
      then show ?thesis using 4 type True len c by (auto simp: simulates1_def)
    next
      case False
      then have "bm_advance b n h = Panic" by (simp add: bm_advance_def rassert_def)
      then show ?thesis using 4 False len by (simp add: simulates1_def)
    qed
  next
    case (5 n)
    then show ?thesis
      using type bm_reserve_Ok [OF wf R, of n] needs
      by (auto simp: reserved_def grow_ok_def intro!: sim_mut [where n = n])
  next
    case (6 n)
    obtain c ok h' where c: "bm_try_reclaim b n h = Ok ((c, ok), h')" "wf_heap h' (HMut c # R)" "frame h h' R"
      "view h' (HMut c) = view h (HMut b)"
      using bm_try_reclaim_Ok [OF wf R, of n] needs 6 by (auto simp: reserved_def)
    then have "a_mut (view h (HMut b)) 0 (abs_of h' (HMut c))" by (intro a_mut_wf) simp_all
    then show ?thesis using c 6 type by (auto simp: simulates1_def)
  next
    case (7 xs)
    then show ?thesis
      using type bm_extend_Ok [OF wf R, of xs] needs
      by (auto simp: grow_ok_def intro!: sim_mut [where n = 0])
  next
    case 8
    then have "box_room h" using room(1) by simp
    with 8 show ?thesis using type bm_freeze_Ok [OF wf] quiet_frame by (fastforce intro!: sim_bytes)
  qed
qed

lemma run1_vec:
  assumes wf: "wf_heap h (HVec v # R)" and room: "boxes f \<longrightarrow> box_room h" and type: "type1 f KVec = Some k"
  shows "simulates1 h R k (spec1 f (abs_of h (HVec v))) (run1 f (HVec v) h)"
proof -
  consider "f = FromVec" | "f = MutFromVec" using type by (cases f) auto
  then show ?thesis
  proof cases
    case 1
    then have "box_room h" using room by simp
    with 1 show ?thesis using type bytes_from_vec_Ok [OF wf] quiet_frame by (fastforce intro!: sim_bytes)
  next
    case 2
    have "a_mut (view h (HVec v)) 0 (abs_of h (HMut (bm_from_vec v)))"
      by (rule a_mut_wf [OF bm_from_vec_Ok [OF wf]]) simp
    then show ?thesis using 2 type bm_from_vec_Ok [OF wf] by (auto simp: simulates1_def)
  qed
qed

lemma run1_simulates:
  assumes "wf_heap h (x # R)" "boxes f \<longrightarrow> box_room h" "Suc (length R) < isize_max" "type1 f (kind_of x) = Some k" "needs1 f x h"
  shows "simulates1 h R k (spec1 f (abs_of h x)) (run1 f x h)"
  using assms run1_bytes run1_mut run1_vec by (cases x) simp_all

lemma sim_split:
  "\<exists>lo hi h'. r = Ok ((lo, hi), h') \<and> wf_heap h' (f lo # f hi # R) \<and> quiet h h' \<and>
     abs_of h' (f lo) = v \<and> abs_of h' (f hi) = w \<Longrightarrow>
   (\<And>x. kind_of (f x) = k) \<Longrightarrow> P (Some (v, w)) \<Longrightarrow> simulates2 h R k P (as_handles f r)"
  by (auto simp: simulates2_def as_handles_def quiet_frame)

lemma sim_Panic: "r = Panic \<Longrightarrow> P None \<Longrightarrow> simulates2 h R k P (as_handles f r)"
  by (simp add: simulates2_def as_handles_def)

lemma run2_bytes:
  assumes wf: "wf_heap h (HBytes b # R)" and room: "box_room h" "Suc (length R) < isize_max"
  shows "simulates2 h R KBytes (spec2 f (abs_of h (HBytes b))) (run2 f (HBytes b) h)"
proof -
  have r: "room h (HBytes b # R)" using room by (simp add: room_def)
  have len: "length (view h (HBytes b)) = bs_len b" using length_view [OF wf_ConsD(2) [OF wf]] by simp
  show ?thesis
  proof (cases f)
    case Clone
    obtain b' c h' where c: "clone_inner b h = Ok ((b', c), h')" "cloned h b R b' c h'"
      using clone_inner_mut_Ok [OF wf r] by (auto simp: clone_inner_mut_eq)
    then have "view h' (HBytes b') = view h (HBytes b)" "view h' (HBytes c) = view h (HBytes b)"
      by (simp_all add: cloned_def quiet_def view_def)
    with c Clone show ?thesis by (auto simp: cloned_def intro!: sim_split)
  next
    case (SplitOff n)
    show ?thesis
    proof (cases "n \<le> bs_len b")
      case True
      obtain lo hi h' where "bytes_split_off b n h = Ok ((lo, hi), h')" "split_at h b n R lo hi h'"
        using try_split_off_Ok [OF wf r True] by (auto simp: bytes_split_off_def)
      then show ?thesis using SplitOff True len by (auto simp: split_at_def intro!: sim_split)
    next
      case False
      then show ?thesis using SplitOff split_Panic(1) [of b n h] len by (auto intro!: sim_Panic)
    qed
  next
    case (SplitTo n)
    show ?thesis
    proof (cases "n \<le> bs_len b")
      case True
      obtain lo hi h' where "bytes_split_to b n h = Ok ((hi, lo), h')" "split_at h b n R lo hi h'"
        using try_split_to_Ok [OF wf r True] by (auto simp: bytes_split_to_def)
      then show ?thesis using SplitTo True len by (auto simp: split_at_def intro!: sim_split wf_swap)
    next
      case False
      then show ?thesis using SplitTo split_Panic(2) [of b n h] len by (auto intro!: sim_Panic)
    qed
  next
    case (Slice s e)
    show ?thesis
    proof (cases "bound_lo s \<le> bound_hi e (bs_len b) \<and> bound_hi e (bs_len b) \<le> bs_len b")
      case True
      then obtain b' c h' where "slice_bound b s e h = Ok ((b', c), h')"
        "sliced h b (bound_lo s) (bound_hi e (bs_len b) - bound_lo s) R b' c h'"
        using slice_bound_Ok [OF wf r, of s e] by blast
      then show ?thesis using Slice True len by (auto simp: sliced_def intro!: sim_split)
    next
      case False
      have "slice_bound b s e h = Panic"
        using slice_bound_Panic [OF False] handle_len [OF wf_ConsD(1,2) [OF wf]] by simp
      then show ?thesis using Slice False len by (auto intro!: sim_Panic)
    qed
  qed
qed

lemma run2_mut:
  assumes wf: "wf_heap h (HMut b # R)" and room: "box_room h" "Suc (length R) < isize_max"
    and type: "type2 f KMut" and needs: "needs2 f (HMut b) h"
  shows "simulates2 h R KMut (spec2 f (abs_of h (HMut b))) (run2 f (HMut b) h)"
proof -
  have r: "room h (HMut b # R)" using room by (simp add: room_def)
  have len: "length (view h (HMut b)) = bm_len b" using length_view [OF wf_ConsD(2) [OF wf]] by simp
  show ?thesis
  proof (cases f)
    case Clone
    obtain c h' where c: "bm_clone b h = Ok (c, h')" "wf_heap h' (HMut c # HMut b # R)"
      "frame h h' (HMut b # R)" "view h' (HMut c) = view h (HMut b)"
      using bm_clone_Ok [OF wf] needs Clone by auto
    have "a_mut (view h (HMut b)) 0 (abs_of h' (HMut c))" by (rule a_mut_wf [OF c(2,4)]) simp
    then show ?thesis using c Clone by (auto simp: simulates2_def frame_def intro!: wf_swap)
  next
    case (SplitOff n)
    show ?thesis
    proof (cases "n \<le> bm_cap b")
      case True
      obtain lo hi h' where "bm_split_off b n h = Ok ((lo, hi), h')" "mut_split h b n R lo hi h'"
        using bm_try_split_off_Ok [OF wf r True] by (auto simp: bm_split_off_def)
      then show ?thesis using SplitOff True by (auto simp: mut_split_def intro!: sim_split)
    next
      case False
      then show ?thesis using SplitOff bm_split_Panic(2) [of b n h] by (auto intro!: sim_Panic)
    qed
  next
    case (SplitTo n)
    show ?thesis
    proof (cases "n \<le> bm_len b")
      case True
      obtain lo hi h' where "bm_split_to b n h = Ok ((hi, lo), h')" "mut_split h b n R lo hi h'"
        using bm_try_split_to_Ok [OF wf r True] by (auto simp: bm_split_to_def)
      then show ?thesis using SplitTo True len by (auto simp: mut_split_def intro!: sim_split wf_swap)
    next
      case False
      then show ?thesis using SplitTo bm_split_Panic(1) [of b n h] len by (auto intro!: sim_Panic)
    qed
  next
    case (Slice s e)
    then show ?thesis using type by simp
  qed
qed

lemma run2_simulates:
  assumes "wf_heap h (x # R)" "box_room h" "Suc (length R) < isize_max" "type2 f (kind_of x)" "needs2 f x h"
  shows "simulates2 h R (kind_of x) (spec2 f (abs_of h x)) (run2 f x h)"
proof (cases x)
  case (HVec v)
  then show ?thesis using assms(4) by (cases f) auto
qed (use assms run2_bytes run2_mut in simp_all)

lemma discard_Ok:
  assumes wf: "wf_heap h (x # R)" and len: "length R \<le> isize_max"
  shows "\<exists>h'. discard x h = Ok h' \<and> wf_heap h' R \<and> frame h h' R"
proof (cases x)
  case (HVec v)
  note v = wf_vec [OF wf [unfolded HVec]]
  note d = owner_dealloc [OF wf, of v "v_len v"]
  have x: "owns x" "is_unpromoted (h_data x)" using HVec by simp_all
  then have "vec_drop v h = Ok (dealloc h (h_blk x))" using d(1) v HVec wf by (simp add: whole_vec_def owner_ok_def)
  moreover have "box_free (h_data x) (dealloc h (h_blk x)) = dealloc h (h_blk x)"
    using box_free_dealloc_id x(2) wf by (simp add: wf_heap_def)
  then have "wf_heap (dealloc h (h_blk x)) R" using wf_dealloc [OF wf x(1)] v(4) HVec by simp
  ultimately show ?thesis using HVec quiet_frame [OF quiet_box(3)] by auto
qed (use bytes_drop_Ok bm_drop_Ok wf len quiet_frame in fastforce)+

subsection \<open>One command on a pool\<close>

lemma mset_leave: "i < length xs \<Longrightarrow> mset (xs ! i # leave i xs) = mset xs"
  by (metis id_take_nth_drop leave_def mset.simps(2) mset_append union_mset_add_mset_right append_Cons)

lemma mset_put: "i < length xs \<Longrightarrow> mset (xs[i := x]) = mset (x # leave i xs)"
  by (simp add: leave_def upd_conv_take_nth_drop)

lemma length_leave [simp]: "i < length xs \<Longrightarrow> Suc (length (leave i xs)) = length xs"
  by (simp add: leave_def)

lemma leave_Suc: "leave (Suc i) (x # xs) = x # leave i xs"
  by (simp add: leave_def)

lemma map_leave [simp]: "map f (leave i xs) = leave i (map f xs)"
  by (simp add: leave_def take_map drop_map)

lemma nth_in_leave: "j < length xs \<Longrightarrow> j \<noteq> i \<Longrightarrow> xs ! j \<in> set (leave i xs)"
proof (cases "j < i")
  case True
  assume "j < length xs"
  with True have "take i xs ! j \<in> set (take i xs)" by (intro nth_mem) simp
  then show ?thesis using True by (simp add: leave_def)
next
  case False
  assume "j < length xs" "j \<noteq> i"
  with False have "drop (Suc i) xs ! (j - Suc i) \<in> set (drop (Suc i) xs)" by (intro nth_mem) simp
  then show ?thesis using False \<open>j \<noteq> i\<close> \<open>j < length xs\<close> by (simp add: leave_def)
qed

lemma leave_subset: "set (leave i xs) \<subseteq> set xs"
  using set_take_subset [of i xs] set_drop_subset [of "Suc i" xs] by (auto simp: leave_def)

lemma abs_frame: "frame h h' hs \<Longrightarrow> x \<in> set hs \<Longrightarrow> abs_of h' x = abs_of h x"
  by (cases x) (simp_all add: frame_def)

lemma abs_put:
  assumes "frame h h' (leave i hs)"
  shows "map (abs_of h') (hs[i := x]) = (map (abs_of h) hs)[i := abs_of h' x]"
proof (rule nth_equalityI)
  fix j
  assume "j < length (map (abs_of h') (hs[i := x]))"
  then show "map (abs_of h') (hs[i := x]) ! j = (map (abs_of h) hs)[i := abs_of h' x] ! j"
    using abs_frame [OF assms nth_in_leave] by (cases "j = i") simp_all
qed simp

lemma pick_wf: "wf_heap h hs \<Longrightarrow> i < length hs \<Longrightarrow> wf_heap h (hs ! i # leave i hs)"
  using wf_heap_perm mset_leave by metis

lemma put_wf: "wf_heap h (x # leave i hs) \<Longrightarrow> i < length hs \<Longrightarrow> wf_heap h (hs[i := x])"
  using wf_heap_perm mset_put by metis

lemma put_two_wf: "wf_heap h (x # y # leave i hs) \<Longrightarrow> i < length hs \<Longrightarrow> wf_heap h (hs[i := x] @ [y])"
  by (erule wf_heap_perm [rotated]) (simp add: mset_put add_mset_commute)

definition simulates :: "cmd \<Rightarrow> kind list \<Rightarrow> pool \<Rightarrow> pool res \<Rightarrow> bool" where
  "simulates c ks s r \<longleftrightarrow>
     (case r of
        Ok (hs, h) \<Rightarrow> wf_heap h hs \<and> map kind_of hs = ks \<and>
          spec c (map (abs_of (snd s)) (fst s)) (Some (map (abs_of h) hs))
      | Panic \<Rightarrow> spec c (map (abs_of (snd s)) (fst s)) None
      | _ \<Rightarrow> False)"

lemma exec_new:
  assumes wf: "wf_heap h hs" and room: "box_room h" and needs: "needs (New f) (hs, h)"
  shows "simulates (New f) (map kind_of hs @ [type0 f]) (hs, h) (exec (New f) (hs, h))"
proof -
  note run = run0_simulates [OF wf room, of f]
  show ?thesis
  proof (cases "run0 f h")
    case (Ok p)
    obtain x h' where p: "p = (x, h')" by (cases p)
    have r: "wf_heap h' (x # hs)" "frame h h' hs" "kind_of x = type0 f" "spec0 f (abs_of h' x)"
      using run needs Ok p by (auto simp: simulates1_def)
    have "wf_heap h' (hs @ [x])" by (rule wf_heap_perm [OF _ r(1)]) simp
    moreover have "map (abs_of h') hs = map (abs_of h) hs" using abs_frame [OF r(2)] by simp
    ultimately show ?thesis using Ok p r by (simp add: simulates_def)
  qed (use run needs in \<open>auto simp: simulates1_def simulates_def\<close>)
qed

lemma exec_on:
  assumes wf: "wf_heap h hs" and room: "box_room h" "length hs < isize_max" and i: "i < length hs"
    and type: "type1 f (kind_of (hs ! i)) = Some k" and needs: "needs (On i f) (hs, h)"
  shows "simulates (On i f) ((map kind_of hs)[i := k]) (hs, h) (exec (On i f) (hs, h))"
proof -
  have len: "Suc (length (leave i hs)) < isize_max" using room(2) i by simp
  have run: "simulates1 h (leave i hs) k (spec1 f (abs_of h (hs ! i))) (run1 f (hs ! i) h)"
    using run1_simulates [OF pick_wf [OF wf i] _ len type] needs room(1) by simp
  show ?thesis
  proof (cases "run1 f (hs ! i) h")
    case (Ok p)
    obtain x h' where p: "p = (x, h')" by (cases p)
    have r: "wf_heap h' (x # leave i hs)" "frame h h' (leave i hs)" "kind_of x = k"
      "spec1 f (abs_of h (hs ! i)) (Some (abs_of h' x))"
      using run Ok p by (auto simp: simulates1_def)
    then show ?thesis
      using Ok p i put_wf [OF r(1) i] abs_put [OF r(2), of x]
      by (auto simp: simulates_def map_update intro!: exI [of _ "Some (abs_of h' x)"])
  next
    case Panic
    then have "spec1 f (abs_of h (hs ! i)) None" using run by (simp add: simulates1_def)
    then show ?thesis using Panic i by (auto simp: simulates_def)
  qed (use run i in \<open>auto simp: simulates1_def\<close>)
qed

lemma exec_branch:
  assumes wf: "wf_heap h hs" and room: "box_room h" "length hs < isize_max" and i: "i < length hs"
    and type: "type2 f (kind_of (hs ! i))" and needs: "needs (Branch i f) (hs, h)"
  shows "simulates (Branch i f) (map kind_of hs @ [kind_of (hs ! i)]) (hs, h) (exec (Branch i f) (hs, h))"
proof -
  let ?k = "kind_of (hs ! i)"
  have len: "Suc (length (leave i hs)) < isize_max" using room(2) i by simp
  have run: "simulates2 h (leave i hs) ?k (spec2 f (abs_of h (hs ! i))) (run2 f (hs ! i) h)"
    using run2_simulates [OF pick_wf [OF wf i] room(1) len type] needs by simp
  show ?thesis
  proof (cases "run2 f (hs ! i) h")
    case (Ok p)
    obtain x y h' where p: "p = ((x, y), h')" by (metis prod.collapse)
    have r: "wf_heap h' (x # y # leave i hs)" "frame h h' (leave i hs)" "kind_of x = ?k" "kind_of y = ?k"
      "spec2 f (abs_of h (hs ! i)) (Some (abs_of h' x, abs_of h' y))"
      using run Ok p by (auto simp: simulates2_def)
    have "map kind_of (hs[i := x]) = map kind_of hs" using r(3) i by (simp add: map_update list_update_same_conv)
    then show ?thesis
      using Ok p i r put_two_wf [OF r(1) i] abs_put [OF r(2), of x]
      by (auto simp: simulates_def intro!: exI [of _ "Some (abs_of h' x, abs_of h' y)"])
  next
    case Panic
    then have "spec2 f (abs_of h (hs ! i)) None" using run by (simp add: simulates2_def)
    then show ?thesis using Panic i by (auto simp: simulates_def)
  qed (use run i in \<open>auto simp: simulates2_def\<close>)
qed

text \<open>\<open>unsplit\<close> takes two handles out.\<close>

definition skip :: "nat \<Rightarrow> nat \<Rightarrow> nat" where
  "skip i k = (if k < i then k else k - 1)"

lemma leave_skip:
  assumes "k < length xs" "k \<noteq> i" "i < length xs"
  shows "leave i xs ! skip i k = xs ! k" "skip i k < length (leave i xs)"
  using assms by (auto simp: leave_def skip_def nth_append min_def)

lemma skip_inj: "j \<noteq> i \<Longrightarrow> k \<noteq> i \<Longrightarrow> k \<noteq> j \<Longrightarrow> skip i k \<noteq> skip i j"
  by (auto simp: skip_def)

lemma leave_cong:
  assumes "length xs = length ys" "\<And>k. k < length xs \<Longrightarrow> k \<noteq> j \<Longrightarrow> xs ! k = ys ! k"
  shows "leave j xs = leave j ys"
proof -
  have "take j xs = take j ys" using assms by (intro nth_equalityI) auto
  moreover have "drop (Suc j) xs = drop (Suc j) ys" using assms by (intro nth_equalityI) auto
  ultimately show ?thesis by (simp add: leave_def)
qed

lemma pick_two:
  assumes wf: "wf_heap h hs" and ij: "i < length hs" "j < length hs" "i \<noteq> j"
  shows "wf_heap h (hs ! i # hs ! j # leave (skip i j) (leave i hs))"
    "Suc (Suc (length (leave (skip i j) (leave i hs)))) = length hs"
proof -
  note sk = leave_skip [OF ij(2) ij(3) [symmetric] ij(1)]
  have "mset (hs ! i # hs ! j # leave (skip i j) (leave i hs)) = mset hs"
    using mset_leave [OF sk(2)] sk(1) mset_leave [OF ij(1)] by simp
  then show "wf_heap h (hs ! i # hs ! j # leave (skip i j) (leave i hs))" using wf_heap_perm [OF _ wf] by simp
  show "Suc (Suc (length (leave (skip i j) (leave i hs)))) = length hs" using ij sk(2) by simp
qed

text \<open>The pool after the two have become one.\<close>

lemma merge_two:
  assumes wf: "wf_heap h hs" and ij: "i < length hs" "j < length hs" "i \<noteq> j"
    and kinds: "kind_of (hs ! i) = kind_of x" "hs' = leave j (hs[i := x])"
    and wf': "wf_heap h' (x # leave (skip i j) (leave i hs))" and fr: "frame h h' (leave (skip i j) (leave i hs))"
  shows "wf_heap h' hs'" "map kind_of hs' = leave j (map kind_of hs)"
    "map (abs_of h') hs' = leave j ((map (abs_of h) hs)[i := abs_of h' x])"
proof -
  let ?R = "leave (skip i j) (leave i hs)" and ?hs = "leave j (hs[i := x])"
  note sk = leave_skip [OF ij(2) ij(3) [symmetric] ij(1)]
  have m: "mset (hs ! j # ?R) = mset (leave i hs)" using mset_leave [OF sk(2)] sk(1) by simp
  have at: "hs[i := x] ! j = hs ! j" using ij by simp
  have "mset (hs ! j # ?hs) = mset (hs[i := x])" using mset_leave [of j "hs[i := x]"] ij at by simp
  also have "\<dots> = mset (hs ! j # x # ?R)" using mset_put [OF ij(1)] m by (simp add: add_mset_commute)
  finally show "wf_heap h' hs'" using wf_heap_perm [OF _ wf'] kinds(2) by simp
  have "abs_of h' (hs ! k) = abs_of h (hs ! k)" if "k < length hs" "k \<noteq> i" "k \<noteq> j" for k
  proof -
    note k = leave_skip [OF that(1,2) ij(1)]
    have "leave i hs ! skip i k \<in> set ?R" by (rule nth_in_leave [OF k(2) skip_inj]) (use that ij(3) in auto)
    then show ?thesis using abs_frame [OF fr] k(1) by simp
  qed
  then show "map (abs_of h') hs' = leave j ((map (abs_of h) hs)[i := abs_of h' x])"
    unfolding kinds(2) map_leave using ij by (intro leave_cong) (auto simp: nth_list_update)
  show "map kind_of hs' = leave j (map kind_of hs)"
    using kinds ij by (auto simp: nth_list_update intro!: leave_cong)
qed

lemma exec_unsplit:
  assumes wf: "wf_heap h hs" and room: "length hs < isize_max" and ij: "i < length hs" "j < length hs" "i \<noteq> j"
    and type: "kind_of (hs ! i) = KMut" "kind_of (hs ! j) = KMut" and needs: "needs (Unsplit i j) (hs, h)"
  shows "simulates (Unsplit i j) (leave j (map kind_of hs)) (hs, h) (exec (Unsplit i j) (hs, h))"
proof -
  obtain b c where bc: "hs ! i = HMut b" "hs ! j = HMut c"
    using type by (cases "hs ! i"; cases "hs ! j") auto
  note two = pick_two [OF wf ij, unfolded bc]
  obtain d h' where d: "bm_unsplit b c h = Ok (d, h')" "wf_heap h' (HMut d # leave (skip i j) (leave i hs))"
    "frame h h' (leave (skip i j) (leave i hs))" "view h' (HMut d) = view h (HMut b) @ view h (HMut c)"
    using bm_unsplit_Ok [OF two(1)] two(2) room needs bc by (auto simp: grow_ok_def)
  have "a_mut (view h (HMut b) @ view h (HMut c)) 0 (abs_of h' (HMut d))" by (rule a_mut_wf [OF d(2,4)]) simp
  with merge_two [OF wf ij _ refl d(2,3)] type ij bc d(1) show ?thesis by (auto simp: simulates_def as_handle_def)
qed

lemma exec_discard:
  assumes wf: "wf_heap h hs" and room: "length hs < isize_max" and i: "i < length hs"
  shows "simulates (Discard i) (leave i (map kind_of hs)) (hs, h) (exec (Discard i) (hs, h))"
proof -
  have "length (leave i hs) \<le> isize_max" using length_leave [OF i] room by simp
  then obtain h' where d: "discard (hs ! i) h = Ok h'" "wf_heap h' (leave i hs)" "frame h h' (leave i hs)"
    using discard_Ok [OF pick_wf [OF wf i]] by blast
  have "map (abs_of h') (leave i hs) = map (abs_of h) (leave i hs)"
    using abs_frame [OF d(3)] by (simp del: map_leave)
  then show ?thesis using d i by (simp add: simulates_def)
qed

lemma exec_simulates:
  assumes wf: "wf_heap h hs" and room: "box_room h" "length hs < isize_max"
    and check: "check c (map kind_of hs) = Some ks" and needs: "needs c (hs, h)"
  shows "simulates c ks (hs, h) (exec c (hs, h))"
proof (cases c)
  case (New f)
  then show ?thesis using exec_new [OF wf room(1), of f] check needs by auto
next
  case (On i f)
  then obtain k where k: "i < length hs" "type1 f (kind_of (hs ! i)) = Some k" "ks = (map kind_of hs)[i := k]"
    using check by (auto split: if_split_asm)
  show ?thesis using exec_on [OF wf room k(1,2)] needs On k(3) by auto
next
  case (Branch i f)
  then have k: "i < length hs" "type2 f (kind_of (hs ! i))" "ks = map kind_of hs @ [kind_of (hs ! i)]"
    using check by (auto split: if_split_asm)
  show ?thesis using exec_branch [OF wf room k(1,2)] needs Branch k(3) by auto
next
  case (Unsplit i j)
  then have k: "i < length hs" "j < length hs" "i \<noteq> j" "kind_of (hs ! i) = KMut" "kind_of (hs ! j) = KMut"
    "ks = leave j (map kind_of hs)" using check by (auto split: if_split_asm)
  show ?thesis using exec_unsplit [OF wf room(2) k(1-5)] needs Unsplit k(6) by auto
next
  case (Discard i)
  then have k: "i < length hs" "ks = leave i (map kind_of hs)" using check by (auto split: if_split_asm)
  then show ?thesis using exec_discard [OF wf room(2) k(1)] Discard by auto
qed

text \<open>A whole run.\<close>

lemma exec_all_simulates:
  "wf_heap h hs \<Longrightarrow> check_all cs (map kind_of hs) = Some ks \<Longrightarrow> fits cs (hs, h) \<Longrightarrow>
   (case exec_all cs (hs, h) of
      Ok (hs', h') \<Rightarrow> wf_heap h' hs' \<and> map kind_of hs' = ks \<and>
        spec_all cs (map (abs_of h) hs) (Some (map (abs_of h') hs'))
    | Panic \<Rightarrow> spec_all cs (map (abs_of h) hs) None
    | _ \<Rightarrow> False)"
proof (induction cs arbitrary: hs h)
  case (Cons c cs)
  obtain ks' where ks': "check c (map kind_of hs) = Some ks'" "check_all cs ks' = Some ks"
    using Cons.prems(2) by (auto split: bind_splits)
  have sim: "simulates c ks' (hs, h) (exec c (hs, h))"
    using exec_simulates [OF Cons.prems(1) _ _ ks'(1)] Cons.prems(3) by simp
  show ?case
  proof (cases "exec c (hs, h)")
    case (Ok p)
    obtain hs1 h1 where p: "p = (hs1, h1)" by (cases p)
    have s: "wf_heap h1 hs1" "map kind_of hs1 = ks'" "spec c (map (abs_of h) hs) (Some (map (abs_of h1) hs1))"
      using sim Ok p by (auto simp: simulates_def)
    have "fits cs (hs1, h1)" using Cons.prems(3) Ok p by simp
    then show ?thesis
      using Cons.IH [OF s(1)] s ks' Ok p by (auto split: res.splits)
  qed (use sim in \<open>auto simp: simulates_def\<close>)
qed simp

subsection \<open>The properties\<close>

text \<open>A run for the instances: split, advance the second half past its first byte, drop both.\<close>

definition demo_prog :: "cmd list" where
  "demo_prog = [Branch 0 (SplitOff 1), On 1 (Advance 1), Discard 0, Discard 0]"

definition demo_boxed :: "nat \<Rightarrow> heap" where
  "demo_boxed n = demo_heap\<lparr>hp_shared := [8 \<mapsto> \<lparr>ref_count = n, sh_ptr = Ptr 0 0, sh_cap = 4\<rparr>], hp_boxes := 1\<rparr>"

abbreviation demo_part :: "nat \<Rightarrow> nat \<Rightarrow> handle" where
  "demo_part i n \<equiv> HBytes \<lparr>bs_ptr = Ptr 0 i, bs_len = n, bs_data = 8\<rparr>"

lemma demo_steps:
  "exec (Branch 0 (SplitOff 1)) ([HBytes demo_bytes], demo_heap) = Ok ([demo_part 1 1, demo_part 2 2], demo_boxed 2)"
  "exec (On 1 (Advance 1)) ([demo_part 1 1, demo_part 2 2], demo_boxed 2) =
     Ok ([demo_part 1 1, demo_part 3 1], demo_boxed 2)"
  "exec (Discard 0) ([demo_part 1 1, demo_part 3 1], demo_boxed 2) = Ok ([demo_part 3 1], demo_boxed 1)"
  "exec (Discard 0) ([demo_part 3 1], demo_boxed 1) = Ok ([], box_free 8 (free_block (demo_boxed 0) 0))"
     apply (simp add: as_handles_def bytes_split_off_def bytes_try_split_off_def clone_inner_mut_def
      bytes_advance_unchecked_def demo_boxed_def eval_simps Let_def)
    apply (simp add: bytes_advance_def bytes_advance_unchecked_def demo_boxed_def eval_simps rassert_def Let_def)
   apply (simp add: bytes_drop_def leave_def demo_boxed_def eval_simps Let_def)
  apply (simp add: bytes_drop_def vec_drop_def leave_def demo_boxed_def eval_simps Let_def)
  done

lemma demo_fits: "fits demo_prog ([HBytes demo_bytes], demo_heap)"
  unfolding demo_prog_def fits.simps(2) demo_steps res.case
  by (simp add: demo_boxed_def box_room_def demo_heap_def isize_max_def)

lemma demo_runs: "exec_all demo_prog ([HBytes demo_bytes], demo_heap) =
    Ok ([], box_free 8 (free_block (demo_boxed 0) 0))"
  unfolding demo_prog_def exec_all.simps demo_steps rbind.simps by (rule refl)



end
