(* ===== verification/Outcomes.thy ===== *)
theory Outcomes
  imports Pool_Runs
begin

text \<open>
  Calls without resources. The contracts of \<open>Bytes_Spec\<close> and \<open>Pool_Runs\<close> ask for an allocator that can serve
  each request and an address for each new box. Here nothing is asked: a call may panic or abort for want of
  them, but it never reaches undefined behaviour, and if it returns, it has done what its contract says.
\<close>

subsection \<open>Where the resources run out\<close>

lemma alloc_fails: "\<not> alloc_ok h n \<Longrightarrow> fails (vec_with_capacity n h)"
proof -
  have "unat (hp_base h (length (hp_blocks h))) \<le> usize_max"
    using unsigned_less [of "hp_base h (length (hp_blocks h))", where 'a = nat] by (simp add: usize_max_def)
  moreover assume "\<not> alloc_ok h n"
  ultimately show ?thesis
    by (auto simp: alloc_ok_def vec_with_capacity_def Let_def isize_max_def split: if_split_asm)
qed

lemma box_fails: "\<not> box_room h \<Longrightarrow> promote_with_vec v n h = Abort"
  by (simp add: promote_with_vec_def box_new_def Let_def)

lemma no_room: "\<not> room h (x # R) \<Longrightarrow> Suc (length R) \<le> isize_max \<Longrightarrow> is_unpromoted (h_data x) \<and> \<not> box_room h"
  by (simp add: room_def)

lemma slice_to_vec_fails: "\<not> alloc_ok h (length xs) \<Longrightarrow> fails (slice_to_vec xs h)"
  by (simp add: slice_to_vec_def alloc_fails)

lemma clone_fails:
  assumes "wf_heap h (HBytes b # R)" "is_unpromoted (bs_data b)" "\<not> box_room h"
  shows "clone_inner_mut b h = Abort"
proof -
  have "bs_data b \<noteq> 0" using assms(2) by (auto simp: is_unpromoted_odd)
  then show ?thesis
    using assms build_unpromoted_vec_Ok [OF assms(1,2)]
    by (simp add: clone_inner_mut_def as_unpromoted_Inl box_fails)
qed

lemma shallow_clone_fails:
  assumes "wf_heap h (HMut b # R)" "is_unpromoted (bm_data b)" "\<not> box_room h"
  shows "shallow_clone b h = Abort"
  using assms original_buffer_Ok [OF assms(1,2)] mut_unpromoted(1) [OF assms(1,2)]
  by (simp add: shallow_clone_def as_unpromoted_Inl box_fails)

subsection \<open>\<open>Bytes\<close>\<close>

lemma bytes_from_vec_safe:
  assumes wf: "wf_heap h (HVec v # R)"
  shows "safe (\<lambda>(b, h'). wf_heap h' (HBytes b # R) \<and> quiet h h' \<and> view h' (HBytes b) = view h (HVec v))
    (bytes_from_vec v h)"
proof (cases "v_len v \<noteq> 0 \<and> v_cap v \<noteq> v_len v \<longrightarrow> box_room h")
  case True
  then show ?thesis using bytes_from_vec_Ok [OF wf] by (auto intro: safe_Ok)
next
  case False
  then show ?thesis by (simp add: bytes_from_vec_def box_fails)
qed

lemma slice_to_vec_safe:
  assumes wf: "wf_heap h R"
  shows "safe (\<lambda>(v, h'). wf_heap h' (HVec v # R) \<and> frame h h' R \<and> view h' (HVec v) = xs) (slice_to_vec xs h)"
  using slice_to_vec_Ok [OF wf, of xs] slice_to_vec_fails [of h xs]
  by (cases "alloc_ok h (length xs)") (auto intro: safe_Ok fails_safe)

lemma clone_inner_mut_safe:
  assumes wf: "wf_heap h (HBytes b # R)" and len: "Suc (length R) \<le> isize_max"
  shows "safe (\<lambda>((b', c), h'). cloned h b R b' c h') (clone_inner_mut b h)"
proof (cases "room h (HBytes b # R)")
  case True
  then show ?thesis using clone_inner_mut_Ok [OF wf] by (auto intro: safe_Ok)
next
  case False
  then show ?thesis using clone_fails [OF wf] no_room [OF False len] by simp
qed

lemma bytes_split_safe:
  assumes wf: "wf_heap h (HBytes b # R)" and len: "Suc (length R) \<le> isize_max"
  shows "safe (\<lambda>((lo, hi), h'). n \<le> bs_len b \<and> split_at h b n R lo hi h') (bytes_split_off b n h)"
    "safe (\<lambda>((hi, lo), h'). n \<le> bs_len b \<and> split_at h b n R lo hi h') (bytes_split_to b n h)"
proof -
  consider (out) "bs_len b < n" | (ok) "n \<le> bs_len b" "0 < n \<and> n < bs_len b \<longrightarrow> room h (HBytes b # R)"
    | (no) "0 < n" "n < bs_len b" "\<not> room h (HBytes b # R)" by linarith
  then have "safe (\<lambda>((lo, hi), h'). n \<le> bs_len b \<and> split_at h b n R lo hi h') (bytes_split_off b n h) \<and>
      safe (\<lambda>((hi, lo), h'). n \<le> bs_len b \<and> split_at h b n R lo hi h') (bytes_split_to b n h)"
  proof cases
    case out
    then show ?thesis
      by (simp add: bytes_split_off_def bytes_try_split_off_def bytes_split_to_def bytes_try_split_to_def Let_def)
  next
    case ok
    obtain lo hi h1 where s: "bytes_try_split_off b n h = Ok ((lo, Some hi), h1)" "split_at h b n R lo hi h1"
      using try_split_off_Ok [OF wf _ ok(1)] ok(2) by blast
    obtain lo' hi' h2 where t: "bytes_try_split_to b n h = Ok ((hi', Some lo'), h2)" "split_at h b n R lo' hi' h2"
      using try_split_to_Ok [OF wf _ ok(1)] ok(2) by blast
    show ?thesis using ok(1) s t by (simp add: bytes_split_off_def bytes_split_to_def)
  next
    case no
    then have "clone_inner_mut b h = Abort" using clone_fails [OF wf] no_room [OF no(3) len] by simp
    with no show ?thesis
      by (simp add: bytes_split_off_def bytes_try_split_off_def bytes_split_to_def bytes_try_split_to_def Let_def)
  qed
  then show "safe (\<lambda>((lo, hi), h'). n \<le> bs_len b \<and> split_at h b n R lo hi h') (bytes_split_off b n h)"
    "safe (\<lambda>((hi, lo), h'). n \<le> bs_len b \<and> split_at h b n R lo hi h') (bytes_split_to b n h)" by blast+
qed

lemma bytes_truncate_safe:
  assumes wf: "wf_heap h (HBytes b # R)" and len: "Suc (length R) \<le> isize_max"
  shows "safe (\<lambda>(b', h'). wf_heap h' (HBytes b' # R) \<and> quiet h h' \<and>
    view h' (HBytes b') = take n (view h (HBytes b))) (bytes_truncate b n h)"
proof (cases "room h (HBytes b # R) \<or> bs_len b \<le> n")
  case True
  then show ?thesis
    using bytes_truncate_Ok [OF wf, of n] length_view [OF wf_ConsD(2) [OF wf]] wf
    by (elim disjE) (auto simp: bytes_truncate_def intro: safe_Ok)
next
  case False
  then have own: "bs_data b \<noteq> 0" using no_room [OF _ len, of h "HBytes b"] by (auto simp: is_unpromoted_odd)
  have "safe (\<lambda>(b', h'). wf_heap h' (HBytes b' # R) \<and> quiet h h' \<and> view h' (HBytes b') = take n (view h (HBytes b)))
      (rbind (bytes_split_off b n h) (\<lambda>((b, rest), h). rbind (bytes_drop rest h) (\<lambda>h. Ok (b, h))))"
  proof (rule safe_bind [OF bytes_split_safe(1) [OF wf len]], clarify)
    fix lo hi h1
    assume s: "split_at h b n R lo hi h1"
    then have "wf_heap h1 (HBytes hi # HBytes lo # R)" using wf_swap by (auto simp: split_at_def)
    from bytes_drop_Ok [OF this] len obtain h2 where
      d: "bytes_drop hi h1 = Ok h2" "wf_heap h2 (HBytes lo # R)" "quiet h1 h2" by auto
    with s quiet_view [OF d(3)] quiet_trans show "safe (\<lambda>(b', h'). wf_heap h' (HBytes b' # R) \<and> quiet h h' \<and>
        view h' (HBytes b') = take n (view h (HBytes b))) (rbind (bytes_drop hi h1) (\<lambda>h. Ok (lo, h)))"
      by (auto simp: split_at_def)
  qed
  with False own show ?thesis by (simp add: bytes_truncate_def)
qed

lemma slice_bound_safe:
  assumes wf: "wf_heap h (HBytes b # R)" and len: "Suc (length R) \<le> isize_max"
  shows "safe (\<lambda>((b', c), h'). bound_lo s \<le> bound_hi e (bs_len b) \<and> bound_hi e (bs_len b) \<le> bs_len b \<and>
    sliced h b (bound_lo s) (bound_hi e (bs_len b) - bound_lo s) R b' c h') (slice_bound b s e h)"
proof (cases "bound_lo s \<le> bound_hi e (bs_len b) \<and> bound_hi e (bs_len b) \<le> bs_len b")
  case False
  have "bs_len b \<le> usize_max" using handle_len [of h "HBytes b"] wf by (simp add: wf_heap_def)
  with False show ?thesis by (simp add: slice_bound_Panic)
next
  case le: True
  show ?thesis
  proof (cases "room h (HBytes b # R)")
    case True
    then show ?thesis using slice_bound_Ok [OF wf] le by (auto intro: safe_Ok)
  next
    case False
    have ok: "handle_ok h (HBytes b)" and "bs_len b \<le> usize_max"
      using handle_len [of h "HBytes b"] wf by (simp_all add: wf_heap_def)
    note ev = bound_eval [OF this(2)]
    let ?m = "bound_lo s" and ?n = "bound_hi e (bs_len b) - bound_lo s"
    have lo: "?m \<le> bs_len b" using le by simp
    have clone: "clone_inner b h = Abort"
      using clone_fails [OF wf] no_room [OF False len] by (simp add: clone_inner_mut_eq)
    show ?thesis
    proof (cases "?n = 0")
      case True
      from slice_clone [OF wf _, of ?n ?m] True le show ?thesis
        unfolding slice_bound_def Let_def ev(1) [OF conjunct2 [OF le]] ev(2) [OF lo]
        by (auto intro: safe_Ok)
    next
      case False
      then show ?thesis
        using ptr_add_handle [OF ok, of ?m] lo le clone
        unfolding slice_bound_def Let_def ev(1) [OF conjunct2 [OF le]] ev(2) [OF lo] by simp
    qed
  qed
qed

text \<open>The copying branches of the conversions, on the heap \<open>h'\<close> after the reference has been given up.\<close>

lemma into_vec_copy_fails:
  assumes "handle_ok h (HBytes b)" "hp_blocks h' = hp_blocks h" "quiet h h'" "\<not> alloc_ok h (bs_len b)"
  shows "fails (into_vec_copy b h')" "fails (into_mut_copy b h')"
proof -
  have "bytes_as_slice b h' = bytes_as_slice b h"
    using assms(2) by (simp add: bytes_as_slice_def slice_from_raw_parts_def readable_def blk_ok_def blk_size_def cells_def)
  then have sl: "bytes_as_slice b h' = Ok (view h (HBytes b))" using bytes_as_slice_Ok [OF assms(1)] by simp
  have "\<not> alloc_ok h' (length (view h (HBytes b)))"
    using assms(3,4) length_view [OF assms(1)] quiet_alloc_ok by simp
  then show "fails (into_vec_copy b h')" "fails (into_mut_copy b h')"
    using sl slice_to_vec_fails by (simp_all add: into_vec_copy_def into_mut_copy_def)
qed

lemma into_copy_cases:
  assumes wf: "wf_heap h (HBytes b # R)" and len: "length R \<le> isize_max"
    and copy: "bs_data b = 0 \<or> \<not> is_unpromoted (bs_data b) \<and> refs (bs_data b) R \<noteq> 0"
  obtains h' where "bytes_into_vec b h = into_vec_copy b h'" "bytes_into_mut b h = into_mut_copy b h'"
    "hp_blocks h' = hp_blocks h" "quiet h h'" "wf_heap h' R"
proof (cases "bs_data b = 0")
  case True
  then show thesis
    using that [of h] wf_null_drop [OF wf] by (simp add: bytes_into_vec_def bytes_into_mut_def)
next
  case False
  then have pro: "\<not> is_unpromoted (bs_data b)" "refs (bs_data b) R \<noteq> 0" using copy by auto
  obtain s where s: "hp_shared h (bs_data b) = Some s" "sh_cap s = blk_size h (ptr_blk (bs_ptr b))"
    using owner_box [OF wf_ConsD(2) [OF wf]] False pro by auto
  obtain h' where h': "release_into_vec (bs_data b) (sh_cap s) h = Ok (None, h')"
      "wf_heap h' R" "quiet h h'" "hp_blocks h' = hp_blocks h"
    using release_into_vec_Ok(2) [OF wf _ _ len, of "sh_cap s"] False pro s(2) by auto
  then show thesis
    using that [of h'] False pro s(1) by (simp add: bytes_into_vec_def bytes_into_mut_def as_unpromoted_Inr)
qed

lemma bytes_into_safe:
  assumes wf: "wf_heap h (HBytes b # R)" and len: "length R \<le> isize_max"
  shows "safe (\<lambda>(v, h'). wf_heap h' (HVec v # R) \<and> frame h h' R \<and> view h' (HVec v) = view h (HBytes b))
      (bytes_into_vec b h)"
    "safe (\<lambda>(m, h'). wf_heap h' (HMut m # R) \<and> frame h h' R \<and> view h' (HMut m) = view h (HBytes b))
      (bytes_into_mut b h)"
proof -
  let ?copy = "bs_data b = 0 \<or> \<not> is_unpromoted (bs_data b) \<and> refs (bs_data b) R \<noteq> 0"
  have "safe (\<lambda>(v, h'). wf_heap h' (HVec v # R) \<and> frame h h' R \<and> view h' (HVec v) = view h (HBytes b))
      (bytes_into_vec b h) \<and>
    safe (\<lambda>(m, h'). wf_heap h' (HMut m # R) \<and> frame h h' R \<and> view h' (HMut m) = view h (HBytes b))
      (bytes_into_mut b h)"
  proof (cases "?copy \<longrightarrow> alloc_ok h (bs_len b)")
    case True
    then show ?thesis
      using bytes_into_vec_Ok [OF wf len] bytes_into_mut_Ok [OF wf len] by (auto intro: safe_Ok)
  next
    case False
    then have no: "?copy" "\<not> alloc_ok h (bs_len b)" by blast+
    obtain h' where h': "bytes_into_vec b h = into_vec_copy b h'" "bytes_into_mut b h = into_mut_copy b h'"
        "hp_blocks h' = hp_blocks h" "quiet h h'"
      using into_copy_cases [OF wf len no(1)] by blast
    from into_vec_copy_fails [OF wf_ConsD(2) [OF wf] h'(3,4) no(2)] show ?thesis
      by (simp add: h'(1,2) fails_safe)
  qed
  then show "safe (\<lambda>(v, h'). wf_heap h' (HVec v # R) \<and> frame h h' R \<and> view h' (HVec v) = view h (HBytes b))
      (bytes_into_vec b h)"
    "safe (\<lambda>(m, h'). wf_heap h' (HMut m # R) \<and> frame h h' R \<and> view h' (HMut m) = view h (HBytes b))
      (bytes_into_mut b h)" by blast+
qed

subsection \<open>\<open>BytesMut\<close>\<close>

lemma bm_alloc_safe:
  assumes wf: "wf_heap h R"
  shows "safe (\<lambda>(b, h'). wf_heap h' (HMut b # R) \<and> frame h h' R \<and> view h' (HMut b) = [] \<and> n \<le> bm_cap b)
      (bm_with_capacity n h)"
    "safe (\<lambda>(b, h'). wf_heap h' (HMut b # R) \<and> frame h h' R \<and> view h' (HMut b) = xs) (bm_copy_from_slice xs h)"
proof -
  show "safe (\<lambda>(b, h'). wf_heap h' (HMut b # R) \<and> frame h h' R \<and> view h' (HMut b) = [] \<and> n \<le> bm_cap b)
      (bm_with_capacity n h)"
    using bm_with_capacity_Ok [OF wf, of n] alloc_fails [of h n]
    by (cases "alloc_ok h n") (auto simp: bm_with_capacity_def intro: safe_Ok fails_safe)
  show "safe (\<lambda>(b, h'). wf_heap h' (HMut b # R) \<and> frame h h' R \<and> view h' (HMut b) = xs) (bm_copy_from_slice xs h)"
    using bm_copy_from_slice_Ok [OF wf, of xs] slice_to_vec_fails [of h xs]
    by (cases "alloc_ok h (length xs)") (auto simp: bm_copy_from_slice_def intro: safe_Ok fails_safe)
qed

lemma bm_freeze_safe:
  assumes wf: "wf_heap h (HMut b # R)"
  shows "safe (\<lambda>(c, h'). wf_heap h' (HBytes c # R) \<and> quiet h h' \<and> view h' (HBytes c) = view h (HMut b)) (bm_freeze b h)"
proof (cases "is_unpromoted (bm_data b) \<and> bm_len b + ptr_off (bm_ptr b) \<noteq> 0 \<and> bm_cap b \<noteq> bm_len b \<longrightarrow> box_room h")
  case True
  then have "\<exists>c h'. bm_freeze b h = Ok (c, h') \<and> wf_heap h' (HBytes c # R) \<and> quiet h h' \<and>
      view h' (HBytes c) = view h (HMut b)" by (intro bm_freeze_Ok [OF wf]) blast
  then show ?thesis by auto
next
  case False
  then have no: "is_unpromoted (bm_data b)" "bm_len b + ptr_off (bm_ptr b) \<noteq> 0" "bm_cap b \<noteq> bm_len b"
    "\<not> box_room h" using False by simp_all
  note u = mut_unpromoted [OF wf no(1)]
  have "bytes_from_vec (whole_vec h (ptr_blk (bm_ptr b)) (bm_len b + ptr_off (bm_ptr b))) h = Abort"
    using no(2-4) u(3) by (auto simp: bytes_from_vec_def whole_vec_def box_fails)
  then have "bm_freeze b h = Abort"
    using no(1) u(1) original_buffer_Ok [OF wf no(1)] by (simp add: bm_freeze_def as_unpromoted_Inl)
  then show ?thesis by simp
qed

lemma bm_split_safe:
  assumes wf: "wf_heap h (HMut b # R)" and len: "Suc (length R) \<le> isize_max"
  shows "safe (\<lambda>((lo, hi), h'). n \<le> bm_cap b \<and> mut_split h b n R lo hi h') (bm_split_off b n h)"
    "safe (\<lambda>((hi, lo), h'). n \<le> bm_len b \<and> mut_split h b n R lo hi h') (bm_split_to b n h)"
proof -
  consider (room) "room h (HMut b # R)" | (no) "shallow_clone b h = Abort"
    using shallow_clone_fails [OF wf] no_room [OF _ len, of h] by fastforce
  then have "safe (\<lambda>((lo, hi), h'). n \<le> bm_cap b \<and> mut_split h b n R lo hi h') (bm_split_off b n h) \<and>
      safe (\<lambda>((hi, lo), h'). n \<le> bm_len b \<and> mut_split h b n R lo hi h') (bm_split_to b n h)"
  proof cases
    case room
    have "safe (\<lambda>((lo, hi), h'). n \<le> bm_cap b \<and> mut_split h b n R lo hi h') (bm_split_off b n h)"
    proof (cases "n \<le> bm_cap b")
      case True
      from bm_try_split_off_Ok [OF wf room this] True show ?thesis by (auto simp: bm_split_off_def)
    qed (simp add: bm_split_Panic)
    moreover have "safe (\<lambda>((hi, lo), h'). n \<le> bm_len b \<and> mut_split h b n R lo hi h') (bm_split_to b n h)"
    proof (cases "n \<le> bm_len b")
      case True
      from bm_try_split_to_Ok [OF wf room this] True show ?thesis by (auto simp: bm_split_to_def)
    qed (simp add: bm_split_Panic)
    ultimately show ?thesis by blast
  qed (simp add: bm_split_off_def bm_try_split_off_def bm_split_to_def bm_try_split_to_def)
  then show "safe (\<lambda>((lo, hi), h'). n \<le> bm_cap b \<and> mut_split h b n R lo hi h') (bm_split_off b n h)"
    "safe (\<lambda>((hi, lo), h'). n \<le> bm_len b \<and> mut_split h b n R lo hi h') (bm_split_to b n h)" by blast+
qed

text \<open>Reserving is reclaiming, and reallocating if that was refused.\<close>

definition realloc :: "bytes_mut \<Rightarrow> nat \<Rightarrow> heap \<Rightarrow> ((bytes_mut \<times> bool) \<times> heap) res" where
  "realloc b n h =
     rbind (realloc_copy b n h) (\<lambda>(v, h).
     rbind (bm_drop b h) (\<lambda>h.
     Ok ((\<lparr>bm_ptr = v_ptr v, bm_len = bm_len b, bm_cap = v_cap v, bm_data = tag 0\<rparr>, True), h)))"

definition or_realloc :: "nat \<Rightarrow> (bytes_mut \<times> bool) \<times> heap \<Rightarrow> ((bytes_mut \<times> bool) \<times> heap) res" where
  "or_realloc n = (\<lambda>((b, ok), h). if ok then Ok ((b, True), h) else realloc b n h)"

lemma bm_drop_promoted: "\<not> is_unpromoted (bm_data b) \<Longrightarrow> bm_drop b h = release (bm_data b) h"
  by (cases "hp_shared h (bm_data b)")
    (simp_all add: bm_drop_def into_unpromoted_def box_deref_def release_def fetch_sub_def)

lemma mask_payload_0: "is_unpromoted data \<Longrightarrow> mask_payload data 0 = Ok (tag 0)"
  by (rule mask_payload_Ok) simp_all

lemma rbind_if: "rbind (if c then m else n) f = (if c then rbind m f else rbind n f)"
  by simp

lemma reserve_unpromoted_or_realloc:
  assumes "is_unpromoted (bm_data b)"
  shows "reserve_unpromoted b (payload (bm_data b)) n True h =
    rbind (reserve_unpromoted b (payload (bm_data b)) n False h) (or_realloc n)"
  using assms mask_payload_0
  by (simp add: reserve_unpromoted_def or_realloc_def realloc_def bm_drop_def as_unpromoted_Inl rbind_assoc
      case_prod_unfold Let_def rbind_if cong: if_cong)

lemma realloc_promoted_or_realloc:
  assumes "\<not> is_unpromoted (bm_data b)"
  shows "reserve_realloc_promoted b n True h = rbind (reserve_realloc_promoted b n False h) (or_realloc n)"
  using assms
  by (simp add: reserve_realloc_promoted_def or_realloc_def realloc_def bm_drop_promoted new_unpromoted_tag)

lemma reserve_promoted_or_realloc:
  assumes "\<not> is_unpromoted (bm_data b)"
  shows "reserve_promoted b s n True h = rbind (reserve_promoted b s n False h) (or_realloc n)"
  using assms
  by (simp add: reserve_promoted_def realloc_promoted_or_realloc or_realloc_def rbind_assoc rbind_if Let_def
      case_prod_unfold cong: if_cong)

lemma reserve_inner_or_realloc:
  assumes "n \<noteq> 0"
  shows "reserve_inner b n True h = rbind (reserve_inner b n False h) (or_realloc n)"
proof (cases "is_unpromoted (bm_data b)")
  case True
  then show ?thesis
    using assms reserve_unpromoted_or_realloc [OF True]
    by (simp add: reserve_inner_def as_unpromoted_Inl rbind_assoc)
next
  case False
  show ?thesis
  proof (cases "hp_shared h (bm_data b)")
    case None
    with False assms show ?thesis
      by (simp add: reserve_inner_def as_unpromoted_mut_def box_deref_def rbind_assoc)
  next
    case (Some s)
    with False assms show ?thesis
      by (simp add: reserve_inner_def as_unpromoted_Inr rbind_assoc reserve_promoted_or_realloc [OF False])
  qed
qed

lemma realloc_safe:
  assumes wf: "wf_heap h (HMut b # R)" and len: "length R < isize_max"
  shows "safe (\<lambda>((c, ok), h'). reserved h b n R True c ok h') (realloc b n h)"
proof (cases "alloc_ok h (max (bm_cap b * 2) (bm_len b + n))")
  case True
  from realloc_drop_Ok [OF wf len True] show ?thesis by (auto simp: realloc_def)
next
  case False
  then have "fails (realloc_copy b n h)"
    using alloc_fails by (simp add: realloc_copy_def umul_def uadd_def Let_def)
  then show ?thesis by (simp add: realloc_def fails_safe)
qed

lemma reserve_inner_safe:
  assumes wf: "wf_heap h (HMut b # R)" and len: "length R < isize_max"
  shows "safe (\<lambda>((c, ok), h'). reserved h b n R allocate c ok h') (reserve_inner b n allocate h)"
proof -
  have try_it: "safe (\<lambda>((c, ok), h'). reserved h b n R False c ok h') (reserve_inner b n False h)"
  proof (cases "n + bm_cap b \<le> isize_max")
    case True
    from reserve_inner_Ok [OF wf len True, of False] show ?thesis by auto
  next
    case False
    then have "n \<noteq> 0" using mut_owner(4,5) [OF wf] by (cases n) auto
    with False show ?thesis by (simp add: reserve_inner_def uadd_def rassert_def)
  qed
  consider "\<not> allocate" | "allocate" "n = 0" | "allocate" "n \<noteq> 0" by blast
  then show ?thesis
  proof cases
    case 1
    with try_it show ?thesis by simp
  next
    case 2
    with wf show ?thesis by (simp add: reserve_inner_def reserved_def)
  next
    case 3
    have "safe (\<lambda>((c, ok), h'). reserved h b n R True c ok h') (rbind (reserve_inner b n False h) (or_realloc n))"
    proof (rule safe_bind [OF try_it], clarify)
      fix c ok h1
      assume r: "reserved h b n R False c ok h1"
      show "safe (\<lambda>((c, ok), h'). reserved h b n R True c ok h') (or_realloc n ((c, ok), h1))"
      proof (cases ok)
        case True
        with r show ?thesis by (simp add: or_realloc_def reserved_def)
      next
        case False
        have "wf_heap h1 (HMut c # R)" using r by (simp add: reserved_def)
        from realloc_safe [OF this len, of n] r False show ?thesis
          by (auto simp: or_realloc_def reserved_def elim!: safe_mono intro: frame_trans)
      qed
    qed
    with 3 show ?thesis by (simp add: reserve_inner_or_realloc)
  qed
qed

lemma bm_reserve_safe:
  assumes wf: "wf_heap h (HMut b # R)" and len: "length R < isize_max"
  shows "safe (\<lambda>(c, h'). reserved h b n R True c True h') (bm_reserve b n h)"
proof (cases "n \<le> bm_cap b - bm_len b")
  case True
  with wf mut_owner(3) [OF wf] show ?thesis by (simp add: bm_reserve_def usub_Ok reserved_def)
next
  case False
  have "safe (\<lambda>(c, h'). reserved h b n R True c True h')
      (rbind (reserve_inner b n True h) (\<lambda>((b, _), h). Ok (b, h)))"
    by (rule safe_bind [OF reserve_inner_safe [OF wf len]]) (auto simp: reserved_def)
  with False mut_owner(3) [OF wf] show ?thesis by (simp add: bm_reserve_def usub_Ok)
qed

lemma bm_try_reclaim_safe:
  assumes wf: "wf_heap h (HMut b # R)" and len: "length R < isize_max"
  shows "safe (\<lambda>((c, ok), h'). reserved h b n R False c ok h') (bm_try_reclaim b n h)"
proof (cases "n \<le> bm_cap b - bm_len b")
  case True
  with wf mut_owner(3) [OF wf] show ?thesis by (simp add: bm_try_reclaim_def usub_Ok reserved_def)
next
  case False
  with mut_owner(3) [OF wf] reserve_inner_safe [OF wf len, of n False] show ?thesis
    by (simp add: bm_try_reclaim_def usub_Ok)
qed

subsection \<open>Writing and joining\<close>

lemma bm_extend_safe:
  assumes wf: "wf_heap h (HMut b # R)" and len: "length R < isize_max"
  shows "safe (\<lambda>(c, h'). wf_heap h' (HMut c # R) \<and> frame h h' R \<and> view h' (HMut c) = view h (HMut b) @ xs)
    (bm_extend_from_slice b xs h)"
proof -
  note res = bm_reserve_safe [OF wf len, of "length xs"]
  show ?thesis
  proof (cases "bm_reserve b (length xs) h")
    case (Ok p)
    obtain c h1 where p: "p = (c, h1)" by (cases p)
    have c: "wf_heap h1 (HMut c # R)" "frame h h1 R" "view h1 (HMut c) = view h (HMut b)"
      "length xs \<le> bm_cap c - bm_len c" using res Ok p by (simp_all add: reserved_def)
    have "bm_reserve c (length xs) h1 = Ok (c, h1)"
      using c(4) mut_owner(3) [OF c(1)] by (simp add: bm_reserve_def usub_Ok)
    then have eq: "bm_extend_from_slice b xs h = bm_extend_from_slice c xs h1"
      using Ok p by (simp add: bm_extend_from_slice_def)
    obtain h' where "bm_extend_from_slice c xs h1 = Ok (c\<lparr>bm_len := bm_len c + length xs\<rparr>, h')"
      "wf_heap h' (HMut (c\<lparr>bm_len := bm_len c + length xs\<rparr>) # R)" "frame h1 h' R"
      "view h' (HMut (c\<lparr>bm_len := bm_len c + length xs\<rparr>)) = view h1 (HMut c) @ xs"
      by (rule bm_extend_spare [OF c(1,4)])
    then show ?thesis using frame_trans [OF c(2)] c(3) by (simp add: eq)
  qed (use res in \<open>simp_all add: bm_extend_from_slice_def\<close>)
qed

lemma bm_clone_safe:
  assumes wf: "wf_heap h (HMut b # R)"
  shows "safe (\<lambda>(c, h'). wf_heap h' (HMut c # HMut b # R) \<and> frame h h' (HMut b # R) \<and>
    view h' (HMut c) = view h (HMut b)) (bm_clone b h)"
  using bm_alloc_safe(2) [OF wf, of "view h (HMut b)"] bm_as_slice_Ok [OF wf_ConsD(2) [OF wf]]
  by (simp add: bm_clone_def)

lemma bm_unsplit_safe:
  assumes wf: "wf_heap h (HMut b # HMut c # R)" and len: "Suc (length R) < isize_max"
    and same: "adjacent h b c \<longrightarrow> bm_data b = bm_data c"
  shows "safe (\<lambda>(d, h'). wf_heap h' (HMut d # R) \<and> frame h h' R \<and>
    view h' (HMut d) = view h (HMut b) @ view h (HMut c)) (bm_unsplit b c h)"
proof (cases "bm_len b = 0")
  case True
  obtain h' where "bm_drop b h = Ok h'" "wf_heap h' (HMut c # R)" "quiet h h'"
    using bm_drop_Ok [OF wf] len by auto
  then show ?thesis
    using True quiet_view [of h h'] by (simp add: bm_unsplit_def quiet_frame) (simp add: view_def)
next
  case False
  have len': "length R < isize_max" using len by simp
  from bm_try_unsplit_Ok [OF wf len' same] show ?thesis
  proof (elim disjE exE conjE)
    fix d h'
    assume "bm_try_unsplit b c h = Ok ((d, None), h')" "wf_heap h' (HMut d # R)" "quiet h h'"
      "view h' (HMut d) = view h (HMut b) @ view h (HMut c)"
    with False show ?thesis by (simp add: bm_unsplit_def quiet_frame)
  next
    assume err: "bm_try_unsplit b c h = Ok ((b, Some c), h)"
    have ok: "handle_ok h (HMut c)" using wf by (simp add: wf_heap_def)
    have "length (HMut c # R) < isize_max" using len by simp
    note ext = bm_extend_safe [OF wf this, of "view h (HMut c)"]
    have "safe (\<lambda>(d, h'). wf_heap h' (HMut d # R) \<and> frame h h' R \<and>
        view h' (HMut d) = view h (HMut b) @ view h (HMut c))
      (rbind (bm_extend_from_slice b (view h (HMut c)) h) (\<lambda>(b, h). rbind (bm_drop c h) (\<lambda>h. Ok (b, h))))"
    proof (rule safe_bind [OF ext], clarify)
      fix d h1
      assume d: "wf_heap h1 (HMut d # HMut c # R)" "frame h h1 (HMut c # R)"
        "view h1 (HMut d) = view h (HMut b) @ view h (HMut c)"
      obtain h2 where e: "bm_drop c h1 = Ok h2" "wf_heap h2 (HMut d # R)" "quiet h1 h2"
        using bm_drop_Ok [OF wf_swap [OF d(1)]] len by auto
      have "frame h h2 R" using frame_trans [OF _ quiet_frame [OF e(3)]] d(2) by simp
      with e d(3) quiet_view [OF e(3)] show "safe (\<lambda>(d, h'). wf_heap h' (HMut d # R) \<and> frame h h' R \<and>
          view h' (HMut d) = view h (HMut b) @ view h (HMut c)) (rbind (bm_drop c h1) (\<lambda>h. Ok (d, h)))" by simp
    qed
    then show ?thesis using False err bm_as_slice_Ok [OF ok] by (simp add: bm_unsplit_def)
  qed
qed

subsection \<open>One call\<close>

text \<open>The counterparts of \<open>simulates1\<close> and \<open>simulates2\<close> without resources: only a returned value is described.\<close>

definition partial1 :: "heap \<Rightarrow> handle list \<Rightarrow> kind \<Rightarrow> (aval option \<Rightarrow> bool) \<Rightarrow> (handle \<times> heap) res \<Rightarrow> bool" where
  "partial1 h R k P = safe (\<lambda>(x, h').
     wf_heap h' (x # R) \<and> frame h h' R \<and> kind_of x = k \<and> P (Some (abs_of h' x)))"

definition partial2 :: "heap \<Rightarrow> handle list \<Rightarrow> kind \<Rightarrow> ((aval \<times> aval) option \<Rightarrow> bool) \<Rightarrow>
    ((handle \<times> handle) \<times> heap) res \<Rightarrow> bool" where
  "partial2 h R k P = safe (\<lambda>((x, y), h').
     wf_heap h' (x # y # R) \<and> frame h h' R \<and> kind_of x = k \<and> kind_of y = k \<and>
     P (Some (abs_of h' x, abs_of h' y)))"

lemma partial_bytes:
  "safe (\<lambda>(b, h'). wf_heap h' (HBytes b # R) \<and> frame h h' R \<and> view h' (HBytes b) = xs) r \<Longrightarrow>
   P (Some (BytesV xs)) \<Longrightarrow> partial1 h R KBytes P (as_handle HBytes r)"
  by (cases r) (auto simp: partial1_def as_handle_def)

lemma partial_vec:
  "safe (\<lambda>(v, h'). wf_heap h' (HVec v # R) \<and> frame h h' R \<and> view h' (HVec v) = xs) r \<Longrightarrow>
   P (Some (VecV xs)) \<Longrightarrow> partial1 h R KVec P (as_handle HVec r)"
  by (cases r) (auto simp: partial1_def as_handle_def)

lemma partial_mut:
  assumes r: "safe (\<lambda>(b, h'). wf_heap h' (HMut b # R) \<and> frame h h' R \<and> view h' (HMut b) = xs \<and>
      n \<le> bm_cap b - bm_len b) r"
    and P: "\<And>v. a_mut xs n v \<Longrightarrow> P (Some v)"
  shows "partial1 h R KMut P (as_handle HMut r)"
proof (cases r)
  case (Ok p)
  obtain b h' where p: "p = (b, h')" by (cases p)
  have b: "wf_heap h' (HMut b # R)" "frame h h' R" "view h' (HMut b) = xs" "n \<le> bm_cap b - bm_len b"
    using r Ok p by simp_all
  have "P (Some (abs_of h' (HMut b)))" by (rule P [OF a_mut_wf [OF b(1,3,4)]])
  with b show ?thesis by (simp add: partial1_def as_handle_def Ok p)
qed (use r in \<open>simp_all add: partial1_def as_handle_def\<close>)

lemma partial_split:
  "safe (\<lambda>((x, y), h'). wf_heap h' (f x # f y # R) \<and> quiet h h' \<and> P (Some (abs_of h' (f x), abs_of h' (f y)))) r \<Longrightarrow>
   (\<And>x. kind_of (f x) = k) \<Longrightarrow> partial2 h R k P (as_handles f r)"
  by (cases r) (auto simp: partial2_def as_handles_def quiet_frame)

lemma simulates_partial: "simulates1 h R k P r \<Longrightarrow> partial1 h R k P r"
  by (cases r) (auto simp: simulates1_def partial1_def)

lemma bytes_truncate_off_safe:
  assumes wf: "wf_heap h (HBytes b # R)" and len: "Suc (length R) \<le> isize_max"
  shows "safe (\<lambda>(b', h'). wf_heap h' (HBytes b' # R) \<and> quiet h h' \<and> view h' (HBytes b') =
    (if n \<le> bs_len b then take (bs_len b - n) (view h (HBytes b)) else view h (HBytes b))) (bytes_truncate_off b n h)"
  using bytes_truncate_safe [OF wf len, of "bs_len b - n"] wf by (simp add: bytes_truncate_off_def)

lemma bytes_copy_from_slice_safe:
  assumes wf: "wf_heap h R"
  shows "safe (\<lambda>(b, h'). wf_heap h' (HBytes b # R) \<and> frame h h' R \<and> view h' (HBytes b) = xs)
    (bytes_copy_from_slice xs h)"
  unfolding bytes_copy_from_slice_def
proof (rule safe_bind [OF slice_to_vec_safe [OF wf, of xs]])
  fix p
  assume p: "case p of (v, h') \<Rightarrow> wf_heap h' (HVec v # R) \<and> frame h h' R \<and> view h' (HVec v) = xs"
  obtain v h1 where v: "p = (v, h1)" "wf_heap h1 (HVec v # R)" "frame h h1 R" "view h1 (HVec v) = xs"
    using p by (cases p) auto
  have "safe (\<lambda>(b, h'). wf_heap h' (HBytes b # R) \<and> frame h h' R \<and> view h' (HBytes b) = xs) (bytes_from_vec v h1)"
    by (rule safe_mono [OF bytes_from_vec_safe [OF v(2)]]) (use v(3,4) in \<open>auto intro: frame_trans quiet_frame\<close>)
  then show "safe (\<lambda>(b, h'). wf_heap h' (HBytes b # R) \<and> frame h h' R \<and> view h' (HBytes b) = xs)
      (case p of (v, h) \<Rightarrow> bytes_from_vec v h)" by (simp add: v(1))
qed

lemma run0_partial:
  assumes wf: "wf_heap h R"
  shows "partial1 h R (type0 f) (\<lambda>r. \<exists>v. r = Some v \<and> spec0 f v) (run0 f h)"
proof (cases f)
  case NewBytes
  then show ?thesis using bytes_new_Ok [OF wf] by (simp add: partial1_def)
next
  case (CopyBytes xs)
  then show ?thesis using bytes_copy_from_slice_safe [OF wf, of xs] by (auto intro!: partial_bytes)
next
  case (CopyMut xs)
  then show ?thesis using bm_alloc_safe(2) [OF wf, of xs] by (auto intro!: partial_mut [where n = 0])
next
  case (MutWithCapacity n)
  have "safe (\<lambda>(b, h'). wf_heap h' (HMut b # R) \<and> frame h h' R \<and> view h' (HMut b) = [] \<and> n \<le> bm_cap b - bm_len b)
      (bm_with_capacity n h)"
  proof (rule safe_mono [OF bm_alloc_safe(1) [OF wf]], elim case_prodE)
    fix p b h'
    assume b: "p = (b, h')" "wf_heap h' (HMut b # R) \<and> frame h h' R \<and> view h' (HMut b) = [] \<and> n \<le> bm_cap b"
    then have "bm_len b = 0" using length_view [of h' "HMut b"] by (simp add: wf_heap_def)
    with b show "case p of (b, h') \<Rightarrow>
        wf_heap h' (HMut b # R) \<and> frame h h' R \<and> view h' (HMut b) = [] \<and> n \<le> bm_cap b - bm_len b" by simp
  qed
  then show ?thesis using MutWithCapacity by (auto intro!: partial_mut [where n = n])
next
  case (CopyVec xs)
  then show ?thesis using slice_to_vec_safe [OF wf, of xs] by (auto intro!: partial_vec)
qed

lemma run1_bytes_partial:
  assumes wf: "wf_heap h (HBytes b # R)" and len: "Suc (length R) < isize_max" and type: "type1 f KBytes = Some k"
  shows "partial1 h R k (spec1 f (abs_of h (HBytes b))) (run1 f (HBytes b) h)"
proof -
  have view: "length (view h (HBytes b)) = bs_len b" using length_view [OF wf_ConsD(2) [OF wf]] by simp
  note into = bytes_into_safe [OF wf]
  consider (trunc) n where "f = Truncate n" | (off) n where "f = TruncateOff n" | (mut) "f = IntoMut"
    | (vec) "f = IntoVec" | (simple) "\<not> boxes f" "needs1 f (HBytes b) h" using type by (cases f) auto
  then show ?thesis
  proof cases
    case (trunc n)
    have "safe (\<lambda>(b', h'). wf_heap h' (HBytes b' # R) \<and> frame h h' R \<and> view h' (HBytes b') = take n (view h (HBytes b)))
        (bytes_truncate b n h)"
      by (rule safe_mono [OF bytes_truncate_safe [OF wf]]) (use len in \<open>auto intro: quiet_frame\<close>)
    with trunc type show ?thesis by (auto intro!: partial_bytes)
  next
    case (off n)
    have "safe (\<lambda>(b', h'). wf_heap h' (HBytes b' # R) \<and> frame h h' R \<and> view h' (HBytes b') =
        (if n \<le> bs_len b then take (bs_len b - n) (view h (HBytes b)) else view h (HBytes b))) (bytes_truncate_off b n h)"
      by (rule safe_mono [OF bytes_truncate_off_safe [OF wf]]) (use len in \<open>auto intro: quiet_frame\<close>)
    with off type view show ?thesis by (auto intro!: partial_bytes)
  next
    case mut
    with type into(2) len show ?thesis by (auto intro!: partial_mut [where n = 0])
  next
    case vec
    with type into(1) len show ?thesis by (auto intro!: partial_vec)
  next
    case simple
    from run1_bytes [OF wf _ len type simple(2)] simple(1) show ?thesis by (simp add: simulates_partial)
  qed
qed

lemma run1_mut_partial:
  assumes wf: "wf_heap h (HMut b # R)" and len: "Suc (length R) < isize_max" and type: "type1 f KMut = Some k"
  shows "partial1 h R k (spec1 f (abs_of h (HMut b))) (run1 f (HMut b) h)"
proof -
  have R: "length R < isize_max" using len by simp
  consider (reserve) n where "f = Reserve n" | (reclaim) n where "f = TryReclaim n" | (extend) xs where "f = Extend xs"
    | (freeze) "f = Freeze" | (simple) "f \<noteq> Freeze" "needs1 f (HMut b) h" using type by (cases f) auto
  then show ?thesis
  proof cases
    case (reserve n)
    have "safe (\<lambda>(c, h'). wf_heap h' (HMut c # R) \<and> frame h h' R \<and> view h' (HMut c) = view h (HMut b) \<and>
        n \<le> bm_cap c - bm_len c) (bm_reserve b n h)"
      by (rule safe_mono [OF bm_reserve_safe [OF wf R]]) (auto simp: reserved_def)
    with reserve type show ?thesis by (auto intro!: partial_mut [where n = n])
  next
    case (reclaim n)
    have "partial1 h R KMut (spec1 f (abs_of h (HMut b)))
        (rbind (bm_try_reclaim b n h) (\<lambda>((c, ok), h). Ok (HMut c, h)))"
      unfolding partial1_def
    proof (rule safe_bind [OF bm_try_reclaim_safe [OF wf R]], clarify)
      fix c ok h'
      assume c: "reserved h b n R False c ok h'"
      then have "a_mut (view h (HMut b)) 0 (abs_of h' (HMut c))" by (intro a_mut_wf [of _ _ R]) (simp_all add: reserved_def)
      with c reclaim show "safe (\<lambda>(x, h'). wf_heap h' (x # R) \<and> frame h h' R \<and> kind_of x = KMut \<and>
          spec1 f (abs_of h (HMut b)) (Some (abs_of h' x))) (Ok (HMut c, h'))" by (simp add: reserved_def)
    qed
    with reclaim type show ?thesis by simp
  next
    case (extend xs)
    with bm_extend_safe [OF wf R, of xs] type show ?thesis by (auto intro!: partial_mut [where n = 0])
  next
    case freeze
    have "safe (\<lambda>(c, h'). wf_heap h' (HBytes c # R) \<and> frame h h' R \<and> view h' (HBytes c) = view h (HMut b)) (bm_freeze b h)"
      by (rule safe_mono [OF bm_freeze_safe [OF wf]]) (auto intro: quiet_frame)
    with freeze type show ?thesis by (auto intro!: partial_bytes)
  next
    case simple
    from run1_mut [OF wf _ len type simple(2)] simple(1) show ?thesis by (simp add: simulates_partial)
  qed
qed

lemma run1_partial:
  assumes wf: "wf_heap h (x # R)" and len: "Suc (length R) < isize_max" and type: "type1 f (kind_of x) = Some k"
  shows "partial1 h R k (spec1 f (abs_of h x)) (run1 f x h)"
proof (cases x)
  case (HVec v)
  have "f = FromVec \<or> f = MutFromVec" using type HVec by (cases f) auto
  then show ?thesis
  proof
    assume "f = FromVec"
    moreover have "safe (\<lambda>(b, h'). wf_heap h' (HBytes b # R) \<and> frame h h' R \<and> view h' (HBytes b) = view h (HVec v))
        (bytes_from_vec v h)"
      by (rule safe_mono [OF bytes_from_vec_safe]) (use wf HVec in \<open>auto intro: quiet_frame\<close>)
    ultimately show ?thesis using type HVec by (auto intro!: partial_bytes)
  next
    assume "f = MutFromVec"
    with run1_vec [of h v R f k] wf type HVec show ?thesis by (simp add: simulates_partial)
  qed
qed (use run1_bytes_partial run1_mut_partial wf len type in simp_all)

lemma run2_bytes_partial:
  assumes wf: "wf_heap h (HBytes b # R)" and len: "Suc (length R) \<le> isize_max"
  shows "partial2 h R KBytes (spec2 f (abs_of h (HBytes b))) (run2 f (HBytes b) h)"
proof -
  have view: "length (view h (HBytes b)) = bs_len b" using length_view [OF wf_ConsD(2) [OF wf]] by simp
  let ?P = "\<lambda>((x, y), h'). wf_heap h' (HBytes x # HBytes y # R) \<and> quiet h h' \<and>
    spec2 f (abs_of h (HBytes b)) (Some (abs_of h' (HBytes x), abs_of h' (HBytes y)))"
  show ?thesis
  proof (cases f)
    case Clone
    have "safe ?P (clone_inner b h)"
      unfolding clone_inner_mut_eq by (rule safe_mono [OF clone_inner_mut_safe [OF wf len]])
        (auto simp: Clone cloned_def quiet_def view_def)
    with Clone show ?thesis by (auto intro: partial_split)
  next
    case (SplitOff n)
    have "safe ?P (bytes_split_off b n h)"
      by (rule safe_mono [OF bytes_split_safe(1) [OF wf len]]) (auto simp: SplitOff split_at_def view)
    with SplitOff show ?thesis by (auto intro: partial_split)
  next
    case (SplitTo n)
    have "safe ?P (bytes_split_to b n h)"
      by (rule safe_mono [OF bytes_split_safe(2) [OF wf len]]) (auto simp: SplitTo split_at_def view intro: wf_swap)
    with SplitTo show ?thesis by (auto intro: partial_split)
  next
    case (Slice s e)
    have "safe ?P (slice_bound b s e h)"
      by (rule safe_mono [OF slice_bound_safe [OF wf len]]) (auto simp: Slice sliced_def view)
    with Slice show ?thesis by (auto intro: partial_split)
  qed
qed

lemma run2_mut_partial:
  assumes wf: "wf_heap h (HMut b # R)" and len: "Suc (length R) \<le> isize_max" and type: "type2 f KMut"
  shows "partial2 h R KMut (spec2 f (abs_of h (HMut b))) (run2 f (HMut b) h)"
proof -
  have view: "length (view h (HMut b)) = bm_len b" using length_view [OF wf_ConsD(2) [OF wf]] by simp
  let ?P = "\<lambda>((x, y), h'). wf_heap h' (HMut x # HMut y # R) \<and> quiet h h' \<and>
    spec2 f (abs_of h (HMut b)) (Some (abs_of h' (HMut x), abs_of h' (HMut y)))"
  show ?thesis
  proof (cases f)
    case Clone
    have "partial2 h R KMut (spec2 f (abs_of h (HMut b)))
        (rbind (bm_clone b h) (\<lambda>(c, h). Ok ((HMut b, HMut c), h)))"
      unfolding partial2_def
    proof (rule safe_bind [OF bm_clone_safe [OF wf]], elim case_prodE)
      fix p c h'
      assume c: "p = (c, h')" "wf_heap h' (HMut c # HMut b # R) \<and> frame h h' (HMut b # R) \<and>
        view h' (HMut c) = view h (HMut b)"
      then have "a_mut (view h (HMut b)) 0 (abs_of h' (HMut c))" by (intro a_mut_wf [of _ _ "HMut b # R"]) simp_all
      with c show "safe (\<lambda>((x, y), h'). wf_heap h' (x # y # R) \<and> frame h h' R \<and> kind_of x = KMut \<and> kind_of y = KMut \<and>
          spec2 f (abs_of h (HMut b)) (Some (abs_of h' x, abs_of h' y)))
        (case p of (c, h) \<Rightarrow> Ok ((HMut b, HMut c), h))" by (auto simp: Clone frame_def intro: wf_swap)
    qed
    with Clone show ?thesis by simp
  next
    case (SplitOff n)
    have "safe ?P (bm_split_off b n h)"
      by (rule safe_mono [OF bm_split_safe(1) [OF wf len]]) (auto simp: SplitOff mut_split_def)
    with SplitOff show ?thesis by (auto intro: partial_split)
  next
    case (SplitTo n)
    have "safe ?P (bm_split_to b n h)"
      by (rule safe_mono [OF bm_split_safe(2) [OF wf len]]) (auto simp: SplitTo mut_split_def view intro: wf_swap)
    with SplitTo show ?thesis by (auto intro: partial_split)
  next
    case (Slice s e)
    then show ?thesis using type by simp
  qed
qed

lemma run2_partial:
  assumes "wf_heap h (x # R)" "Suc (length R) \<le> isize_max" "type2 f (kind_of x)"
  shows "partial2 h R (kind_of x) (spec2 f (abs_of h x)) (run2 f x h)"
proof (cases x)
  case (HVec v)
  then show ?thesis using assms(3) by (cases f) auto
qed (use assms run2_bytes_partial run2_mut_partial in simp_all)

subsection \<open>One command on a pool\<close>

text \<open>What remains to be asked: that \<open>unsplit\<close> is not misled by buffers that happen to meet.\<close>

fun not_misled :: "cmd \<Rightarrow> pool \<Rightarrow> bool" where
  "not_misled (Unsplit i j) (hs, h) \<longleftrightarrow>
     (case (hs ! i, hs ! j) of (HMut b, HMut c) \<Rightarrow> adjacent h b c \<longrightarrow> bm_data b = bm_data c | _ \<Rightarrow> True)"
| "not_misled _ _ \<longleftrightarrow> True"

definition partially :: "cmd \<Rightarrow> kind list \<Rightarrow> pool \<Rightarrow> pool res \<Rightarrow> bool" where
  "partially c ks s = safe (\<lambda>(hs, h). wf_heap h hs \<and> map kind_of hs = ks \<and>
     spec c (map (abs_of (snd s)) (fst s)) (Some (map (abs_of h) hs)))"

lemma exec_new_partial:
  assumes wf: "wf_heap h hs"
  shows "partially (New f) (map kind_of hs @ [type0 f]) (hs, h) (exec (New f) (hs, h))"
proof -
  note run = run0_partial [OF wf, of f]
  show ?thesis
  proof (cases "run0 f h")
    case (Ok p)
    obtain x h' where p: "p = (x, h')" by (cases p)
    have r: "wf_heap h' (x # hs)" "frame h h' hs" "kind_of x = type0 f" "spec0 f (abs_of h' x)"
      using run Ok p by (auto simp: partial1_def)
    have "wf_heap h' (hs @ [x])" by (rule wf_heap_perm [OF _ r(1)]) simp
    moreover have "map (abs_of h') hs = map (abs_of h) hs" using abs_frame [OF r(2)] by simp
    ultimately show ?thesis using Ok p r by (simp add: partially_def)
  qed (use run in \<open>auto simp: partial1_def partially_def\<close>)
qed

lemma exec_on_partial:
  assumes wf: "wf_heap h hs" and room: "length hs < isize_max" and i: "i < length hs"
    and type: "type1 f (kind_of (hs ! i)) = Some k"
  shows "partially (On i f) ((map kind_of hs)[i := k]) (hs, h) (exec (On i f) (hs, h))"
proof -
  have len: "Suc (length (leave i hs)) < isize_max" using room i by simp
  note run = run1_partial [OF pick_wf [OF wf i] len type]
  show ?thesis
  proof (cases "run1 f (hs ! i) h")
    case (Ok p)
    obtain x h' where p: "p = (x, h')" by (cases p)
    have r: "wf_heap h' (x # leave i hs)" "frame h h' (leave i hs)" "kind_of x = k"
      "spec1 f (abs_of h (hs ! i)) (Some (abs_of h' x))"
      using run Ok p by (auto simp: partial1_def)
    then show ?thesis
      using Ok p i put_wf [OF r(1) i] abs_put [OF r(2), of x]
      by (auto simp: partially_def map_update intro!: exI [of _ "Some (abs_of h' x)"])
  qed (use run i in \<open>auto simp: partial1_def partially_def\<close>)
qed

lemma exec_branch_partial:
  assumes wf: "wf_heap h hs" and room: "length hs < isize_max" and i: "i < length hs"
    and type: "type2 f (kind_of (hs ! i))"
  shows "partially (Branch i f) (map kind_of hs @ [kind_of (hs ! i)]) (hs, h) (exec (Branch i f) (hs, h))"
proof -
  let ?k = "kind_of (hs ! i)"
  have len: "Suc (length (leave i hs)) \<le> isize_max" using room i by simp
  note run = run2_partial [OF pick_wf [OF wf i] len type]
  show ?thesis
  proof (cases "run2 f (hs ! i) h")
    case (Ok p)
    obtain x y h' where p: "p = ((x, y), h')" by (metis prod.collapse)
    have r: "wf_heap h' (x # y # leave i hs)" "frame h h' (leave i hs)" "kind_of x = ?k" "kind_of y = ?k"
      "spec2 f (abs_of h (hs ! i)) (Some (abs_of h' x, abs_of h' y))"
      using run Ok p by (auto simp: partial2_def)
    have "map kind_of (hs[i := x]) = map kind_of hs" using r(3) i by (simp add: map_update list_update_same_conv)
    then show ?thesis
      using Ok p i r put_two_wf [OF r(1) i] abs_put [OF r(2), of x]
      by (auto simp: partially_def intro!: exI [of _ "Some (abs_of h' x, abs_of h' y)"])
  qed (use run i in \<open>auto simp: partial2_def partially_def\<close>)
qed

lemma exec_unsplit_partial:
  assumes wf: "wf_heap h hs" and room: "length hs < isize_max" and ij: "i < length hs" "j < length hs" "i \<noteq> j"
    and type: "kind_of (hs ! i) = KMut" "kind_of (hs ! j) = KMut" and ok: "not_misled (Unsplit i j) (hs, h)"
  shows "partially (Unsplit i j) (leave j (map kind_of hs)) (hs, h) (exec (Unsplit i j) (hs, h))"
proof -
  obtain b c where bc: "hs ! i = HMut b" "hs ! j = HMut c"
    using type by (cases "hs ! i"; cases "hs ! j") auto
  note two = pick_two [OF wf ij, unfolded bc]
  have run: "safe (\<lambda>(d, h'). wf_heap h' (HMut d # leave (skip i j) (leave i hs)) \<and>
      frame h h' (leave (skip i j) (leave i hs)) \<and> view h' (HMut d) = view h (HMut b) @ view h (HMut c)) (bm_unsplit b c h)"
    using bm_unsplit_safe [OF two(1)] two(2) room ok bc by simp
  show ?thesis
  proof (cases "bm_unsplit b c h")
    case (Ok p)
    obtain d h' where p: "p = (d, h')" by (cases p)
    have d: "wf_heap h' (HMut d # leave (skip i j) (leave i hs))" "frame h h' (leave (skip i j) (leave i hs))"
      "view h' (HMut d) = view h (HMut b) @ view h (HMut c)" using run Ok p by simp_all
    have "a_mut (view h (HMut b) @ view h (HMut c)) 0 (abs_of h' (HMut d))" by (rule a_mut_wf [OF d(1,3)]) simp
    with merge_two [OF wf ij _ refl d(1,2)] type ij bc Ok p show ?thesis
      by (auto simp: partially_def as_handle_def)
  qed (use run ij bc in \<open>auto simp: partially_def as_handle_def\<close>)
qed

lemma exec_partial:
  assumes wf: "wf_heap h hs" and room: "length hs < isize_max"
    and check: "check c (map kind_of hs) = Some ks" and ok: "not_misled c (hs, h)"
  shows "partially c ks (hs, h) (exec c (hs, h))"
proof (cases c)
  case (New f)
  then show ?thesis using exec_new_partial [OF wf, of f] check by auto
next
  case (On i f)
  then obtain k where k: "i < length hs" "type1 f (kind_of (hs ! i)) = Some k" "ks = (map kind_of hs)[i := k]"
    using check by (auto split: if_split_asm)
  show ?thesis using exec_on_partial [OF wf room k(1,2)] On k(3) by auto
next
  case (Branch i f)
  then have k: "i < length hs" "type2 f (kind_of (hs ! i))" "ks = map kind_of hs @ [kind_of (hs ! i)]"
    using check by (auto split: if_split_asm)
  show ?thesis using exec_branch_partial [OF wf room k(1,2)] Branch k(3) by auto
next
  case (Unsplit i j)
  then have k: "i < length hs" "j < length hs" "i \<noteq> j" "kind_of (hs ! i) = KMut" "kind_of (hs ! j) = KMut"
    "ks = leave j (map kind_of hs)" using check by (auto split: if_split_asm)
  show ?thesis using exec_unsplit_partial [OF wf room k(1-5)] ok Unsplit k(6) by auto
next
  case (Discard i)
  then have k: "i < length hs" "ks = leave i (map kind_of hs)" using check by (auto split: if_split_asm)
  from exec_discard [OF wf room k(1)] Discard k(2) show ?thesis
    by (cases "exec c (hs, h)") (auto simp: simulates_def partially_def)
qed

subsection \<open>A whole run\<close>

fun never_misled :: "cmd list \<Rightarrow> pool \<Rightarrow> bool" where
  "never_misled [] s \<longleftrightarrow> True"
| "never_misled (c # cs) s \<longleftrightarrow> not_misled c s \<and> (case exec c s of Ok t \<Rightarrow> never_misled cs t | _ \<Rightarrow> True)"

lemma joins_nothing: "(\<And>i j. Unsplit i j \<notin> set cs) \<Longrightarrow> never_misled cs s"
proof (induction cs arbitrary: s)
  case (Cons c cs)
  then have "not_misled c t" for t by (cases c; cases t) auto
  moreover have "never_misled cs t" for t by (rule Cons.IH) (use Cons.prems in auto)
  ultimately show ?case by (simp split: res.split)
qed simp

lemma check_length: "check c ks = Some ks' \<Longrightarrow> length ks' \<le> Suc (length ks)"
  by (cases c) (auto simp: leave_def split: if_split_asm)

lemma exec_all_partial:
  "wf_heap h hs \<Longrightarrow> check_all cs (map kind_of hs) = Some ks \<Longrightarrow> never_misled cs (hs, h) \<Longrightarrow>
   length hs + length cs < isize_max \<Longrightarrow>
   safe (\<lambda>(hs', h'). wf_heap h' hs' \<and> map kind_of hs' = ks \<and>
     spec_all cs (map (abs_of h) hs) (Some (map (abs_of h') hs'))) (exec_all cs (hs, h))"
proof (induction cs arbitrary: hs h)
  case (Cons c cs)
  obtain ks' where ks': "check c (map kind_of hs) = Some ks'" "check_all cs ks' = Some ks"
    using Cons.prems(2) by (auto split: bind_splits)
  have run: "partially c ks' (hs, h) (exec c (hs, h))"
    using exec_partial [OF Cons.prems(1) _ ks'(1)] Cons.prems(3,4) by simp
  show ?case
  proof (cases "exec c (hs, h)")
    case (Ok p)
    obtain hs1 h1 where p: "p = (hs1, h1)" by (cases p)
    have s: "wf_heap h1 hs1" "map kind_of hs1 = ks'" "spec c (map (abs_of h) hs) (Some (map (abs_of h1) hs1))"
      using run Ok p by (auto simp: partially_def)
    have "length hs1 + length cs < isize_max"
      using check_length [OF ks'(1)] arg_cong [OF s(2), of length] Cons.prems(4) by simp
    moreover have "never_misled cs (hs1, h1)" using Cons.prems(3) Ok p by simp
    ultimately show ?thesis using Cons.IH [OF s(1)] s ks' Ok p by (auto elim: safe_mono)
  qed (use run in \<open>auto simp: partially_def\<close>)
qed simp

subsection \<open>The property\<close>

text \<open>A heap that has no address left for a box, and a program that asks for one.\<close>

definition starved :: heap where
  "starved = demo_heap\<lparr>hp_boxes := 2 ^ 61\<rparr>"

lemma starved_wf: "wf_heap starved [HBytes demo_bytes]"
proof -
  have "handle_ok starved (HBytes demo_bytes)" "no_leak starved [HBytes demo_bytes]"
    by (simp_all add: handle_ok_def owner_ok_def no_leak_def starved_def demo_heap_def demo_bytes_def blk_ok_def
        blk_size_def cells_def)
  moreover have "heap_ok starved" using demo_heap_ok
    by (simp add: heap_ok_def starved_def blk_size_def ptr_addr_def) (simp add: demo_heap_def)
  ultimately show ?thesis by (simp add: wf_heap_def counts_ok_def) (simp add: starved_def demo_heap_def)
qed

definition starved_prog :: "cmd list" where
  "starved_prog = [New NewBytes, Branch 0 Clone]"



lemma starved_aborts: "exec_all starved_prog ([HBytes demo_bytes], starved) = Abort"
  by (simp add: starved_prog_def starved_def as_handles_def
      clone_inner_mut_eq clone_inner_mut_def promote_with_vec_def box_new_def box_room_def eval_simps Let_def)



end
