(* ===== verification/Threads.thy ===== *)
theory Threads
  imports Outcomes
begin

text \<open>
  Threads that own handles of the same buffers. \<open>Bytes\<close> and \<open>BytesMut\<close> are \<open>Send\<close>: handles made by cloning or
  splitting move to other threads, where they are cloned, split, converted, grown and dropped at the same
  time. Handles of one allocation meet only at its reference count, so a call that touches the count at most
  once is one turn here, and the others are cut: \<open>into_vec\<close> and \<open>into_mut\<close> of \<open>src/bytes/bytes.rs\<close> after the
  reference was released, \<open>reserve_inner\<close> of \<open>src/bytes/bytes_mut.rs\<close> after the count was read and again before it
  releases, \<open>truncate\<close> after the split. The turns interleave freely (sequentially consistently).
\<close>

subsection \<open>Tasks and turns\<close>

text \<open>
  A task is a handle that rests, or a call in progress: a conversion that has released its reference and is
  about to copy; a truncation that is about to drop what it split off; a reservation that has found the
  buffer shared and is about to reallocate, and the same once it has copied into the new vector. A call of
  \<open>extend_from_slice\<close> remembers the bytes it will store.
\<close>

datatype task = Owner handle | VecCopy bytes | MutCopy bytes | Cut bytes bytes
  | Realloc bytes_mut nat "u8 list option" | Moved bytes_mut vec "u8 list option"

definition moved_to :: "bytes_mut \<Rightarrow> vec \<Rightarrow> bytes_mut" where
  "moved_to b v = \<lparr>bm_ptr = v_ptr v, bm_len = bm_len b, bm_cap = v_cap v, bm_data = new_unpromoted\<rparr>"

fun held :: "task \<Rightarrow> handle list" where
  "held (Owner x) = [x]"
| "held (VecCopy b) = []"
| "held (MutCopy b) = []"
| "held (Cut b c) = [HBytes b, HBytes c]"
| "held (Realloc b n xs) = [HMut b]"
| "held (Moved b v xs) = [HMut b, HMut (moved_to b v)]"

definition as_owner :: "('a \<Rightarrow> handle) \<Rightarrow> ('a \<times> heap) res \<Rightarrow> (task \<times> heap) res" where
  "as_owner f r = rbind r (\<lambda>(x, h). Ok (Owner (f x), h))"

definition into_vec_first :: "bytes \<Rightarrow> heap \<Rightarrow> (task \<times> heap) res" where
  "into_vec_first b h =
     (let shared = bs_data b in
      if shared = 0 then as_owner HVec (into_vec_copy b h)
      else rbind (into_unpromoted h shared) (\<lambda>r.
        case r of
          Inl offset \<Rightarrow> rbind (build_unpromoted_vec b offset h) (\<lambda>v. as_owner HVec (into_vec_move b offset v h))
        | Inr s \<Rightarrow>
            rbind (release_into_vec shared (sh_cap s) h) (\<lambda>(r, h).
            case r of
              Some v \<Rightarrow>
                rbind (offset_from_unsigned (bs_ptr b) (sh_ptr s)) (\<lambda>n. as_owner HVec (into_vec_move b n v h))
            | None \<Rightarrow> Ok (VecCopy b, h))))"

definition into_mut_first :: "bytes \<Rightarrow> heap \<Rightarrow> (task \<times> heap) res" where
  "into_mut_first b h =
     (let shared = bs_data b in
      if shared = 0 then as_owner HMut (into_mut_copy b h)
      else rbind (into_unpromoted h shared) (\<lambda>r.
        case r of
          Inl offset \<Rightarrow>
            rbind (build_unpromoted_vec b offset h) (\<lambda>v.
            rbind (bm_advance_unchecked (bm_from_vec v) offset h) (\<lambda>bufm. Ok (Owner (HMut bufm), h)))
        | Inr s \<Rightarrow>
            rbind (release_into_vec shared (sh_cap s) h) (\<lambda>(r, h).
            case r of
              Some v \<Rightarrow>
                rbind (offset_from_unsigned (bs_ptr b) (sh_ptr s)) (\<lambda>n.
                rbind (bm_advance_unchecked (bm_from_vec v) n h) (\<lambda>bufm.
                rbind (bm_set_len bufm (bs_len b)) (\<lambda>bufm. Ok (Owner (HMut bufm), h))))
            | None \<Rightarrow> Ok (MutCopy b, h))))"

definition truncate_first :: "bytes \<Rightarrow> nat \<Rightarrow> heap \<Rightarrow> (task \<times> heap) res" where
  "truncate_first b len h =
     (if len \<ge> bs_len b then Ok (Owner (HBytes b), h)
      else if bs_data b = 0 then Ok (Owner (HBytes (b\<lparr>bs_len := len\<rparr>)), h)
      else rbind (bytes_split_off b len h) (\<lambda>((b, rest), h). Ok (Cut b rest, h)))"

text \<open>The end of \<open>extend_from_slice\<close>, after its reservation.\<close>

definition store_spare :: "bytes_mut \<Rightarrow> u8 list option \<Rightarrow> heap \<Rightarrow> (bytes_mut \<times> heap) res" where
  "store_spare b x h =
     (case x of
        None \<Rightarrow> Ok (b, h)
      | Some xs \<Rightarrow>
          rbind (spare_capacity_mut b h) (\<lambda>(dst, n).
          rbind (rassert (n \<ge> length xs)) (\<lambda>_.
          rbind (copy_from h xs dst) (\<lambda>h.
          rbind (uadd (bm_len b) (length xs)) (\<lambda>len. Ok (b\<lparr>bm_len := len\<rparr>, h))))))"

text \<open>A reservation of \<open>n\<close> bytes up to its read of the count.\<close>

definition reserve_first :: "bytes_mut \<Rightarrow> nat \<Rightarrow> u8 list option \<Rightarrow> heap \<Rightarrow> (task \<times> heap) res" where
  "reserve_first b n x h =
     (let end' = (\<lambda>((b, _), h). as_owner HMut (store_spare b x h)) in
      rbind (usub (bm_cap b) (bm_len b)) (\<lambda>spare.
      if spare \<ge> n then end' ((b, True), h)
      else rbind (uadd n (bm_cap b)) (\<lambda>total.
           rbind (rassert (total \<le> isize_max)) (\<lambda>_.
           rbind (as_unpromoted_mut h (bm_data b)) (\<lambda>r.
             case r of
               Inl offset \<Rightarrow> rbind (reserve_unpromoted b offset n True h) end'
             | Inr shared \<Rightarrow>
                 if is_unique shared then rbind (reserve_promoted b shared n True h) end'
                 else Ok (Realloc b n x, h))))))"

fun begin_call :: "op1 \<Rightarrow> handle \<Rightarrow> heap \<Rightarrow> (task \<times> heap) res" where
  "begin_call IntoVec (HBytes b) h = into_vec_first b h"
| "begin_call IntoMut (HBytes b) h = into_mut_first b h"
| "begin_call (Truncate n) (HBytes b) h = truncate_first b n h"
| "begin_call (TruncateOff n) (HBytes b) h =
     (if n \<le> bs_len b then truncate_first b (bs_len b - n) h else Ok (Owner (HBytes b), h))"
| "begin_call (Reserve n) (HMut b) h = reserve_first b n None h"
| "begin_call (Extend xs) (HMut b) h = reserve_first b (length xs) (Some xs) h"
| "begin_call f x h = rbind (run1 f x h) (\<lambda>(x, h). Ok (Owner x, h))"

fun resume :: "task \<Rightarrow> heap \<Rightarrow> (task \<times> heap) res" where
  "resume (Owner x) h = UB"
| "resume (VecCopy b) h = as_owner HVec (into_vec_copy b h)"
| "resume (MutCopy b) h = as_owner HMut (into_mut_copy b h)"
| "resume (Cut b rest) h = rbind (bytes_drop rest h) (\<lambda>h. Ok (Owner (HBytes b), h))"
| "resume (Realloc b n x) h = rbind (realloc_copy b n h) (\<lambda>(v, h). Ok (Moved b v x, h))"
| "resume (Moved b v x) h =
     rbind (release (bm_data b) h) (\<lambda>h. as_owner HMut (store_spare (moved_to b v) x h))"

text \<open>A call that nobody interrupts: its remaining turns, at most \<open>n\<close> of them.\<close>

fun finish :: "nat \<Rightarrow> task \<times> heap \<Rightarrow> (handle \<times> heap) res" where
  "finish 0 (t, h) = (case t of Owner x \<Rightarrow> Ok (x, h) | _ \<Rightarrow> UB)"
| "finish (Suc n) (t, h) = (case t of Owner x \<Rightarrow> Ok (x, h) | _ \<Rightarrow> rbind (resume t h) (finish n))"

datatype turn = Call cmd | Resume nat

type_synonym threads = "task list \<times> heap"

fun take_turn :: "turn \<Rightarrow> threads \<Rightarrow> threads res" where
  "take_turn (Call (New f)) (ts, h) = rbind (run0 f h) (\<lambda>(x, h). Ok (ts @ [Owner x], h))"
| "take_turn (Call (On i f)) (ts, h) =
     (case ts ! i of
        Owner x \<Rightarrow> rbind (begin_call f x h) (\<lambda>(t, h). Ok (ts[i := t], h))
      | _ \<Rightarrow> UB)"
| "take_turn (Call (Branch i f)) (ts, h) =
     (case ts ! i of
        Owner x \<Rightarrow> rbind (run2 f x h) (\<lambda>((x, y), h). Ok (ts[i := Owner x] @ [Owner y], h))
      | _ \<Rightarrow> UB)"
| "take_turn (Call (Discard i)) (ts, h) =
     (case ts ! i of Owner x \<Rightarrow> rbind (discard x h) (\<lambda>h. Ok (leave i ts, h)) | _ \<Rightarrow> UB)"
| "take_turn (Call (Unsplit i j)) (ts, h) = UB"
| "take_turn (Resume i) (ts, h) = rbind (resume (ts ! i) h) (\<lambda>(t, h). Ok (ts[i := t], h))"

text \<open>
  Which turns a program of threads can take. \<open>unsplit\<close> is left out: it is \<open>extend_from_slice\<close> followed by a
  drop, or a drop.
\<close>

fun may :: "turn \<Rightarrow> task list \<Rightarrow> bool" where
  "may (Call (New f)) ts \<longleftrightarrow> True"
| "may (Call (On i f)) ts \<longleftrightarrow>
     i < length ts \<and> (case ts ! i of Owner x \<Rightarrow> type1 f (kind_of x) \<noteq> None | _ \<Rightarrow> False)"
| "may (Call (Branch i f)) ts \<longleftrightarrow>
     i < length ts \<and> (case ts ! i of Owner x \<Rightarrow> type2 f (kind_of x) | _ \<Rightarrow> False)"
| "may (Call (Discard i)) ts \<longleftrightarrow> i < length ts \<and> (case ts ! i of Owner x \<Rightarrow> True | _ \<Rightarrow> False)"
| "may (Call (Unsplit i j)) ts \<longleftrightarrow> False"
| "may (Resume i) ts \<longleftrightarrow> i < length ts \<and> (case ts ! i of Owner x \<Rightarrow> False | _ \<Rightarrow> True)"

definition all_held :: "task list \<Rightarrow> handle list" where
  "all_held ts = concat (map held ts)"

inductive thread_step :: "threads \<Rightarrow> threads \<Rightarrow> bool" where
  "may t ts \<Longrightarrow> Suc (length (all_held ts)) < isize_max \<Longrightarrow> take_turn t (ts, h) = Ok s \<Longrightarrow> thread_step (ts, h) s"

inductive_cases thread_stepE: "thread_step (ts, h) s"

subsection \<open>A call that nobody interrupts\<close>

lemma finish_Owner [simp]: "finish n (Owner x, h) = Ok (x, h)"
  by (cases n) simp_all

lemma finish_as_owner [simp]: "rbind (as_owner f r) (finish n) = as_handle f r"
  by (simp add: as_owner_def as_handle_def rbind_assoc case_prod_unfold)

lemma finish_resume [simp]:
  "finish (Suc n) (VecCopy b, h) = as_handle HVec (into_vec_copy b h)"
  "finish (Suc n) (MutCopy b, h) = as_handle HMut (into_mut_copy b h)"
  "finish (Suc n) (Cut b c, h) = rbind (bytes_drop c h) (\<lambda>h. Ok (HBytes b, h))"
  by (simp_all add: rbind_assoc)

lemma finish_realloc [simp]:
  "finish (Suc (Suc n)) (Realloc b k x, h) =
     rbind (realloc_copy b k h) (\<lambda>(v, h). rbind (release (bm_data b) h) (\<lambda>h.
       as_handle HMut (store_spare (moved_to b v) x h)))"
  by (simp add: rbind_assoc case_prod_unfold)

lemmas finish.simps [simp del]

lemma rbind_cases:
  "rbind (case s of Inl a \<Rightarrow> f1 a | Inr b \<Rightarrow> g1 b) k = (case s of Inl a \<Rightarrow> rbind (f1 a) k | Inr b \<Rightarrow> rbind (g1 b) k)"
  "rbind (case q of None \<Rightarrow> m | Some y \<Rightarrow> f2 y) k = (case q of None \<Rightarrow> rbind m k | Some y \<Rightarrow> rbind (f2 y) k)"
  by (simp_all split: sum.split option.split)

lemma into_vec_turns: "rbind (into_vec_first b h) (finish (Suc n)) = as_handle HVec (bytes_into_vec b h)"
  by (simp add: into_vec_first_def bytes_into_vec_def as_handle_def Let_def rbind_assoc rbind_cases rbind_if
      case_prod_unfold as_owner_def cong: sum.case_cong option.case_cong if_cong)

lemma into_mut_turns: "rbind (into_mut_first b h) (finish (Suc n)) = as_handle HMut (bytes_into_mut b h)"
  by (simp add: into_mut_first_def bytes_into_mut_def as_handle_def Let_def rbind_assoc rbind_cases rbind_if
      case_prod_unfold as_owner_def cong: sum.case_cong option.case_cong if_cong)

lemma truncate_turns: "rbind (truncate_first b k h) (finish (Suc n)) = as_handle HBytes (bytes_truncate b k h)"
  by (simp add: truncate_first_def bytes_truncate_def as_handle_def rbind_assoc case_prod_unfold)

text \<open>A reservation for \<open>x\<close>, with the bytes stored at the end.\<close>

definition reserve_store :: "bytes_mut \<Rightarrow> nat \<Rightarrow> u8 list option \<Rightarrow> heap \<Rightarrow> (bytes_mut \<times> heap) res" where
  "reserve_store b n x h = rbind (bm_reserve b n h) (\<lambda>(b, h). store_spare b x h)"

lemma reserve_store_eq:
  "reserve_store b n None h = bm_reserve b n h"
  "reserve_store b (length xs) (Some xs) h = bm_extend_from_slice b xs h"
proof -
  show "reserve_store b n None h = bm_reserve b n h"
    by (cases "bm_reserve b n h") (simp_all add: reserve_store_def store_spare_def case_prod_unfold)
  show "reserve_store b (length xs) (Some xs) h = bm_extend_from_slice b xs h"
    by (simp add: reserve_store_def store_spare_def bm_extend_from_slice_def Let_def)
qed

lemma shared_realloc:
  assumes "\<not> is_unique s"
  shows "reserve_promoted b s n True h =
    rbind (realloc_copy b n h) (\<lambda>(v, h). rbind (release (bm_data b) h) (\<lambda>h. Ok ((moved_to b v, True), h)))"
  using assms by (simp add: reserve_promoted_def reserve_realloc_promoted_def moved_to_def)

lemma reserve_turns: "rbind (reserve_first b n x h) (finish (Suc (Suc k))) = as_handle HMut (reserve_store b n x h)"
proof (cases "bm_cap b - bm_len b \<ge> n")
  case True
  then show ?thesis
    by (simp add: reserve_first_def reserve_store_def bm_reserve_def as_handle_def rbind_assoc as_owner_def Let_def
        case_prod_unfold usub_def)
next
  case False
  then have "n \<noteq> 0" by simp
  have inner: "rbind (if is_unique s then rbind (reserve_promoted b s n True h) (\<lambda>((b, _), h). as_owner HMut (store_spare b x h))
        else Ok (Realloc b n x, h)) (finish (Suc (Suc k))) =
      rbind (reserve_promoted b s n True h) (\<lambda>((b, _), h). as_handle HMut (store_spare b x h))" for s
    by (simp add: shared_realloc rbind_assoc case_prod_unfold)
  from False \<open>n \<noteq> 0\<close> show ?thesis
    by (simp add: reserve_first_def reserve_store_def bm_reserve_def reserve_inner_def rbind_assoc Let_def
        rbind_cases inner usub_def cong: sum.case_cong)
      (simp add: as_handle_def rbind_assoc case_prod_unfold rbind_cases cong: sum.case_cong)
qed

lemma one_turn: "rbind (rbind r (\<lambda>(x, h). Ok (Owner x, h))) (finish n) = r"
  by (cases r) (simp_all add: case_prod_unfold)

lemma begin_call_turns: "rbind (begin_call f x h) (finish 2) = run1 f x h"
  by (cases f; cases x; simp add: numeral_2_eq_2 into_vec_turns into_mut_turns truncate_turns reserve_turns
      reserve_store_eq bytes_truncate_off_def one_turn) (simp_all add: as_handle_def)

subsection \<open>One turn of a call\<close>

text \<open>The bytes a reservation is for.\<close>

fun to_store :: "u8 list option \<Rightarrow> nat" where
  "to_store None = 0" | "to_store (Some xs) = length xs"

text \<open>Only a promoted handle is ever found to be shared.\<close>

fun task_ok :: "task \<Rightarrow> bool" where
  "task_ok (Realloc b n x) \<longleftrightarrow> \<not> is_unpromoted (bm_data b) \<and> to_store x \<le> n"
| "task_ok (Moved b v x) \<longleftrightarrow> \<not> is_unpromoted (bm_data b) \<and>
     to_store x \<le> v_cap v - bm_len b"
| "task_ok t \<longleftrightarrow> True"

definition keeps :: "heap \<Rightarrow> handle list \<Rightarrow> (task \<times> heap) res \<Rightarrow> bool" where
  "keeps h R = safe (\<lambda>(t, h'). task_ok t \<and> wf_heap h' (held t @ R) \<and> frame h h' R)"

lemma keeps_owner:
  "safe (\<lambda>(x, h'). wf_heap h' (f x # R) \<and> frame h h' R \<and> Q x h') r \<Longrightarrow> keeps h R (as_owner f r)"
  by (cases r) (auto simp: keeps_def as_owner_def)

lemma keeps_run1: "partial1 h R k P r \<Longrightarrow> keeps h R (rbind r (\<lambda>(x, h). Ok (Owner x, h)))"
  by (cases r) (auto simp: keeps_def partial1_def)

lemma into_first_alone:
  assumes wf: "wf_heap h (HBytes b # R)" and len: "length R \<le> isize_max"
    and alone: "bs_data b = 0 \<or> is_unpromoted (bs_data b) \<or> refs (bs_data b) R = 0"
  shows "into_vec_first b h = as_owner HVec (bytes_into_vec b h)"
    "into_mut_first b h = as_owner HMut (bytes_into_mut b h)"
proof -
  consider "bs_data b = 0" | "bs_data b \<noteq> 0" "is_unpromoted (bs_data b)"
    | "bs_data b \<noteq> 0" "\<not> is_unpromoted (bs_data b)" "refs (bs_data b) R = 0" using alone by auto
  then have "into_vec_first b h = as_owner HVec (bytes_into_vec b h) \<and>
    into_mut_first b h = as_owner HMut (bytes_into_mut b h)"
  proof cases
    case 1
    then show ?thesis by (simp add: into_vec_first_def into_mut_first_def bytes_into_vec_def bytes_into_mut_def)
  next
    case 2
    then show ?thesis
      by (simp add: into_vec_first_def into_mut_first_def bytes_into_vec_def bytes_into_mut_def as_unpromoted_Inl
          as_owner_def rbind_assoc Let_def)
  next
    case 3
    obtain s where s: "hp_shared h (bs_data b) = Some s" "sh_cap s = blk_size h (ptr_blk (bs_ptr b))"
      using owner_box [OF wf_ConsD(2) [OF wf]] 3 by auto
    with 3 release_into_vec_Ok(1) [OF wf _ _ len, of "sh_cap s"] show ?thesis
      by (simp add: into_vec_first_def into_mut_first_def bytes_into_vec_def bytes_into_mut_def as_unpromoted_Inr
          as_owner_def rbind_assoc Let_def)
  qed
  then show "into_vec_first b h = as_owner HVec (bytes_into_vec b h)"
    "into_mut_first b h = as_owner HMut (bytes_into_mut b h)" by blast+
qed

lemma into_first_shared:
  assumes wf: "wf_heap h (HBytes b # R)" and len: "length R \<le> isize_max"
    and pro: "bs_data b \<noteq> 0" "\<not> is_unpromoted (bs_data b)" "refs (bs_data b) R \<noteq> 0"
  obtains h' where "into_vec_first b h = Ok (VecCopy b, h')" "into_mut_first b h = Ok (MutCopy b, h')"
    "wf_heap h' R" "quiet h h'" "hp_blocks h' = hp_blocks h"
proof -
  obtain s where s: "hp_shared h (bs_data b) = Some s" "sh_cap s = blk_size h (ptr_blk (bs_ptr b))"
    using owner_box [OF wf_ConsD(2) [OF wf]] pro by auto
  with release_into_vec_Ok(2) [OF wf _ _ len, of "sh_cap s"] pro obtain h' where
    "release_into_vec (bs_data b) (sh_cap s) h = Ok (None, h')" "wf_heap h' R" "quiet h h'"
    "hp_blocks h' = hp_blocks h" by auto
  with s pro show thesis
    by (intro that [of h']) (simp_all add: into_vec_first_def into_mut_first_def as_unpromoted_Inr)
qed

lemma into_first_keeps:
  assumes wf: "wf_heap h (HBytes b # R)" and len: "length R \<le> isize_max"
  shows "keeps h R (into_vec_first b h)" "keeps h R (into_mut_first b h)"
proof -
  have "keeps h R (into_vec_first b h) \<and> keeps h R (into_mut_first b h)"
  proof (cases "bs_data b = 0 \<or> is_unpromoted (bs_data b) \<or> refs (bs_data b) R = 0")
    case True
    with bytes_into_safe [OF wf len] show ?thesis
      by (simp add: into_first_alone [OF wf len] keeps_owner)
  next
    case False
    then obtain h' where "into_vec_first b h = Ok (VecCopy b, h')" "into_mut_first b h = Ok (MutCopy b, h')"
      "wf_heap h' R" "quiet h h'" using into_first_shared [OF wf len] by auto
    then show ?thesis by (simp add: keeps_def quiet_frame)
  qed
  then show "keeps h R (into_vec_first b h)" "keeps h R (into_mut_first b h)" by blast+
qed

lemma truncate_first_keeps:
  assumes wf: "wf_heap h (HBytes b # R)" and len: "Suc (length R) \<le> isize_max"
  shows "keeps h R (truncate_first b n h)"
proof -
  consider "bs_len b \<le> n" | "n < bs_len b" "bs_data b = 0" | "n < bs_len b" "bs_data b \<noteq> 0" by linarith
  then show ?thesis
  proof cases
    case 1
    with wf show ?thesis by (simp add: keeps_def truncate_first_def)
  next
    case 2
    then have "bytes_truncate b n h = Ok (b\<lparr>bs_len := n\<rparr>, h)" by (simp add: bytes_truncate_def)
    with 2 bytes_truncate_safe [OF wf len, of n] show ?thesis by (simp add: keeps_def truncate_first_def)
  next
    case 3
    have "keeps h R (rbind (bytes_split_off b n h) (\<lambda>((b, rest), h). Ok (Cut b rest, h)))"
      unfolding keeps_def
      by (rule safe_bind [OF bytes_split_safe(1) [OF wf len]]) (auto simp: split_at_def quiet_frame)
    with 3 show ?thesis by (simp add: truncate_first_def)
  qed
qed

lemma store_spare_safe:
  assumes wf: "wf_heap h (HMut c # R)" and fits: "to_store x \<le> bm_cap c - bm_len c"
  shows "safe (\<lambda>(d, h'). wf_heap h' (HMut d # R) \<and> frame h h' R) (store_spare c x h)"
proof (cases x)
  case None
  with wf show ?thesis by (simp add: store_spare_def)
next
  case (Some xs)
  have "bm_reserve c (length xs) h = Ok (c, h)"
    using fits Some mut_owner(3) [OF wf] by (simp add: bm_reserve_def usub_Ok)
  then have eq: "store_spare c x h = bm_extend_from_slice c xs h"
    using reserve_store_eq(2) [of c xs h] Some by (simp add: reserve_store_def)
  have "length xs \<le> bm_cap c - bm_len c" using fits Some by simp
  from bm_extend_spare [OF wf this] obtain h' where
    "bm_extend_from_slice c xs h = Ok (c\<lparr>bm_len := bm_len c + length xs\<rparr>, h')"
    "wf_heap h' (HMut (c\<lparr>bm_len := bm_len c + length xs\<rparr>) # R)" "frame h h' R" by metis
  then show ?thesis by (simp add: eq)
qed

lemma store_keeps:
  assumes "wf_heap h1 (HMut c # R)" "frame h h1 R" "to_store x \<le> bm_cap c - bm_len c"
  shows "keeps h R (as_owner HMut (store_spare c x h1))"
  using store_spare_safe [OF assms(1,3)] frame_trans [OF assms(2)]
  by (cases "store_spare c x h1") (auto simp: keeps_def as_owner_def)

lemma reserve_first_inner:
  assumes "\<not> n \<le> bm_cap b - bm_len b" "bm_len b \<le> bm_cap b"
    and "is_unpromoted (bm_data b) \<or> hp_shared h (bm_data b) = Some s \<and> is_unique s"
  shows "reserve_first b n x h = rbind (reserve_inner b n True h) (\<lambda>((b, _), h). as_owner HMut (store_spare b x h))"
proof -
  have n: "n \<noteq> 0" using assms(1) by simp
  show ?thesis
  proof (cases "is_unpromoted (bm_data b)")
    case True
    with assms(1,2) n show ?thesis
      by (simp add: reserve_first_def reserve_inner_def usub_Ok as_unpromoted_Inl rbind_assoc Let_def)
  next
    case False
    with assms n show ?thesis
      by (simp add: reserve_first_def reserve_inner_def usub_Ok as_unpromoted_Inr rbind_assoc Let_def)
  qed
qed

lemma reserve_first_keeps:
  assumes wf: "wf_heap h (HMut b # R)" and len: "length R < isize_max" and x: "to_store x \<le> n"
  shows "keeps h R (reserve_first b n x h)"
proof -
  have bnd: "bm_len b \<le> bm_cap b" using mut_owner(3) [OF wf] .
  consider (spare) "n \<le> bm_cap b - bm_len b"
    | (alone) s where "\<not> n \<le> bm_cap b - bm_len b"
        "is_unpromoted (bm_data b) \<or> hp_shared h (bm_data b) = Some s \<and> is_unique s"
    | (shared) s where "\<not> n \<le> bm_cap b - bm_len b" "\<not> is_unpromoted (bm_data b)"
        "hp_shared h (bm_data b) = Some s" "\<not> is_unique s"
    using mut_promoted [OF wf] by metis
  then show ?thesis
  proof cases
    case spare
    then have "reserve_first b n x h = as_owner HMut (store_spare b x h)"
      using bnd by (simp add: reserve_first_def usub_Ok Let_def)
    with store_keeps [OF wf frame_refl] spare x show ?thesis by simp
  next
    case (alone s)
    have "keeps h R (rbind (reserve_inner b n True h) (\<lambda>((b, _), h). as_owner HMut (store_spare b x h)))"
      unfolding keeps_def
    proof (rule safe_bind [OF reserve_inner_safe [OF wf len, of n True]])
      fix p
      assume p: "(\<lambda>((c, ok), h'). reserved h b n R True c ok h') p"
      obtain c ok h1 where r: "p = ((c, ok), h1)" "reserved h b n R True c ok h1" using p by (cases p) auto
      then have "keeps h R (as_owner HMut (store_spare c x h1))"
        using x by (intro store_keeps) (auto simp: reserved_def)
      with r(1) show "safe (\<lambda>(t, h'). task_ok t \<and> wf_heap h' (held t @ R) \<and> frame h h' R)
          ((\<lambda>((b, _), h). as_owner HMut (store_spare b x h)) p)"
        by (simp add: keeps_def)
    qed
    with reserve_first_inner [OF alone(1) bnd alone(2)] show ?thesis by simp
  next
    case (shared s)
    with x wf show ?thesis
      by (auto simp: keeps_def reserve_first_def as_unpromoted_Inr uadd_def usub_def rassert_def Let_def)
  qed
qed

lemma begin_call_keeps:
  assumes wf: "wf_heap h (x # R)" and len: "Suc (length R) < isize_max" and type: "type1 f (kind_of x) \<noteq> None"
  shows "keeps h R (begin_call f x h)"
proof -
  obtain k where k: "type1 f (kind_of x) = Some k" using type by blast
  note simple = keeps_run1 [OF run1_partial [OF wf len k]]
  show ?thesis
  proof (cases x)
    case (HBytes b)
    with wf have wfb: "wf_heap h (HBytes b # R)" by simp
    show ?thesis
      using simple into_first_keeps [OF wfb] truncate_first_keeps [OF wfb] len HBytes wf
      by (cases f) (auto simp: keeps_def)
  next
    case (HMut b)
    with wf have wfb: "wf_heap h (HMut b # R)" by simp
    show ?thesis using simple reserve_first_keeps [OF wfb] len HMut by (cases f) auto
  next
    case (HVec v)
    then show ?thesis using simple by (cases f) auto
  qed
qed

text \<open>The copy of a conversion is the only turn that holds nothing of what it reads.\<close>

fun racing :: "task \<Rightarrow> bool" where
  "racing (VecCopy b) \<longleftrightarrow> True" | "racing (MutCopy b) \<longleftrightarrow> True" | "racing _ \<longleftrightarrow> False"

lemma copy_keeps:
  assumes wf: "wf_heap h R"
  shows "resume (VecCopy b) h = UB \<or> keeps h R (resume (VecCopy b) h)"
    "resume (MutCopy b) h = UB \<or> keeps h R (resume (MutCopy b) h)"
proof -
  have "keeps h R (as_owner HVec (slice_to_vec xs h))" for xs
    using slice_to_vec_safe [OF wf] by (rule keeps_owner)
  moreover have "keeps h R (as_owner HMut (rbind (slice_to_vec xs h) (\<lambda>(v, h). Ok (bm_from_vec v, h))))" for xs
  proof (rule keeps_owner, rule safe_bind [OF slice_to_vec_safe [OF wf, of xs]])
    fix p
    assume "(\<lambda>(v, h'). wf_heap h' (HVec v # R) \<and> frame h h' R \<and> view h' (HVec v) = xs) p"
    then show "safe (\<lambda>(m, h'). wf_heap h' (HMut m # R) \<and> frame h h' R \<and> True)
        ((\<lambda>(v, h). Ok (bm_from_vec v, h)) p)"
      using bm_from_vec_Ok(1) by (cases p) auto
  qed
  ultimately show "resume (VecCopy b) h = UB \<or> keeps h R (resume (VecCopy b) h)"
    "resume (MutCopy b) h = UB \<or> keeps h R (resume (MutCopy b) h)"
    by (cases "bytes_as_slice b h"; simp add: into_vec_copy_def into_mut_copy_def as_owner_def keeps_def)+
qed

lemma moved_to_eq: "moved_to b v = \<lparr>bm_ptr = v_ptr v, bm_len = bm_len b, bm_cap = v_cap v, bm_data = tag 0\<rparr>"
  by (simp add: moved_to_def new_unpromoted_tag)

lemma realloc_copy_fails: "\<not> alloc_ok h (max (bm_cap b * 2) (bm_len b + n)) \<Longrightarrow> fails (realloc_copy b n h)"
  using alloc_fails by (simp add: realloc_copy_def umul_def uadd_def Let_def)

lemma resume_keeps:
  assumes wf: "wf_heap h (held t @ R)" and ok: "task_ok t" and len: "Suc (length R) < isize_max"
    and t: "\<not> racing t" "case t of Owner x \<Rightarrow> False | _ \<Rightarrow> True"
  shows "keeps h R (resume t h)"
proof (cases t)
  case (Cut b rest)
  have "wf_heap h (HBytes rest # HBytes b # R)" using wf Cut wf_swap by simp
  from bytes_drop_Ok [OF this] len obtain h' where
    "bytes_drop rest h = Ok h'" "wf_heap h' (HBytes b # R)" "quiet h h'" by auto
  then show ?thesis using Cut by (simp add: keeps_def quiet_frame)
next
  case (Realloc b n x)
  show ?thesis
  proof (cases "alloc_ok h (max (bm_cap b * 2) (bm_len b + n))")
    case True
    have wfb: "wf_heap h (HMut b # R)" using wf Realloc by simp
    obtain v h' where v: "realloc_copy b n h = Ok (v, h')" "wf_heap h' (HMut (moved_to b v) # HMut b # R)"
      "frame h h' (HMut b # R)" "bm_len b + n \<le> v_cap v"
      using realloc_copy_Ok [OF wfb True] unfolding moved_to_eq by blast
    moreover have "to_store x \<le> v_cap v - bm_len b" using v(4) ok Realloc by simp linarith
    ultimately show ?thesis using Realloc ok wf_swap [OF v(2)] by (simp add: keeps_def)
  next
    case False
    then show ?thesis using Realloc by (simp add: keeps_def fails_safe realloc_copy_fails)
  qed
next
  case (Moved b v x)
  have wf': "wf_heap h (HMut b # HMut (moved_to b v) # R)" using wf Moved by simp
  from bm_drop_Ok [OF this] len obtain h' where
    d: "bm_drop b h = Ok h'" "wf_heap h' (HMut (moved_to b v) # R)" "quiet h h'" by auto
  have "keeps h R (as_owner HMut (store_spare (moved_to b v) x h'))"
    by (rule store_keeps [OF d(2) quiet_frame [OF d(3)]]) (use ok Moved in \<open>simp add: moved_to_def\<close>)
  then show ?thesis using d(1) ok Moved by (simp add: bm_drop_promoted)
qed (use t in simp_all)

subsection \<open>One turn of the threads\<close>

lemma mset_held: "i < length ts \<Longrightarrow> mset (held (ts ! i) @ all_held (leave i ts)) = mset (all_held ts)"
proof -
  assume "i < length ts"
  then have "mset (map held (ts ! i # leave i ts)) = mset (map held ts)"
    using mset_leave [of i ts] by (metis mset_map)
  then have "mset (concat (map held (ts ! i # leave i ts))) = mset (concat (map held ts))"
    unfolding mset_concat by (metis mset_map sum_mset_sum_list)
  then show ?thesis by (simp add: all_held_def)
qed

lemma mset_held_put: "i < length ts \<Longrightarrow> mset (all_held (ts[i := t])) = mset (held t @ all_held (leave i ts))"
  using mset_held [of i "ts[i := t]"] by (simp add: leave_def)

lemma all_held_append [simp]: "all_held (xs @ ys) = all_held xs @ all_held ys"
  by (simp add: all_held_def)

text \<open>The tasks that a turn is not about.\<close>

fun others :: "turn \<Rightarrow> task list \<Rightarrow> task list" where
  "others (Call (New f)) ts = ts"
| "others (Call (On i f)) ts = leave i ts"
| "others (Call (Branch i f)) ts = leave i ts"
| "others (Call (Unsplit i j)) ts = leave i ts"
| "others (Call (Discard i)) ts = leave i ts"
| "others (Resume i) ts = leave i ts"

definition threads_ok :: "threads \<Rightarrow> bool" where
  "threads_ok s \<longleftrightarrow> wf_heap (snd s) (all_held (fst s)) \<and> (\<forall>t\<in>set (fst s). task_ok t)"

definition fine :: "turn \<Rightarrow> threads \<Rightarrow> threads res \<Rightarrow> bool" where
  "fine t s = safe (\<lambda>s'. threads_ok s' \<and> frame (snd s) (snd s') (all_held (others t (fst s))))"

lemma set_leave: "t \<in> set (leave i ts) \<Longrightarrow> t \<in> set ts"
  using leave_subset [of i ts] by blast

lemma put_keeps:
  assumes ok: "threads_ok (ts, h)" and i: "i < length ts" and r: "keeps h (all_held (leave i ts)) r"
  shows "safe (\<lambda>s'. threads_ok s' \<and> frame h (snd s') (all_held (leave i ts)))
    (rbind r (\<lambda>(t, h). Ok (ts[i := t], h)))"
proof (cases r)
  case (Ok p)
  obtain t h' where p: "p = (t, h')" by (cases p)
  have t: "task_ok t" "wf_heap h' (held t @ all_held (leave i ts))" "frame h h' (all_held (leave i ts))"
    using r Ok p by (simp_all add: keeps_def)
  have "wf_heap h' (all_held (ts[i := t]))" using wf_heap_perm [OF _ t(2)] mset_held_put [OF i] by simp
  moreover have "\<forall>u\<in>set (ts[i := t]). task_ok u"
    using ok t(1) set_update_subset_insert [of ts i t] by (auto simp: threads_ok_def)
  ultimately show ?thesis using Ok p t(3) by (simp add: threads_ok_def)
qed (use r in \<open>simp_all add: keeps_def\<close>)

lemma pick_held:
  assumes "threads_ok (ts, h)" "i < length ts"
  shows "wf_heap h (held (ts ! i) @ all_held (leave i ts))" "task_ok (ts ! i)"
    "length (all_held (leave i ts)) + length (held (ts ! i)) = length (all_held ts)"
  using assms wf_heap_perm [OF mset_held [symmetric, OF assms(2)]] arg_cong [OF mset_held [OF assms(2)], of size]
  by (simp_all add: threads_ok_def)

lemma turn_fine:
  assumes ok: "threads_ok (ts, h)" and may: "may t ts" and few: "Suc (length (all_held ts)) < isize_max"
    and calm: "\<forall>i. t = Resume i \<longrightarrow> \<not> racing (ts ! i)"
  shows "fine t (ts, h) (take_turn t (ts, h))"
proof (cases t)
  case (Resume i)
  then have i: "i < length ts" and busy: "case ts ! i of Owner x \<Rightarrow> False | _ \<Rightarrow> True" using may by simp_all
  note pick = pick_held [OF ok i]
  have "Suc (length (all_held (leave i ts))) < isize_max" using pick(3) few by simp
  from resume_keeps [OF pick(1,2) this _ busy] calm Resume put_keeps [OF ok i] show ?thesis by (simp add: fine_def)
next
  case (Call c)
  show ?thesis
  proof (cases c)
    case (New f)
    show ?thesis
    proof (cases "run0 f h")
      case (Ok p)
      obtain x h' where p: "p = (x, h')" by (cases p)
      have "wf_heap h' (x # all_held ts)" "frame h h' (all_held ts)"
        using run0_partial [of h "all_held ts" f] ok Ok p by (simp_all add: partial1_def threads_ok_def)
      moreover from this(1) have "wf_heap h' (all_held ts @ [x])" by (rule wf_heap_perm [rotated]) simp
      ultimately show ?thesis
        using Call New Ok p ok by (auto simp: fine_def threads_ok_def all_held_def)
    qed (use run0_partial [of h "all_held ts" f] ok Call New in
        \<open>simp_all add: fine_def partial1_def threads_ok_def\<close>)
  next
    case (On i f)
    then obtain x where i: "i < length ts" "ts ! i = Owner x" and type: "type1 f (kind_of x) \<noteq> None"
      using may Call by (auto split: task.split_asm)
    note pick = pick_held [OF ok i(1)]
    have len: "Suc (length (all_held (leave i ts))) < isize_max" using pick(3) few by simp
    have "wf_heap h (x # all_held (leave i ts))" using pick(1) i(2) by simp
    from begin_call_keeps [OF this len type] put_keeps [OF ok i(1)] i(2) Call On
    show ?thesis by (simp add: fine_def)
  next
    case (Branch i f)
    then obtain x where i: "i < length ts" "ts ! i = Owner x" and type: "type2 f (kind_of x)"
      using may Call by (auto split: task.split_asm)
    note pick = pick_held [OF ok i(1)]
    have len: "Suc (length (all_held (leave i ts))) \<le> isize_max" using pick(3) few by simp
    have wf: "wf_heap h (x # all_held (leave i ts))" using pick(1) i(2) by simp
    note run = run2_partial [OF wf len type]
    show ?thesis
    proof (cases "run2 f x h")
      case (Ok p)
      obtain y z h' where p: "p = ((y, z), h')" by (metis prod.collapse)
      have r: "wf_heap h' (y # z # all_held (leave i ts))" "frame h h' (all_held (leave i ts))"
        using run Ok p by (simp_all add: partial2_def)
      have m: "mset (y # z # all_held (leave i ts)) = mset (all_held (ts[i := Owner y] @ [Owner z]))"
        using mset_held_put [OF i(1), of "Owner y"] by (simp add: all_held_def)
      have "\<forall>u\<in>set (ts[i := Owner y] @ [Owner z]). task_ok u"
        using ok set_update_subset_insert [of ts i "Owner y"] by (auto simp: threads_ok_def)
      with wf_heap_perm [OF m r(1)] r(2) show ?thesis
        using Ok p i Call Branch by (simp add: fine_def threads_ok_def)
    qed (use run i Call Branch in \<open>simp_all add: fine_def partial2_def\<close>)
  next
    case (Unsplit i j)
    then show ?thesis using may Call by simp
  next
    case (Discard i)
    then obtain x where i: "i < length ts" "ts ! i = Owner x"
      using may Call by (auto split: task.split_asm)
    note pick = pick_held [OF ok i(1)]
    have "length (all_held (leave i ts)) \<le> isize_max" using pick(3) few by simp
    with discard_Ok [of h x "all_held (leave i ts)"] pick(1) i(2) obtain h' where
      "discard x h = Ok h'" "wf_heap h' (all_held (leave i ts))" "frame h h' (all_held (leave i ts))" by auto
    moreover have "\<forall>u\<in>set (leave i ts). task_ok u" using ok by (auto simp: threads_ok_def dest: set_leave)
    ultimately show ?thesis using i Call Discard by (simp add: fine_def threads_ok_def)
  qed
qed

lemma race_fine:
  assumes ok: "threads_ok (ts, h)" and i: "i < length ts" and race: "racing (ts ! i)"
  shows "take_turn (Resume i) (ts, h) = UB \<or> fine (Resume i) (ts, h) (take_turn (Resume i) (ts, h))"
proof -
  have wf: "wf_heap h (all_held (leave i ts))" using pick_held(1) [OF ok i] race by (cases "ts ! i") auto
  have "resume (ts ! i) h = UB \<or> keeps h (all_held (leave i ts)) (resume (ts ! i) h)"
    using copy_keeps [OF wf] race by (cases "ts ! i") (simp_all del: resume.simps)
  then show ?thesis using put_keeps [OF ok i] by (auto simp: fine_def)
qed

subsection \<open>The reachable states\<close>

inductive reaches :: "threads \<Rightarrow> threads \<Rightarrow> bool" for s0 where
  start: "reaches s0 s0"
| step: "reaches s0 s \<Longrightarrow> thread_step s s' \<Longrightarrow> reaches s0 s'"

lemma reaches_ok:
  assumes "reaches s0 s" "threads_ok s0"
  shows "threads_ok s"
  using assms
proof (induction rule: reaches.induct)
  case (step s s')
  obtain ts h where s: "s = (ts, h)" by (cases s)
  obtain t where t: "may t ts" "Suc (length (all_held ts)) < isize_max" "take_turn t (ts, h) = Ok s'"
    using step.hyps(2) s thread_stepE by metis
  have ok: "threads_ok (ts, h)" using step s by simp
  show ?case
  proof (cases "\<exists>i. t = Resume i \<and> racing (ts ! i)")
    case True
    then obtain i where i: "t = Resume i" "racing (ts ! i)" by blast
    with race_fine [OF ok _ i(2)] t(1,3) show ?thesis by (simp add: fine_def del: take_turn.simps)
  next
    case False
    with turn_fine [OF ok t(1,2)] t(3) show ?thesis by (simp add: fine_def)
  qed
qed

lemma owners_ok: "wf_heap h hs \<Longrightarrow> threads_ok (map Owner hs, h)"
  by (auto simp: threads_ok_def all_held_def comp_def)

subsection \<open>The properties\<close>



abbreviation demo_growing :: threads where
  "demo_growing \<equiv> ([Realloc (demo_half 0) 4 None, Owner (HMut (demo_half 1))], demo_halves)"

lemma demo_growing: "reaches (map Owner [HMut (demo_half 0), HMut (demo_half 1)], demo_halves) demo_growing"
proof (rule reaches.step [OF reaches.start])
  have "take_turn (Call (On 0 (Reserve 4))) (map Owner [HMut (demo_half 0), HMut (demo_half 1)], demo_halves) =
      Ok demo_growing"
    by (simp add: reserve_first_def usub_def uadd_def rassert_def as_unpromoted_mut_def box_deref_def is_unique_def
        demo_halves_def is_unpromoted_odd isize_max_def usize_max_def Let_def)
  then show "thread_step (map Owner [HMut (demo_half 0), HMut (demo_half 1)], demo_halves) demo_growing"
    by (intro thread_step.intros [of "Call (On 0 (Reserve 4))"]) (simp_all add: all_held_def)
qed


text \<open>Two handles of one box, of which the first is being converted.\<close>

lemma last_other_frees:
  assumes wf: "wf_heap h (x # R)" and len: "length R \<le> isize_max" and own: "owns x" "\<not> is_unpromoted (h_data x)"
    and last: "refs (h_data x) R = 0" and size: "blk_size h (h_blk x) \<noteq> 0"
  shows "\<exists>h'. discard x h = Ok h' \<and> \<not> blk_ok h' (h_blk x)"
proof -
  let ?h = "box_free (h_data x) (dealloc h (h_blk x))"
  obtain s where s: "hp_shared h (h_data x) = Some s" using owner_box [OF wf_ConsD(2) [OF wf] own] .
  have rel: "release (h_data x) h = Ok ?h" using release_eval(1) [OF wf own len last] .
  then have "discard x h = Ok ?h"
    using own s by (cases x) (simp_all add: bytes_drop_def bm_drop_promoted as_unpromoted_Inr)
  moreover have "\<not> blk_ok ?h (h_blk x)"
    using size by (simp add: blk_ok_def dealloc_def free_block_def box_free_def)
  ultimately show ?thesis by blast
qed

text \<open>C14: the race of the conversions: a promoted \<open>Bytes\<close> that shares its buffer with one other handle is being
  converted by \<open>into_vec\<close> or \<open>into_mut\<close>; it has released its reference and not copied yet. Now the other
  handle, in another thread, is dropped: the buffer is freed, and the copy reads freed memory.\<close>

theorem conversion_races:
  assumes "wf_heap h (HBytes b # x # R)" "h_data x = bs_data b" "bs_data b \<noteq> 0" "\<not> is_unpromoted (bs_data b)"
    "refs (bs_data b) R = 0" "bs_len b \<noteq> 0" "Suc (Suc (Suc (length R))) < isize_max"
    "t = VecCopy b \<or> t = MutCopy b"
  shows "\<exists>h1 h2. thread_step (map Owner (HBytes b # x # R), h) (t # map Owner (x # R), h1) \<and>
      thread_step (t # map Owner (x # R), h1) (t # map Owner R, h2) \<and>
      take_turn (Resume 0) (t # map Owner R, h2) = UB"
proof -
  note wf = assms(1) and x = assms(2-4)
  have own: "owns x" using x by (cases x) auto
  have ok: "handle_ok h (HBytes b)" "handle_ok h x" using wf by (simp_all add: wf_heap_def)
  obtain s where s: "hp_shared h (bs_data b) = Some s" "sh_ptr s = Ptr (ptr_blk (bs_ptr b)) 0"
    using owner_box [OF ok(1)] x(2,3) by auto
  obtain u where "hp_shared h (h_data x) = Some u" "sh_ptr u = Ptr (h_blk x) 0"
    using owner_box [OF ok(2) own] x by auto
  with s x(1) have same: "h_blk x = ptr_blk (bs_ptr b)" by simp
  have size: "blk_size h (ptr_blk (bs_ptr b)) \<noteq> 0" using ok(1) x assms(6) by (auto simp: handle_ok_def owner_ok_def)
  obtain h1 where h1: "into_vec_first b h = Ok (VecCopy b, h1)" "into_mut_first b h = Ok (MutCopy b, h1)"
    "wf_heap h1 (x # R)" "hp_blocks h1 = hp_blocks h"
    using into_first_shared [OF wf] x assms(7) by (auto simp: refs_def)
  have "\<exists>h2. discard x h1 = Ok h2 \<and> \<not> blk_ok h2 (h_blk x)"
    using last_other_frees [OF h1(3) _ own] x assms(5,7) size same h1(4) by (simp add: blk_size_def)
  then obtain h2 where h2: "discard x h1 = Ok h2" "\<not> blk_ok h2 (ptr_blk (bs_ptr b))" using same by auto
  have "thread_step (map Owner (HBytes b # x # R), h) (t # map Owner (x # R), h1)"
    using assms(7,8) h1(1,2)
    by (intro thread_step.intros [of "Call (On 0 (if t = VecCopy b then IntoVec else IntoMut))"])
      (auto simp: all_held_def comp_def)
  moreover have "thread_step (t # map Owner (x # R), h1) (t # map Owner R, h2)"
    using assms(7,8) h2(1)
    by (intro thread_step.intros [of "Call (Discard 1)"]) (auto simp: all_held_def comp_def leave_def)
  moreover have "bytes_as_slice b h2 = UB"
    using h2(2) assms(6) by (simp add: bytes_as_slice_def slice_from_raw_parts_def readable_def)
  then have "take_turn (Resume 0) (t # map Owner R, h2) = UB"
    using assms(8) by (auto simp: into_vec_copy_def into_mut_copy_def as_owner_def)
  ultimately show ?thesis by blast
qed

definition demo_twins :: heap where
  "demo_twins = demo_boxed 2"

lemma demo_twins_wf: "wf_heap demo_twins [demo_part 1 1, demo_part 2 2]"
proof -
  have "check_all [Branch 0 (SplitOff 1)] (map kind_of [HBytes demo_bytes]) = Some [KBytes, KBytes]" by simp
  from exec_all_partial [OF demo_wf this joins_nothing] demo_steps(1) show ?thesis
    by (simp add: demo_twins_def)
qed

theorem conversion_races_witness:
  "\<exists>h1 h2. thread_step ([Owner (demo_part 1 1), Owner (demo_part 2 2)], demo_twins)
      ([VecCopy \<lparr>bs_ptr = Ptr 0 1, bs_len = 1, bs_data = 8\<rparr>, Owner (demo_part 2 2)], h1) \<and>
    take_turn (Resume 0) ([VecCopy \<lparr>bs_ptr = Ptr 0 1, bs_len = 1, bs_data = 8\<rparr>], h2) = UB"
  using conversion_races [OF demo_twins_wf, of "VecCopy \<lparr>bs_ptr = Ptr 0 1, bs_len = 1, bs_data = 8\<rparr>"]
  by (auto simp: is_unpromoted_odd refs_def simp del: take_turn.simps)

end
