(* ===== verification/Hidden_Boxes.thy ===== *)
theory Hidden_Boxes
  imports Threads Promotion
begin

text \<open>
  A frame rule for boxes. The operations of the handles, run on a heap without some of its boxes, either run into
  undefined behaviour, because they use one of these boxes, or do there what they do on the whole heap, and leave the
  hidden boxes alone. So what is proved of a heap without the boxes that threads have not published yet holds of
  the real one.
\<close>

subsection \<open>Runs that agree\<close>

text \<open>\<open>h\<close> comes after \<open>h0\<close>: the boxes in \<open>X\<close> are old and as they were, and no block has changed its size.\<close>

definition later :: "usize set \<Rightarrow> heap \<Rightarrow> heap \<Rightarrow> bool" where
  "later X h0 h \<longleftrightarrow> hp_boxes h0 \<le> hp_boxes h \<and> (\<forall>a\<in>X. unat a \<le> 8 * hp_boxes h0 \<and> hp_shared h a = hp_shared h0 a) \<and>
     length (hp_blocks h0) \<le> length (hp_blocks h) \<and> (\<forall>i<length (hp_blocks h0). blk_size h i = blk_size h0 i)"

definition agree :: "('a \<Rightarrow> 'a \<Rightarrow> bool) \<Rightarrow> 'a res \<Rightarrow> 'a res \<Rightarrow> bool" where
  "agree Q r r' \<longleftrightarrow>
     (case r of UB \<Rightarrow> True | Panic \<Rightarrow> r' = Panic | Abort \<Rightarrow> r' = Abort | Ok x \<Rightarrow> (\<exists>y. r' = Ok y \<and> Q x y))"

definition same_heap :: "usize set \<Rightarrow> heap \<Rightarrow> heap \<Rightarrow> heap \<Rightarrow> bool" where
  "same_heap X h0 g h \<longleftrightarrow> g = hide X h \<and> later X h0 h"

definition same_state :: "usize set \<Rightarrow> heap \<Rightarrow> 'a \<times> heap \<Rightarrow> 'a \<times> heap \<Rightarrow> bool" where
  "same_state X h0 p q \<longleftrightarrow> fst p = fst q \<and> same_heap X h0 (snd p) (snd q)"

named_theorems hide_ops \<open>operations that do not look at boxes\<close>
named_theorems agree_ops \<open>operations run on both heaps\<close>

lemma agree_simps [simp]: "agree Q UB r" "agree Q Panic Panic" "agree Q Abort Abort" "agree Q (Ok x) (Ok y) \<longleftrightarrow> Q x y"
  by (simp_all add: agree_def)

lemma agree_refl: "agree (=) r r"
  by (cases r) simp_all

lemma agree_heap: "agree (same_heap X h0) r r' \<Longrightarrow> (\<And>h. later X h0 h \<Longrightarrow> agree Q (f (hide X h)) (f' h)) \<Longrightarrow>
    agree Q (rbind r f) (rbind r' f')"
  by (cases r; cases r') (simp_all add: agree_def same_heap_def)

lemma agree_state: "agree (same_state X h0) r r' \<Longrightarrow> (\<And>x h. later X h0 h \<Longrightarrow> agree Q (f (x, hide X h)) (f' (x, h))) \<Longrightarrow>
    agree Q (rbind r f) (rbind r' f')"
  by (cases r; cases r') (auto simp: agree_def same_state_def same_heap_def)

lemma agree_value: "agree (=) r r' \<Longrightarrow> (\<And>x. agree Q (f x) (f' x)) \<Longrightarrow> agree Q (rbind r f) (rbind r' f')"
  by (cases r) (auto simp: agree_def)

lemma agree_if: "(c \<Longrightarrow> agree Q a a') \<Longrightarrow> (\<not> c \<Longrightarrow> agree Q b b') \<Longrightarrow> agree Q (if c then a else b) (if c then a' else b')"
  by simp

lemma agree_sum: "(\<And>x. agree Q (f x) (f' x)) \<Longrightarrow> (\<And>y. agree Q (g y) (g' y)) \<Longrightarrow>
    agree Q (case s of Inl x \<Rightarrow> f x | Inr y \<Rightarrow> g y) (case s of Inl x \<Rightarrow> f' x | Inr y \<Rightarrow> g' y)"
  by (cases s) simp_all

lemma agree_option: "agree Q a a' \<Longrightarrow> (\<And>y. agree Q (g y) (g' y)) \<Longrightarrow>
    agree Q (case s of None \<Rightarrow> a | Some y \<Rightarrow> g y) (case s of None \<Rightarrow> a' | Some y \<Rightarrow> g' y)"
  by (cases s) simp_all

lemma agree_pair: "(\<And>x y. agree Q (f x y) (f' x y)) \<Longrightarrow> agree Q (case p of (x, y) \<Rightarrow> f x y) (case p of (x, y) \<Rightarrow> f' x y)"
  by (cases p) simp

lemma agree_Ok: "later X h0 h \<Longrightarrow> agree (same_state X h0) (Ok (x, hide X h)) (Ok (x, h))"
  "later X h0 h \<Longrightarrow> agree (same_heap X h0) (Ok (hide X h)) (Ok h)"
  by (simp_all add: same_state_def same_heap_def)

lemma agree_pair2: "(\<And>x y. agree Q (f x y g) (f' x y h)) \<Longrightarrow>
    agree Q ((case p of (x, y) \<Rightarrow> f x y) g) ((case p of (x, y) \<Rightarrow> f' x y) h)"
  by (cases p) simp

lemmas agree_rules = agree_pair2 agree_if agree_sum agree_option agree_pair agree_Ok agree_refl agree_simps(1-3)

lemma later_refl: "\<forall>a\<in>X. unat a \<le> 8 * hp_boxes h \<Longrightarrow> later X h h"
  by (simp add: later_def)

subsection \<open>Memory\<close>

lemma hide_memory [hide_ops]:
  "slice_from_raw_parts (hide X h) p n = slice_from_raw_parts h p n" "readable (hide X h) p n = readable h p n"
  "writable (hide X h) p n = writable h p n" "ptr_add (hide X h) p n = ptr_add h p n" "ptr_sub (hide X h) p n = ptr_sub h p n"
  "vec_from_raw_parts (hide X h) p n c = vec_from_raw_parts h p n c"
  by (simp_all add: slice_from_raw_parts_def readable_def writable_def ptr_add_def ptr_sub_def vec_from_raw_parts_def)

lemma later_store: "later X h0 h \<Longrightarrow> ptr_off p + length xs \<le> blk_size h (ptr_blk p) \<Longrightarrow> later X h0 (store_cells h p xs)"
  by (simp add: later_def)

lemma later_boxes: "later X h0 h \<Longrightarrow> a \<notin> X \<Longrightarrow> hp_blocks h' = hp_blocks h \<Longrightarrow> hp_boxes h \<le> hp_boxes h' \<Longrightarrow>
    (\<And>b. b \<noteq> a \<Longrightarrow> hp_shared h' b = hp_shared h b) \<Longrightarrow> later X h0 h'"
  by (auto simp: later_def blk_size_def) metis

lemma hide_store: "store_cells (hide X h) p xs = hide X (store_cells h p xs)"
  by (simp add: store_cells_def hide_def Let_def)

lemma write_agree [agree_ops]: "later X h0 h \<Longrightarrow> agree (same_heap X h0) (write_cells (hide X h) p xs) (write_cells h p xs)"
  using later_store [of X h0 h p xs] hide_store [of X h p xs]
  by (auto simp: write_cells_def hide_ops same_heap_def) (auto simp: writable_def readable_def)

lemma vec_new_agree [agree_ops]:
  "later X h0 h \<Longrightarrow> agree (same_state X h0) (vec_with_capacity n (hide X h)) (vec_with_capacity n h)"
  by (auto simp: vec_with_capacity_def Let_def same_state_def same_heap_def hide_def later_def blk_size_def nth_append isize_max_def)

lemma free_agree: "later X h0 h \<Longrightarrow> same_heap X h0 (free_block (hide X h) i) (free_block h i)"
  by (cases "i < length (hp_blocks h)")
    (auto simp: free_block_def same_heap_def hide_def later_def blk_size_def nth_list_update list_update_beyond)

subsection \<open>Boxes\<close>

lemma deref_agree [agree_ops]: "agree (=) (box_deref a (hide X h)) (box_deref a h)"
  by (cases "hp_shared h a") (auto simp: box_deref_def)

lemma box_new_agree [agree_ops]: "later X h0 h \<Longrightarrow> agree (same_state X h0) (box_new s (hide X h)) (box_new s h)"
proof (cases "box_room h")
  assume l: "later X h0 h"
  case True
  let ?a = "box_addr (hp_boxes h)"
  have "unat ?a = 8 * (hp_boxes h + 1)" using True unat_box_addr by (simp add: box_room_def)
  with l have a: "?a \<notin> X" by (force simp: later_def)
  then have "later X h0 (h\<lparr>hp_shared := (hp_shared h)(?a \<mapsto> s), hp_boxes := Suc (hp_boxes h)\<rparr>)"
    by (intro later_boxes [OF l, of ?a]) simp_all
  then show ?thesis
    using a True by (auto simp: box_new_def box_room_def Let_def same_state_def same_heap_def hide_def restrict_map_def fun_eq_iff)
qed (simp add: box_new_def box_room_def)

lemma box_change:
  assumes "later X h0 h" "a \<notin> X"
  shows "same_heap X h0 (box_set a s (hide X h)) (box_set a s h)" "same_heap X h0 (box_free a (hide X h)) (box_free a h)"
  using later_boxes [OF assms, of "box_set a s h"] later_boxes [OF assms, of "box_free a h"] assms(2)
  by (auto simp: same_heap_def hide_box_set box_set_def box_free_def) (auto simp: hide_def restrict_map_def fun_eq_iff)

lemma fetch_agree [agree_ops]:
  assumes "later X h0 h"
  shows "agree (same_state X h0) (fetch_add a (hide X h)) (fetch_add a h)"
    "agree (same_state X h0) (fetch_sub a (hide X h)) (fetch_sub a h)"
  using box_change(1) [OF assms, of a]
  by (cases "hp_shared h a"; cases "a \<in> X"; simp add: fetch_add_def fetch_sub_def box_deref_def same_state_def)+

lemma hidden_UB: "a \<in> X \<Longrightarrow> fetch_sub a (hide X h) = UB"
  by (simp add: fetch_sub_def box_deref_def)

lemmas agree_all = agree_rules agree_heap agree_state agree_value

lemma copy_agree [agree_ops]:
  assumes "later X h0 h"
  shows "agree (same_heap X h0) (ptr_copy (hide X h) p q n) (ptr_copy h p q n)"
    "agree (same_heap X h0) (copy_nonoverlapping (hide X h) p q n) (copy_nonoverlapping h p q n)"
    "agree (same_heap X h0) (copy_from (hide X h) xs q) (copy_from h xs q)"
  using write_agree [OF assms] by (simp_all add: ptr_copy_def copy_nonoverlapping_def copy_from_def hide_ops)

lemma vec_drop_agree [agree_ops]: "later X h0 h \<Longrightarrow> agree (same_heap X h0) (vec_drop v (hide X h)) (vec_drop v h)"
  using free_agree [of X h0 h]
  by (cases "vec_from_raw_parts h (v_ptr v) (v_len v) (v_cap v)") (auto simp: vec_drop_def hide_ops same_heap_def)

lemma to_vec_agree [agree_ops]: "later X h0 h \<Longrightarrow> agree (same_state X h0) (slice_to_vec xs (hide X h)) (slice_to_vec xs h)"
  unfolding slice_to_vec_def
  by (assumption | simp only: prod.case hide_ops | rule agree_ops agree_all)+

lemma word_agree [agree_ops]:
  "agree (=) (as_unpromoted (hide X h) d) (as_unpromoted h d)" "agree (=) (as_unpromoted_mut (hide X h) d) (as_unpromoted_mut h d)"
  "agree (=) (into_unpromoted (hide X h) d) (into_unpromoted h d)"
  unfolding as_unpromoted_def as_unpromoted_mut_def into_unpromoted_def
  by (rule agree_ops agree_all)+

lemma promote_agree [agree_ops]:
  "later X h0 h \<Longrightarrow> agree (same_state X h0) (promote_with_vec v n (hide X h)) (promote_with_vec v n h)"
  unfolding promote_with_vec_def Let_def by (rule agree_ops)

lemma increment_agree [agree_ops]: "later X h0 h \<Longrightarrow> agree (same_heap X h0) (increment a (hide X h)) (increment a h)"
  unfolding increment_def
  by (assumption | simp only: prod.case hide_ops | rule agree_ops agree_all)+

lemma agree_free: "later X h0 h \<Longrightarrow> a \<notin> X \<Longrightarrow> agree (same_heap X h0) (Ok (box_free a (hide X h))) (Ok (box_free a h))"
  "later X h0 h \<Longrightarrow> a \<notin> X \<Longrightarrow> agree (same_state X h0) (Ok (x, box_free a (hide X h))) (Ok (x, box_free a h))"
  using box_change(2) [of X h0 h a] by (simp_all add: same_state_def)

lemma release_agree [agree_ops]:
  assumes "later X h0 h"
  shows "agree (same_heap X h0) (release a (hide X h)) (release a h)"
    "agree (same_state X h0) (release_into_vec a n (hide X h)) (release_into_vec a n h)"
proof -
  have "agree (same_heap X h0) (release a (hide X h)) (release a h) \<and>
    agree (same_state X h0) (release_into_vec a n (hide X h)) (release_into_vec a n h)"
  proof (cases "a \<in> X")
    case True
    then show ?thesis by (simp add: release_def release_into_vec_def hidden_UB)
  next
    case False
    show ?thesis
      unfolding release_def release_into_vec_def
      by (insert assms False, rule conjI; (assumption | simp only: prod.case hide_ops | rule agree_free agree_ops agree_all)+)
  qed
  then show "agree (same_heap X h0) (release a (hide X h)) (release a h)"
    "agree (same_state X h0) (release_into_vec a n (hide X h)) (release_into_vec a n h)" by blast+
qed

subsection \<open>\<open>Bytes\<close>\<close>

lemma hide_bytes [hide_ops]:
  "bytes_new (hide X h) = bytes_new h" "bytes_as_slice b (hide X h) = bytes_as_slice b h"
  "build_unpromoted_vec b n (hide X h) = build_unpromoted_vec b n h"
  "bytes_advance_unchecked b n (hide X h) = bytes_advance_unchecked b n h" "bytes_advance b n (hide X h) = bytes_advance b n h"
  by (simp_all add: bytes_new_def bytes_as_slice_def build_unpromoted_vec_def bytes_advance_unchecked_def bytes_advance_def
      hide_ops)

lemma from_vec_agree [agree_ops]:
  "later X h0 h \<Longrightarrow> agree (same_state X h0) (bytes_from_vec v (hide X h)) (bytes_from_vec v h)"
  unfolding bytes_from_vec_def Let_def
  by (assumption | simp only: prod.case hide_ops | rule agree_ops agree_all)+

lemma bytes_copy_agree [agree_ops]:
  "later X h0 h \<Longrightarrow> agree (same_state X h0) (bytes_copy_from_slice xs (hide X h)) (bytes_copy_from_slice xs h)"
  unfolding bytes_copy_from_slice_def Let_def
  by (assumption | simp only: prod.case hide_ops | rule agree_ops agree_all)+

lemma promote_ref_agree [agree_ops]:
  "later X h0 h \<Longrightarrow> agree (same_state X h0) (promote_ref b n d (hide X h)) (promote_ref b n d h)"
  unfolding promote_ref_def Let_def
  by (assumption | simp only: prod.case hide_ops | rule agree_ops agree_all)+

lemma clone_agree [agree_ops]:
  "later X h0 h \<Longrightarrow> agree (same_state X h0) (clone_inner b (hide X h)) (clone_inner b h)"
  "later X h0 h \<Longrightarrow> agree (same_state X h0) (clone_inner_mut b (hide X h)) (clone_inner_mut b h)"
  unfolding clone_inner_def clone_inner_mut_def Let_def
  by (assumption | simp only: prod.case hide_ops | rule agree_ops agree_all)+

lemma bytes_drop_agree [agree_ops]:
  "later X h0 h \<Longrightarrow> agree (same_heap X h0) (bytes_drop b (hide X h)) (bytes_drop b h)"
  unfolding bytes_drop_def Let_def
  by (assumption | simp only: prod.case hide_ops | rule agree_ops agree_all)+

lemma try_split_agree [agree_ops]:
  "later X h0 h \<Longrightarrow> agree (same_state X h0) (bytes_try_split_off b n (hide X h)) (bytes_try_split_off b n h)"
  "later X h0 h \<Longrightarrow> agree (same_state X h0) (bytes_try_split_to b n (hide X h)) (bytes_try_split_to b n h)"
  unfolding bytes_try_split_off_def bytes_try_split_to_def Let_def
  by (assumption | simp only: prod.case hide_ops | rule agree_ops agree_all)+

lemma split_agree [agree_ops]:
  "later X h0 h \<Longrightarrow> agree (same_state X h0) (bytes_split_off b n (hide X h)) (bytes_split_off b n h)"
  "later X h0 h \<Longrightarrow> agree (same_state X h0) (bytes_split_to b n (hide X h)) (bytes_split_to b n h)"
  unfolding bytes_split_off_def bytes_split_to_def Let_def
  by (assumption | simp only: prod.case hide_ops | rule agree_ops agree_all)+

lemma truncate_agree [agree_ops]:
  "later X h0 h \<Longrightarrow> agree (same_state X h0) (bytes_truncate b n (hide X h)) (bytes_truncate b n h)"
  unfolding bytes_truncate_def Let_def
  by (assumption | simp only: prod.case hide_ops | rule agree_ops agree_all)+

lemma truncate_off_agree [agree_ops]:
  "later X h0 h \<Longrightarrow> agree (same_state X h0) (bytes_truncate_off b n (hide X h)) (bytes_truncate_off b n h)"
  "later X h0 h \<Longrightarrow> agree (same_state X h0) (bytes_clear b (hide X h)) (bytes_clear b h)"
  unfolding bytes_truncate_off_def bytes_clear_def Let_def
  by (assumption | simp only: prod.case hide_ops | rule agree_ops agree_all)+

lemma slice_agree [agree_ops]:
  "later X h0 h \<Longrightarrow> agree (same_state X h0) (slice_bound b s e (hide X h)) (slice_bound b s e h)"
  unfolding slice_bound_def Let_def
  by (assumption | simp only: prod.case hide_ops | rule agree_ops agree_all)+

lemma into_vec_agree [agree_ops]:
  "later X h0 h \<Longrightarrow> agree (same_state X h0) (into_vec_copy b (hide X h)) (into_vec_copy b h)"
  "later X h0 h \<Longrightarrow> agree (same_state X h0) (into_vec_move b n v (hide X h)) (into_vec_move b n v h)"
  unfolding into_vec_copy_def into_vec_move_def Let_def
  by (assumption | simp only: prod.case hide_ops | rule agree_ops agree_all)+

subsection \<open>\<open>BytesMut\<close>\<close>

lemma hide_mut [hide_ops]:
  "bm_as_slice b (hide X h) = bm_as_slice b h" "spare_capacity_mut b (hide X h) = spare_capacity_mut b h"
  "original_buffer b n (hide X h) = original_buffer b n h"
  by (simp_all add: bm_as_slice_def spare_capacity_mut_def original_buffer_def hide_ops)

lemma bm_new_agree [agree_ops]:
  "later X h0 h \<Longrightarrow> agree (same_state X h0) (bm_with_capacity n (hide X h)) (bm_with_capacity n h)"
  "later X h0 h \<Longrightarrow> agree (same_state X h0) (bm_copy_from_slice xs (hide X h)) (bm_copy_from_slice xs h)"
  unfolding bm_with_capacity_def bm_copy_from_slice_def Let_def
  by (assumption | simp only: prod.case hide_ops | rule agree_ops agree_all)+

lemma bm_clone_agree [agree_ops]:
  "later X h0 h \<Longrightarrow> agree (same_state X h0) (bm_clone b (hide X h)) (bm_clone b h)"
  unfolding bm_clone_def Let_def
  by (assumption | simp only: prod.case hide_ops | rule agree_ops agree_all)+

lemma bm_drop_agree [agree_ops]:
  "later X h0 h \<Longrightarrow> agree (same_heap X h0) (bm_drop b (hide X h)) (bm_drop b h)"
  unfolding bm_drop_def Let_def
  by (assumption | simp only: prod.case hide_ops | rule agree_ops agree_all)+

lemma realloc_agree [agree_ops]:
  "later X h0 h \<Longrightarrow> agree (same_state X h0) (realloc_copy b n (hide X h)) (realloc_copy b n h)"
  unfolding realloc_copy_def Let_def
  by (assumption | simp only: prod.case hide_ops | rule agree_ops agree_all)+

lemma reserve_unpromoted_agree [agree_ops]:
  "later X h0 h \<Longrightarrow> agree (same_state X h0) (reserve_unpromoted b k n a (hide X h)) (reserve_unpromoted b k n a h)"
  "later X h0 h \<Longrightarrow> agree (same_state X h0) (reserve_realloc_promoted b n a (hide X h)) (reserve_realloc_promoted b n a h)"
  unfolding reserve_unpromoted_def reserve_realloc_promoted_def Let_def
  by (assumption | simp only: prod.case hide_ops | rule agree_ops agree_all)+

lemma reserve_promoted_agree [agree_ops]:
  "later X h0 h \<Longrightarrow> agree (same_state X h0) (reserve_promoted b s n a (hide X h)) (reserve_promoted b s n a h)"
  unfolding reserve_promoted_def Let_def
  by (assumption | simp only: prod.case hide_ops | rule agree_ops agree_all)+

lemma reserve_inner_agree [agree_ops]:
  "later X h0 h \<Longrightarrow> agree (same_state X h0) (reserve_inner b n a (hide X h)) (reserve_inner b n a h)"
  unfolding reserve_inner_def Let_def
  by (assumption | simp only: prod.case hide_ops | rule agree_ops agree_all)+

lemma reserve_agree [agree_ops]:
  "later X h0 h \<Longrightarrow> agree (same_state X h0) (bm_reserve b n (hide X h)) (bm_reserve b n h)"
  "later X h0 h \<Longrightarrow> agree (same_state X h0) (bm_try_reclaim b n (hide X h)) (bm_try_reclaim b n h)"
  unfolding bm_reserve_def bm_try_reclaim_def Let_def
  by (assumption | simp only: prod.case hide_ops | rule agree_ops agree_all)+

lemma bm_skip_agree [agree_ops]:
  "agree (=) (bm_advance_unchecked b n (hide X h)) (bm_advance_unchecked b n h)"
  unfolding bm_advance_unchecked_def Let_def
  by (assumption | simp only: prod.case hide_ops | rule agree_ops agree_all)+

lemma bm_advance_agree [agree_ops]:
  "agree (=) (bm_advance b n (hide X h)) (bm_advance b n h)"
  unfolding bm_advance_def Let_def
  by (assumption | simp only: prod.case hide_ops | rule agree_ops agree_all)+

lemma shallow_agree [agree_ops]:
  "later X h0 h \<Longrightarrow> agree (same_state X h0) (shallow_clone b (hide X h)) (shallow_clone b h)"
  unfolding shallow_clone_def Let_def
  by (assumption | simp only: prod.case hide_ops | rule agree_ops agree_all)+

lemma bm_try_split_agree [agree_ops]:
  "later X h0 h \<Longrightarrow> agree (same_state X h0) (bm_try_split_to b n (hide X h)) (bm_try_split_to b n h)"
  "later X h0 h \<Longrightarrow> agree (same_state X h0) (bm_try_split_off b n (hide X h)) (bm_try_split_off b n h)"
  unfolding bm_try_split_to_def bm_try_split_off_def Let_def
  by (assumption | simp only: prod.case hide_ops | rule agree_ops agree_all)+

lemma bm_split_agree [agree_ops]:
  "later X h0 h \<Longrightarrow> agree (same_state X h0) (bm_split_to b n (hide X h)) (bm_split_to b n h)"
  "later X h0 h \<Longrightarrow> agree (same_state X h0) (bm_split_off b n (hide X h)) (bm_split_off b n h)"
  unfolding bm_split_to_def bm_split_off_def Let_def
  by (assumption | simp only: prod.case hide_ops | rule agree_ops agree_all)+

lemma freeze_agree [agree_ops]:
  "later X h0 h \<Longrightarrow> agree (same_state X h0) (bm_freeze b (hide X h)) (bm_freeze b h)"
  unfolding bm_freeze_def Let_def
  by (assumption | simp only: prod.case hide_ops | rule agree_ops agree_all)+

lemma into_mut_agree [agree_ops]:
  "later X h0 h \<Longrightarrow> agree (same_state X h0) (into_mut_copy b (hide X h)) (into_mut_copy b h)"
  unfolding into_mut_copy_def Let_def
  by (assumption | simp only: prod.case hide_ops | rule agree_ops agree_all)+

subsection \<open>Turns\<close>

lemma owner_agree [agree_ops]:
  "agree (same_state X h0) r r' \<Longrightarrow> agree (same_state X h0) (as_owner f r) (as_owner f r')"
  "agree (same_state X h0) r r' \<Longrightarrow> agree (same_state X h0) (as_handle g r) (as_handle g r')"
  "agree (same_state X h0) q q' \<Longrightarrow> agree (same_state X h0) (as_handles g q) (as_handles g q')"
  unfolding as_owner_def as_handle_def as_handles_def
  by (assumption | simp only: prod.case hide_ops | rule agree_all)+

lemma first_agree [agree_ops]:
  "later X h0 h \<Longrightarrow> agree (same_state X h0) (into_vec_first b (hide X h)) (into_vec_first b h)"
  "later X h0 h \<Longrightarrow> agree (same_state X h0) (into_mut_first b (hide X h)) (into_mut_first b h)"
  "later X h0 h \<Longrightarrow> agree (same_state X h0) (truncate_first b n (hide X h)) (truncate_first b n h)"
  "later X h0 h \<Longrightarrow> agree (same_state X h0) (store_spare m x (hide X h)) (store_spare m x h)"
  unfolding into_vec_first_def into_mut_first_def truncate_first_def store_spare_def Let_def
  by (assumption | simp only: prod.case hide_ops | rule agree_ops agree_all)+

lemma reserve_first_agree [agree_ops]:
  "later X h0 h \<Longrightarrow> agree (same_state X h0) (reserve_first b n x (hide X h)) (reserve_first b n x h)"
  unfolding reserve_first_def Let_def
  by (assumption | simp only: prod.case hide_ops | rule agree_ops agree_all)+

lemma run0_agree [agree_ops]: "later X h0 h \<Longrightarrow> agree (same_state X h0) (run0 f (hide X h)) (run0 f h)"
  by (cases f; simp only: run0.simps hide_ops; (assumption | rule agree_ops agree_all)+)

lemma begin_agree [agree_ops]:
  "later X h0 h \<Longrightarrow> agree (same_state X h0) (begin_call f x (hide X h)) (begin_call f x h)"
  by (cases f; cases x; simp only: begin_call.simps run1.simps rbind.simps prod.case agree_simps(1);
      (assumption | simp only: prod.case hide_ops if_cancel | rule agree_ops agree_all)+)

lemma run2_agree [agree_ops]: "later X h0 h \<Longrightarrow> agree (same_state X h0) (run2 f x (hide X h)) (run2 f x h)"
  by (cases f; cases x; simp only: run2.simps agree_simps(1);
      (assumption | simp only: prod.case | rule agree_ops agree_all)+)

lemma discard_agree [agree_ops]: "later X h0 h \<Longrightarrow> agree (same_heap X h0) (discard x (hide X h)) (discard x h)"
  by (cases x; simp only: discard.simps; (assumption | rule agree_ops)+)

lemma resume_agree [agree_ops]:
  "later X h0 h \<Longrightarrow> agree (same_state X h0) (resume t (hide X h)) (resume t h)"
  by (cases t; simp only: resume.simps agree_simps(1);
      (assumption | simp only: prod.case | rule agree_ops agree_all)+)

text \<open>A turn of the threads.\<close>

lemma turn_agree:
  assumes "later X h0 h"
  shows "agree (same_state X h0) (take_turn t (ts, hide X h)) (take_turn t (ts, h))"
proof (cases t)
  case (Resume i)
  show ?thesis unfolding Resume take_turn.simps
    by (insert assms) (assumption | simp only: prod.case | rule agree_ops agree_all)+
next
  case (Call c)
  have owner: "agree Q (case u of Owner x \<Rightarrow> f x | _ \<Rightarrow> UB) (case u of Owner x \<Rightarrow> f' x | _ \<Rightarrow> UB)"
    if "\<And>x. agree Q (f x) (f' x)" for Q :: "threads \<Rightarrow> threads \<Rightarrow> bool" and f f' u
    using that by (cases u) simp_all
  show ?thesis unfolding Call
    by (insert assms, cases c; simp only: take_turn.simps;
        (assumption | simp only: prod.case | rule owner agree_ops agree_all)+)
qed

text \<open>A racing copy uses no box at all: if it goes wrong, then because of what it reads.\<close>

lemma race_agree:
  assumes wf: "wf_heap (hide X h) R" and race: "racing t" and UB: "resume t (hide X h) = UB"
  shows "resume t h = UB"
proof -
  have safe: "slice_to_vec xs (hide X h) \<noteq> UB" for xs
    using slice_to_vec_safe [OF wf, of xs] by (cases "slice_to_vec xs (hide X h)") simp_all
  have ret: "rbind r (\<lambda>p. Ok (f p)) = UB \<longleftrightarrow> r = UB" for r :: "'a res" and f :: "'a \<Rightarrow> 'b"
    by (cases r) simp_all
  obtain b where "t = VecCopy b \<or> t = MutCopy b" using race by (cases t) simp_all
  then show ?thesis
    using UB safe by (cases "bytes_as_slice b h") (auto simp: into_vec_copy_def into_mut_copy_def as_owner_def
        rbind_assoc case_prod_unfold hide_ops ret)
qed

end
