(* ===== verification/Lending.thy ===== *)
theory Lending
  imports Hidden_Boxes
begin

text \<open>
  Both kinds of sharing at once. A \<open>Bytes\<close> is lent to many threads by reference; they clone it, and the first clone
  promotes it (the turns of \<open>Promotion\<close>). The clones belong to the threads, which split, convert, grow and drop
  them together with the other handles they own (the turns of \<open>Threads\<close>), while the handle is still being cloned.
\<close>

subsection \<open>The turns\<close>

text \<open>The word \<open>data\<close> of the lent handle, the calls of \<open>clone\<close> in progress, the tasks, the heap.\<close>

record lending =
  ld_data :: usize
  ld_pc :: "nat \<Rightarrow> clone_pc"
  ld_tasks :: "task list"
  ld_heap :: heap

definition as_run :: "lending \<Rightarrow> shared_run" where
  "as_run s = \<lparr>sr_data = ld_data s, sr_heap = ld_heap s, sr_pc = ld_pc s, sr_clones = []\<rparr>"

definition lend_clone :: "bytes \<Rightarrow> nat \<Rightarrow> lending \<Rightarrow> lending res" where
  "lend_clone me i s =
     rbind (clone_turn me i (as_run s)) (\<lambda>r.
     Ok \<lparr>ld_data = sr_data r, ld_pc = sr_pc r, ld_tasks = ld_tasks s @ map (\<lambda>c. Owner (HBytes c)) (sr_clones r),
         ld_heap = sr_heap r\<rparr>)"

definition lend_turn :: "turn \<Rightarrow> lending \<Rightarrow> lending res" where
  "lend_turn t s = rbind (take_turn t (ld_tasks s, ld_heap s)) (\<lambda>(ts, h). Ok (s\<lparr>ld_tasks := ts, ld_heap := h\<rparr>))"

definition few :: "lending \<Rightarrow> bool" where
  "few s \<longleftrightarrow> length (all_held (ld_tasks s)) + 3 < isize_max"

inductive lend_step :: "bytes \<Rightarrow> lending \<Rightarrow> lending \<Rightarrow> bool" for me where
  clone: "lend_clone me i s = Ok s' \<Longrightarrow> lend_step me s s'"
| turn: "may t (ld_tasks s) \<Longrightarrow> few s \<Longrightarrow> lend_turn t s = Ok s' \<Longrightarrow> lend_step me s s'"

inductive_cases lend_stepE: "lend_step me s s'"

definition lend :: "bytes \<Rightarrow> handle list \<Rightarrow> heap \<Rightarrow> lending" where
  "lend me hs h = \<lparr>ld_data = bs_data me, ld_pc = (\<lambda>_. Start), ld_tasks = map Owner hs, ld_heap = h\<rparr>"

inductive lent :: "bytes \<Rightarrow> lending \<Rightarrow> lending \<Rightarrow> bool" for me s0 where
  start: "lent me s0 s0"
| step: "lent me s0 s \<Longrightarrow> lend_step me s s' \<Longrightarrow> lent me s0 s'"

subsection \<open>The lent handle among the tasks\<close>

text \<open>A turn that leaves the first task alone.\<close>

fun shift :: "turn \<Rightarrow> turn" where
  "shift (Call (New f)) = Call (New f)"
| "shift (Call (On i f)) = Call (On (Suc i) f)"
| "shift (Call (Branch i f)) = Call (Branch (Suc i) f)"
| "shift (Call (Unsplit i j)) = Call (Unsplit (Suc i) (Suc j))"
| "shift (Call (Discard i)) = Call (Discard (Suc i))"
| "shift (Resume i) = Resume (Suc i)"

lemma shift_turn: "take_turn (shift t) (x # ts, h) = rbind (take_turn t (ts, h)) (\<lambda>(ts, h). Ok (x # ts, h))"
  by (cases t rule: shift.cases)
    (auto simp: rbind_assoc case_prod_unfold leave_Suc split: task.split)

lemma shift_may: "may (shift t) (x # ts) = may t ts"
  by (cases t rule: shift.cases) simp_all

lemma shift_others: "others (shift t) (x # ts) = x # others t ts"
  by (cases t rule: shift.cases) (simp_all add: leave_Suc)

lemma shift_racing: "(\<exists>i. shift t = Resume i \<and> racing ((x # ts) ! i)) \<longleftrightarrow> (\<exists>i. t = Resume i \<and> racing (ts ! i))"
  by (cases t rule: shift.cases) auto

subsection \<open>The invariant\<close>

text \<open>\<open>L\<close> are the boxes that lost races have left behind.\<close>

definition lend_inv :: "bytes \<Rightarrow> u8 list \<Rightarrow> lending \<Rightarrow> usize set \<Rightarrow> bool" where
  "lend_inv me xs s L \<longleftrightarrow>
     run_inv me (ld_heap s) (all_held (ld_tasks s)) (as_run s) L \<and> (\<forall>t\<in>set (ld_tasks s). task_ok t) \<and>
     whole_alloc (ld_heap s) me \<and> (L \<noteq> {} \<longrightarrow> bs_data me \<noteq> 0) \<and> view (ld_heap s) (HBytes me) = xs"

abbreviation lent_handle :: "bytes \<Rightarrow> lending \<Rightarrow> bytes" where
  "lent_handle me s \<equiv> me\<lparr>bs_data := ld_data s\<rparr>"

abbreviation hidden :: "lending \<Rightarrow> usize set \<Rightarrow> usize set" where
  "hidden s L \<equiv> pending (as_run s) \<union> L"

lemma as_run_simps [simp]: "sr_data (as_run s) = ld_data s" "sr_heap (as_run s) = ld_heap s" "sr_pc (as_run s) = ld_pc s"
  "sr_clones (as_run s) = []" "run_handles me R (as_run s) = HBytes (lent_handle me s) # R"
  by (simp_all add: as_run_def run_handles_def)

lemma lend_invD:
  assumes "lend_inv me xs s L"
  shows "wf_heap (hide (hidden s L) (ld_heap s)) (HBytes (lent_handle me s) # all_held (ld_tasks s))"
    "heap_ok (ld_heap s)" "\<forall>a\<in>hidden s L. \<exists>n. box_of (ld_heap s) me a n" "hidden s L \<noteq> {} \<Longrightarrow> bs_data me \<noteq> 0"
    "ld_data s = bs_data me \<or> is_unpromoted (bs_data me) \<and> promoted (ld_data s)"
    "threads_ok (Owner (HBytes (lent_handle me s)) # ld_tasks s, hide (hidden s L) (ld_heap s))"
proof -
  have inv: "run_inv me (ld_heap s) (all_held (ld_tasks s)) (as_run s) L" and tasks: "\<forall>t\<in>set (ld_tasks s). task_ok t"
    using assms by (simp_all add: lend_inv_def)
  note I = run_invD [OF inv]
  show wf: "wf_heap (hide (hidden s L) (ld_heap s)) (HBytes (lent_handle me s) # all_held (ld_tasks s))" "heap_ok (ld_heap s)"
    using I(1,2) by simp_all
  show d: "ld_data s = bs_data me \<or> is_unpromoted (bs_data me) \<and> promoted (ld_data s)" using I(5) by simp
  show "\<forall>a\<in>hidden s L. \<exists>n. box_of (ld_heap s) me a n" using I(9,10) by auto
  show "bs_data me \<noteq> 0" if some: "hidden s L \<noteq> {}"
  proof (cases "L = {}")
    case True
    then obtain i a where "pc_new (ld_pc s i) = Some a" using some by (auto simp: pending_def)
    then show ?thesis using run_invD(7) [OF inv, of i] d
      by (cases "ld_pc s i") (auto simp: promoted_def is_unpromoted_odd)
  qed (use assms in \<open>simp add: lend_inv_def\<close>)
  show "threads_ok (Owner (HBytes (lent_handle me s)) # ld_tasks s, hide (hidden s L) (ld_heap s))"
    using wf(1) tasks by (simp add: threads_ok_def all_held_def)
qed

lemma lent_owner:
  assumes "wf_heap h (HBytes b # R)" "bs_data b \<noteq> 0"
  shows "blk_ok h (ptr_blk (bs_ptr b))" "\<not> blk_static (hp_blocks h ! ptr_blk (bs_ptr b))"
  using assms by (auto simp: wf_heap_def handle_ok_def owner_ok_def)

lemma whole_alloc_keep:
  assumes "whole_alloc h me" "blk_size h' (ptr_blk (bs_ptr me)) = blk_size h (ptr_blk (bs_ptr me))"
    "blk_ok h' (ptr_blk (bs_ptr me))" "\<not> blk_static (hp_blocks h' ! ptr_blk (bs_ptr me))"
  shows "whole_alloc h' me"
  using assms
  by (auto simp: whole_alloc_def build_unpromoted_vec_def ptr_sub_def vec_from_raw_parts_def whole_vec_def uadd_def
      split: if_split_asm)

lemma lend_start:
  assumes "wf_heap h (HBytes me # hs)" "length hs \<le> isize_max"
  shows "lend_inv me (view h (HBytes me)) (lend me hs h) {}"
proof -
  have "all_held (map Owner hs) = hs" by (simp add: all_held_def comp_def)
  moreover have "as_run (lend me hs h) = run_init me h" by (simp add: lend_def as_run_def run_init_def)
  ultimately show ?thesis
    using run_init_inv [OF assms] wf_whole_alloc [OF assms(1)] by (auto simp: lend_inv_def lend_def)
qed

subsection \<open>A turn of the tasks\<close>

lemma hidden_old:
  assumes "lend_inv me xs s L"
  shows "later (hidden s L) (ld_heap s) (ld_heap s)"
  using lend_invD(2,3) [OF assms] by (force simp: heap_ok_def box_of_def intro!: later_refl)

lemma later_heap_ok:
  assumes "heap_ok (hide X h')" "heap_ok h" "later X h h'"
  shows "heap_ok h'"
proof -
  have "a \<noteq> 0 \<and> \<not> is_unpromoted a \<and> unat a \<le> 8 * hp_boxes h'" if a: "hp_shared h' a \<noteq> None" for a
  proof (cases "a \<in> X")
    case True
    then have "hp_shared h a \<noteq> None" "hp_boxes h \<le> hp_boxes h'" using assms(3) a by (simp_all add: later_def)
    then show ?thesis using assms(2) by (fastforce simp: heap_ok_def)
  next
    case False
    then show ?thesis using assms(1) a by (simp add: heap_ok_def)
  qed
  then show ?thesis using assms(1) by (simp add: heap_ok_def)
qed

lemma turn_inv:
  assumes inv: "lend_inv me xs s L" and few: "length (all_held ts) \<le> isize_max"
    and ok: "threads_ok (Owner (HBytes (lent_handle me s)) # ts, hide (hidden s L) h)"
    and frame: "view h (HBytes me) = view (ld_heap s) (HBytes me)" and later: "later (hidden s L) (ld_heap s) h"
  shows "lend_inv me xs (s\<lparr>ld_tasks := ts, ld_heap := h\<rparr>) L"
proof -
  let ?X = "hidden s L" and ?t = "s\<lparr>ld_tasks := ts, ld_heap := h\<rparr>" and ?i = "ptr_blk (bs_ptr me)"
  note D = lend_invD [OF inv]
  have run: "run_inv me (ld_heap s) (all_held (ld_tasks s)) (as_run s) L" using inv by (simp add: lend_inv_def)
  note I = run_invD [OF run]
  have pend: "pending (as_run ?t) = pending (as_run s)" by (rule pending_cong) simp
  have wf: "wf_heap (hide ?X h) (HBytes (lent_handle me s) # all_held ts)"
    using ok by (simp add: threads_ok_def all_held_def)
  have block: "blk_ok h ?i \<and> \<not> blk_static (hp_blocks h ! ?i) \<and> blk_size h ?i = blk_size (ld_heap s) ?i" if "bs_data me \<noteq> 0"
  proof -
    have own: "bs_data (lent_handle me s) \<noteq> 0" using D(5) that by (auto simp: promoted_def)
    have "blk_ok (ld_heap s) ?i" using lent_owner(1) [OF D(1) own] by simp
    then show ?thesis using lent_owner [OF wf own] later by (simp add: later_def blk_ok_def)
  qed
  have box: "box_of h me a n" if a: "a \<in> ?X" "box_of (ld_heap s) me a n" for a n
  proof -
    have "?X \<noteq> {}" using a(1) by blast
    from block [OF D(4) [OF this]] have "blk_size h ?i = blk_size (ld_heap s) ?i" by simp
    moreover have "hp_shared h a = hp_shared (ld_heap s) a" using later a(1) by (simp add: later_def)
    ultimately show ?thesis using a(2) by (simp add: box_of_def)
  qed
  have "run_inv me h (all_held ts) (as_run ?t) L"
  proof (rule run_invI, unfold pend)
    show "wf_heap (hide (pending (as_run s) \<union> L) (sr_heap (as_run ?t))) (run_handles me (all_held ts) (as_run ?t))"
      using wf by simp
    have "heap_ok (hide ?X h)" using wf by (simp add: wf_heap_def)
    from later_heap_ok [OF this D(2) later] show "heap_ok (sr_heap (as_run ?t))" by simp
    show "pc_ok (bs_data me) (sr_data (as_run ?t)) (sr_pc (as_run ?t) j)" for j
      using run_invD(7) [OF run, of j] by simp
    show "a \<in> pending (as_run s) \<Longrightarrow> box_of (sr_heap (as_run ?t)) me a 2" for a using I(9) box by simp
    show "a \<in> L \<Longrightarrow> box_of (sr_heap (as_run ?t)) me a 1" for a using I(10) box by simp
    show "refs (sr_data (as_run ?t)) (run_handles me (all_held ts) (as_run ?t)) \<le> Suc isize_max"
      using refs_le_length [of "ld_data s" "all_held ts"] few by simp
    show "pc_new (sr_pc (as_run ?t) j) = Some x \<Longrightarrow> pc_new (sr_pc (as_run ?t) k) = Some x \<Longrightarrow> j = k" for j k x
      using I(8) by simp
  qed (use I(11) D(5) in \<open>simp_all add: quiet_def\<close>)
  moreover have "whole_alloc h me"
  proof (cases "bs_data me = 0")
    case True
    then show ?thesis by (simp add: whole_alloc_def is_unpromoted_odd)
  next
    case False
    then show ?thesis using inv block whole_alloc_keep by (auto simp: lend_inv_def)
  qed
  ultimately show ?thesis using inv ok frame by (simp add: lend_inv_def threads_ok_def)
qed

text \<open>At most one task changes in a turn and at most one appears, so the threads cannot get far above \<open>few\<close> at once.\<close>

lemma held_le: "length (held t) \<le> 2"
  by (cases t) simp_all

lemma held_put: "i < length ts \<Longrightarrow> length (all_held (ts[i := t])) \<le> length (all_held ts) + 2"
  using arg_cong [OF mset_held_put [of i ts t], of size] arg_cong [OF mset_held [of i ts], of size] held_le [of t]
  by simp

lemma turn_length:
  assumes "may t ts" "take_turn t (ts, h) = Ok (ts', h')"
  shows "length (all_held ts') \<le> length (all_held ts) + 3"
proof -
  have one: "length (all_held [u]) \<le> 2" for u using held_le [of u] by (simp add: all_held_def)
  show ?thesis
  proof (cases t)
    case (Resume i)
    then have i: "i < length ts" using assms(1) by simp
    obtain u where "ts' = ts[i := u]" using assms(2) Resume by (auto simp del: resume.simps)
    with held_put [OF i, of u] show ?thesis by simp
  next
    case (Call c)
    show ?thesis
    proof (cases c)
      case (New f)
      then show ?thesis using assms Call by (auto simp: all_held_def)
    next
      case (On i f)
      then have i: "i < length ts" using assms(1) Call by simp
      obtain u where "ts' = ts[i := u]" using assms(2) Call On by (auto split: task.split_asm)
      with held_put [OF i, of u] show ?thesis by simp
    next
      case (Branch i f)
      then have i: "i < length ts" using assms(1) Call by simp
      obtain x y where "ts' = ts[i := Owner x] @ [Owner y]" using assms(2) Call Branch by (auto split: task.split_asm)
      with held_put [OF i, of "Owner x"] show ?thesis by (simp add: all_held_def)
    next
      case (Discard i)
      then have i: "i < length ts" using assms(1) Call by simp
      obtain "ts' = leave i ts" using assms(2) Call Discard by (auto split: task.split_asm)
      with arg_cong [OF mset_held [OF i], of size] show ?thesis by simp
    qed (use assms Call in simp)
  qed
qed

lemma lend_turn_res:
  assumes inv: "lend_inv me xs s L" and may: "may t (ld_tasks s)" and few: "few s"
  shows "case lend_turn t s of
      Ok s' \<Rightarrow> lend_inv me xs s' L \<and> ld_data s' = ld_data s \<and> ld_pc s' = ld_pc s \<and>
        frame (ld_heap s) (ld_heap s') (all_held (others t (ld_tasks s)))
    | UB \<Rightarrow> \<exists>i. t = Resume i \<and> racing (ld_tasks s ! i)
    | _ \<Rightarrow> True"
proof -
  let ?X = "hidden s L" and ?me = "Owner (HBytes (lent_handle me s))" and ?ts = "ld_tasks s" and ?h = "ld_heap s"
  note D = lend_invD [OF inv]
  have may': "may (shift t) (?me # ?ts)" using may by (simp add: shift_may)
  have few': "Suc (length (all_held (?me # ?ts))) < isize_max" using few by (simp add: few_def all_held_def)
  have agree: "agree (same_state ?X ?h) (take_turn t (?ts, hide ?X ?h)) (take_turn t (?ts, ?h))"
    by (rule turn_agree [OF hidden_old [OF inv]])
  have good: "lend_inv me xs (s\<lparr>ld_tasks := ts, ld_heap := h\<rparr>) L \<and> frame ?h h (all_held (others t ?ts))"
    if fine: "fine (shift t) (?me # ?ts, hide ?X ?h) (take_turn (shift t) (?me # ?ts, hide ?X ?h))"
      and turn: "take_turn t (?ts, hide ?X ?h) = Ok (ts, hide ?X h)" and later: "later ?X ?h h" for ts h
  proof -
    have f: "threads_ok (?me # ts, hide ?X h)" "frame (hide ?X ?h) (hide ?X h) (all_held (?me # others t ?ts))"
      using fine turn by (simp_all add: fine_def shift_turn shift_others)
    have "length (all_held ts) \<le> isize_max" using turn_length [OF may turn] few by (simp add: few_def)
    moreover have "view h (HBytes me) = view ?h (HBytes me)"
      using f(2) by (simp add: frame_def all_held_def) (simp add: view_def)
    ultimately show ?thesis using turn_inv [OF inv _ f(1) _ later] f(2) by (simp add: frame_def all_held_def)
  qed
  show ?thesis
  proof (cases "\<exists>i. t = Resume i \<and> racing (?ts ! i)")
    case False
    then have "\<forall>i. shift t = Resume i \<longrightarrow> \<not> racing ((?me # ?ts) ! i)" using shift_racing by blast
    note fine = turn_fine [OF D(6) may' few' this]
    then have "take_turn t (?ts, hide ?X ?h) \<noteq> UB" by (auto simp: fine_def shift_turn)
    with agree good [OF fine] show ?thesis
      by (cases "take_turn t (?ts, hide ?X ?h)")
        (auto simp: agree_def same_state_def same_heap_def lend_turn_def)
  next
    case True
    then obtain i where i: "t = Resume i" "racing (?ts ! i)" by blast
    then have bound: "Suc i < length (?me # ?ts)" "racing ((?me # ?ts) ! Suc i)" using may by simp_all
    show ?thesis
    proof (cases "take_turn t (?ts, hide ?X ?h) = UB")
      case UB: True
      then have "resume (?ts ! i) (hide ?X ?h) = UB"
        using i(1) by (cases "resume (?ts ! i) (hide ?X ?h)") (auto simp del: resume.simps)
      from race_agree [OF D(1) i(2) this] have "lend_turn t s = UB" using i(1) by (simp add: lend_turn_def)
      with i show ?thesis by simp
    next
      case False
      then have "take_turn (shift t) (?me # ?ts, hide ?X ?h) \<noteq> UB"
        by (cases "take_turn t (?ts, hide ?X ?h)") (simp_all add: shift_turn case_prod_unfold)
      then have "fine (shift t) (?me # ?ts, hide ?X ?h) (take_turn (shift t) (?me # ?ts, hide ?X ?h))"
        using race_fine [OF D(6) bound] i(1) by (simp del: take_turn.simps)
      with agree good False show ?thesis
        by (cases "take_turn t (?ts, hide ?X ?h)")
          (auto simp: agree_def same_state_def same_heap_def lend_turn_def)
    qed
  qed
qed

subsection \<open>A turn of a clone\<close>

lemma lend_clone_res:
  assumes inv: "lend_inv me xs s L"
  shows "case lend_clone me i s of
      Ok s' \<Rightarrow> (\<exists>L'. lend_inv me xs s' L') \<and> frame (ld_heap s) (ld_heap s') (all_held (ld_tasks s))
    | Abort \<Rightarrow> True
    | _ \<Rightarrow> False"
proof -
  have run: "run_inv me (ld_heap s) (all_held (ld_tasks s)) (as_run s) L" and whole: "whole_alloc (ld_heap s) me"
    using inv by (simp_all add: lend_inv_def)
  note res = clone_turn_res [OF whole run, of i]
  show ?thesis
  proof (cases "clone_turn me i (as_run s)")
    case (Ok r)
    let ?ts = "ld_tasks s @ map (\<lambda>c. Owner (HBytes c)) (sr_clones r)"
    let ?t = "\<lparr>ld_data = sr_data r, ld_pc = sr_pc r, ld_tasks = ?ts, ld_heap = sr_heap r\<rparr>"
    obtain L' where L': "run_inv me (ld_heap s) (all_held (ld_tasks s)) r L'"
      "L' = L \<or> (\<exists>a p. ld_pc s i = Lost a p \<and> L' = insert a L)"
      using res Ok by (auto simp: turn_res_def turn_ok_def)
    note I = run_invD [OF L'(1)]
    have held: "all_held ?ts = all_held (ld_tasks s) @ map HBytes (sr_clones r)"
      by (simp add: all_held_def comp_def)
    have perm: "mset (run_handles me (all_held (ld_tasks s)) r) = mset (HBytes (me\<lparr>bs_data := sr_data r\<rparr>) # all_held ?ts)"
      unfolding held by (simp add: run_handles_def)
    have pend: "pending (as_run ?t) = pending r" by (rule pending_cong) simp
    have blocks: "hp_blocks (sr_heap r) = hp_blocks (ld_heap s)" by (rule I(4))
    have "run_inv me (sr_heap r) (all_held ?ts) (as_run ?t) L'"
    proof (rule run_invI, unfold pend)
      show "wf_heap (hide (pending r \<union> L') (sr_heap (as_run ?t))) (run_handles me (all_held ?ts) (as_run ?t))"
        using wf_heap_perm [OF perm I(1)] by simp
      show "pc_ok (bs_data me) (sr_data (as_run ?t)) (sr_pc (as_run ?t) j)" for j
        using run_invD(7) [OF L'(1), of j] by simp
      show "pc_new (sr_pc (as_run ?t) j) = Some x \<Longrightarrow> pc_new (sr_pc (as_run ?t) k) = Some x \<Longrightarrow> j = k" for j k x
        using I(8) by simp
      show "promoted (sr_data (as_run ?t)) \<Longrightarrow>
          refs (sr_data (as_run ?t)) (run_handles me (all_held ?ts) (as_run ?t)) \<le> Suc isize_max"
        using I(12) unfolding refs_mset perm by simp
    qed (use I in \<open>simp_all add: quiet_def\<close>)
    moreover have "whole_alloc (sr_heap r) me"
      using whole build_unpromoted_vec_cong [OF blocks]
      by (simp add: whole_alloc_def whole_vec_def blk_size_def blocks)
    moreover have "\<forall>t\<in>set ?ts. task_ok t" using inv by (auto simp: lend_inv_def)
    moreover have "L' \<noteq> {} \<longrightarrow> bs_data me \<noteq> 0"
      using L'(2) inv run_invD(5) [OF run] run_invD(7) [OF run, of i] by (auto simp: lend_inv_def promoted_def is_unpromoted_odd)
    moreover have "view (sr_heap r) x = view (ld_heap s) x" for x using quiet_view [OF I(3)] .
    ultimately have "lend_inv me xs ?t L'" "frame (ld_heap s) (sr_heap r) (all_held (ld_tasks s))"
      using inv by (auto simp: lend_inv_def frame_def)
    then show ?thesis using Ok by (auto simp: lend_clone_def)
  qed (use res in \<open>simp_all add: turn_res_def lend_clone_def\<close>)
qed

lemma lent_inv:
  assumes "lent me (lend me hs h) s" "wf_heap h (HBytes me # hs)" "length hs \<le> isize_max"
  obtains L where "lend_inv me (view h (HBytes me)) s L"
proof -
  have "\<exists>L. lend_inv me (view h (HBytes me)) s L"
    using assms(1)
  proof (induction rule: lent.induct)
    case start
    then show ?case using lend_start [OF assms(2,3)] by blast
  next
    case (step s s')
    from step.IH obtain L where inv: "lend_inv me (view h (HBytes me)) s L" by blast
    from step.hyps(2) show ?case
    proof (rule lend_stepE)
      fix i
      assume "lend_clone me i s = Ok s'"
      then show ?thesis using lend_clone_res [OF inv, of i] by simp
    next
      fix t
      assume "may t (ld_tasks s)" "few s" "lend_turn t s = Ok s'"
      then show ?thesis using lend_turn_res [OF inv, of t] by auto
    qed
  qed
  then show thesis using that by blast
qed

subsection \<open>The properties\<close>

lemma lent_slice:
  assumes inv: "lend_inv me xs s L"
  shows "bytes_as_slice (lent_handle me s) (ld_heap s) = Ok xs"
proof -
  have run: "run_inv me (ld_heap s) (all_held (ld_tasks s)) (as_run s) L" and xs: "view (ld_heap s) (HBytes me) = xs"
    using inv by (simp_all add: lend_inv_def)
  show ?thesis using run_clone_slices [OF run, of "lent_handle me s"] xs by simp
qed


text \<open>Two threads have boxed; the first has won, handed out a clone, and the box of the second is not in use yet.\<close>

definition demo_lent :: lending where
  "demo_lent = \<lparr>ld_data = 8, ld_pc = (\<lambda>_. Start)(1 := Boxed (tag 1) 16),
     ld_tasks = [Owner (HBytes (demo_bytes\<lparr>bs_data := 8\<rparr>))], ld_heap = two_boxes 2 2\<rparr>"

fun lend_clones :: "bytes \<Rightarrow> nat list \<Rightarrow> lending \<Rightarrow> lending res" where
  "lend_clones me [] s = Ok s"
| "lend_clones me (i # is) s = rbind (lend_clone me i s) (lend_clones me is)"

lemma lent_clones: "lent me s0 s \<Longrightarrow> lend_clones me is s = Ok t \<Longrightarrow> lent me s0 t"
  by (induction "is" arbitrary: s) (auto dest: lend_step.clone intro: lent.step)

lemma demo_lent: "lent demo_bytes (lend demo_bytes [] demo_heap) demo_lent"
proof (rule lent_clones [OF lent.start])
  show "lend_clones demo_bytes [0, 1, 0, 1, 0] (lend demo_bytes [] demo_heap) = Ok demo_lent"
    by (simp add: lend_def lend_clone_def as_run_def demo_lent_def two_boxes_def race_simps fun_eq_iff)
qed


text \<open>C8: Whenever no call of \<open>clone\<close> is in progress, the lent handle and all the handles of the threads make up a
  well-formed heap, but for one box with a count of one for each lost race: the counts of all others are exact,
  and nothing else is leaked.\<close>

theorem lending_counts:
  assumes "wf_heap h (HBytes me # hs)" "length hs \<le> isize_max" "lent me (lend me hs h) s" "\<forall>i. ld_pc s i = Start"
  shows "\<exists>L. wf_heap (hide L (ld_heap s)) (HBytes (lent_handle me s) # all_held (ld_tasks s)) \<and>
    L \<subseteq> {a. box_of (ld_heap s) me a 1}"
proof -
  obtain L where inv: "lend_inv me (view h (HBytes me)) s L" by (rule lent_inv [OF assms(3,1,2)])
  have "pending (as_run s) = {}" using assms(4) by (simp add: pending_def)
  then have "wf_heap (hide L (ld_heap s)) (HBytes (lent_handle me s) # all_held (ld_tasks s))"
    using lend_invD(1) [OF inv] by simp
  moreover have "\<forall>a\<in>L. box_of (ld_heap s) me a 1" using inv run_invD(10) by (fastforce simp: lend_inv_def)
  ultimately show ?thesis by blast
qed

text \<open>The second thread gives its box up and takes a reference of the first one's.\<close>

definition demo_settled :: lending where
  "demo_settled = \<lparr>ld_data = 8, ld_pc = (\<lambda>_. Start),
     ld_tasks = [Owner (HBytes (demo_bytes\<lparr>bs_data := 8\<rparr>)), Owner (HBytes (demo_bytes\<lparr>bs_data := 8\<rparr>))],
     ld_heap = two_boxes 3 1\<rparr>"

lemma demo_settled: "lent demo_bytes (lend demo_bytes [] demo_heap) demo_settled"
proof (rule lent_clones [OF demo_lent])
  show "lend_clones demo_bytes [1, 1, 1] demo_lent = Ok demo_settled"
    by (simp add: demo_settled_def lend_clone_def as_run_def demo_lent_def two_boxes_def race_simps fun_eq_iff)
qed

theorem lending_counts_witness:
  "\<exists>L. wf_heap (hide L (two_boxes 3 1)) (replicate 3 (HBytes (demo_bytes\<lparr>bs_data := 8\<rparr>)))"
  using lending_counts [OF demo_wf _ demo_settled]
  by (auto simp: demo_settled_def all_held_def numeral_3_eq_3)

end
