(* ===== verification/Mem_Orders.thy ===== *)
theory Mem_Orders
  imports Shared
begin

text \<open>
  Memory orderings. \<open>Promotion\<close> and \<open>Threads\<close> interleave calls that all see one memory; here an atomic access is
  made with the ordering the code passes to it, and a thread knows of the accesses of others only what it has
  synchronised with. Each access is an event; a view is the set of events that happen before what a thread does
  next. A location keeps the messages of its atomic writes, newest first. A read takes any message that no newer
  one the reader knows of has overwritten, so it may be stale; a read-modify-write takes the newest, and passes on
  what that message carried (the release sequence). A release puts the writer's view into the message and an
  acquire takes it out. Two accesses of a location race if one writes, one is not atomic, and neither happens
  before the other: such an access, and an access of freed memory, is \<open>UB\<close>.
\<close>

datatype ordering = Relaxed | Acquire | Release | AcqRel

fun acquires :: "ordering \<Rightarrow> bool" where
  "acquires r \<longleftrightarrow> r = Acquire \<or> r = AcqRel"

fun releases :: "ordering \<Rightarrow> bool" where
  "releases r \<longleftrightarrow> r = Release \<or> r = AcqRel"

datatype sort = Plain_Read | Plain_Write | Atomic_Read | Atomic_Write

fun plain :: "sort \<Rightarrow> bool" where
  "plain k \<longleftrightarrow> k = Plain_Read \<or> k = Plain_Write"

fun changes :: "sort \<Rightarrow> bool" where
  "changes k \<longleftrightarrow> k = Plain_Write \<or> k = Atomic_Write"

definition clash :: "sort \<Rightarrow> sort \<Rightarrow> bool" where
  "clash k k' \<longleftrightarrow> (changes k \<or> changes k') \<and> (plain k \<or> plain k')"

type_synonym known_events = "nat set"

record msg =
  mg_val :: usize
  mg_event :: nat
  mg_view :: known_events

record 'l mem =
  me_next :: nat
  me_log :: "(nat \<times> 'l \<times> sort) list"
  me_hist :: "'l \<Rightarrow> msg list"
  me_dead :: "'l set"

text \<open>The events of the given sorts at a location are in a view.\<close>

definition known :: "'l mem \<Rightarrow> 'l \<Rightarrow> (sort \<Rightarrow> bool) \<Rightarrow> known_events \<Rightarrow> bool" where
  "known m l K V \<longleftrightarrow> (\<forall>(e, l', k) \<in> set (me_log m). l' = l \<and> K k \<longrightarrow> e \<in> V)"

definition logged :: "'l \<Rightarrow> sort \<Rightarrow> 'l mem \<Rightarrow> 'l mem" where
  "logged l k m = m\<lparr>me_next := Suc (me_next m), me_log := (me_next m, l, k) # me_log m\<rparr>"

definition access :: "'l \<Rightarrow> sort \<Rightarrow> known_events \<Rightarrow> 'l mem \<Rightarrow> (known_events \<times> 'l mem) res" where
  "access l k V m =
     (if l \<notin> me_dead m \<and> known m l (clash k) V then Ok (insert (me_next m) V, logged l k m) else UB)"

text \<open>The messages a reader may take: from the newest down to the first it knows of.\<close>

fun readable_msgs :: "known_events \<Rightarrow> msg list \<Rightarrow> msg list" where
  "readable_msgs V [] = []"
| "readable_msgs V (x # xs) = x # (if mg_event x \<in> V then [] else readable_msgs V xs)"

definition pick :: "nat \<Rightarrow> 'a list \<Rightarrow> 'a" where
  "pick n xs = (if n < length xs then xs ! n else hd xs)"

subsection \<open>The operations of \<open>AtomicUsize\<close> and \<open>AtomicPtr\<close>\<close>

text \<open>\<open>new\<close> is a plain write of memory that nobody else has.\<close>

definition atomic_new :: "'l \<Rightarrow> usize \<Rightarrow> known_events \<Rightarrow> 'l mem \<Rightarrow> (known_events \<times> 'l mem) res" where
  "atomic_new l v V m =
     rbind (access l Plain_Write V m) (\<lambda>(V', m').
     Ok (V', m'\<lparr>me_hist := (me_hist m')(l := [\<lparr>mg_val = v, mg_event = me_next m, mg_view = {}\<rparr>])\<rparr>))"

definition receive :: "ordering \<Rightarrow> msg \<Rightarrow> known_events \<Rightarrow> known_events" where
  "receive r x V = (if acquires r then V \<union> mg_view x else V)"

text \<open>\<open>n\<close> chooses among the messages \<open>xs\<close>, which the caller may restrict.\<close>

definition load_from :: "(known_events \<Rightarrow> msg list \<Rightarrow> msg list) \<Rightarrow> 'l \<Rightarrow> ordering \<Rightarrow> nat \<Rightarrow> known_events \<Rightarrow> 'l mem \<Rightarrow> (usize \<times> known_events \<times> 'l mem) res"
where
  "load_from f l r n V m =
     (let xs = f V (me_hist m l)
      in if xs = [] then UB
         else rbind (access l Atomic_Read V m) (\<lambda>(V, m).
              Ok (mg_val (pick n xs), receive r (pick n xs) V, m)))"

definition load :: "'l \<Rightarrow> ordering \<Rightarrow> nat \<Rightarrow> known_events \<Rightarrow> 'l mem \<Rightarrow> (usize \<times> known_events \<times> 'l mem) res" where
  "load = load_from readable_msgs"

definition rmw :: "'l \<Rightarrow> ordering \<Rightarrow> (usize \<Rightarrow> usize) \<Rightarrow> known_events \<Rightarrow> 'l mem \<Rightarrow> (usize \<times> known_events \<times> 'l mem) res" where
  "rmw l r f V m =
     (if me_hist m l = [] then UB
      else rbind (access l Atomic_Write V m) (\<lambda>(V, m').
           let x = hd (me_hist m l); V = receive r x V;
               y = \<lparr>mg_val = f (mg_val x), mg_event = me_next m, mg_view = mg_view x \<union> (if releases r then V else {})\<rparr>
           in Ok (mg_val x, V, m'\<lparr>me_hist := (me_hist m')(l := y # me_hist m l)\<rparr>)))"

text \<open>
  A \<open>compare_exchange\<close> that finds the newest message to be the expected one replaces it; otherwise it is a load of
  one that differs. \<open>Inl\<close> is \<open>Ok\<close> of the code, \<open>Inr\<close> is \<open>Err\<close>.
\<close>

definition compare_exchange ::
  "'l \<Rightarrow> usize \<Rightarrow> usize \<Rightarrow> ordering \<Rightarrow> ordering \<Rightarrow> nat \<Rightarrow> known_events \<Rightarrow> 'l mem \<Rightarrow> ((usize + usize) \<times> known_events \<times> 'l mem) res" where
  "compare_exchange l old new r r' n V m =
     (if me_hist m l = [] then UB
      else if mg_val (hd (me_hist m l)) = old
      then rbind (rmw l r (\<lambda>_. new) V m) (\<lambda>(v, V, m). Ok (Inl v, V, m))
      else rbind (load_from (\<lambda>V xs. filter (\<lambda>x. mg_val x \<noteq> old) (readable_msgs V xs)) l r' n V m)
             (\<lambda>(v, V, m). Ok (Inr v, V, m)))"

text \<open>Freeing memory counts as a write of it.\<close>

fun free_all :: "'l list \<Rightarrow> known_events \<Rightarrow> 'l mem \<Rightarrow> (known_events \<times> 'l mem) res" where
  "free_all [] V m = Ok (V, m)"
| "free_all (l # ls) V m =
     rbind (access l Plain_Write V m) (\<lambda>(V, m). free_all ls V (m\<lparr>me_dead := insert l (me_dead m)\<rparr>))"

subsection \<open>What the operations do to the log\<close>

named_theorems mem_simps \<open>the log, the messages and the freed memory after an operation\<close>

lemma logged_simps [mem_simps, simp]:
  "me_next (logged l k m) = Suc (me_next m)" "me_hist (logged l k m) = me_hist m" "me_dead (logged l k m) = me_dead m"
  "me_log (logged l k m) = (me_next m, l, k) # me_log m"
  by (simp_all add: logged_def)

lemma known_logged [mem_simps, simp]: "known (logged l k m) l' K V \<longleftrightarrow> (l' = l \<and> K k \<longrightarrow> me_next m \<in> V) \<and> known m l' K V"
  by (auto simp: known_def)

lemma known_other [mem_simps, simp]:
  "known (m\<lparr>me_hist := x\<rparr>) l K V \<longleftrightarrow> known m l K V" "known (m\<lparr>me_dead := d\<rparr>) l K V \<longleftrightarrow> known m l K V"
  by (simp_all add: known_def)

lemma known_mono: "known m l K V \<Longrightarrow> V \<subseteq> W \<Longrightarrow> known m l K W"
  by (auto simp: known_def)

lemma known_weaken: "known m l K V \<Longrightarrow> (\<And>k. K' k \<Longrightarrow> K k) \<Longrightarrow> known m l K' V"
  by (auto simp: known_def)

lemma readable_hd [simp]: "xs \<noteq> [] \<Longrightarrow> readable_msgs V xs \<noteq> []" "hd (readable_msgs V xs) = (if xs = [] then hd [] else hd xs)"
  by (cases xs; simp)+

lemma readable_antimono: "V \<subseteq> W \<Longrightarrow> set (tl (readable_msgs W xs)) \<subseteq> set (tl (readable_msgs V xs))"
proof (induction xs)
  case (Cons x xs)
  show ?case
  proof (cases xs)
    case (Cons y ys)
    with Cons.IH [OF Cons.prems] Cons.prems show ?thesis by auto
  qed simp
qed simp

lemma pick_in: "xs \<noteq> [] \<Longrightarrow> pick n xs \<in> set xs"
  by (simp add: pick_def)

lemma pick_known: "xs \<noteq> [] \<Longrightarrow> mg_event (hd xs) \<in> V \<Longrightarrow> pick n (readable_msgs V xs) = hd xs"
  by (cases xs) (auto simp: pick_def)

lemma receive_simps [simp]: "receive Relaxed x V = V" "receive Release x V = V" "receive Acquire x V = V \<union> mg_view x"
  "receive AcqRel x V = V \<union> mg_view x"
  by (simp_all add: receive_def)

lemma clash_simps [simp]:
  "clash Plain_Read = (\<lambda>k. k = Plain_Write \<or> k = Atomic_Write)" "clash Plain_Write = (\<lambda>_. True)"
  "clash Atomic_Read = (\<lambda>k. k = Plain_Write)" "clash Atomic_Write = plain"
  by (rule ext, rename_tac k, case_tac k, simp_all add: clash_def)+

end
