(* ===== verification/Owner_Orders.thy ===== *)
theory Owner_Orders
  imports Mem_Orders Pool_Runs
begin

text \<open>
  The reference count under its orderings (\<open>src/bytes/shared.rs\<close>): any number of handles of one promoted buffer,
  owned by threads or lent to them, that read, write, clone, split, merge, ask whether they are unique, and are
  dropped or turned into the vector. No access races, whatever messages the loads take: the relaxed increment, the
  releasing decrement and the acquiring load are enough. The one use of a buffer by a handle that has given its
  reference up, the copy in \<open>into_vec\<close> and \<open>into_mut\<close>, is no call here: it is the race of \<open>conversion_races\<close>.
\<close>

subsection \<open>The functions on the count\<close>

text \<open>The word \<open>data\<close> of a lent handle, the count and the other fields of the box at an address, the bytes of the buffer.\<close>

datatype loc = Data | Count usize | Fields usize | Byte nat

definition promote_at :: "usize \<Rightarrow> usize \<Rightarrow> known_events \<Rightarrow> loc mem \<Rightarrow> (known_events \<times> loc mem) res" where
  "promote_at b rc V m = rbind (atomic_new (Count b) rc V m) (\<lambda>(V, m). access (Fields b) Plain_Write V m)"

definition is_unique_at :: "usize \<Rightarrow> nat \<Rightarrow> known_events \<Rightarrow> loc mem \<Rightarrow> (bool \<times> known_events \<times> loc mem) res" where
  "is_unique_at b n V m = rbind (load (Count b) Acquire n V m) (\<lambda>(c, V, m). Ok (c = 1, V, m))"

definition increment_at :: "usize \<Rightarrow> known_events \<Rightarrow> loc mem \<Rightarrow> (known_events \<times> loc mem) res" where
  "increment_at b V m =
     rbind (rmw (Count b) Relaxed (\<lambda>c. c + 1) V m) (\<lambda>(old_size, V, m).
       if unat old_size > isize_max then Abort else Ok (V, m))"

text \<open>
  \<open>release\<close> and \<open>release_into_vec\<close> in three turns: the decrement, which answers whether it was the last reference; the
  load; and the end, which frees the buffer (\<open>release\<close> alone) and the box.
\<close>

definition decrement_at :: "usize \<Rightarrow> known_events \<Rightarrow> loc mem \<Rightarrow> (bool \<times> known_events \<times> loc mem) res" where
  "decrement_at b V m = rbind (rmw (Count b) Release (\<lambda>c. c - 1) V m) (\<lambda>(old, V, m). Ok (old = 1, V, m))"

definition fence_at :: "usize \<Rightarrow> nat \<Rightarrow> known_events \<Rightarrow> loc mem \<Rightarrow> (known_events \<times> loc mem) res" where
  "fence_at b n V m = rbind (load (Count b) Acquire n V m) (\<lambda>(_, V, m). Ok (V, m))"

definition free_at :: "usize \<Rightarrow> nat \<Rightarrow> bool \<Rightarrow> known_events \<Rightarrow> loc mem \<Rightarrow> (known_events \<times> loc mem) res" where
  "free_at b cap into_vec V m =
     rbind (access (Fields b) Plain_Read V m) (\<lambda>(V, m).
     free_all ((if into_vec then [] else map Byte [0..<cap]) @ [Count b, Fields b]) V m)"

subsection \<open>Handles of one box\<close>

text \<open>
  A handle: the views of the threads that use it (the first is the owner's, the others hold it by reference), the
  bytes it may read, the bytes it may write, and how far its release has come.
\<close>

datatype stage = Holds | Last bool | Fenced bool | Vector

record agent =
  ag_views :: "known_events list"
  ag_reads :: "nat set"
  ag_owns :: "nat set"
  ag_stage :: stage

record owners =
  ow_mem :: "loc mem"
  ow_agents :: "agent list"

datatype action = Read nat nat nat | Write nat nat | Get_Fields nat nat | Hear nat nat known_events | Lend nat nat | Return nat nat
  | Check nat nat nat | Share nat nat "nat set" "nat set" | Narrow nat "nat set" "nat set"
  | Merge nat nat "nat set" "nat set" | Claim nat nat | Decrement nat bool | Fence nat nat | Free nat | Drop_Vec nat

definition in_view :: "nat \<Rightarrow> nat \<Rightarrow> (known_events \<Rightarrow> loc mem \<Rightarrow> (known_events \<times> loc mem) res) \<Rightarrow> owners \<Rightarrow> owners res" where
  "in_view i k f s =
     (let a = ow_agents s ! i
      in rbind (f (ag_views a ! k) (ow_mem s)) (\<lambda>(V, m).
         Ok \<lparr>ow_mem = m, ow_agents = (ow_agents s)[i := a\<lparr>ag_views := (ag_views a)[k := V]\<rparr>]\<rparr>))"

text \<open>
  \<open>Hear\<close> is any other synchronisation of the program, \<open>Share\<close> a clone or a split, \<open>Narrow\<close> a truncation, an advance or
  \<open>freeze\<close>, \<open>Merge\<close> the first half of \<open>unsplit\<close> (the second is the \<open>Decrement\<close>), \<open>Check\<close> a call of \<open>is_unique\<close>, and \<open>Claim\<close> the
  test before a buffer is taken over as a whole.
\<close>

fun perform :: "usize \<Rightarrow> nat \<Rightarrow> action \<Rightarrow> owners \<Rightarrow> owners res" where
  "perform b cap (Read i k x) s = in_view i k (access (Byte x) Plain_Read) s"
| "perform b cap (Write i x) s = in_view i 0 (access (Byte x) Plain_Write) s"
| "perform b cap (Get_Fields i k) s = in_view i k (access (Fields b) Plain_Read) s"
| "perform b cap (Hear i k W) s = in_view i k (\<lambda>V m. Ok (V \<union> W, m)) s"
| "perform b cap (Check i k n) s = in_view i k (\<lambda>V m. rbind (is_unique_at b n V m) (\<lambda>(_, V, m). Ok (V, m))) s"
| "perform b cap (Lend i k) s =
     (let a = ow_agents s ! i
      in Ok (s\<lparr>ow_agents := (ow_agents s)[i := a\<lparr>ag_views := ag_views a @ [ag_views a ! k]\<rparr>]\<rparr>))"
| "perform b cap (Return i k) s =
     (let a = ow_agents s ! i; vs = ag_views a
      in Ok (s\<lparr>ow_agents := (ow_agents s)[i := a\<lparr>ag_views := leave k (vs[0 := vs ! 0 \<union> vs ! k])\<rparr>]\<rparr>))"
| "perform b cap (Share i k R E) s =
     (let a = ow_agents s ! i
      in rbind (increment_at b (ag_views a ! k) (ow_mem s)) (\<lambda>(V, m).
         Ok \<lparr>ow_mem = m, ow_agents =
              (ow_agents s)[i := a\<lparr>ag_views := (ag_views a)[k := V], ag_owns := ag_owns a - E\<rparr>] @
              [\<lparr>ag_views = [V], ag_reads = R, ag_owns = E, ag_stage = Holds\<rparr>]\<rparr>))"
| "perform b cap (Narrow i R E) s =
     Ok (s\<lparr>ow_agents := (ow_agents s)[i := (ow_agents s ! i)\<lparr>ag_reads := R, ag_owns := E\<rparr>]\<rparr>)"
| "perform b cap (Merge i j R E) s =
     (let a = ow_agents s ! i; c = ow_agents s ! j; V = ag_views a ! 0 \<union> ag_views c ! 0
      in Ok (s\<lparr>ow_agents := (ow_agents s)[
           i := a\<lparr>ag_views := [V], ag_reads := ag_reads a \<union> R, ag_owns := ag_owns a \<union> E\<rparr>,
           j := c\<lparr>ag_views := [V], ag_owns := ag_owns c - E\<rparr>]\<rparr>))"
| "perform b cap (Claim i n) s =
     (let a = ow_agents s ! i
      in rbind (is_unique_at b n (ag_views a ! 0) (ow_mem s)) (\<lambda>(u, V, m).
         Ok \<lparr>ow_mem = m, ow_agents = (ow_agents s)[i := a\<lparr>ag_views := [V],
               ag_reads := if u then {} else ag_reads a, ag_owns := if u then {..<cap} else ag_owns a\<rparr>]\<rparr>))"
| "perform b cap (Decrement i into_vec) s =
     (let a = ow_agents s ! i
      in rbind (decrement_at b (ag_views a ! 0) (ow_mem s)) (\<lambda>(last, V, m).
         Ok \<lparr>ow_mem = m, ow_agents =
              (if last then (ow_agents s)[i := a\<lparr>ag_views := [V], ag_stage := Last into_vec\<rparr>]
               else leave i (ow_agents s))\<rparr>))"
| "perform b cap (Fence i n) s =
     (let a = ow_agents s ! i
      in rbind (fence_at b n (ag_views a ! 0) (ow_mem s)) (\<lambda>(V, m).
         Ok \<lparr>ow_mem = m, ow_agents = (ow_agents s)[i := a\<lparr>ag_views := [V],
               ag_stage := (case ag_stage a of Last v \<Rightarrow> Fenced v | g \<Rightarrow> g)\<rparr>]\<rparr>))"
| "perform b cap (Free i) s =
     (let a = ow_agents s ! i; into_vec = (ag_stage a = Fenced True)
      in rbind (free_at b cap into_vec (ag_views a ! 0) (ow_mem s)) (\<lambda>(V, m).
         Ok \<lparr>ow_mem = m, ow_agents =
              (if into_vec
               then (ow_agents s)[i := a\<lparr>ag_views := [V], ag_reads := {}, ag_owns := {..<cap}, ag_stage := Vector\<rparr>]
               else leave i (ow_agents s))\<rparr>))"
| "perform b cap (Drop_Vec i) s =
     rbind (free_all (map Byte [0..<cap]) (ag_views (ow_agents s ! i) ! 0) (ow_mem s)) (\<lambda>(V, m).
     Ok \<lparr>ow_mem = m, ow_agents = leave i (ow_agents s)\<rparr>)"

text \<open>
  What the borrow checker and the ownership of the bytes allow: a call with \<open>&mut\<close> or by value needs the only view of
  the handle, and a byte is accessed through a handle that covers it.
\<close>

definition lent_to :: "agent \<Rightarrow> nat \<Rightarrow> bool" where
  "lent_to a k \<longleftrightarrow> k < length (ag_views a)"

definition alone :: "agent \<Rightarrow> bool" where
  "alone a \<longleftrightarrow> length (ag_views a) = 1"

definition usable :: "agent \<Rightarrow> bool" where
  "usable a \<longleftrightarrow> ag_stage a = Holds \<or> ag_stage a = Vector"

fun allows :: "action \<Rightarrow> agent list \<Rightarrow> bool" where
  "allows (Read i k x) as \<longleftrightarrow> i < length as \<and> usable (as ! i) \<and> lent_to (as ! i) k \<and> x \<in> ag_reads (as ! i) \<union> ag_owns (as ! i)"
| "allows (Write i x) as \<longleftrightarrow> i < length as \<and> usable (as ! i) \<and> alone (as ! i) \<and> x \<in> ag_owns (as ! i)"
| "allows (Get_Fields i k) as \<longleftrightarrow> i < length as \<and> ag_stage (as ! i) = Holds \<and> lent_to (as ! i) k"
| "allows (Hear i k W) as \<longleftrightarrow> i < length as \<and> lent_to (as ! i) k"
| "allows (Check i k n) as \<longleftrightarrow> i < length as \<and> ag_stage (as ! i) = Holds \<and> lent_to (as ! i) k"
| "allows (Lend i k) as \<longleftrightarrow> i < length as \<and> usable (as ! i) \<and> lent_to (as ! i) k"
| "allows (Return i k) as \<longleftrightarrow> i < length as \<and> 0 < k \<and> lent_to (as ! i) k"
| "allows (Share i k R E) as \<longleftrightarrow> i < length as \<and> ag_stage (as ! i) = Holds \<and> lent_to (as ! i) k \<and>
     R \<subseteq> ag_reads (as ! i) \<and> E \<subseteq> ag_owns (as ! i) \<and> (E = {} \<or> alone (as ! i))"
| "allows (Narrow i R E) as \<longleftrightarrow> i < length as \<and> usable (as ! i) \<and> alone (as ! i) \<and>
     R \<subseteq> ag_reads (as ! i) \<union> ag_owns (as ! i) \<and> E \<subseteq> ag_owns (as ! i) \<and> R \<inter> E = {}"
| "allows (Merge i j R E) as \<longleftrightarrow> i < length as \<and> j < length as \<and> i \<noteq> j \<and> alone (as ! i) \<and> alone (as ! j) \<and>
     ag_stage (as ! i) = Holds \<and> ag_stage (as ! j) = Holds \<and> R \<subseteq> ag_reads (as ! j) \<and> E \<subseteq> ag_owns (as ! j)"
| "allows (Claim i n) as \<longleftrightarrow> i < length as \<and> ag_stage (as ! i) = Holds \<and> alone (as ! i)"
| "allows (Decrement i v) as \<longleftrightarrow> i < length as \<and> ag_stage (as ! i) = Holds \<and> alone (as ! i)"
| "allows (Fence i n) as \<longleftrightarrow> i < length as \<and> (\<exists>v. ag_stage (as ! i) = Last v) \<and> alone (as ! i)"
| "allows (Free i) as \<longleftrightarrow> i < length as \<and> (\<exists>v. ag_stage (as ! i) = Fenced v) \<and> alone (as ! i)"
| "allows (Drop_Vec i) as \<longleftrightarrow> i < length as \<and> ag_stage (as ! i) = Vector \<and> alone (as ! i)"

inductive acted :: "usize \<Rightarrow> nat \<Rightarrow> owners \<Rightarrow> owners \<Rightarrow> bool" for b cap s0 where
  start: "acted b cap s0 s0"
| step: "acted b cap s0 s \<Longrightarrow> allows t (ow_agents s) \<Longrightarrow> perform b cap t s = Ok s' \<Longrightarrow> acted b cap s0 s'"

subsection \<open>The invariant\<close>

definition knows :: "agent \<Rightarrow> known_events" where
  "knows a = \<Union>(set (ag_views a))"

definition touches :: "agent \<Rightarrow> nat set" where
  "touches a = ag_reads a \<union> ag_owns a"

text \<open>
  Every view of a handle has the box's initialisation and the writes of its bytes; the views together have all the
  accesses of the bytes it owns, and no message with a count of one that is not the newest is left for it to read.
\<close>

definition changed_at :: "loc mem \<Rightarrow> nat \<Rightarrow> known_events \<Rightarrow> bool" where
  "changed_at m x V \<longleftrightarrow> known m (Byte x) (\<lambda>k. k \<noteq> Plain_Read) V"

definition view_ok :: "usize \<Rightarrow> loc mem \<Rightarrow> nat set \<Rightarrow> known_events \<Rightarrow> bool" where
  "view_ok b m X V \<longleftrightarrow>
     known m (Count b) plain V \<and> known m (Fields b) (\<lambda>k. k \<noteq> Plain_Read) V \<and> (\<forall>x \<in> X. changed_at m x V)"

definition no_stale_one :: "usize \<Rightarrow> loc mem \<Rightarrow> known_events \<Rightarrow> bool" where
  "no_stale_one b m V \<longleftrightarrow> (\<forall>x \<in> set (tl (readable_msgs V (me_hist m (Count b)))). mg_val x \<noteq> 1)"

definition agent_ok :: "usize \<Rightarrow> nat \<Rightarrow> loc mem \<Rightarrow> agent \<Rightarrow> bool" where
  "agent_ok b cap m a \<longleftrightarrow>
     ag_views a \<noteq> [] \<and> touches a \<subseteq> {..<cap} \<and> ag_reads a \<inter> ag_owns a = {} \<and>
     (\<forall>V \<in> set (ag_views a). view_ok b m (touches a) V) \<and>
     (\<forall>x \<in> ag_owns a. known m (Byte x) (\<lambda>_. True) (knows a)) \<and> no_stale_one b m (knows a)"

definition excl :: "agent \<Rightarrow> agent \<Rightarrow> bool" where
  "excl a c \<longleftrightarrow> ag_owns a \<inter> touches c = {} \<and> ag_owns c \<inter> touches a = {}"

text \<open>All events at the box and the buffer.\<close>

definition covered :: "usize \<Rightarrow> loc mem \<Rightarrow> known_events \<Rightarrow> bool" where
  "covered b m V \<longleftrightarrow>
     known m (Count b) (\<lambda>_. True) V \<and> known m (Fields b) (\<lambda>_. True) V \<and> (\<forall>x. known m (Byte x) (\<lambda>_. True) V)"

definition newest :: "usize \<Rightarrow> loc mem \<Rightarrow> msg" where
  "newest b m = hd (me_hist m (Count b))"

definition box_alive :: "usize \<Rightarrow> loc mem \<Rightarrow> bool" where
  "box_alive b m \<longleftrightarrow> Count b \<notin> me_dead m \<and> Fields b \<notin> me_dead m \<and> me_hist m (Count b) \<noteq> []"

definition bytes_alive :: "nat \<Rightarrow> loc mem \<Rightarrow> bool" where
  "bytes_alive cap m \<longleftrightarrow> (\<forall>x < cap. Byte x \<notin> me_dead m)"

definition box_freed :: "usize \<Rightarrow> loc mem \<Rightarrow> bool" where
  "box_freed b m \<longleftrightarrow> Count b \<in> me_dead m \<and> Fields b \<in> me_dead m"

definition bytes_freed :: "nat \<Rightarrow> loc mem \<Rightarrow> bool" where
  "bytes_freed cap m \<longleftrightarrow> (\<forall>x < cap. Byte x \<in> me_dead m)"

text \<open>
  While handles hold the box, its count is their number, and what nobody of them knows is in the newest message or in
  \<open>U\<close>: the views of threads that use the buffer without knowing of the box.
\<close>

definition holding :: "usize \<Rightarrow> known_events \<Rightarrow> loc mem \<Rightarrow> agent list \<Rightarrow> bool" where
  "holding b U m as \<longleftrightarrow>
     as \<noteq> [] \<and> (\<forall>a \<in> set as. ag_stage a = Holds) \<and> box_alive b m \<and> unat (mg_val (newest b m)) = length as \<and>
     covered b m (\<Union>(knows ` set as) \<union> mg_view (newest b m) \<union> U)"

fun ending :: "stage \<Rightarrow> usize \<Rightarrow> loc mem \<Rightarrow> known_events \<Rightarrow> bool" where
  "ending Holds b m V = False"
| "ending (Last v) b m V \<longleftrightarrow> box_alive b m \<and> mg_event (newest b m) \<in> V \<and> covered b m (V \<union> mg_view (newest b m))"
| "ending (Fenced v) b m V \<longleftrightarrow> box_alive b m \<and> covered b m V"
| "ending Vector b m V \<longleftrightarrow> box_freed b m \<and> covered b m V"

definition owners_inv :: "usize \<Rightarrow> nat \<Rightarrow> known_events \<Rightarrow> loc mem \<Rightarrow> agent list \<Rightarrow> bool" where
  "owners_inv b cap U m as \<longleftrightarrow>
     (\<forall>a \<in> set as. agent_ok b cap m a) \<and> sorted_wrt excl as \<and> (as \<noteq> [] \<longrightarrow> bytes_alive cap m) \<and>
     (as = [] \<and> box_freed b m \<and> bytes_freed cap m \<or> holding b U m as \<or> (\<exists>a. as = [a] \<and> ending (ag_stage a) b m (knows a)))"

lemma excl_sym: "excl a c \<longleftrightarrow> excl c a"
  by (auto simp: excl_def)

lemma owners_inv_perm:
  assumes "owners_inv b cap U m as" "mset as = mset as'"
  shows "owners_inv b cap U m as'"
proof -
  from assms(2) have "set as = set as'" "length as = length as'" by (metis mset_eq_setD, metis mset_eq_length)
  moreover have "as = [a] \<Longrightarrow> as' = [a]" for a using assms(2) by simp
  ultimately show ?thesis
    using assms(1) sorted_wrt_perm [of excl, OF excl_sym assms(2)] unfolding owners_inv_def holding_def by auto
qed

lemma owners_pick: "owners_inv b cap U m as \<Longrightarrow> i < length as \<Longrightarrow> owners_inv b cap U m (as ! i # leave i as)"
  by (erule owners_inv_perm) (metis mset_leave)

lemma owners_put: "owners_inv b cap U m (a # leave i as) \<Longrightarrow> i < length as \<Longrightarrow> owners_inv b cap U m (as[i := a])"
  by (erule owners_inv_perm) (metis mset_put)

subsection \<open>Learning and accessing\<close>

abbreviation with_view :: "agent \<Rightarrow> nat \<Rightarrow> known_events \<Rightarrow> agent" where
  "with_view a k V \<equiv> a\<lparr>ag_views := (ag_views a)[k := V]\<rparr>"

lemma touches_upd [simp]:
  "touches (a\<lparr>ag_views := vs\<rparr>) = touches a" "touches (a\<lparr>ag_stage := g\<rparr>) = touches a"
  "excl (a\<lparr>ag_views := vs\<rparr>) c = excl a c" "excl (a\<lparr>ag_stage := g\<rparr>) c = excl a c"
  "knows (a\<lparr>ag_stage := g\<rparr>) = knows a" "knows (a\<lparr>ag_reads := S\<rparr>) = knows a" "knows (a\<lparr>ag_owns := E\<rparr>) = knows a"
  "knows \<lparr>ag_views = [V], ag_reads = S, ag_owns = E, ag_stage = g\<rparr> = V" "knows (a\<lparr>ag_views := [V]\<rparr>) = V"
  by (simp_all add: touches_def excl_def knows_def)

lemma aloneE: "alone a \<Longrightarrow> (\<And>V. ag_views a = [V] \<Longrightarrow> knows a = V \<Longrightarrow> P) \<Longrightarrow> P"
  unfolding alone_def knows_def by (cases "ag_views a") auto

lemma view_knows: "k < length (ag_views a) \<Longrightarrow> ag_views a ! k \<subseteq> knows a"
  unfolding knows_def using nth_mem by blast

lemma covered_mono: "covered b m V \<Longrightarrow> V \<subseteq> W \<Longrightarrow> covered b m W"
  unfolding covered_def by (meson known_mono)

lemma view_ok_mono: "view_ok b m X V \<Longrightarrow> V \<subseteq> W \<Longrightarrow> Y \<subseteq> X \<Longrightarrow> view_ok b m Y W"
  unfolding view_ok_def changed_at_def by (meson known_mono subsetD)

lemma no_stale_one_mono: "no_stale_one b m V \<Longrightarrow> V \<subseteq> W \<Longrightarrow> no_stale_one b m W"
  unfolding no_stale_one_def using readable_antimono [of V W] by blast

lemma ending_mono: "ending g b m V \<Longrightarrow> V \<subseteq> W \<Longrightarrow> ending g b m W"
  by (cases g) (auto elim: covered_mono)

lemma owners_learn:
  assumes inv: "owners_inv b cap U m (a # R)" and vs: "vs \<noteq> []" "\<And>W. W \<in> set vs \<Longrightarrow> \<exists>V \<in> set (ag_views a). V \<subseteq> W"
    and k: "knows a \<subseteq> \<Union>(set vs)"
  shows "owners_inv b cap U m (a\<lparr>ag_views := vs\<rparr> # R)"
proof -
  have kn: "knows (a\<lparr>ag_views := vs\<rparr>) = \<Union>(set vs)" by (simp add: knows_def)
  have a: "agent_ok b cap m a" using inv by (simp add: owners_inv_def)
  have "view_ok b m (touches a) W" if "W \<in> set vs" for W
    using vs(2) [OF that] a by (auto simp: agent_ok_def intro: view_ok_mono)
  moreover have "\<forall>x \<in> ag_owns a. known m (Byte x) (\<lambda>_. True) (\<Union>(set vs))" "no_stale_one b m (\<Union>(set vs))"
    using a k unfolding agent_ok_def by (blast intro: known_mono no_stale_one_mono)+
  ultimately have "agent_ok b cap m (a\<lparr>ag_views := vs\<rparr>)" using a vs(1) by (simp add: agent_ok_def kn)
  moreover have "holding b U m (a # R) \<Longrightarrow> holding b U m (a\<lparr>ag_views := vs\<rparr> # R)"
    using k unfolding holding_def by (auto simp: kn elim!: covered_mono)
  moreover have "ending (ag_stage a) b m (knows a) \<Longrightarrow> ending (ag_stage a) b m (\<Union>(set vs))"
    by (rule ending_mono [OF _ k])
  ultimately show ?thesis using inv unfolding owners_inv_def by (auto simp: kn)
qed

lemma knows_with_view [simp]: "k < length (ag_views a) \<Longrightarrow> ag_views a ! k \<subseteq> V \<Longrightarrow> knows (with_view a k V) = knows a \<union> V"
  unfolding knows_def by (fastforce simp: in_set_conv_nth nth_list_update split: if_splits)

lemma with_view_learns:
  assumes "k < length (ag_views a)" "ag_views a ! k \<subseteq> V" "W \<in> set (ag_views (with_view a k V))"
  shows "\<exists>V \<in> set (ag_views a). V \<subseteq> W"
proof -
  have "W = V \<or> W \<in> set (ag_views a)" using assms(3) set_update_subset_insert [of "ag_views a" k V] by auto
  then show ?thesis using assms(1,2) nth_mem by blast
qed

lemma owners_hear:
  assumes "owners_inv b cap U m (a # R)" "k < length (ag_views a)" "ag_views a ! k \<subseteq> V"
  shows "owners_inv b cap U m (with_view a k V # R)"
proof (rule owners_learn [OF assms(1)])
  show "(ag_views a)[k := V] \<noteq> []" using assms(2) by auto
  show "\<exists>V \<in> set (ag_views a). V \<subseteq> W" if "W \<in> set ((ag_views a)[k := V])" for W
    using with_view_learns [OF assms(2,3)] that by simp
  show "knows a \<subseteq> \<Union>(set ((ag_views a)[k := V]))"
    using knows_with_view [OF assms(2,3)] unfolding knows_def by auto
qed

lemma with_view_alone: "alone a \<Longrightarrow> with_view a 0 V = a\<lparr>ag_views := [V]\<rparr>"
  by (erule aloneE) simp

lemma owners_hear_alone:
  assumes "owners_inv b cap U m (a # R)" "alone a" "ag_views a ! 0 \<subseteq> V"
  shows "owners_inv b cap U m (a\<lparr>ag_views := [V]\<rparr> # R)"
proof -
  have "0 < length (ag_views a)" using assms(2) by (simp add: alone_def)
  from owners_hear [OF assms(1) this assms(3)] show ?thesis by (simp add: with_view_alone [OF assms(2)])
qed

text \<open>An access that the handles \<open>cs\<close> need not know of.\<close>

fun unnoticed :: "usize \<Rightarrow> loc \<Rightarrow> sort \<Rightarrow> agent set \<Rightarrow> bool" where
  "unnoticed b Data j cs = True"
| "unnoticed b (Count b') j cs \<longleftrightarrow> b' = b \<longrightarrow> \<not> plain j"
| "unnoticed b (Fields b') j cs \<longleftrightarrow> b' = b \<longrightarrow> j = Plain_Read"
| "unnoticed b (Byte x) j cs \<longleftrightarrow> (\<forall>c \<in> cs. x \<notin> ag_owns c \<and> (x \<in> touches c \<longrightarrow> j = Plain_Read))"

lemma no_stale_one_logged [simp]: "no_stale_one b (logged l j m) V \<longleftrightarrow> no_stale_one b m V"
  by (simp add: no_stale_one_def)

lemma alive_logged [simp]:
  "box_alive b (logged l j m) \<longleftrightarrow> box_alive b m" "bytes_alive cap (logged l j m) \<longleftrightarrow> bytes_alive cap m"
  "newest b (logged l j m) = newest b m" "box_freed b (logged l j m) \<longleftrightarrow> box_freed b m"
  by (simp_all add: box_alive_def bytes_alive_def newest_def box_freed_def)

lemma covered_logged: "covered b m V \<Longrightarrow> me_next m \<in> V \<Longrightarrow> covered b (logged l j m) V"
  by (simp add: covered_def)

lemma ending_logged: "ending g b m V \<Longrightarrow> me_next m \<in> V \<Longrightarrow> ending g b (logged l j m) V"
  by (cases g) (auto intro: covered_logged)

lemma agent_ok_quiet: "agent_ok b cap m c \<Longrightarrow> unnoticed b l j {c} \<Longrightarrow> agent_ok b cap (logged l j m) c"
  by (cases l) (auto simp: agent_ok_def view_ok_def changed_at_def)

lemma view_ok_logged: "view_ok b m X V \<Longrightarrow> me_next m \<in> V \<Longrightarrow> view_ok b (logged l j m) X V"
  by (auto simp: view_ok_def changed_at_def)

lemma view_ok_quiet: "view_ok b m X V \<Longrightarrow> unnoticed b l j {} \<Longrightarrow> (\<And>x. l = Byte x \<Longrightarrow> j = Plain_Read) \<Longrightarrow> view_ok b (logged l j m) X V"
  by (cases l) (auto simp: view_ok_def changed_at_def)

lemma owners_access:
  assumes inv: "owners_inv b cap U m (a # R)" and k: "k < length (ag_views a)" and q: "unnoticed b l j (set R)"
    and own: "alone a \<or> (\<forall>x. l = Byte x \<longrightarrow> j = Plain_Read)"
  shows "owners_inv b cap U (logged l j m) (with_view a k (insert (me_next m) (ag_views a ! k)) # R)"
proof -
  let ?V = "insert (me_next m) (ag_views a ! k)" and ?a = "with_view a k (insert (me_next m) (ag_views a ! k))"
  have inv': "owners_inv b cap U m (?a # R)" by (rule owners_hear [OF inv k]) auto
  have e: "me_next m \<in> knows ?a" using view_knows [of k ?a] k by auto
  have R: "agent_ok b cap (logged l j m) c" if "c \<in> set R" for c
    using inv that q by (intro agent_ok_quiet) (auto simp: owners_inv_def, cases l, auto)
  have "view_ok b (logged l j m) (touches a) W" if W: "W \<in> set (ag_views ?a)" for W
  proof -
    have ok: "view_ok b m (touches a) W" using inv' W unfolding owners_inv_def agent_ok_def by auto
    show ?thesis
    proof (cases "me_next m \<in> W")
      case False
      then have "\<not> alone a" using W k by (auto elim!: aloneE)
      then have "\<forall>x. l = Byte x \<longrightarrow> j = Plain_Read" using own by blast
      then show ?thesis using ok q by (intro view_ok_quiet) (cases l; auto)+
    qed (simp add: ok view_ok_logged)
  qed
  then have "agent_ok b cap (logged l j m) ?a" using inv' e unfolding owners_inv_def agent_ok_def by auto
  moreover have "holding b U m (?a # R) \<Longrightarrow> holding b U (logged l j m) (?a # R)"
    using e unfolding holding_def by (auto intro: covered_logged)
  moreover have "ending (ag_stage a) b m (knows ?a) \<Longrightarrow> ending (ag_stage a) b (logged l j m) (knows ?a)"
    using e by (rule ending_logged [rotated])
  ultimately show ?thesis using inv' R unfolding owners_inv_def by auto
qed

subsection \<open>A message\<close>

abbreviation posted :: "usize \<Rightarrow> msg \<Rightarrow> loc mem \<Rightarrow> loc mem" where
  "posted b y m \<equiv> (logged (Count b) Atomic_Write m)\<lparr>me_hist := (me_hist m)(Count b := y # me_hist m (Count b))\<rparr>"

lemma posted_simps [simp]:
  "box_alive b (posted b y m) \<longleftrightarrow> Count b \<notin> me_dead m \<and> Fields b \<notin> me_dead m"
  "bytes_alive cap (posted b y m) \<longleftrightarrow> bytes_alive cap m" "newest b (posted b y m) = y"
  by (simp_all add: box_alive_def bytes_alive_def newest_def)

lemma known_posted [simp]:
  "view_ok b (posted b y m) X V \<longleftrightarrow> view_ok b (logged (Count b) Atomic_Write m) X V"
  "covered b (posted b y m) V \<longleftrightarrow> covered b (logged (Count b) Atomic_Write m) V"
  by (simp_all add: view_ok_def covered_def changed_at_def)

lemma no_stale_posted:
  assumes "mg_event y \<in> V \<or> no_stale_one b m V \<and> mg_val (newest b m) \<noteq> 1"
  shows "no_stale_one b (posted b y m) V"
proof (cases "me_hist m (Count b)")
  case (Cons x xs)
  with assms show ?thesis by (auto simp: no_stale_one_def newest_def)
qed (simp add: no_stale_one_def)

lemma agent_ok_posted:
  assumes ok: "agent_ok b cap m a" and k: "k < length (ag_views a)" and y: "mg_event y = me_next m"
    and W: "W = insert (me_next m) (ag_views a ! k)"
  shows "agent_ok b cap (posted b y m) (with_view a k W)"
proof -
  have sub: "ag_views a ! k \<subseteq> W" using W by auto
  have "no_stale_one b (posted b y m) (knows a \<union> W)" using y W by (intro no_stale_posted) simp
  moreover have "view_ok b (logged (Count b) Atomic_Write m) (touches a) V" if V: "V \<in> set ((ag_views a)[k := W])" for V
  proof -
    obtain V' where "V' \<in> set (ag_views a)" "V' \<subseteq> V" using with_view_learns [OF k sub, of V] V by auto
    then show ?thesis using ok by (intro view_ok_quiet) (auto simp: agent_ok_def intro: view_ok_mono)
  qed
  ultimately show ?thesis using ok k sub by (auto simp: agent_ok_def intro: known_mono)
qed

lemma agent_ok_other: "agent_ok b cap m c \<Longrightarrow> mg_val (newest b m) \<noteq> 1 \<Longrightarrow> agent_ok b cap (posted b y m) c"
  by (auto simp: agent_ok_def intro: view_ok_quiet no_stale_posted)

text \<open>A part of what a handle covers.\<close>

lemma agent_ok_less:
  assumes "agent_ok b cap m a" "R \<subseteq> touches a" "E \<subseteq> ag_owns a" "R \<inter> E = {}"
  shows "agent_ok b cap m (a\<lparr>ag_reads := R, ag_owns := E\<rparr>)"
  using assms by (auto simp: agent_ok_def touches_def knows_def intro: view_ok_mono)

lemma excl_less: "excl a c \<Longrightarrow> touches a' \<subseteq> touches a \<Longrightarrow> ag_owns a' \<subseteq> ag_owns a \<Longrightarrow> excl a' c"
  by (auto simp: excl_def)

subsection \<open>The functions on the count\<close>

lemma rmw_count:
  assumes "box_alive b m" "known m (Count b) plain V" "r = Relaxed \<or> r = Release"
  shows "rmw (Count b) r f V m =
    Ok (mg_val (newest b m), insert (me_next m) V,
        posted b \<lparr>mg_val = f (mg_val (newest b m)), mg_event = me_next m,
                  mg_view = mg_view (newest b m) \<union> (if r = Release then insert (me_next m) V else {})\<rparr> m)"
  using assms by (auto simp: rmw_def access_def box_alive_def newest_def Let_def)

lemma load_count:
  assumes "box_alive b m" "known m (Count b) plain V" "x = pick n (readable_msgs V (me_hist m (Count b)))"
  shows "load (Count b) Acquire n V m =
    Ok (mg_val x, insert (me_next m) V \<union> mg_view x, logged (Count b) Atomic_Read m)"
proof -
  have "known m (Count b) (\<lambda>k. k = Plain_Write) V" using assms(2) by (rule known_weaken) simp
  then show ?thesis using assms(1,3) by (simp add: load_def load_from_def access_def box_alive_def Let_def)
qed

text \<open>A one that a handle reads is the newest message.\<close>

lemma one_is_newest:
  assumes "no_stale_one b m V" "box_alive b m" "mg_val (pick n (readable_msgs V (me_hist m (Count b)))) = 1"
  shows "pick n (readable_msgs V (me_hist m (Count b))) = newest b m"
proof -
  let ?xs = "readable_msgs V (me_hist m (Count b))"
  have ne: "?xs \<noteq> []" "hd ?xs = newest b m" using assms(2) by (simp_all add: box_alive_def newest_def)
  with pick_in [of ?xs n] assms(1,3) show ?thesis by (cases ?xs) (auto simp: no_stale_one_def)
qed

lemma held_view:
  assumes "owners_inv b cap U m (a # R)" "k < length (ag_views a)"
  shows "known m (Count b) plain (ag_views a ! k)" "known m (Fields b) (\<lambda>k. k \<noteq> Plain_Read) (ag_views a ! k)"
    "x \<in> touches a \<Longrightarrow> changed_at m x (ag_views a ! k)"
  using assms nth_mem [OF assms(2)] by (auto simp: owners_inv_def agent_ok_def view_ok_def)

lemma owned_view:
  "owners_inv b cap U m (a # R) \<Longrightarrow> alone a \<Longrightarrow> x \<in> ag_owns a \<Longrightarrow> known m (Byte x) (\<lambda>_. True) (ag_views a ! 0)"
  by (auto simp: owners_inv_def agent_ok_def elim!: aloneE)

lemma holds_holding: "owners_inv b cap U m (a # R) \<Longrightarrow> ag_stage a = Holds \<Longrightarrow> holding b U m (a # R)"
  by (auto simp: owners_inv_def)

lemma owners_increment:
  assumes inv: "owners_inv b cap U m (a # R)" and st: "ag_stage a = Holds" and k: "k < length (ag_views a)"
    and sub: "S \<subseteq> ag_reads a" "E \<subseteq> ag_owns a" "E = {} \<or> alone a"
    and old: "unat (mg_val (newest b m)) \<le> isize_max" and W: "W = insert (me_next m) (ag_views a ! k)"
    and y: "y = \<lparr>mg_val = mg_val (newest b m) + 1, mg_event = me_next m, mg_view = mg_view (newest b m)\<rparr>"
  shows "owners_inv b cap U (posted b y m)
    ((with_view a k W)\<lparr>ag_owns := ag_owns a - E\<rparr> # \<lparr>ag_views = [W], ag_reads = S, ag_owns = E, ag_stage = Holds\<rparr> # R)"
    (is "owners_inv _ _ _ ?m (?a # ?c # R)")
proof -
  note ok = inv [unfolded owners_inv_def]
  have hold: "holding b U m (a # R)" using inv st by (rule holds_holding)
  have a': "agent_ok b cap ?m (with_view a k W)" using ok k y W by (intro agent_ok_posted) auto
  then have "agent_ok b cap ?m ((with_view a k W)\<lparr>ag_reads := ag_reads a, ag_owns := ag_owns a - E\<rparr>)"
    using ok by (intro agent_ok_less) (auto simp: touches_def agent_ok_def)
  moreover have "agent_ok b cap ?m ?c"
  proof -
    have "view_ok b ?m (S \<union> E) W"
      using a' k sub(1,2) set_update_memI [of k "ag_views a" W] by (auto simp: agent_ok_def touches_def intro: view_ok_mono)
    moreover have "no_stale_one b ?m W" using y W by (intro no_stale_posted) simp
    moreover have "known ?m (Byte x) (\<lambda>_. True) W" if x: "x \<in> E" for x
    proof -
      from x sub(3) have "alone a" by blast
      then have "known m (Byte x) (\<lambda>_. True) (ag_views a ! k)"
        using owned_view [OF inv] x sub(2) k by (auto elim!: aloneE)
      then show ?thesis using W by (auto intro: known_mono)
    qed
    ultimately show ?thesis using ok sub by (auto simp: agent_ok_def touches_def knows_def)
  qed
  moreover have "agent_ok b cap ?m c" if "c \<in> set R" for c
    using ok hold that by (intro agent_ok_other) (auto simp: holding_def word_unat_eq_iff)
  moreover have "sorted_wrt excl (?a # ?c # R)"
  proof -
    have "excl ?a c \<and> excl ?c c" if "c \<in> set R" for c
    proof -
      have "excl a c" using ok that by simp
      from excl_less [OF this, of ?a] excl_less [OF this, of ?c] sub(1,2) show ?thesis by (auto simp: touches_def)
    qed
    moreover have "ag_reads a \<inter> ag_owns a = {}" using ok by (simp add: agent_ok_def)
    then have "excl ?a ?c" using sub(1,2) unfolding excl_def touches_def by auto
    ultimately show ?thesis using ok by simp
  qed
  moreover have "holding b U ?m (?a # ?c # R)"
  proof -
    have "unat (mg_val (newest b m) + 1) = Suc (unat (mg_val (newest b m)))"
      using old by (simp add: unat_word_ariths isize_max_def)
    moreover have "covered b ?m (knows a \<union> W \<union> (\<Union>(knows ` set R) \<union> mg_view (newest b m) \<union> U))"
      using hold W by (auto simp: holding_def intro!: covered_logged elim!: covered_mono)
    moreover have "knows ?a = knows a \<union> W" using k W by (simp add: subset_insertI)
    ultimately show ?thesis using hold by (auto simp: holding_def y box_alive_def Un_ac)
  qed
  ultimately show ?thesis using ok by (auto simp: owners_inv_def)
qed

text \<open>A handle that gives its reference up leaves its view in the message; the last one keeps it.\<close>

lemma owners_decrement:
  assumes inv: "owners_inv b cap U m (a # R)" and st: "ag_stage a = Holds" and a: "alone a" and U: "R = [] \<Longrightarrow> U = {}"
    and W: "W = insert (me_next m) (ag_views a ! 0)"
    and y: "y = \<lparr>mg_val = mg_val (newest b m) - 1, mg_event = me_next m, mg_view = mg_view (newest b m) \<union> W\<rparr>"
  shows "if mg_val (newest b m) = 1 then owners_inv b cap U (posted b y m) [a\<lparr>ag_views := [W], ag_stage := Last v\<rparr>]
    else owners_inv b cap U (posted b y m) R"
proof -
  note ok = inv [unfolded owners_inv_def]
  have hold: "holding b U m (a # R)" using inv st by (rule holds_holding)
  have sub: "knows a \<subseteq> W" using a W by (auto elim!: aloneE)
  have cov: "covered b (posted b y m) (W \<union> mg_view y \<union> (\<Union>(knows ` set R) \<union> U))"
    using hold sub W by (auto simp: holding_def y intro!: covered_logged elim!: covered_mono)
  show ?thesis
  proof (cases "mg_val (newest b m) = 1")
    case True
    with hold U have R: "R = []" "U = {}" by (auto simp: holding_def)
    have "agent_ok b cap (posted b y m) (with_view a 0 W)"
      using ok a W by (intro agent_ok_posted) (auto simp: y elim!: aloneE)
    moreover have "with_view a 0 W = a\<lparr>ag_views := [W]\<rparr>" using a by (auto elim!: aloneE)
    ultimately have "agent_ok b cap (posted b y m) (a\<lparr>ag_views := [W], ag_stage := Last v\<rparr>)" by (simp add: agent_ok_def)
    moreover have "ending (Last v) b (posted b y m) W" using cov hold R W by (simp add: holding_def y box_alive_def)
    ultimately show ?thesis using True ok by (simp add: owners_inv_def)
  next
    case False
    have "unat (mg_val (newest b m) - 1) = length R"
      using hold by (subst unat_minus_one) (auto simp: holding_def)
    moreover have "R \<noteq> []" using False hold by (auto simp: holding_def word_unat_eq_iff)
    ultimately have "holding b U (posted b y m) R"
      using hold cov by (auto simp: holding_def y box_alive_def Un_ac)
    then show ?thesis
      using False ok by (auto simp: owners_inv_def agent_ok_other)
  qed
qed

text \<open>With one reference left, the newest message has what all the others ever did.\<close>

lemma claimed_alone:
  assumes inv: "owners_inv b cap U m (a # R)" and st: "ag_stage a = Holds" and a: "alone a" and U: "R = [] \<Longrightarrow> U = {}"
    and x: "x = pick n (readable_msgs (ag_views a ! 0) (me_hist m (Count b)))" "mg_val x = 1"
  shows "R = []" "covered b m (ag_views a ! 0 \<union> mg_view x)"
proof -
  note ok = inv [unfolded owners_inv_def]
  have hold: "holding b U m (a # R)" using inv st by (rule holds_holding)
  have "x = newest b m"
    unfolding x(1) using ok hold x a by (intro one_is_newest) (auto simp: agent_ok_def holding_def elim!: aloneE)
  with hold x(2) U show "R = []" "covered b m (ag_views a ! 0 \<union> mg_view x)"
    using a by (auto simp: holding_def elim!: aloneE)
qed

lemma covered_agent:
  assumes "covered b m V" "no_stale_one b m V" "bytes_alive cap m"
    "holding b {} m [\<lparr>ag_views = [V], ag_reads = S, ag_owns = E, ag_stage = g\<rparr>] \<or> ending g b m V"
    "S \<union> E \<subseteq> {..<cap}" "S \<inter> E = {}"
  shows "owners_inv b cap {} m [\<lparr>ag_views = [V], ag_reads = S, ag_owns = E, ag_stage = g\<rparr>]"
  using assms
  by (auto simp: owners_inv_def agent_ok_def view_ok_def changed_at_def covered_def touches_def elim: known_weaken)

lemma free_all_covered:
  assumes "covered b m V" "distinct ls" "set ls \<inter> me_dead m = {}" "set ls \<subseteq> {Count b, Fields b} \<union> range Byte"
  shows "\<exists>V' m'. free_all ls V m = Ok (V', m') \<and> V \<subseteq> V' \<and> covered b m' V' \<and> me_dead m' = me_dead m \<union> set ls \<and> me_hist m' = me_hist m"
  using assms
proof (induction ls arbitrary: V m)
  case (Cons l ls)
  let ?m = "(logged l Plain_Write m)\<lparr>me_dead := insert l (me_dead m)\<rparr>" and ?V = "insert (me_next m) V"
  have "known m l (\<lambda>_. True) V" using Cons.prems(1,4) by (auto simp: covered_def)
  then have "access l Plain_Write V m = Ok (?V, logged l Plain_Write m)" using Cons.prems(3) by (simp add: access_def)
  moreover have "covered b ?m ?V" using Cons.prems(1) by (auto simp: covered_def intro: known_mono)
  from Cons.IH [OF this] Cons.prems obtain V' m' where "free_all ls ?V ?m = Ok (V', m')" "?V \<subseteq> V'" "covered b m' V'"
    "me_dead m' = me_dead ?m \<union> set ls" "me_hist m' = me_hist ?m" by auto
  ultimately show ?case by auto
qed simp

subsection \<open>Every call\<close>

definition proceeds :: "usize \<Rightarrow> nat \<Rightarrow> known_events \<Rightarrow> owners res \<Rightarrow> bool" where
  "proceeds b cap U r \<longleftrightarrow> (case r of Ok s \<Rightarrow> owners_inv b cap U (ow_mem s) (ow_agents s) | r \<Rightarrow> r = Abort)"

lemma in_view_proceeds:
  assumes "i < length (ow_agents s)" "f (ag_views (ow_agents s ! i) ! k) (ow_mem s) = Ok (V, m)"
    "owners_inv b cap U m (with_view (ow_agents s ! i) k V # leave i (ow_agents s))"
  shows "proceeds b cap U (in_view i k f s)"
  using assms owners_put [OF assms(3,1)] by (simp add: in_view_def proceeds_def Let_def)

lemma known_changes: "known m l (\<lambda>k. k \<noteq> Plain_Read) V \<Longrightarrow> known m l (\<lambda>k. k = Plain_Write \<or> k = Atomic_Write) V"
  by (erule known_weaken) auto

text \<open>A read of the bytes or the fields, and a write by the owner.\<close>

lemma fields_read:
  assumes "owners_inv b cap U m (a # R)" "k < length (ag_views a)" "Fields b \<notin> me_dead m"
  shows "access (Fields b) Plain_Read (ag_views a ! k) m = Ok (insert (me_next m) (ag_views a ! k), logged (Fields b) Plain_Read m)"
  using assms(3) known_changes [OF held_view(2) [OF assms(1,2)]] by (simp add: access_def)

lemma byte_read:
  assumes "owners_inv b cap U m (a # R)" "k < length (ag_views a)" "x \<in> touches a"
  shows "access (Byte x) Plain_Read (ag_views a ! k) m = Ok (insert (me_next m) (ag_views a ! k), logged (Byte x) Plain_Read m)"
proof -
  have "Byte x \<notin> me_dead m" using assms by (auto simp: owners_inv_def agent_ok_def bytes_alive_def)
  then show ?thesis
    using known_changes [OF held_view(3) [OF assms, unfolded changed_at_def]] by (simp add: access_def)
qed

lemma byte_write:
  assumes "owners_inv b cap U m (a # R)" "alone a" "x \<in> ag_owns a"
  shows "access (Byte x) Plain_Write (ag_views a ! 0) m = Ok (insert (me_next m) (ag_views a ! 0), logged (Byte x) Plain_Write m)"
proof -
  have "Byte x \<notin> me_dead m" using assms by (auto simp: owners_inv_def agent_ok_def bytes_alive_def touches_def)
  then show ?thesis using owned_view [OF assms] by (simp add: access_def)
qed

lemma owns_apart: "owners_inv b cap U m (a # R) \<Longrightarrow> x \<in> touches a \<Longrightarrow> c \<in> set R \<Longrightarrow> x \<notin> ag_owns c"
  "owners_inv b cap U m (a # R) \<Longrightarrow> x \<in> ag_owns a \<Longrightarrow> c \<in> set R \<Longrightarrow> x \<notin> touches c"
  by (auto simp: owners_inv_def excl_def)

text \<open>Two handles of one thread; the first takes bytes of the second over.\<close>

lemma two_of:
  assumes "i < length as" "j < length as" "i \<noteq> j"
  shows "\<exists>R. mset as = mset (as ! i # as ! j # R) \<and> (\<forall>a c. mset (as[i := a, j := c]) = mset (a # c # R))"
proof -
  have m: "mset as = add_mset (as ! i) (mset (leave i as))" using mset_leave [OF assms(1)] by simp
  have "as ! j \<in># mset (leave i as)" using nth_in_leave [of j as i] assms by simp
  then obtain R where R: "mset (leave i as) = add_mset (as ! j) (mset R)" by (metis ex_mset multi_member_split)
  have "mset (as[i := a, j := c]) = mset (a # c # R)" for a c
    using assms R m by (simp add: mset_update add_mset_commute)
  with m R show ?thesis by auto
qed

lemma owners_merge:
  assumes inv: "owners_inv b cap U m (a # c # R)" and st: "ag_stage a = Holds" and al: "alone a" "alone c"
    and sub: "S \<subseteq> ag_reads c" "E \<subseteq> ag_owns c" and V: "V = ag_views a ! 0 \<union> ag_views c ! 0"
  shows "owners_inv b cap U m
    (a\<lparr>ag_views := [V], ag_reads := ag_reads a \<union> S, ag_owns := ag_owns a \<union> E\<rparr> #
     c\<lparr>ag_views := [V], ag_owns := ag_owns c - E\<rparr> # R)" (is "owners_inv _ _ _ _ (?a # ?c # R)")
proof -
  have "owners_inv b cap U m (a\<lparr>ag_views := [V]\<rparr> # c # R)"
    using V by (intro owners_hear_alone [OF inv al(1)]) simp
  then have "owners_inv b cap U m (c # a\<lparr>ag_views := [V]\<rparr> # R)" by (rule owners_inv_perm) simp
  then have "owners_inv b cap U m (c\<lparr>ag_views := [V]\<rparr> # a\<lparr>ag_views := [V]\<rparr> # R)"
    by (rule owners_hear_alone [OF _ al(2)]) (simp add: V)
  note ok = this [unfolded owners_inv_def]
  have a: "agent_ok b cap m (a\<lparr>ag_views := [V]\<rparr>)" "agent_ok b cap m (c\<lparr>ag_views := [V]\<rparr>)" "excl a c"
    using ok inv by (auto simp: owners_inv_def)
  then have disj: "ag_reads a \<inter> E = {}" "S \<inter> ag_owns a = {}" "S \<inter> E = {}" "ag_reads c \<inter> ag_owns c = {}"
    using sub by (auto simp: excl_def touches_def agent_ok_def)
  have "agent_ok b cap m ?a"
    using a sub disj by (auto simp: agent_ok_def touches_def view_ok_def Int_Un_distrib Int_Un_distrib2)
  moreover have "agent_ok b cap m ((c\<lparr>ag_views := [V]\<rparr>)\<lparr>ag_reads := ag_reads c, ag_owns := ag_owns c - E\<rparr>)"
    using a(2) by (intro agent_ok_less) (auto simp: touches_def agent_ok_def)
  then have "agent_ok b cap m ?c" by simp
  moreover have "excl ?a d \<and> excl ?c d" if "d \<in> set R" for d
  proof -
    have "excl a d" "excl c d" using ok that by auto
    then show ?thesis using sub by (auto simp: excl_def touches_def)
  qed
  moreover have "excl ?a ?c"
    using a(3) disj sub by (auto simp: excl_def touches_def)
  moreover have "holding b U m (?a # ?c # R)" using ok st by (auto simp: holding_def Un_ac)
  ultimately show ?thesis using ok by (auto simp: owners_inv_def)
qed

lemma leave_views: "0 < k \<Longrightarrow> k < length vs \<Longrightarrow> leave k (vs[0 := vs ! 0 \<union> vs ! k]) \<noteq> []"
  by (auto simp: leave_def)

lemma leave_set: "k < length vs \<Longrightarrow> set vs = insert (vs ! k) (set (leave k vs))"
  using mset_eq_setD [OF mset_leave] by fastforce

lemma owners_return:
  assumes inv: "owners_inv b cap U m (a # R)" and k: "0 < k" "k < length (ag_views a)"
  shows "owners_inv b cap U m
    (a\<lparr>ag_views := leave k ((ag_views a)[0 := ag_views a ! 0 \<union> ag_views a ! k])\<rparr> # R)"
proof -
  let ?V = "ag_views a ! 0 \<union> ag_views a ! k" and ?vs = "(ag_views a)[0 := ag_views a ! 0 \<union> ag_views a ! k]"
  have inv': "owners_inv b cap U m (with_view a 0 ?V # R)" using k by (intro owners_hear [OF inv]) auto
  have ne: "0 < length ?vs" using k by auto
  have s: "set ?vs = insert (ag_views a ! k) (set (leave k ?vs))" using leave_set [of k ?vs] k by simp
  have "?vs ! 0 \<in> set (leave k ?vs)" using k ne by (intro nth_in_leave) auto
  then have "\<Union>(set ?vs) = \<Union>(set (leave k ?vs))" unfolding s using ne by auto
  moreover have "leave k ?vs \<noteq> []" using leave_views k by blast
  moreover have "\<exists>V \<in> set ?vs. V \<subseteq> W" if "W \<in> set (leave k ?vs)" for W
    using that leave_subset [of k ?vs] by blast
  ultimately show ?thesis
    using owners_learn [OF inv', of "leave k ?vs"] by (simp add: knows_def)
qed

text \<open>A load of the count, through any view of a handle that holds it.\<close>

lemma owners_load:
  assumes inv: "owners_inv b cap U m (a # R)" and al: "box_alive b m" and k: "k < length (ag_views a)"
    and x: "x = pick n (readable_msgs (ag_views a ! k) (me_hist m (Count b)))"
  shows "load (Count b) Acquire n (ag_views a ! k) m =
      Ok (mg_val x, insert (me_next m) (ag_views a ! k) \<union> mg_view x, logged (Count b) Atomic_Read m)"
    "owners_inv b cap U (logged (Count b) Atomic_Read m)
      (with_view a k (insert (me_next m) (ag_views a ! k) \<union> mg_view x) # R)"
proof -
  show "load (Count b) Acquire n (ag_views a ! k) m =
      Ok (mg_val x, insert (me_next m) (ag_views a ! k) \<union> mg_view x, logged (Count b) Atomic_Read m)"
    using al held_view(1) [OF inv k] x by (rule load_count)
  have "owners_inv b cap U (logged (Count b) Atomic_Read m) (with_view a k (insert (me_next m) (ag_views a ! k)) # R)"
    by (rule owners_access [OF inv k]) auto
  from owners_hear [OF this, of k "insert (me_next m) (ag_views a ! k) \<union> mg_view x"] k
  show "owners_inv b cap U (logged (Count b) Atomic_Read m)
      (with_view a k (insert (me_next m) (ag_views a ! k) \<union> mg_view x) # R)" by auto
qed

lemma owners_narrow:
  assumes inv: "owners_inv b cap U m (a # R)" and sub: "S \<subseteq> touches a" "E \<subseteq> ag_owns a" "S \<inter> E = {}"
  shows "owners_inv b cap U m (a\<lparr>ag_reads := S, ag_owns := E\<rparr> # R)"
proof -
  let ?a = "a\<lparr>ag_reads := S, ag_owns := E\<rparr>"
  note ok = inv [unfolded owners_inv_def]
  have "agent_ok b cap m ?a" using ok sub by (intro agent_ok_less) simp_all
  moreover have "excl ?a d" if "d \<in> set R" for d
  proof -
    have "excl a d" using ok that by simp
    then show ?thesis by (rule excl_less) (use sub in \<open>auto simp: touches_def\<close>)
  qed
  ultimately show ?thesis using ok by (simp add: owners_inv_def holding_def)
qed

lemma owners_claim:
  assumes inv: "owners_inv b cap U m (a # R)" and st: "ag_stage a = Holds" and al: "alone a" and U: "R = [] \<Longrightarrow> U = {}"
    and x: "x = pick n (readable_msgs (ag_views a ! 0) (me_hist m (Count b)))" "mg_val x = 1"
    and V: "V = insert (me_next m) (ag_views a ! 0) \<union> mg_view x"
  shows "owners_inv b cap U (logged (Count b) Atomic_Read m)
    (a\<lparr>ag_views := [V], ag_reads := {}, ag_owns := {..<cap}\<rparr> # R)"
proof -
  let ?m = "logged (Count b) Atomic_Read m"
  have hold: "holding b U m (a # R)" using inv st by (rule holds_holding)
  have R: "R = []" "covered b m (ag_views a ! 0 \<union> mg_view x)" using claimed_alone [OF inv st al U x] by auto
  have "U = {}" using R(1) U by blast
  have "covered b ?m V" using R(2) V by (auto intro!: covered_logged elim!: covered_mono)
  moreover have "no_stale_one b ?m V"
    using inv al V by (auto simp: owners_inv_def agent_ok_def elim!: aloneE intro: no_stale_one_mono)
  moreover have "bytes_alive cap ?m" using inv by (simp add: owners_inv_def)
  moreover have "holding b {} ?m [\<lparr>ag_views = [V], ag_reads = {}, ag_owns = {..<cap}, ag_stage = Holds\<rparr>]"
    using hold \<open>covered b ?m V\<close> R(1) by (auto simp: holding_def elim!: covered_mono)
  ultimately have "owners_inv b cap {} ?m [\<lparr>ag_views = [V], ag_reads = {}, ag_owns = {..<cap}, ag_stage = Holds\<rparr>]"
    by (intro covered_agent) auto
  moreover have "a\<lparr>ag_views := [V], ag_reads := {}, ag_owns := {..<cap}\<rparr> =
      \<lparr>ag_views = [V], ag_reads = {}, ag_owns = {..<cap}, ag_stage = Holds\<rparr>" using st by simp
  ultimately show ?thesis using R(1) \<open>U = {}\<close> by simp
qed

lemma not_holding: "owners_inv b cap U m (a # R) \<Longrightarrow> ag_stage a \<noteq> Holds \<Longrightarrow> R = [] \<and> ending (ag_stage a) b m (knows a) \<and> bytes_alive cap m"
  by (auto simp: owners_inv_def holding_def)

lemma owners_fence:
  assumes inv: "owners_inv b cap U m (a # R)" and st: "ag_stage a = Last v" and al: "alone a"
    and V: "V = insert (me_next m) (ag_views a ! 0) \<union> mg_view (newest b m)"
  shows "load (Count b) Acquire n (ag_views a ! 0) m = Ok (mg_val (newest b m), V, logged (Count b) Atomic_Read m)"
    "owners_inv b cap U (logged (Count b) Atomic_Read m) (a\<lparr>ag_views := [V], ag_stage := Fenced v\<rparr> # R)"
proof -
  have e: "R = []" "box_alive b m" "mg_event (newest b m) \<in> ag_views a ! 0" "covered b m (ag_views a ! 0 \<union> mg_view (newest b m))"
    using not_holding [OF inv] st al by (auto elim!: aloneE)
  have k: "0 < length (ag_views a)" using al by (simp add: alone_def)
  have x: "newest b m = pick n (readable_msgs (ag_views a ! 0) (me_hist m (Count b)))"
    using e(2,3) by (simp add: pick_known box_alive_def newest_def)
  note l = owners_load [OF inv e(2) k x]
  show "load (Count b) Acquire n (ag_views a ! 0) m = Ok (mg_val (newest b m), V, logged (Count b) Atomic_Read m)"
    using l(1) V by simp
  have "covered b (logged (Count b) Atomic_Read m) V" using e(4) V by (auto intro!: covered_logged elim!: covered_mono)
  then show "owners_inv b cap U (logged (Count b) Atomic_Read m) (a\<lparr>ag_views := [V], ag_stage := Fenced v\<rparr> # R)"
    using l(2) e(1,2) V by (auto simp: owners_inv_def with_view_alone [OF al] agent_ok_def)
qed

lemma owners_free:
  assumes inv: "owners_inv b cap U m (a # R)" and st: "ag_stage a = Fenced v" and al: "alone a"
  shows "\<exists>V m'. free_at b cap v (ag_views a ! 0) m = Ok (V, m') \<and> R = [] \<and>
    owners_inv b cap U m' (if v then [a\<lparr>ag_views := [V], ag_reads := {}, ag_owns := {..<cap}, ag_stage := Vector\<rparr>] else [])"
proof -
  have e: "R = []" "box_alive b m" "covered b m (ag_views a ! 0)" "bytes_alive cap m"
    using not_holding [OF inv] st al by (auto elim!: aloneE)
  let ?V = "insert (me_next m) (ag_views a ! 0)" and ?m = "logged (Fields b) Plain_Read m"
  let ?ls = "(if v then [] else map Byte [0..<cap]) @ [Count b, Fields b]"
  have "access (Fields b) Plain_Read (ag_views a ! 0) m = Ok (?V, ?m)"
    using inv al e(2) by (intro fields_read) (auto simp: box_alive_def alone_def)
  moreover have c: "covered b ?m ?V" using e(3) by (auto intro!: covered_logged elim!: covered_mono)
  have "\<exists>V' m'. free_all ?ls ?V ?m = Ok (V', m') \<and> ?V \<subseteq> V' \<and> covered b m' V' \<and> me_dead m' = me_dead ?m \<union> set ?ls \<and> me_hist m' = me_hist ?m"
    using e by (intro free_all_covered [OF c]) (auto simp: distinct_map inj_on_def box_alive_def bytes_alive_def)
  then obtain V' m' where f: "free_all ?ls ?V ?m = Ok (V', m')" "?V \<subseteq> V'" "covered b m' V'"
    "me_dead m' = me_dead m \<union> set ?ls" "me_hist m' = me_hist m" by auto
  ultimately have "free_at b cap v (ag_views a ! 0) m = Ok (V', m')" by (simp add: free_at_def)
  moreover have "owners_inv b cap U m' [a\<lparr>ag_views := [V'], ag_reads := {}, ag_owns := {..<cap}, ag_stage := Vector\<rparr>]" if v
  proof -
    have n: "no_stale_one b m' V'"
      using inv al f(2,5) no_stale_one_mono [of b m "knows a" V']
      by (auto simp: owners_inv_def agent_ok_def no_stale_one_def elim!: aloneE)
    have "bytes_alive cap m'" using e(4) f(4) that by (auto simp: bytes_alive_def)
    then have "owners_inv b cap {} m' [\<lparr>ag_views = [V'], ag_reads = {}, ag_owns = {..<cap}, ag_stage = Vector\<rparr>]"
      using f(3,4) n by (intro covered_agent) (auto simp: box_freed_def)
    moreover have "\<lparr>ag_views = [V'], ag_reads = {}, ag_owns = {..<cap}, ag_stage = Vector\<rparr> =
        a\<lparr>ag_views := [V'], ag_reads := {}, ag_owns := {..<cap}, ag_stage := Vector\<rparr>" by simp
    ultimately show ?thesis by (auto simp: owners_inv_def holding_def)
  qed
  moreover have "owners_inv b cap U m' []" if "\<not> v"
    using f(4) that by (auto simp: owners_inv_def box_freed_def bytes_freed_def)
  ultimately show ?thesis using e(1) by auto
qed

lemma owners_drop_vec:
  assumes inv: "owners_inv b cap U m (a # R)" and st: "ag_stage a = Vector" and al: "alone a"
  shows "R = [] \<and> (\<exists>V m'. free_all (map Byte [0..<cap]) (ag_views a ! 0) m = Ok (V, m') \<and> owners_inv b cap U m' [])"
proof -
  have e: "R = []" "covered b m (ag_views a ! 0)" "bytes_alive cap m" "box_freed b m"
    using not_holding [OF inv] st al by (auto elim!: aloneE)
  have "\<exists>V' m'. free_all (map Byte [0..<cap]) (ag_views a ! 0) m = Ok (V', m') \<and> ag_views a ! 0 \<subseteq> V' \<and>
      covered b m' V' \<and> me_dead m' = me_dead m \<union> set (map Byte [0..<cap]) \<and> me_hist m' = me_hist m"
    using e(3) by (intro free_all_covered [OF e(2)]) (auto simp: distinct_map inj_on_def bytes_alive_def)
  with e(1,4) show ?thesis by (fastforce simp: owners_inv_def box_freed_def bytes_freed_def)
qed

lemma leave_empty: "leave i xs = [] \<Longrightarrow> i < length xs \<Longrightarrow> xs[i := x] = [x]"
  using length_leave [of i xs] by (cases xs) (auto simp: length_Suc_conv)

lemma act_proceeds:
  assumes inv: "owners_inv b cap U (ow_mem s) (ow_agents s)" and al: "allows t (ow_agents s)"
    and U: "length (ow_agents s) = 1 \<Longrightarrow> U = {}"
  shows "proceeds b cap U (perform b cap t s)"
proof -
  let ?as = "ow_agents s" and ?m = "ow_mem s"
  have pick: "owners_inv b cap U ?m (?as ! i # leave i ?as)" if "i < length ?as" for i
    using owners_pick [OF inv that] .
  have alive: "box_alive b ?m" if "i < length ?as" "ag_stage (?as ! i) = Holds" for i
    using holds_holding [OF pick [OF that(1)] that(2)] by (simp add: holding_def)
  have one: "U = {}" if "i < length ?as" "leave i ?as = []" for i
    using U length_leave [OF that(1)] that(2) by simp
  show ?thesis
  proof (cases t)
    case (Read i k x)
    then have a: "i < length ?as" "k < length (ag_views (?as ! i))" "x \<in> touches (?as ! i)"
      using al by (auto simp: lent_to_def touches_def)
    have "owners_inv b cap U (logged (Byte x) Plain_Read ?m)
      (with_view (?as ! i) k (insert (me_next ?m) (ag_views (?as ! i) ! k)) # leave i ?as)"
      using a owns_apart(1) [OF pick [OF a(1)] a(3)] by (intro owners_access [OF pick]) auto
    with in_view_proceeds [where f = "access (Byte x) Plain_Read", OF a(1) byte_read [OF pick [OF a(1)] a(2,3)]] show ?thesis by (simp add: Read)
  next
    case (Write i x)
    then have a: "i < length ?as" "alone (?as ! i)" "x \<in> ag_owns (?as ! i)" "x \<in> touches (?as ! i)" "0 < length (ag_views (?as ! i))"
      using al by (auto simp: touches_def alone_def)
    have "owners_inv b cap U (logged (Byte x) Plain_Write ?m)
      (with_view (?as ! i) 0 (insert (me_next ?m) (ag_views (?as ! i) ! 0)) # leave i ?as)"
      using a owns_apart(1) [OF pick [OF a(1)] a(4)] owns_apart(2) [OF pick [OF a(1)] a(3)]
      by (intro owners_access [OF pick]) auto
    with in_view_proceeds [where f = "access (Byte x) Plain_Write", OF a(1) byte_write [OF pick [OF a(1)] a(2,3)]] show ?thesis by (simp add: Write)
  next
    case (Get_Fields i k)
    then have a: "i < length ?as" "k < length (ag_views (?as ! i))" "Fields b \<notin> me_dead ?m"
      using al alive [of i] by (auto simp: lent_to_def box_alive_def)
    have "owners_inv b cap U (logged (Fields b) Plain_Read ?m)
      (with_view (?as ! i) k (insert (me_next ?m) (ag_views (?as ! i) ! k)) # leave i ?as)"
      using a by (intro owners_access [OF pick]) auto
    with in_view_proceeds [where f = "access (Fields b) Plain_Read", OF a(1) fields_read [OF pick [OF a(1)] a(2,3)]] show ?thesis by (simp add: Get_Fields)
  next
    case (Hear i k W)
    then have a: "i < length ?as" "k < length (ag_views (?as ! i))" using al by (auto simp: lent_to_def)
    then show ?thesis
      using in_view_proceeds [where f = "\<lambda>V m. Ok (V \<union> W, m)", OF a(1)] owners_hear [OF pick [OF a(1)] a(2)] by (simp add: Hear)
  next
    case (Check i k n)
    then have a: "i < length ?as" "k < length (ag_views (?as ! i))" "box_alive b ?m"
      using al alive [of i] by (auto simp: lent_to_def)
    from owners_load [OF pick [OF a(1)] a(3,2) refl, of n] show ?thesis
      using in_view_proceeds [where f = "\<lambda>V m. rbind (is_unique_at b n V m) (\<lambda>(_, V, m). Ok (V, m))", OF a(1)]
      by (simp add: Check is_unique_at_def)
  next
    case (Lend i k)
    then have a: "i < length ?as" "k < length (ag_views (?as ! i))" using al by (auto simp: lent_to_def)
    have "owners_inv b cap U ?m ((?as ! i)\<lparr>ag_views := ag_views (?as ! i) @ [ag_views (?as ! i) ! k]\<rparr> # leave i ?as)"
      using a(2) by (intro owners_learn [OF pick [OF a(1)]]) (auto simp: knows_def)
    from owners_put [OF this a(1)] show ?thesis by (simp add: Lend proceeds_def Let_def)
  next
    case (Return i k)
    then have a: "i < length ?as" "0 < k" "k < length (ag_views (?as ! i))" using al by (auto simp: lent_to_def)
    from owners_put [OF owners_return [OF pick [OF a(1)] a(2,3)] a(1)] show ?thesis
      by (simp add: Return proceeds_def Let_def)
  next
    case (Share i k S E)
    then have a: "i < length ?as" "k < length (ag_views (?as ! i))" "ag_stage (?as ! i) = Holds"
      "S \<subseteq> ag_reads (?as ! i)" "E \<subseteq> ag_owns (?as ! i)" "E = {} \<or> alone (?as ! i)"
      using al by (auto simp: lent_to_def)
    show ?thesis
    proof (cases "unat (mg_val (newest b ?m)) \<le> isize_max")
      case True
      note rmw = rmw_count [OF alive [OF a(1,3)] held_view(1) [OF pick [OF a(1)] a(2)], of Relaxed]
      note inc = owners_increment [OF pick [OF a(1)] a(3,2,4-6) True refl refl]
      have "owners_inv b cap U m' (?as[i := x] @ [c])" if "owners_inv b cap U m' (x # c # leave i ?as)" for m' x c
        using that by (rule owners_inv_perm) (use a(1) mset_put [OF a(1), of x] in simp)
      from this [OF inc] True show ?thesis by (simp add: Share increment_at_def rmw proceeds_def Let_def)
    next
      case False
      with rmw_count [OF alive [OF a(1,3)] held_view(1) [OF pick [OF a(1)] a(2)], of Relaxed] show ?thesis
        by (simp add: Share increment_at_def proceeds_def Let_def)
    qed
  next
    case (Narrow i S E)
    then have a: "i < length ?as" "S \<subseteq> touches (?as ! i)" "E \<subseteq> ag_owns (?as ! i)" "S \<inter> E = {}"
      using al by (auto simp: touches_def)
    from owners_put [OF owners_narrow [OF pick [OF a(1)] a(2-4)] a(1)] show ?thesis by (simp add: Narrow proceeds_def)
  next
    case (Merge i j S E)
    then have a: "i < length ?as" "j < length ?as" "i \<noteq> j" "alone (?as ! i)" "alone (?as ! j)" "ag_stage (?as ! i) = Holds"
      "S \<subseteq> ag_reads (?as ! j)" "E \<subseteq> ag_owns (?as ! j)"
      using al by auto
    from two_of [OF a(1-3)] obtain R where R: "mset ?as = mset (?as ! i # ?as ! j # R)"
      "\<And>x y. mset (x # y # R) = mset (?as[i := x, j := y])" by metis
    from owners_merge [OF owners_inv_perm [OF inv R(1)] a(6,4,5,7,8) refl] owners_inv_perm [OF _ R(2)]
    show ?thesis by (simp add: Merge proceeds_def Let_def)
  next
    case (Claim i n)
    then have a: "i < length ?as" "ag_stage (?as ! i) = Holds" "alone (?as ! i)" "0 < length (ag_views (?as ! i))"
      using al by (auto simp: alone_def)
    note l = owners_load [OF pick [OF a(1)] alive [OF a(1,2)] a(4) refl, of n]
    note c = owners_claim [OF pick [OF a(1)] a(2,3) one [OF a(1)] refl _ refl, of n]
    from owners_put [OF l(2) a(1)] owners_put [OF c a(1)] show ?thesis
      by (auto simp: Claim proceeds_def Let_def is_unique_at_def l(1) with_view_alone [OF a(3)])
  next
    case (Decrement i v)
    then have a: "i < length ?as" "ag_stage (?as ! i) = Holds" "alone (?as ! i)" "0 < length (ag_views (?as ! i))"
      using al by (auto simp: alone_def)
    note rmw = rmw_count [OF alive [OF a(1,2)] held_view(1) [OF pick [OF a(1)] a(4)], of Release]
    note d = owners_decrement [OF pick [OF a(1)] a(2,3) one [OF a(1)] refl refl, of v]
    show ?thesis
    proof (cases "mg_val (newest b ?m) = 1")
      case True
      have "leave i ?as = []"
        using holds_holding [OF pick [OF a(1)] a(2)] True by (simp add: holding_def del: length_leave)
      from leave_empty [OF this a(1)] d True show ?thesis
        by (simp add: Decrement decrement_at_def rmw proceeds_def Let_def)
    next
      case False
      with d show ?thesis by (simp add: Decrement decrement_at_def rmw proceeds_def Let_def)
    qed
  next
    case (Fence i n)
    then obtain v where a: "i < length ?as" "ag_stage (?as ! i) = Last v" "alone (?as ! i)" using al by auto
    note f = owners_fence [OF pick [OF a(1)] a(2,3) refl]
    from owners_put [OF f(2) a(1)] a(2) show ?thesis
      by (simp add: Fence fence_at_def f(1) proceeds_def Let_def)
  next
    case (Free i)
    then obtain v where a: "i < length ?as" "ag_stage (?as ! i) = Fenced v" "alone (?as ! i)" using al by auto
    from owners_free [OF pick [OF a(1)] a(2,3)] leave_empty [OF _ a(1)] a(2) show ?thesis
      by (cases v) (auto simp: Free proceeds_def Let_def)
  next
    case (Drop_Vec i)
    then have a: "i < length ?as" "ag_stage (?as ! i) = Vector" "alone (?as ! i)" using al by auto
    from owners_drop_vec [OF pick [OF a(1)] a(2,3)] show ?thesis by (auto simp: Drop_Vec proceeds_def)
  qed
qed

subsection \<open>No race\<close>

text \<open>The box is new, the promoting thread knows of every access of the buffer, and the handles are handed out by it.\<close>

definition new_box :: "usize \<Rightarrow> loc mem \<Rightarrow> bool" where
  "new_box b m \<longleftrightarrow> (\<forall>l \<in> {Count b, Fields b}. l \<notin> me_dead m \<and> l \<notin> (fst \<circ> snd) ` set (me_log m))"

definition whole_buffer :: "nat \<Rightarrow> known_events \<Rightarrow> loc mem \<Rightarrow> bool" where
  "whole_buffer cap V m \<longleftrightarrow> bytes_alive cap m \<and> (\<forall>x. known m (Byte x) (\<lambda>_. True) V)"

definition handed_out :: "nat \<Rightarrow> known_events \<Rightarrow> nat \<Rightarrow> agent list \<Rightarrow> bool" where
  "handed_out cap V n as \<longleftrightarrow> length as = n \<and> 0 < n \<and> sorted_wrt excl as \<and>
     (\<forall>a \<in> set as. ag_views a = [V] \<and> ag_stage a = Holds \<and> touches a \<subseteq> {..<cap} \<and> ag_reads a \<inter> ag_owns a = {})"

lemma new_box_known: "new_box b m \<Longrightarrow> known m (Count b) K V" "new_box b m \<Longrightarrow> known m (Fields b) K V"
  by (force simp: new_box_def known_def)+

lemma promote_covered:
  assumes "new_box b m0" "whole_buffer cap V m0"
  shows "\<exists>V' m. promote_at b rc V m0 = Ok (V', m) \<and> V \<subseteq> V' \<and> covered b m V' \<and> box_alive b m \<and> bytes_alive cap m \<and>
    me_hist m (Count b) = [\<lparr>mg_val = rc, mg_event = me_next m0, mg_view = {}\<rparr>]"
  using assms new_box_known [OF assms(1)]
  by (auto simp: promote_at_def atomic_new_def access_def covered_def whole_buffer_def box_alive_def bytes_alive_def
      new_box_def intro: known_mono)

lemma promote_inv:
  assumes "new_box b m0" "whole_buffer cap V m0" "promote_at b rc V m0 = Ok (V', m)" "handed_out cap V' (unat rc) as"
  shows "owners_inv b cap {} m as"
proof -
  have m: "covered b m V'" "box_alive b m" "bytes_alive cap m"
    "me_hist m (Count b) = [\<lparr>mg_val = rc, mg_event = me_next m0, mg_view = {}\<rparr>]"
    using promote_covered [OF assms(1,2), of rc] assms(3) by auto
  have "as \<noteq> []" "length as = unat rc" using assms(4) by (auto simp: handed_out_def)
  moreover have k: "knows a = V'" if "a \<in> set as" for a using assms(4) that by (simp add: handed_out_def knows_def)
  moreover have "covered b m (\<Union>(knows ` set as))"
    using m(1) k \<open>as \<noteq> []\<close> by (auto elim!: covered_mono)
  moreover have "agent_ok b cap m a" if "a \<in> set as" for a
    using assms(4) m k that
    by (auto simp: handed_out_def agent_ok_def view_ok_def changed_at_def covered_def no_stale_one_def elim: known_weaken)
  ultimately show ?thesis
    using assms(4) m by (auto simp: owners_inv_def holding_def handed_out_def newest_def)
qed

lemma acted_inv: "acted b cap s0 s \<Longrightarrow> owners_inv b cap {} (ow_mem s0) (ow_agents s0) \<Longrightarrow> owners_inv b cap {} (ow_mem s) (ow_agents s)"
proof (induction rule: acted.induct)
  case (step s t s')
  then show ?case using act_proceeds [of b cap "{}" s t] by (simp add: proceeds_def)
qed

fun performs :: "usize \<Rightarrow> nat \<Rightarrow> action list \<Rightarrow> owners \<Rightarrow> owners res" where
  "performs b cap [] s = Ok s"
| "performs b cap (t # ts) s = (if allows t (ow_agents s) then rbind (perform b cap t s) (performs b cap ts) else Panic)"

lemma acted_acts: "acted b cap s0 s \<Longrightarrow> performs b cap ts s = Ok s' \<Longrightarrow> acted b cap s0 s'"
  by (induction ts arbitrary: s) (auto split: if_splits intro: acted.step)

text \<open>A vector of two bytes is split; the second half is written and dropped by another thread.\<close>

definition no_mem :: "loc mem" where
  "no_mem = \<lparr>me_next = 0, me_log = [], me_hist = (\<lambda>_. []), me_dead = {}\<rparr>"

definition demo_log :: "(nat \<times> loc \<times> sort) list" where
  "demo_log = [(1, Fields 0, Plain_Write), (0, Count 0, Plain_Write)]"

definition demo_whole :: owners where
  "demo_whole = \<lparr>
     ow_mem = \<lparr>me_next = 2, me_log = demo_log,
       me_hist = (\<lambda>_. [])(Count 0 := [\<lparr>mg_val = 1, mg_event = 0, mg_view = {}\<rparr>]), me_dead = {}\<rparr>,
     ow_agents = [\<lparr>ag_views = [{0, 1}], ag_reads = {}, ag_owns = {0, 1}, ag_stage = Holds\<rparr>]\<rparr>"

definition demo_calls :: "action list" where
  "demo_calls = [Write 0 1, Share 0 0 {} {1}, Write 1 1, Decrement 1 False]"

definition demo_rest :: owners where
  "demo_rest = \<lparr>
     ow_mem = \<lparr>me_next = 6,
       me_log = [(5, Count 0, Atomic_Write), (4, Byte 1, Plain_Write), (3, Count 0, Atomic_Write), (2, Byte 1, Plain_Write)] @ demo_log,
       me_hist = (\<lambda>_. [])(Count 0 := [\<lparr>mg_val = 1, mg_event = 5, mg_view = {0, 1, 2, 3, 4, 5}\<rparr>,
         \<lparr>mg_val = 2, mg_event = 3, mg_view = {}\<rparr>, \<lparr>mg_val = 1, mg_event = 0, mg_view = {}\<rparr>]), me_dead = {}\<rparr>,
     ow_agents = [\<lparr>ag_views = [{0, 1, 2, 3}], ag_reads = {}, ag_owns = {0}, ag_stage = Holds\<rparr>]\<rparr>"

lemmas act_simps = Let_def in_view_def lent_to_def alone_def usable_def increment_at_def decrement_at_def fence_at_def
  is_unique_at_def free_at_def load_def load_from_def rmw_def access_def atomic_new_def promote_at_def known_def logged_def
  pick_def leave_def no_mem_def demo_log_def demo_whole_def demo_rest_def demo_calls_def isize_max_def

lemma demo_promote: "promote_at 0 1 {} no_mem = Ok ({0, 1}, ow_mem demo_whole)"
  by (simp add: act_simps insert_commute)

lemma demo_acts: "performs 0 2 demo_calls demo_whole = Ok demo_rest"
  by (simp add: act_simps insert_commute) auto
lemma demo_start: "new_box 0 no_mem" "whole_buffer 2 {} no_mem" "handed_out 2 {0, 1} (unat (1 :: usize)) (ow_agents demo_whole)"
  by (auto simp: new_box_def whole_buffer_def bytes_alive_def handed_out_def touches_def act_simps)

lemma demo_acted: "acted 0 2 \<lparr>ow_mem = ow_mem demo_whole, ow_agents = ow_agents demo_whole\<rparr> demo_rest"
proof -
  have "\<lparr>ow_mem = ow_mem demo_whole, ow_agents = ow_agents demo_whole\<rparr> = demo_whole" by simp
  with acted_acts [OF acted.start, OF demo_acts] show ?thesis by metis
qed

text \<open>C5: 
  However the handles of a promoted buffer are used, by whatever threads, and whatever messages their loads take: no
  access races with another or touches freed memory, and when the last handle is gone the box and the buffer are freed.
\<close>

theorem orders_race_free:
  assumes "new_box b m0" "whole_buffer cap V m0" "promote_at b rc V m0 = Ok (V', m)" "handed_out cap V' (unat rc) as"
    and "acted b cap \<lparr>ow_mem = m, ow_agents = as\<rparr> s" "allows t (ow_agents s)"
  shows "case perform b cap t s of
      Ok s' \<Rightarrow> ow_agents s' = [] \<longrightarrow> box_freed b (ow_mem s') \<and> bytes_freed cap (ow_mem s')
    | r \<Rightarrow> r = Abort"
proof -
  have "owners_inv b cap {} (ow_mem s) (ow_agents s)"
    using acted_inv [OF assms(5)] promote_inv [OF assms(1-4)] by simp
  from act_proceeds [OF this assms(6)] show ?thesis
    by (auto simp: proceeds_def owners_inv_def holding_def box_alive_def newest_def split: res.splits)
qed

theorem orders_race_free_witness: "perform 0 2 (Claim 0 0) demo_rest \<noteq> UB"
proof -
  have "allows (Claim 0 0) (ow_agents demo_rest)" by (simp add: demo_rest_def alone_def)
  from orders_race_free [OF demo_start(1,2) demo_promote demo_start(3) demo_acted this] show ?thesis by auto
qed


end
