(* ===== verification/Publish_Orders.thy ===== *)
theory Publish_Orders
  imports Owner_Orders Promotion
begin

text \<open>
  Cloning through a shared reference, under the orderings of \<open>src/bytes/bytes.rs\<close>. Threads that borrow one unpromoted
  \<open>Bytes\<close> load its word, box the vector, publish the box by a compare-exchange or give it up, and count themselves in;
  meanwhile the clones are used and dropped as in \<open>Owner_Orders\<close>. With an acquiring load nothing races, and the
  handle and its clones are afterwards what \<open>Owner_Orders\<close> starts from. With the relaxed load of the code a
  thread may find the box without its initialisation.
\<close>

subsection \<open>The calls\<close>

text \<open>A thread that borrows the handle, in a call of \<open>clone\<close> (the turns of \<open>Promotion\<close>) or of \<open>is_unique\<close>.\<close>

record caller =
  cl_view :: known_events
  cl_pc :: clone_pc

record lent_out =
  lo_owners :: owners
  lo_callers :: "caller list"

abbreviation lo_mem :: "lent_out \<Rightarrow> loc mem" where
  "lo_mem s \<equiv> ow_mem (lo_owners s)"

abbreviation lo_agents :: "lent_out \<Rightarrow> agent list" where
  "lo_agents s \<equiv> ow_agents (lo_owners s)"

text \<open>The ordering of the load of \<open>data\<close> in \<open>clone_inner\<close> and \<open>is_unique\<close>.\<close>

definition data_order :: ordering where
  "data_order = Relaxed"

definition release_at :: "usize \<Rightarrow> nat \<Rightarrow> nat \<Rightarrow> known_events \<Rightarrow> loc mem \<Rightarrow> (known_events \<times> loc mem) res" where
  "release_at b cap n V m =
     rbind (decrement_at b V m) (\<lambda>(last, V, m).
       if last then rbind (fence_at b n V m) (\<lambda>(V, m). free_at b cap False V m) else Ok (V, m))"

definition moved :: "nat \<Rightarrow> clone_pc \<Rightarrow> known_events \<Rightarrow> loc mem \<Rightarrow> lent_out \<Rightarrow> lent_out" where
  "moved i pc V m s =
     s\<lparr>lo_owners := (lo_owners s)\<lparr>ow_mem := m\<rparr>, lo_callers := (lo_callers s)[i := \<lparr>cl_view = V, cl_pc = pc\<rparr>]\<rparr>"

text \<open>The clone reads the bytes \<open>S\<close> of the lent handle.\<close>

definition hand_clone :: "nat set \<Rightarrow> nat \<Rightarrow> known_events \<Rightarrow> loc mem \<Rightarrow> lent_out \<Rightarrow> lent_out" where
  "hand_clone S i V m s =
     (let c = \<lparr>ag_views = [V], ag_reads = S, ag_owns = {}, ag_stage = Holds\<rparr>
      in (moved i Start V m s)\<lparr>lo_owners := \<lparr>ow_mem = m, ow_agents = lo_agents s @ [c]\<rparr>\<rparr>)"

text \<open>\<open>n\<close> chooses the message of a load; \<open>a\<close> is the address at which the allocator places a new box.\<close>

definition clone_at :: "ordering \<Rightarrow> nat set \<Rightarrow> nat \<Rightarrow> nat \<Rightarrow> nat \<Rightarrow> usize \<Rightarrow> lent_out \<Rightarrow> lent_out res" where
  "clone_at r S cap i n a s =
     (let V = cl_view (lo_callers s ! i); m = lo_mem s
      in case cl_pc (lo_callers s ! i) of
        Start \<Rightarrow> rbind (load Data r n V m) (\<lambda>(shared, V, m). Ok (moved i (Loaded shared) V m s))
      | Loaded shared \<Rightarrow>
          if shared = 0 then Ok (moved i Start V m s)
          else if is_unpromoted shared
          then rbind (promote_at a 2 V m) (\<lambda>(V, m). Ok (moved i (Boxed shared a) V m s))
          else rbind (increment_at shared V m) (\<lambda>(V, m). Ok (hand_clone S i V m s))
      | Boxed shared new_shared \<Rightarrow>
          rbind (compare_exchange Data shared new_shared AcqRel Acquire n V m) (\<lambda>(x, V, m).
            case x of
              Inl _ \<Rightarrow> Ok (hand_clone S i V m s)
            | Inr promoted_shared \<Rightarrow>
                rbind (rassert (new_shared \<noteq> promoted_shared)) (\<lambda>_.
                rbind (rassert (is_promoted promoted_shared)) (\<lambda>_.
                Ok (moved i (Lost new_shared promoted_shared) V m s))))
      | Lost new_shared promoted_shared \<Rightarrow>
          rbind (release_at new_shared cap n V m) (\<lambda>(V, m). Ok (moved i (Released promoted_shared) V m s))
      | Released promoted_shared \<Rightarrow>
          rbind (increment_at promoted_shared V m) (\<lambda>(V, m). Ok (hand_clone S i V m s)))"

text \<open>The rest of \<open>is_unique\<close> after its load of \<open>data\<close>.\<close>

definition ask_at :: "nat \<Rightarrow> nat \<Rightarrow> lent_out \<Rightarrow> lent_out res" where
  "ask_at i n s =
     (let V = cl_view (lo_callers s ! i); m = lo_mem s
      in case cl_pc (lo_callers s ! i) of
        Loaded shared \<Rightarrow>
          if shared = 0 \<or> is_unpromoted shared then Ok (moved i Start V m s)
          else rbind (is_unique_at shared n V m) (\<lambda>(_, V, m). Ok (moved i Start V m s))
      | _ \<Rightarrow> Ok s)"

text \<open>The box that the handle's word points to.\<close>

definition published :: "loc mem \<Rightarrow> usize" where
  "published m = mg_val (hd (me_hist m Data))"

datatype event = CloneTurn nat nat usize | Ask nat nat | Peek nat nat | Overhear nat known_events | Own action

fun occur :: "ordering \<Rightarrow> nat set \<Rightarrow> nat \<Rightarrow> event \<Rightarrow> lent_out \<Rightarrow> lent_out res" where
  "occur r S cap (CloneTurn i n a) s = clone_at r S cap i n a s"
| "occur r S cap (Ask i n) s = ask_at i n s"
| "occur r S cap (Peek i x) s =
     rbind (access (Byte x) Plain_Read (cl_view (lo_callers s ! i)) (lo_mem s)) (\<lambda>(V, m).
     Ok (moved i (cl_pc (lo_callers s ! i)) V m s))"
| "occur r S cap (Overhear i W) s =
     Ok (moved i (cl_pc (lo_callers s ! i)) (cl_view (lo_callers s ! i) \<union> W) (lo_mem s) s)"
| "occur r S cap (Own t) s = rbind (perform (published (lo_mem s)) cap t (lo_owners s)) (\<lambda>w. Ok (s\<lparr>lo_owners := w\<rparr>))"

text \<open>The allocator's contract, and what the types allow.\<close>

fun possible :: "nat set \<Rightarrow> event \<Rightarrow> lent_out \<Rightarrow> bool" where
  "possible S (CloneTurn i n a) s \<longleftrightarrow> i < length (lo_callers s) \<and> is_promoted a \<and> a \<noteq> 0 \<and> new_box a (lo_mem s)"
| "possible S (Ask i n) s \<longleftrightarrow> i < length (lo_callers s)"
| "possible S (Peek i x) s \<longleftrightarrow> i < length (lo_callers s) \<and> x \<in> S"
| "possible S (Overhear i W) s \<longleftrightarrow> i < length (lo_callers s)"
| "possible S (Own t) s \<longleftrightarrow> allows t (lo_agents s)"

inductive occurred :: "ordering \<Rightarrow> nat set \<Rightarrow> nat \<Rightarrow> lent_out \<Rightarrow> lent_out \<Rightarrow> bool" for r S cap s0 where
  start: "occurred r S cap s0 s0"
| step: "occurred r S cap s0 s \<Longrightarrow> possible S t s \<Longrightarrow> occur r S cap t s = Ok s' \<Longrightarrow> occurred r S cap s0 s'"

text \<open>
  A handle with the word \<open>d\<close>, lent to \<open>k\<close> threads by an owner that knows of all accesses of the buffer.
\<close>

definition lent_start :: "usize \<Rightarrow> known_events \<Rightarrow> loc mem \<Rightarrow> nat \<Rightarrow> lent_out" where
  "lent_start d V m k =
     \<lparr>lo_owners = \<lparr>ow_mem = m, ow_agents = []\<rparr>, lo_callers = replicate k \<lparr>cl_view = V, cl_pc = Start\<rparr>\<rparr>"

definition unpromoted_at :: "usize \<Rightarrow> nat \<Rightarrow> known_events \<Rightarrow> loc mem \<Rightarrow> bool" where
  "unpromoted_at d cap V m \<longleftrightarrow> is_unpromoted d \<and> whole_buffer cap V m \<and> Data \<notin> me_dead m \<and> known m Data plain V \<and>
     (\<exists>x. me_hist m Data = [x] \<and> mg_val x = d)"

subsection \<open>The invariant\<close>

text \<open>What one caller's progress means: \<open>d\<close> is the unpromoted word, \<open>pb\<close> the published box, if any.\<close>

definition private_box :: "loc mem \<Rightarrow> known_events \<Rightarrow> usize \<Rightarrow> bool" where
  "private_box m V a \<longleftrightarrow> is_promoted a \<and> a \<noteq> 0 \<and> \<not> new_box a m \<and> Count a \<notin> me_dead m \<and> Fields a \<notin> me_dead m \<and>
     (\<exists>x. me_hist m (Count a) = [x] \<and> mg_val x = 2) \<and> known m (Count a) (\<lambda>_. True) V \<and> known m (Fields a) (\<lambda>_. True) V"

fun pc_fits :: "usize \<Rightarrow> usize option \<Rightarrow> loc mem \<Rightarrow> known_events \<Rightarrow> clone_pc \<Rightarrow> bool" where
  "pc_fits d pb m V Start = True"
| "pc_fits d pb m V (Loaded w) \<longleftrightarrow> w = d \<or> pb = Some w"
| "pc_fits d pb m V (Boxed w a) \<longleftrightarrow> w = d \<and> private_box m V a"
| "pc_fits d pb m V (Lost a p) \<longleftrightarrow> pb = Some p \<and> private_box m V a"
| "pc_fits d pb m V (Released p) \<longleftrightarrow> pb = Some p"

fun own_box :: "clone_pc \<Rightarrow> usize option" where
  "own_box (Boxed w a) = Some a"
| "own_box (Lost a p) = Some a"
| "own_box _ = None"

text \<open>Callers that found the published box; they have what its message carries.\<close>

fun synced :: "usize option \<Rightarrow> clone_pc \<Rightarrow> bool" where
  "synced pb (Loaded w) \<longleftrightarrow> pb = Some w"
| "synced pb (Lost a p) = True"
| "synced pb (Released p) = True"
| "synced pb _ = False"

definition caller_ok :: "usize \<Rightarrow> usize option \<Rightarrow> nat set \<Rightarrow> loc mem \<Rightarrow> caller \<Rightarrow> bool" where
  "caller_ok d pb S m c \<longleftrightarrow>
     known m Data plain (cl_view c) \<and> (\<forall>x \<in> S. changed_at m x (cl_view c)) \<and> pc_fits d pb m (cl_view c) (cl_pc c) \<and>
     (own_box (cl_pc c) \<noteq> None \<longrightarrow> own_box (cl_pc c) \<noteq> pb) \<and>
     (synced pb (cl_pc c) \<longrightarrow> mg_view (hd (me_hist m Data)) \<subseteq> cl_view c)"

definition boxes_apart :: "caller list \<Rightarrow> bool" where
  "boxes_apart cs \<longleftrightarrow> (\<forall>i < length cs. \<forall>j < length cs. \<forall>a.
     own_box (cl_pc (cs ! i)) = Some a \<longrightarrow> own_box (cl_pc (cs ! j)) = Some a \<longrightarrow> i = j)"

definition all_seen :: "lent_out \<Rightarrow> known_events" where
  "all_seen s = \<Union>(cl_view ` set (lo_callers s))"

abbreviation lent_agent :: "nat set \<Rightarrow> known_events list \<Rightarrow> agent" where
  "lent_agent S vs \<equiv> \<lparr>ag_views = vs, ag_reads = S, ag_owns = {}, ag_stage = Holds\<rparr>"

text \<open>The lent handle is a handle of the published box; the views it is used through are among those of the callers.\<close>

definition lent_box :: "usize \<Rightarrow> nat \<Rightarrow> nat set \<Rightarrow> known_events \<Rightarrow> loc mem \<Rightarrow> agent list \<Rightarrow> known_events list \<Rightarrow> bool" where
  "lent_box b cap S U m as vs \<longleftrightarrow>
     mg_view (hd (me_hist m Data)) \<in> set vs \<and> \<Union>(set vs) \<subseteq> U \<and> owners_inv b cap U m (lent_agent S vs # as)"

definition shared_ok :: "usize \<Rightarrow> usize option \<Rightarrow> nat \<Rightarrow> nat set \<Rightarrow> known_events \<Rightarrow> loc mem \<Rightarrow> agent list \<Rightarrow> bool" where
  "shared_ok d pb cap S U m as \<longleftrightarrow>
     (case pb of
        None \<Rightarrow> as = [] \<and> map mg_val (me_hist m Data) = [d] \<and> (\<forall>x. known m (Byte x) (\<lambda>_. True) U)
      | Some b \<Rightarrow> is_promoted b \<and> b \<noteq> 0 \<and> \<not> new_box b m \<and> map mg_val (me_hist m Data) = [b, d] \<and> (\<exists>vs. lent_box b cap S U m as vs))"

definition lent_inv :: "usize \<Rightarrow> usize option \<Rightarrow> nat \<Rightarrow> nat set \<Rightarrow> lent_out \<Rightarrow> bool" where
  "lent_inv d pb cap S s \<longleftrightarrow>
     Data \<notin> me_dead (lo_mem s) \<and> bytes_alive cap (lo_mem s) \<and> S \<subseteq> {..<cap} \<and> is_unpromoted d \<and>
     (\<forall>c \<in> set (lo_callers s). caller_ok d pb S (lo_mem s) c) \<and> boxes_apart (lo_callers s) \<and>
     shared_ok d pb cap S (all_seen s) (lo_mem s) (lo_agents s)"

lemma moved_simps [simp]:
  "lo_mem (moved i pc V m s) = m" "lo_agents (moved i pc V m s) = lo_agents s"
  "lo_callers (moved i pc V m s) = (lo_callers s)[i := \<lparr>cl_view = V, cl_pc = pc\<rparr>]"
  by (simp_all add: moved_def)

lemma owners_more: "owners_inv b cap U m as \<Longrightarrow> U \<subseteq> U' \<Longrightarrow> owners_inv b cap U' m as"
  by (auto simp: owners_inv_def holding_def elim!: covered_mono)

lemma owners_foreign:
  assumes "owners_inv b cap U m as" "\<exists>a \<in> set as. ag_stage a = Holds" "unnoticed b l j (set as)" "me_next m \<in> U"
  shows "owners_inv b cap U (logged l j m) as"
proof -
  have "holding b U m as" using assms(1,2) by (auto simp: owners_inv_def)
  then have "holding b U (logged l j m) as" using assms(4) by (auto simp: holding_def intro: covered_logged)
  moreover have "agent_ok b cap (logged l j m) a" if "a \<in> set as" for a
    using assms(1,3) that by (intro agent_ok_quiet) (auto simp: owners_inv_def, cases l, auto)
  ultimately show ?thesis using assms(1) by (auto simp: owners_inv_def)
qed

text \<open>Whatever happens at another box alone.\<close>

definition confined :: "usize \<Rightarrow> loc mem \<Rightarrow> loc mem \<Rightarrow> bool" where
  "confined a m m' \<longleftrightarrow> me_dead m' = me_dead m \<and> (\<forall>b. new_box b m' \<longrightarrow> new_box b m) \<and>
     (\<forall>l. l \<noteq> Count a \<and> l \<noteq> Fields a \<longrightarrow>
        me_hist m' l = me_hist m l \<and> (\<forall>K V. known m l K V \<longrightarrow> known m' l K V))"

lemma confined_known: "confined a m m' \<Longrightarrow> l \<noteq> Count a \<Longrightarrow> l \<noteq> Fields a \<Longrightarrow> known m l K V \<Longrightarrow> known m' l K V"
  by (auto simp: confined_def)

lemma owners_confined:
  assumes c: "confined a m m'" and b: "b \<noteq> a" and inv: "owners_inv b cap U m as"
  shows "owners_inv b cap U m' as"
proof -
  have h: "me_hist m' (Count b) = me_hist m (Count b)" "me_dead m' = me_dead m" using c b by (auto simp: confined_def)
  then have n: "newest b m' = newest b m" "box_alive b m' = box_alive b m" "bytes_alive cap m' = bytes_alive cap m"
    "box_freed b m' = box_freed b m" "bytes_freed cap m' = bytes_freed cap m"
    by (simp_all add: newest_def box_alive_def bytes_alive_def box_freed_def bytes_freed_def)
  have k: "known m l K V \<Longrightarrow> l \<in> {Count b, Fields b} \<union> range Byte \<Longrightarrow> known m' l K V" for l K V
    using confined_known [OF c] b by auto
  then have cov: "covered b m V \<Longrightarrow> covered b m' V" for V by (auto simp: covered_def)
  have "agent_ok b cap m x \<Longrightarrow> agent_ok b cap m' x" for x
    using k h by (auto simp: agent_ok_def view_ok_def changed_at_def no_stale_one_def)
  moreover have "ending g b m V \<Longrightarrow> ending g b m' V" for g V by (cases g) (auto simp: n cov)
  ultimately show ?thesis using inv cov by (auto simp: owners_inv_def holding_def n)
qed

text \<open>A caller that learns, or moves on.\<close>

lemma caller_at: "lent_inv d pb cap S s \<Longrightarrow> i < length (lo_callers s) \<Longrightarrow> caller_ok d pb S (lo_mem s) (lo_callers s ! i)"
  by (auto simp: lent_inv_def)

lemma UN_update:
  assumes "i < length xs" "f (xs ! i) \<subseteq> f y"
  shows "\<Union>(f ` set (xs[i := y])) = \<Union>(f ` set xs) \<union> f y"
proof -
  have "set (xs[i := y]) = insert y (set (leave i xs))" using mset_eq_setD [OF mset_put [OF assms(1), of y]] by simp
  with leave_set [OF assms(1)] assms(2) show ?thesis by auto
qed

lemma all_seen_moved:
  assumes "i < length (lo_callers s)" "cl_view (lo_callers s ! i) \<subseteq> V"
  shows "all_seen (moved i pc V m s) = all_seen s \<union> V"
  using UN_update [of i "lo_callers s" cl_view "\<lparr>cl_view = V, cl_pc = pc\<rparr>"] assms by (simp add: all_seen_def)

lemma lent_box_more: "lent_box b cap S U m as vs \<Longrightarrow> U \<subseteq> U' \<Longrightarrow> lent_box b cap S U' m as vs"
  by (auto simp: lent_box_def intro: owners_more)

lemma shared_more: "shared_ok d pb cap S U m as \<Longrightarrow> U \<subseteq> U' \<Longrightarrow> shared_ok d pb cap S U' m as"
  by (cases pb) (auto simp: shared_ok_def intro: known_mono lent_box_more)

lemma boxes_apart_put:
  "boxes_apart cs \<Longrightarrow> i < length cs \<Longrightarrow> own_box (cl_pc c) = None \<or> own_box (cl_pc c) = own_box (cl_pc (cs ! i)) \<Longrightarrow>
   boxes_apart (cs[i := c])"
  unfolding boxes_apart_def by (auto simp: nth_list_update split: if_splits) metis+

lemma callers_put:
  "c \<in> set (cs[i := c']) \<Longrightarrow> \<forall>c \<in> set cs. caller_ok d pb S m c \<Longrightarrow> caller_ok d pb S m c' \<Longrightarrow> caller_ok d pb S m c"
  using set_update_subset_insert [of cs i c'] by auto

lemma lent_moved:
  assumes inv: "lent_inv d pb cap S s" and i: "i < length (lo_callers s)" and V: "cl_view (lo_callers s ! i) \<subseteq> V"
    and pc: "pc_fits d pb (lo_mem s) V pc" "own_box pc = None \<or> own_box pc = own_box (cl_pc (lo_callers s ! i))"
    and sy: "synced pb pc \<Longrightarrow> mg_view (hd (me_hist (lo_mem s) Data)) \<subseteq> V"
  shows "lent_inv d pb cap S (moved i pc V (lo_mem s) s)"
proof -
  have "caller_ok d pb S (lo_mem s) \<lparr>cl_view = V, cl_pc = pc\<rparr>"
    using caller_at [OF inv i] V pc sy by (auto simp: caller_ok_def changed_at_def intro: known_mono)
  then show ?thesis
    using inv i pc(2) all_seen_moved [OF i V]
    unfolding lent_inv_def by (auto elim!: callers_put intro!: boxes_apart_put intro: shared_more)
qed

text \<open>An access by caller \<open>i\<close>: of the word, of the published count, of the bytes of the handle, or of a box that is its own.\<close>

lemma new_box_logged: "new_box a (logged l j m) \<Longrightarrow> new_box a m"
  by (auto simp: new_box_def)

lemma new_box_hist [simp]: "new_box a (m\<lparr>me_hist := h\<rparr>) \<longleftrightarrow> new_box a m"
  by (simp add: new_box_def)

definition reaches_box :: "lent_out \<Rightarrow> nat \<Rightarrow> usize \<Rightarrow> bool" where
  "reaches_box s i a \<longleftrightarrow> own_box (cl_pc (lo_callers s ! i)) = Some a \<or> new_box a (lo_mem s)"

definition of_caller :: "usize option \<Rightarrow> nat set \<Rightarrow> lent_out \<Rightarrow> nat \<Rightarrow> loc \<Rightarrow> sort \<Rightarrow> bool" where
  "of_caller pb S s i l j \<longleftrightarrow> l = Data \<and> \<not> plain j \<or> (\<exists>b. pb = Some b \<and> l = Count b \<and> \<not> plain j) \<or> (\<exists>x \<in> S. l = Byte x) \<and> j = Plain_Read \<or>
     (\<exists>a. (l = Count a \<or> l = Fields a) \<and> reaches_box s i a)"

lemma private_fits: "pc_fits d pb m V pc \<Longrightarrow> own_box pc = Some a \<Longrightarrow> private_box m V a"
  by (cases pc) auto

lemma private_mono: "private_box m V a \<Longrightarrow> V \<subseteq> W \<Longrightarrow> private_box m W a"
  by (auto simp: private_box_def intro: known_mono)

lemma pc_fits_mono: "pc_fits d pb m V pc \<Longrightarrow> V \<subseteq> W \<Longrightarrow> pc_fits d pb m W pc"
  by (cases pc) (auto intro: private_mono)

lemma caller_ok_mono: "caller_ok d pb S m c \<Longrightarrow> cl_view c \<subseteq> V \<Longrightarrow> caller_ok d pb S m \<lparr>cl_view = V, cl_pc = cl_pc c\<rparr>"
  by (auto simp: caller_ok_def changed_at_def intro: known_mono pc_fits_mono)

lemma caller_ok_frame:
  assumes "caller_ok d pb S m c" "me_hist m' Data = me_hist m Data" "known m' Data plain (cl_view c)"
    "\<And>x. x \<in> S \<Longrightarrow> changed_at m' x (cl_view c)" "\<And>a. own_box (cl_pc c) = Some a \<Longrightarrow> private_box m' (cl_view c) a"
  shows "caller_ok d pb S m' c"
  using assms by (cases "cl_pc c") (auto simp: caller_ok_def)

lemma other_box:
  assumes inv: "lent_inv d pb cap S s" and ij: "i < length (lo_callers s)" "j < length (lo_callers s)" "i \<noteq> j"
    and a: "reaches_box s i a" "own_box (cl_pc (lo_callers s ! j)) = Some a'"
  shows "a' \<noteq> a"
proof -
  have "private_box (lo_mem s) (cl_view (lo_callers s ! j)) a'"
    using caller_at [OF inv ij(2)] a(2) by (auto simp: caller_ok_def intro: private_fits)
  moreover have "boxes_apart (lo_callers s)" using inv by (simp add: lent_inv_def)
  ultimately show ?thesis using ij a unfolding reaches_box_def private_box_def boxes_apart_def by blast
qed

lemma published_other:
  assumes "lent_inv d (Some b) cap S s" "i < length (lo_callers s)" "reaches_box s i a"
  shows "a \<noteq> b"
  using assms caller_at [OF assms(1,2)] by (auto simp: reaches_box_def caller_ok_def lent_inv_def shared_ok_def)

lemma lent_put:
  assumes inv: "lent_inv d pb cap S s" and i: "i < length (lo_callers s)"
    and m: "me_dead m = me_dead (lo_mem s)"
    and me: "caller_ok d pb S m \<lparr>cl_view = V, cl_pc = pc\<rparr>"
    and others: "\<And>j. j < length (lo_callers s) \<Longrightarrow> j \<noteq> i \<Longrightarrow> caller_ok d pb S m (lo_callers s ! j)"
    and box: "own_box pc = None \<or> (\<exists>a. own_box pc = Some a \<and> reaches_box s i a)"
    and sh: "shared_ok d pb cap S (all_seen (moved i pc V m s)) m (lo_agents s)"
  shows "lent_inv d pb cap S (moved i pc V m s)"
proof -
  have "caller_ok d pb S m c" if "c \<in> set ((lo_callers s)[i := \<lparr>cl_view = V, cl_pc = pc\<rparr>])" for c
  proof -
    from that obtain j where "j < length (lo_callers s)" "c = (lo_callers s)[i := \<lparr>cl_view = V, cl_pc = pc\<rparr>] ! j"
      by (auto simp: in_set_conv_nth)
    then show ?thesis using me others [of j] by (cases "j = i") auto
  qed
  moreover have "boxes_apart ((lo_callers s)[i := \<lparr>cl_view = V, cl_pc = pc\<rparr>])"
    using inv i box other_box [OF inv i] unfolding boxes_apart_def lent_inv_def
    by (auto simp: nth_list_update split: if_splits)
  ultimately show ?thesis using inv m sh by (auto simp: lent_inv_def bytes_alive_def)
qed

lemma private_logged:
  assumes "private_box m V a" "l \<noteq> Count a \<and> l \<noteq> Fields a \<or> me_next m \<in> V"
  shows "private_box (logged l j m) V a"
  using assms new_box_logged [of a l j m] by (auto simp: private_box_def)

lemma lent_access:
  assumes inv: "lent_inv d pb cap S s" and i: "i < length (lo_callers s)" and l: "of_caller pb S s i l j"
    and V: "V = insert (me_next (lo_mem s)) (cl_view (lo_callers s ! i))"
  shows "lent_inv d pb cap S (moved i (cl_pc (lo_callers s ! i)) V (logged l j (lo_mem s)) s)"
proof (rule lent_put [OF inv i])
  let ?m = "lo_mem s" and ?pc = "cl_pc (lo_callers s ! i)" and ?m' = "logged l j (lo_mem s)"
  have sub: "cl_view (lo_callers s ! i) \<subseteq> V" using V by auto
  have data: "known ?m' Data plain W" if "known ?m Data plain W" for W
    using that l by (auto simp: of_caller_def)
  have bytes: "changed_at ?m' x W" if "changed_at ?m x W" for x W
    using that l by (auto simp: changed_at_def of_caller_def)
  have me: "caller_ok d pb S ?m \<lparr>cl_view = V, cl_pc = ?pc\<rparr>" by (rule caller_ok_mono [OF caller_at [OF inv i] sub])
  have "private_box ?m' V a" if "own_box ?pc = Some a" for a
    using me that V l by (intro private_logged) (auto simp: caller_ok_def intro: private_fits)
  then show "caller_ok d pb S ?m' \<lparr>cl_view = V, cl_pc = ?pc\<rparr>"
    using me by (intro caller_ok_frame [OF me] data bytes) (auto simp: caller_ok_def)
  show "caller_ok d pb S ?m' (lo_callers s ! k)" if k: "k < length (lo_callers s)" "k \<noteq> i" for k
  proof -
    have ok: "caller_ok d pb S ?m (lo_callers s ! k)" by (rule caller_at [OF inv k(1)])
    have "private_box ?m' (cl_view (lo_callers s ! k)) a" if a: "own_box (cl_pc (lo_callers s ! k)) = Some a" for a
    proof (rule private_logged)
      show "private_box ?m (cl_view (lo_callers s ! k)) a" using ok a by (auto simp: caller_ok_def intro: private_fits)
      show "l \<noteq> Count a \<and> l \<noteq> Fields a \<or> me_next ?m \<in> cl_view (lo_callers s ! k)"
        using l other_box [OF inv i k(1) _ _ a] k(2) ok a by (auto simp: of_caller_def caller_ok_def)
    qed
    then show ?thesis using ok by (intro caller_ok_frame [OF ok] data bytes) (auto simp: caller_ok_def)
  qed
  show "own_box ?pc = None \<or> (\<exists>a. own_box ?pc = Some a \<and> reaches_box s i a)"
    by (cases "own_box ?pc") (auto simp: reaches_box_def)
  have U: "all_seen s \<subseteq> all_seen (moved i ?pc V ?m' s)" "me_next ?m \<in> all_seen (moved i ?pc V ?m' s)"
    using all_seen_moved [OF i sub] V by auto
  have sh: "shared_ok d pb cap S (all_seen (moved i ?pc V ?m' s)) ?m (lo_agents s)"
    using inv U(1) by (auto simp: lent_inv_def intro: shared_more)
  show "shared_ok d pb cap S (all_seen (moved i ?pc V ?m' s)) ?m' (lo_agents s)"
  proof (cases pb)
    case None
    with sh U(2) show ?thesis by (auto simp: shared_ok_def)
  next
    case (Some b)
    with sh obtain vs where vs: "lent_box b cap S (all_seen (moved i ?pc V ?m' s)) ?m (lo_agents s) vs"
      by (auto simp: shared_ok_def)
    have "unnoticed b l j (set (lent_agent S vs # lo_agents s))"
    proof (cases l)
      case (Byte x)
      then have "x \<in> S" "j = Plain_Read" using l by (auto simp: of_caller_def)
      with vs owns_apart(1) [of b cap _ _ "lent_agent S vs" "lo_agents s" x] Byte show ?thesis
        by (auto simp: lent_box_def touches_def)
    qed (use l published_other [OF inv [unfolded Some] i] in \<open>auto simp: of_caller_def\<close>)
    then have "lent_box b cap S (all_seen (moved i ?pc V ?m' s)) ?m' (lo_agents s) vs"
      using vs U(2) by (auto simp: lent_box_def intro!: owners_foreign)
    with sh Some show ?thesis using new_box_logged [of b l j ?m] by (auto simp: shared_ok_def)
  qed
qed simp

lemma moved_moved [simp]: "moved i pc V m (moved i pc' V' m' s) = moved i pc V m s"
  by (simp add: moved_def)

text \<open>A caller at work on a box of its own.\<close>

lemma private_confined: "confined a m m' \<Longrightarrow> private_box m V b \<Longrightarrow> b \<noteq> a \<Longrightarrow> private_box m' V b"
  by (auto simp: private_box_def confined_def)

lemma lent_confined:
  assumes inv: "lent_inv d pb cap S s" and i: "i < length (lo_callers s)" and a: "reaches_box s i a"
    and c: "confined a (lo_mem s) m" and V: "cl_view (lo_callers s ! i) \<subseteq> V"
    and pc: "own_box pc = None \<or> own_box pc = Some a" "pc_fits d pb m V pc"
    and sy: "synced pb pc \<Longrightarrow> mg_view (hd (me_hist (lo_mem s) Data)) \<subseteq> V"
  shows "lent_inv d pb cap S (moved i pc V m s)"
proof (rule lent_put [OF inv i])
  let ?m = "lo_mem s"
  have h: "me_hist m Data = me_hist ?m Data" using c by (simp add: confined_def)
  have k: "known ?m Data plain W \<Longrightarrow> known m Data plain W" "changed_at ?m x W \<Longrightarrow> changed_at m x W" for x W
    unfolding changed_at_def by (rule confined_known [OF c]; simp)+
  show "me_dead m = me_dead ?m" using c by (simp add: confined_def)
  have "pb \<noteq> Some a" using published_other [of d a cap S s i a] inv i a by auto
  moreover have "caller_ok d pb S ?m \<lparr>cl_view = V, cl_pc = cl_pc (lo_callers s ! i)\<rparr>"
    by (rule caller_ok_mono [OF caller_at [OF inv i] V])
  ultimately show "caller_ok d pb S m \<lparr>cl_view = V, cl_pc = pc\<rparr>"
    using pc sy k h by (auto simp: caller_ok_def)
  show "caller_ok d pb S m (lo_callers s ! j)" if j: "j < length (lo_callers s)" "j \<noteq> i" for j
  proof -
    have ok: "caller_ok d pb S ?m (lo_callers s ! j)" by (rule caller_at [OF inv j(1)])
    have "private_box m (cl_view (lo_callers s ! j)) b" if "own_box (cl_pc (lo_callers s ! j)) = Some b" for b
      using ok other_box [OF inv i j(1) _ a that] j(2) that
      by (intro private_confined [OF c]) (auto simp: caller_ok_def intro: private_fits)
    then show ?thesis using ok h k by (intro caller_ok_frame [OF ok]) (auto simp: caller_ok_def)
  qed
  show "own_box pc = None \<or> (\<exists>a. own_box pc = Some a \<and> reaches_box s i a)" using pc(1) a by auto
  have "shared_ok d pb cap S (all_seen (moved i pc V m s)) ?m (lo_agents s)"
    using inv all_seen_moved [OF i V] by (auto simp: lent_inv_def intro: shared_more)
  then show "shared_ok d pb cap S (all_seen (moved i pc V m s)) m (lo_agents s)"
  proof (cases pb)
    case None
    then show "shared_ok d pb cap S U ?m as \<Longrightarrow> shared_ok d pb cap S U m as" for U as
      using h confined_known [OF c] by (auto simp: shared_ok_def)
  next
    case (Some b)
    have "b \<noteq> a" using published_other [OF inv [unfolded Some] i a] by simp
    with Some show "shared_ok d pb cap S U ?m as \<Longrightarrow> shared_ok d pb cap S U m as" for U as
      using h c by (auto simp: shared_ok_def lent_box_def confined_def intro!: owners_confined [OF c])
  qed
qed

subsection \<open>Counting in and publishing\<close>

lemma confined_posted: "confined b m (posted b y m)"
  using new_box_logged by (auto simp: confined_def)

lemma hand_clone_simps [simp]:
  "lo_mem (hand_clone S i V m s) = m" "lo_agents (hand_clone S i V m s) = lo_agents s @ [lent_agent S [V]]"
  "lo_callers (hand_clone S i V m s) = (lo_callers s)[i := \<lparr>cl_view = V, cl_pc = Start\<rparr>]"
  "all_seen (hand_clone S i V m s) = all_seen (moved i Start V m s)"
  by (simp_all add: hand_clone_def moved_def Let_def all_seen_def)

text \<open>Once the callers and the handles are as they should be.\<close>

lemma lent_hand_clone:
  assumes inv: "lent_inv d pb cap S s" and i: "i < length (lo_callers s)"
    and m: "me_dead m = me_dead (lo_mem s)" and me: "caller_ok d pb' S m \<lparr>cl_view = V, cl_pc = Start\<rparr>"
    and others: "\<And>j. j < length (lo_callers s) \<Longrightarrow> j \<noteq> i \<Longrightarrow> caller_ok d pb' S m (lo_callers s ! j)"
    and sh: "shared_ok d pb' cap S (all_seen (moved i Start V m s)) m (lo_agents s @ [lent_agent S [V]])"
  shows "lent_inv d pb' cap S (hand_clone S i V m s)"
proof -
  have "caller_ok d pb' S m c" if "c \<in> set ((lo_callers s)[i := \<lparr>cl_view = V, cl_pc = Start\<rparr>])" for c
  proof -
    from that obtain j where "j < length (lo_callers s)" "c = (lo_callers s)[i := \<lparr>cl_view = V, cl_pc = Start\<rparr>] ! j"
      by (auto simp: in_set_conv_nth)
    then show ?thesis using me others [of j] by (cases "j = i") auto
  qed
  moreover have "boxes_apart ((lo_callers s)[i := \<lparr>cl_view = V, cl_pc = Start\<rparr>])"
    using inv i by (intro boxes_apart_put) (auto simp: lent_inv_def)
  ultimately show ?thesis using inv m sh by (auto simp: lent_inv_def bytes_alive_def)
qed

lemma lent_increment:
  assumes inv: "lent_inv d (Some b) cap S s" and i: "i < length (lo_callers s)" and V: "V = cl_view (lo_callers s ! i)"
    and sy: "mg_view (hd (me_hist (lo_mem s) Data)) \<subseteq> V"
  shows "increment_at b V (lo_mem s) = Abort \<or>
    (\<exists>W m. increment_at b V (lo_mem s) = Ok (W, m) \<and> lent_inv d (Some b) cap S (hand_clone S i W m s))"
proof (cases "unat (mg_val (newest b (lo_mem s))) \<le> isize_max")
  let ?m = "lo_mem s" and ?W = "insert (me_next (lo_mem s)) V"
  obtain vs where "lent_box b cap S (all_seen s) ?m (lo_agents s) vs" using inv by (auto simp: lent_inv_def shared_ok_def)
  then have vs: "mg_view (hd (me_hist ?m Data)) \<in> set vs" "\<Union>(set vs) \<subseteq> all_seen s"
    "owners_inv b cap (all_seen s) ?m (lent_agent S vs # lo_agents s)" by (auto simp: lent_box_def)
  have "owners_inv b cap (all_seen s) ?m ((lent_agent S vs)\<lparr>ag_views := V # vs\<rparr> # lo_agents s)"
    by (rule owners_learn [OF vs(3)]) (use vs(1) sy in \<open>auto simp: knows_def\<close>)
  then have o: "owners_inv b cap (all_seen s) ?m (lent_agent S (V # vs) # lo_agents s)" by simp
  have al: "box_alive b ?m" using holds_holding [OF o] by (simp add: holding_def)
  note rmw = rmw_count [OF al held_view(1) [OF o, of 0, simplified], of Relaxed]
  {
    case True
    let ?y = "\<lparr>mg_val = mg_val (newest b ?m) + 1, mg_event = me_next ?m, mg_view = mg_view (newest b ?m)\<rparr>"
    let ?m' = "posted b ?y ?m"
    have sub: "cl_view (lo_callers s ! i) \<subseteq> ?W" using V by auto
    have ok: "increment_at b V ?m = Ok (?W, ?m')" using True by (simp add: increment_at_def rmw)
    have "owners_inv b cap (all_seen s) ?m'
        ((with_view (lent_agent S (V # vs)) 0 ?W)\<lparr>ag_owns := {} - {}\<rparr> # lent_agent S [?W] # lo_agents s)"
      using owners_increment [OF o _ _ _ _ _ True refl refl, of 0 S "{}"] by simp
    then have "owners_inv b cap (all_seen s) ?m' (lent_agent S (?W # vs) # lo_agents s @ [lent_agent S [?W]])"
      by (rule owners_inv_perm) simp
    then have "lent_box b cap S (all_seen (moved i Start ?W ?m' s)) ?m' (lo_agents s @ [lent_agent S [?W]]) (?W # vs)"
      using vs(1,2) by (auto simp: lent_box_def all_seen_moved [OF i sub] intro: owners_more)
    then have sh: "shared_ok d (Some b) cap S (all_seen (moved i Start ?W ?m' s)) ?m' (lo_agents s @ [lent_agent S [?W]])"
      using inv new_box_logged [of b "Count b" Atomic_Write ?m] by (auto simp: lent_inv_def shared_ok_def)
    have k: "known ?m' Data plain X \<longleftrightarrow> known ?m Data plain X" "changed_at ?m' x X \<longleftrightarrow> changed_at ?m x X" for x X
      by (simp_all add: changed_at_def)
    have "caller_ok d (Some b) S ?m' \<lparr>cl_view = ?W, cl_pc = Start\<rparr>"
      using caller_ok_mono [OF caller_at [OF inv i] sub] by (simp add: caller_ok_def k)
    moreover have "caller_ok d (Some b) S ?m' (lo_callers s ! j)" if j: "j < length (lo_callers s)" for j
    proof -
      have c: "caller_ok d (Some b) S ?m (lo_callers s ! j)" by (rule caller_at [OF inv j])
      have "private_box ?m' (cl_view (lo_callers s ! j)) a" if "own_box (cl_pc (lo_callers s ! j)) = Some a" for a
        using c that by (intro private_confined [OF confined_posted]) (auto simp: caller_ok_def intro: private_fits)
      then show ?thesis using c k by (intro caller_ok_frame [OF c]) (auto simp: caller_ok_def)
    qed
    ultimately have "lent_inv d (Some b) cap S (hand_clone S i ?W ?m' s)"
      using sh by (intro lent_hand_clone [OF inv i]) auto
    then show ?thesis using ok by blast
  next
    case False
    then show ?thesis by (simp add: increment_at_def rmw)
  }
qed

text \<open>The winner of the compare-exchange: the first two handles of the box are the lent one and its clone.\<close>

lemma lent_publish:
  assumes inv: "lent_inv d None cap S s" and i: "i < length (lo_callers s)" and pc: "cl_pc (lo_callers s ! i) = Boxed d a"
  shows "\<exists>v W m. compare_exchange Data d a AcqRel Acquire n (cl_view (lo_callers s ! i)) (lo_mem s) = Ok (Inl v, W, m) \<and>
    lent_inv d (Some a) cap S (hand_clone S i W m s)"
proof -
  let ?m = "lo_mem s" and ?V = "cl_view (lo_callers s ! i)"
  obtain x where x: "me_hist ?m Data = [x]" "mg_val x = d" and as: "lo_agents s = []"
    and bytes: "\<And>x. known ?m (Byte x) (\<lambda>_. True) (all_seen s)"
    using inv by (auto simp: lent_inv_def shared_ok_def)
  let ?W = "insert (me_next ?m) ?V \<union> mg_view x"
  let ?y = "\<lparr>mg_val = a, mg_event = me_next ?m, mg_view = mg_view x \<union> ?W\<rparr>"
  let ?m' = "(logged Data Atomic_Write ?m)\<lparr>me_hist := (me_hist ?m)(Data := [?y, x])\<rparr>"
  have c: "caller_ok d None S ?m (lo_callers s ! i)" by (rule caller_at [OF inv i])
  then have p: "private_box ?m ?V a" using pc by (simp add: caller_ok_def)
  have cas: "compare_exchange Data d a AcqRel Acquire n ?V ?m = Ok (Inl d, ?W, ?m')"
    using c x inv by (auto simp: compare_exchange_def rmw_def access_def caller_ok_def lent_inv_def Let_def)
  have sub: "?V \<subseteq> ?W" by auto
  have U: "all_seen (moved i Start ?W ?m' s) = all_seen s \<union> ?W" by (rule all_seen_moved [OF i]) auto
  have bytes': "known ?m' (Byte x) (\<lambda>_. True) (all_seen s \<union> ?W)" for x using bytes [of x] by (auto intro: known_mono)
  have box: "known ?m' (Count a) (\<lambda>_. True) ?W" "known ?m' (Fields a) (\<lambda>_. True) ?W"
    "\<exists>z. me_hist ?m' (Count a) = [z] \<and> mg_val z = 2" "box_alive a ?m'"
    using p sub by (auto simp: private_box_def box_alive_def intro: known_mono)
  have chg: "changed_at ?m' x ?W" if "x \<in> S" for x
    using c that sub by (auto simp: caller_ok_def changed_at_def intro: known_mono)
  have "agent_ok a cap ?m' (lent_agent S [?W])"
    using box chg inv
    by (auto simp: agent_ok_def view_ok_def no_stale_one_def touches_def lent_inv_def intro: known_weaken split: if_splits)
  moreover have "holding a (all_seen s \<union> ?W) ?m' [lent_agent S [?W], lent_agent S [?W]]"
    using box bytes' by (auto simp: holding_def newest_def covered_def intro: known_mono)
  ultimately have "owners_inv a cap (all_seen s \<union> ?W) ?m' [lent_agent S [?W], lent_agent S [?W]]"
    using inv by (auto simp: owners_inv_def excl_def lent_inv_def bytes_alive_def)
  then have "lent_box a cap S (all_seen s \<union> ?W) ?m' [lent_agent S [?W]] [?W]" by (auto simp: lent_box_def)
  then have "shared_ok d (Some a) cap S (all_seen (moved i Start ?W ?m' s)) ?m' (lo_agents s @ [lent_agent S [?W]])"
    using p x(2) as U new_box_logged [of a Data Atomic_Write ?m] by (auto simp: shared_ok_def private_box_def)
  moreover have "caller_ok d (Some a) S ?m' \<lparr>cl_view = ?W, cl_pc = Start\<rparr>"
    using c chg sub by (auto simp: caller_ok_def intro: known_mono)
  moreover have "caller_ok d (Some a) S ?m' (lo_callers s ! j)" if j: "j < length (lo_callers s)" "j \<noteq> i" for j
  proof -
    have cj: "caller_ok d None S ?m (lo_callers s ! j)" by (rule caller_at [OF inv j(1)])
    have da: "d \<noteq> a" using p inv by (auto simp: private_box_def lent_inv_def)
    have "b \<noteq> a" if "own_box (cl_pc (lo_callers s ! j)) = Some b" for b
      by (rule other_box [OF inv i j(1) _ _ that]) (use j pc in \<open>auto simp: reaches_box_def\<close>)
    with cj da show ?thesis
      by (cases "cl_pc (lo_callers s ! j)") (auto simp: caller_ok_def changed_at_def private_box_def dest: new_box_logged)
  qed
  ultimately have "lent_inv d (Some a) cap S (hand_clone S i ?W ?m' s)"
    by (intro lent_hand_clone [OF inv i]) simp_all
  with cas show ?thesis by blast
qed

subsection \<open>The clones meanwhile\<close>

text \<open>The same call with one more handle in front.\<close>

fun later_agent :: "action \<Rightarrow> action" where
  "later_agent (Read i k x) = Read (Suc i) k x"
| "later_agent (Write i x) = Write (Suc i) x"
| "later_agent (Get_Fields i k) = Get_Fields (Suc i) k"
| "later_agent (Hear i k W) = Hear (Suc i) k W"
| "later_agent (Check i k n) = Check (Suc i) k n"
| "later_agent (Lend i k) = Lend (Suc i) k"
| "later_agent (Return i k) = Return (Suc i) k"
| "later_agent (Share i k R E) = Share (Suc i) k R E"
| "later_agent (Narrow i R E) = Narrow (Suc i) R E"
| "later_agent (Merge i j R E) = Merge (Suc i) (Suc j) R E"
| "later_agent (Claim i n) = Claim (Suc i) n"
| "later_agent (Decrement i v) = Decrement (Suc i) v"
| "later_agent (Fence i n) = Fence (Suc i) n"
| "later_agent (Free i) = Free (Suc i)"
| "later_agent (Drop_Vec i) = Drop_Vec (Suc i)"

lemma later_allows: "allows (later_agent t) (a # as) \<longleftrightarrow> allows t as"
  by (cases t) auto

lemma rbind_same: "(\<And>x. f x = g x) \<Longrightarrow> rbind r f = rbind r g"
  by (cases r) auto

lemma later_act:
  "perform b cap (later_agent t) \<lparr>ow_mem = m, ow_agents = a # as\<rparr> =
     rbind (perform b cap t \<lparr>ow_mem = m, ow_agents = as\<rparr>) (\<lambda>s. Ok (s\<lparr>ow_agents := a # ow_agents s\<rparr>))"
  by (cases t) (auto simp: in_view_def Let_def rbind_assoc case_prod_unfold leave_Suc intro!: rbind_same)

text \<open>What a call on handles with the box in common leaves alone.\<close>

definition local_to :: "usize \<Rightarrow> nat set \<Rightarrow> loc mem \<Rightarrow> loc mem \<Rightarrow> bool" where
  "local_to b X m m' \<longleftrightarrow> me_dead m' = me_dead m \<and> (\<forall>b. new_box b m' \<longrightarrow> new_box b m) \<and>
     (\<forall>l. l \<noteq> Count b \<longrightarrow> me_hist m' l = me_hist m l) \<and>
     (\<forall>l K V. l \<noteq> Count b \<longrightarrow> l \<noteq> Fields b \<longrightarrow> (\<forall>x. l = Byte x \<longrightarrow> \<not> K Plain_Read \<and> x \<notin> X) \<longrightarrow> known m l K V \<longrightarrow> known m' l K V)"

lemma local_refl: "local_to b X m m"
  by (simp add: local_to_def)

lemma local_logged:
  "l = Count b \<or> l = Fields b \<or> (\<exists>x. l = Byte x \<and> (j = Plain_Read \<or> j = Plain_Write \<and> x \<in> X)) \<Longrightarrow> local_to b X m (logged l j m)"
  using new_box_logged by (auto simp: local_to_def)

lemma local_posted: "local_to b X m (posted b y m)"
  using new_box_logged by (auto simp: local_to_def)

lemma access_OkD: "access l j V m = Ok (V', m') \<Longrightarrow> m' = logged l j m"
  by (auto simp: access_def split: if_splits)

lemma load_OkD: "load l r n V m = Ok (v, V', m') \<Longrightarrow> m' = logged l Atomic_Read m"
  by (auto simp: load_def load_from_def Let_def split: if_splits dest: access_OkD)

lemma rmw_OkD: "rmw (Count b) r f V m = Ok (v, V', m') \<Longrightarrow> \<exists>y. m' = posted b y m"
  by (auto simp: rmw_def access_def Let_def split: if_splits simp del: releases.simps)

lemma act_local:
  assumes al: "allows t (ow_agents s)" and st: "\<forall>a \<in> set (ow_agents s). ag_stage a = Holds"
    and X: "\<And>a. a \<in> set (ow_agents s) \<Longrightarrow> ag_owns a \<subseteq> X" and ok: "perform b cap t s = Ok s'"
  shows "local_to b X (ow_mem s) (ow_mem s')"
proof (cases t)
  case (Write i x)
  then have "x \<in> X" using al X [of "ow_agents s ! i"] by auto
  with ok Write show ?thesis by (auto simp: in_view_def Let_def intro!: local_logged dest!: access_OkD)
next
  case (Share i k R E)
  with ok show ?thesis
    by (auto simp: Let_def increment_at_def intro: local_posted dest!: rmw_OkD split: if_splits)
next
  case (Decrement i v)
  with ok show ?thesis by (auto simp: Let_def decrement_at_def intro: local_posted dest!: rmw_OkD)
qed (use al st ok in \<open>auto simp: in_view_def Let_def is_unique_at_def intro!: local_refl local_logged dest!: access_OkD load_OkD\<close>)

subsection \<open>Every event\<close>

definition goes_on :: "usize \<Rightarrow> nat \<Rightarrow> nat set \<Rightarrow> lent_out res \<Rightarrow> bool" where
  "goes_on d cap S r \<longleftrightarrow> (case r of Ok s \<Rightarrow> \<exists>pb. lent_inv d pb cap S s | r \<Rightarrow> r = Abort)"

lemma goes_onI: "lent_inv d pb cap S s \<Longrightarrow> goes_on d cap S (Ok s)"
  by (auto simp: goes_on_def)

text \<open>The word: one message before the publication, two after it.\<close>

lemma data_messages:
  assumes "lent_inv d pb cap S s"
  shows "\<exists>ms. me_hist (lo_mem s) Data = ms \<and> ms \<noteq> [] \<and>
    (\<forall>x \<in> set ms. mg_val x = d \<or> pb = Some (mg_val x) \<and> x = hd ms) \<and> (pb = None \<longrightarrow> mg_val (hd ms) = d) \<and>
    (\<forall>b. pb = Some b \<longrightarrow> mg_val (hd ms) = b)"
  using assms by (cases pb) (auto simp: lent_inv_def shared_ok_def)

lemma readable_subset: "set (readable_msgs V xs) \<subseteq> set xs"
  by (induction xs) auto

lemma data_access:
  assumes inv: "lent_inv d pb cap S s" and i: "i < length (lo_callers s)" and V: "V = cl_view (lo_callers s ! i)"
  shows "access Data Atomic_Read V (lo_mem s) = Ok (insert (me_next (lo_mem s)) V, logged Data Atomic_Read (lo_mem s))"
    "lent_inv d pb cap S (moved i (cl_pc (lo_callers s ! i)) (insert (me_next (lo_mem s)) V) (logged Data Atomic_Read (lo_mem s)) s)"
proof -
  have "known (lo_mem s) Data plain V" using caller_at [OF inv i] V by (simp add: caller_ok_def)
  then have "known (lo_mem s) Data (\<lambda>k. k = Plain_Write) V" by (rule known_weaken) simp
  then show "access Data Atomic_Read V (lo_mem s) = Ok (insert (me_next (lo_mem s)) V, logged Data Atomic_Read (lo_mem s))"
    using inv by (simp add: access_def lent_inv_def)
  show "lent_inv d pb cap S (moved i (cl_pc (lo_callers s ! i)) (insert (me_next (lo_mem s)) V) (logged Data Atomic_Read (lo_mem s)) s)"
    using V by (intro lent_access [OF inv i]) (simp_all add: of_caller_def)
qed

text \<open>A load of the word that takes a message \<open>x\<close> out.\<close>

lemma lent_found:
  assumes inv: "lent_inv d pb cap S s" and i: "i < length (lo_callers s)"
    and V: "insert (me_next (lo_mem s)) (cl_view (lo_callers s ! i)) \<subseteq> V"
    and pc: "pc_fits d pb (lo_mem s) (cl_view (lo_callers s ! i)) pc" "own_box pc = None \<or> own_box pc = own_box (cl_pc (lo_callers s ! i))"
    and sy: "synced pb pc \<Longrightarrow> mg_view (hd (me_hist (lo_mem s) Data)) \<subseteq> V"
  shows "lent_inv d pb cap S (moved i pc V (logged Data Atomic_Read (lo_mem s)) s)"
proof -
  have sub: "cl_view (lo_callers s ! i) \<subseteq> V" using V by auto
  have "pc_fits d pb (logged Data Atomic_Read (lo_mem s)) V pc"
    using pc_fits_mono [OF pc(1) sub] by (cases pc) (auto intro: private_logged)
  then show ?thesis
    using lent_moved [OF data_access(2) [OF inv i refl], of i V pc] V pc(2) sy i by simp
qed

lemma turn_start:
  assumes inv: "lent_inv d pb cap S s" and i: "i < length (lo_callers s)" and pc: "cl_pc (lo_callers s ! i) = Start"
    and r: "acquires r"
  shows "goes_on d cap S (clone_at r S cap i n a s)"
proof -
  let ?V = "cl_view (lo_callers s ! i)" and ?m = "lo_mem s"
  obtain ms where ms: "me_hist ?m Data = ms" "ms \<noteq> []" "\<forall>x \<in> set ms. mg_val x = d \<or> pb = Some (mg_val x) \<and> x = hd ms"
    using data_messages [OF inv] by blast
  let ?x = "pick n (readable_msgs ?V ms)" and ?W = "insert (me_next ?m) ?V"
  have x: "mg_val ?x = d \<or> pb = Some (mg_val ?x) \<and> ?x = hd ms"
    using ms(2,3) pick_in [of "readable_msgs ?V ms" n] readable_subset [of ?V ms] by auto
  have d: "pb \<noteq> Some d" using inv by (auto simp: lent_inv_def shared_ok_def)
  have rc: "receive r ?x ?W = ?W \<union> mg_view ?x" using r by (simp add: receive_def)
  have "load Data r n ?V ?m = Ok (mg_val ?x, ?W \<union> mg_view ?x, logged Data Atomic_Read ?m)"
    using ms(1,2) by (simp add: load_def load_from_def data_access(1) [OF inv i refl] rc Let_def)
  moreover have "lent_inv d pb cap S (moved i (Loaded (mg_val ?x)) (?W \<union> mg_view ?x) (logged Data Atomic_Read ?m) s)"
    using x d ms(1) by (intro lent_found [OF inv i]) auto
  ultimately show ?thesis by (simp add: clone_at_def pc Let_def goes_onI)
qed

lemma promote_private:
  assumes "is_promoted a" "a \<noteq> 0" "new_box a m"
  shows "\<exists>W m'. promote_at a 2 V m = Ok (W, m') \<and> V \<subseteq> W \<and> confined a m m' \<and> private_box m' W a"
proof -
  have "\<not> new_box a (logged l j (logged (Count a) Plain_Write m))" for l j by (auto simp: new_box_def)
  then show ?thesis
    using assms new_box_known [OF assms(3)] new_box_logged [of _ _ _ m] new_box_logged [of _ _ _ "logged (Count a) Plain_Write m"]
    by (auto simp: promote_at_def atomic_new_def access_def confined_def private_box_def new_box_def)
qed

lemma counts_in:
  assumes inv: "lent_inv d (Some b) cap S s" and i: "i < length (lo_callers s)" and sy: "synced (Some b) (cl_pc (lo_callers s ! i))"
  shows "goes_on d cap S
    (rbind (increment_at b (cl_view (lo_callers s ! i)) (lo_mem s)) (\<lambda>(V, m). Ok (hand_clone S i V m s)))"
proof -
  have "mg_view (hd (me_hist (lo_mem s) Data)) \<subseteq> cl_view (lo_callers s ! i)"
    using caller_at [OF inv i] sy by (simp add: caller_ok_def)
  from lent_increment [OF inv i refl this] show ?thesis by (auto simp: goes_on_def)
qed

lemma turn_loaded:
  assumes inv: "lent_inv d pb cap S s" and i: "i < length (lo_callers s)" and pc: "cl_pc (lo_callers s ! i) = Loaded w"
    and a: "is_promoted a" "a \<noteq> 0" "new_box a (lo_mem s)"
  shows "goes_on d cap S (clone_at r S cap i n a s)"
proof -
  have w: "w = d \<or> pb = Some w" using caller_at [OF inv i] pc by (simp add: caller_ok_def)
  consider "w = 0" | "w \<noteq> 0" "is_unpromoted w" | "w \<noteq> 0" "\<not> is_unpromoted w" by blast
  then show ?thesis
  proof cases
    case 1
    then show ?thesis
      using lent_moved [OF inv i, of _ Start] by (auto simp: clone_at_def pc Let_def intro: goes_onI)
  next
    case 2
    then have "w = d" using w inv by (auto simp: lent_inv_def shared_ok_def)
    obtain W m where p: "promote_at a 2 (cl_view (lo_callers s ! i)) (lo_mem s) = Ok (W, m)" "cl_view (lo_callers s ! i) \<subseteq> W"
      "confined a (lo_mem s) m" "private_box m W a" using promote_private [OF a] by blast
    have "lent_inv d pb cap S (moved i (Boxed w a) W m s)"
      using a(3) p(4) \<open>w = d\<close> by (intro lent_confined [OF inv i _ p(3,2)]) (auto simp: reaches_box_def)
    then show ?thesis using 2 by (simp add: clone_at_def pc Let_def p(1) goes_onI)
  next
    case 3
    then have "pb = Some w" using w inv by (auto simp: lent_inv_def)
    with counts_in [of d w cap S s i] inv i pc 3 show ?thesis by (simp add: clone_at_def Let_def)
  qed
qed

lemma turn_boxed:
  assumes inv: "lent_inv d pb cap S s" and i: "i < length (lo_callers s)" and pc: "cl_pc (lo_callers s ! i) = Boxed w a'"
  shows "goes_on d cap S (clone_at r S cap i n a s)"
proof -
  let ?V = "cl_view (lo_callers s ! i)" and ?m = "lo_mem s"
  have c: "caller_ok d pb S ?m (lo_callers s ! i)" by (rule caller_at [OF inv i])
  then have w: "w = d" "private_box ?m ?V a'" "pb \<noteq> Some a'" using pc by (auto simp: caller_ok_def)
  show ?thesis
  proof (cases pb)
    case None
    from lent_publish [OF inv [unfolded None] i pc [unfolded w(1)], of n] w(1) show ?thesis
      by (auto simp: clone_at_def pc Let_def intro: goes_onI)
  next
    case (Some b)
    with inv have b: "is_promoted b" "b \<noteq> d" by (auto simp: lent_inv_def shared_ok_def)
    from Some inv obtain y x where h: "me_hist ?m Data = [y, x]" "mg_val y = b" "mg_val x = d"
      by (auto simp: lent_inv_def shared_ok_def)
    let ?W = "insert (me_next ?m) ?V \<union> mg_view y"
    have f: "filter (\<lambda>z. mg_val z \<noteq> d) (readable_msgs ?V [y, x]) = [y]" using h b by simp
    have "compare_exchange Data d a' AcqRel Acquire n ?V ?m = Ok (Inr b, ?W, logged Data Atomic_Read ?m)"
      using h b f by (simp add: compare_exchange_def load_from_def data_access(1) [OF inv i refl] pick_def Let_def)
    moreover have "lent_inv d pb cap S (moved i (Lost a' b) ?W (logged Data Atomic_Read ?m) s)"
      using w h Some pc by (intro lent_found [OF inv i]) auto
    ultimately show ?thesis using w Some b by (auto simp: clone_at_def pc Let_def rassert_def intro: goes_onI)
  qed
qed

lemma turn_lost:
  assumes inv: "lent_inv d pb cap S s" and i: "i < length (lo_callers s)" and pc: "cl_pc (lo_callers s ! i) = Lost a' p"
  shows "goes_on d cap S (clone_at r S cap i n a s)"
proof -
  let ?V = "cl_view (lo_callers s ! i)" and ?m = "lo_mem s"
  have c: "caller_ok d pb S ?m (lo_callers s ! i)" by (rule caller_at [OF inv i])
  then have p: "pb = Some p" "private_box ?m ?V a'" "mg_view (hd (me_hist ?m Data)) \<subseteq> ?V" using pc by (auto simp: caller_ok_def)
  then have k: "known ?m (Count a') plain ?V" "box_alive a' ?m" "mg_val (newest a' ?m) = 2"
    by (auto simp: private_box_def box_alive_def newest_def intro: known_weaken)
  let ?W = "insert (me_next ?m) ?V"
  obtain y where "rmw (Count a') Release (\<lambda>c. c - 1) ?V ?m = Ok (2, ?W, posted a' y ?m)"
    using rmw_count [OF k(2,1), of Release] k(3) by auto
  then have "release_at a' cap n ?V ?m = Ok (?W, posted a' y ?m)" by (simp add: release_at_def decrement_at_def)
  moreover have "lent_inv d pb cap S (moved i (Released p) ?W (posted a' y ?m) s)"
    using p pc by (intro lent_confined [OF inv i _ confined_posted]) (auto simp: reaches_box_def)
  ultimately show ?thesis by (simp add: clone_at_def pc Let_def goes_onI)
qed

lemma turn_released:
  assumes inv: "lent_inv d pb cap S s" and i: "i < length (lo_callers s)" and pc: "cl_pc (lo_callers s ! i) = Released p"
  shows "goes_on d cap S (clone_at r S cap i n a s)"
proof -
  have "pb = Some p" using caller_at [OF inv i] pc by (auto simp: caller_ok_def)
  with counts_in [of d p cap S s i] inv i pc show ?thesis by (simp add: clone_at_def Let_def)
qed

text \<open>\<open>is_unique\<close> through the reference.\<close>

lemma ask_goes_on:
  assumes inv: "lent_inv d pb cap S s" and i: "i < length (lo_callers s)"
  shows "goes_on d cap S (ask_at i n s)"
proof (cases "\<exists>w. cl_pc (lo_callers s ! i) = Loaded w \<and> w \<noteq> 0 \<and> \<not> is_unpromoted w")
  case False
  then show ?thesis
    using inv lent_moved [OF inv i, of _ Start]
    by (cases "cl_pc (lo_callers s ! i)") (auto simp: ask_at_def Let_def intro: goes_onI)
next
  case True
  let ?V = "cl_view (lo_callers s ! i)" and ?m = "lo_mem s"
  from True obtain w where pc: "cl_pc (lo_callers s ! i) = Loaded w" "w \<noteq> 0" "\<not> is_unpromoted w" by blast
  have c: "caller_ok d pb S ?m (lo_callers s ! i)" by (rule caller_at [OF inv i])
  then have b: "pb = Some w" "mg_view (hd (me_hist ?m Data)) \<subseteq> ?V" using pc inv by (auto simp: caller_ok_def lent_inv_def)
  then obtain vs where "lent_box w cap S (all_seen s) ?m (lo_agents s) vs" using inv by (auto simp: lent_inv_def shared_ok_def)
  then have vs: "mg_view (hd (me_hist ?m Data)) \<in> set vs" "owners_inv w cap (all_seen s) ?m (lent_agent S vs # lo_agents s)"
    by (auto simp: lent_box_def)
  have "owners_inv w cap (all_seen s) ?m ((lent_agent S vs)\<lparr>ag_views := ?V # vs\<rparr> # lo_agents s)"
    by (rule owners_learn [OF vs(2)]) (use vs(1) b(2) in \<open>auto simp: knows_def\<close>)
  then have o: "owners_inv w cap (all_seen s) ?m (lent_agent S (?V # vs) # lo_agents s)" by simp
  have al: "box_alive w ?m" using holds_holding [OF o] by (simp add: holding_def)
  let ?x = "pick n (readable_msgs ?V (me_hist ?m (Count w)))" and ?W = "insert (me_next ?m) ?V"
  have l: "load (Count w) Acquire n ?V ?m = Ok (mg_val ?x, ?W \<union> mg_view ?x, logged (Count w) Atomic_Read ?m)"
    using load_count [OF al held_view(1) [OF o, of 0, simplified] refl] .
  have "lent_inv d pb cap S (moved i (Loaded w) ?W (logged (Count w) Atomic_Read ?m) s)"
    using lent_access [OF inv i, of "Count w" Atomic_Read ?W] b(1) pc(1) by (simp add: of_caller_def)
  from lent_moved [OF this, of i "?W \<union> mg_view ?x" Start] i
  have "lent_inv d pb cap S (moved i Start (?W \<union> mg_view ?x) (logged (Count w) Atomic_Read ?m) s)" by auto
  then show ?thesis using pc by (simp add: ask_at_def Let_def is_unique_at_def l goes_onI)
qed

lemma peek_goes_on:
  assumes inv: "lent_inv d pb cap S s" and i: "i < length (lo_callers s)" and x: "x \<in> S"
  shows "goes_on d cap S (occur r S cap (Peek i x) s)"
proof -
  have "changed_at (lo_mem s) x (cl_view (lo_callers s ! i))" using caller_at [OF inv i] x by (simp add: caller_ok_def)
  then have "access (Byte x) Plain_Read (cl_view (lo_callers s ! i)) (lo_mem s) =
      Ok (insert (me_next (lo_mem s)) (cl_view (lo_callers s ! i)), logged (Byte x) Plain_Read (lo_mem s))"
    using inv x by (auto simp: access_def changed_at_def lent_inv_def bytes_alive_def intro: known_changes)
  moreover have "of_caller pb S s i (Byte x) Plain_Read" using x by (simp add: of_caller_def)
  ultimately show ?thesis using lent_access [OF inv i _ refl, of "Byte x" Plain_Read] by (simp add: goes_onI)
qed

text \<open>A call on the clones: the lent handle is one more holder of the box, and keeps it.\<close>

lemma own_goes_on:
  assumes inv: "lent_inv d pb cap S s" and al: "allows t (lo_agents s)"
  shows "goes_on d cap S (occur r S cap (Own t) s)"
proof -
  let ?m = "lo_mem s" and ?as = "lo_agents s"
  have ne: "?as \<noteq> []" using al by (cases t) auto
  then obtain b where b: "pb = Some b" using inv by (cases pb) (auto simp: lent_inv_def shared_ok_def)
  then have pub: "published ?m = b" using inv by (auto simp: lent_inv_def shared_ok_def published_def)
  obtain vs where vs: "lent_box b cap S (all_seen s) ?m ?as vs" using inv b by (auto simp: lent_inv_def shared_ok_def)
  let ?l = "lent_agent S vs"
  have o: "owners_inv b cap (all_seen s) ?m (?l # ?as)" using vs by (simp add: lent_box_def)
  have hold: "holding b (all_seen s) ?m (?l # ?as)" using holds_holding [OF o] by simp
  have ow: "\<lparr>ow_mem = ?m, ow_agents = ?as\<rparr> = lo_owners s" by simp
  have pr: "proceeds b cap (all_seen s) (rbind (perform b cap t (lo_owners s)) (\<lambda>w. Ok (w\<lparr>ow_agents := ?l # ow_agents w\<rparr>)))"
    using act_proceeds [of b cap "all_seen s" "\<lparr>ow_mem = ?m, ow_agents = ?l # ?as\<rparr>" "later_agent t"] o al ne
    by (simp add: later_allows later_act ow)
  show ?thesis
  proof (cases "perform b cap t (lo_owners s)")
    case (Ok w)
    let ?m' = "ow_mem w" and ?s = "s\<lparr>lo_owners := w\<rparr>"
    have o': "owners_inv b cap (all_seen s) ?m' (?l # ow_agents w)" using pr Ok by (simp add: proceeds_def)
    have "x \<notin> ag_owns a" if "a \<in> set ?as" "x \<in> S" for x a
      using owns_apart(1) [OF o _ that(1), of x] that(2) by (simp add: touches_def)
    then have "local_to b (- S) ?m ?m'"
      using hold by (intro act_local [OF al _ _ Ok]) (auto simp: holding_def)
    then have l: "me_dead ?m' = me_dead ?m" "\<And>a. new_box a ?m' \<Longrightarrow> new_box a ?m" "\<And>l. l \<noteq> Count b \<Longrightarrow> me_hist ?m' l = me_hist ?m l"
      "\<And>l K V. l \<noteq> Count b \<Longrightarrow> l \<noteq> Fields b \<Longrightarrow> (\<forall>x. l = Byte x \<longrightarrow> \<not> K Plain_Read \<and> x \<in> S) \<Longrightarrow> known ?m l K V \<Longrightarrow> known ?m' l K V"
      by (auto simp: local_to_def)
    have "caller_ok d pb S ?m' c" if c: "c \<in> set (lo_callers s)" for c
    proof -
      have ok: "caller_ok d pb S ?m c" using inv c by (simp add: lent_inv_def)
      have "private_box ?m' (cl_view c) a" if "own_box (cl_pc c) = Some a" for a
      proof -
        have "private_box ?m (cl_view c) a" "a \<noteq> b" using ok that b by (auto simp: caller_ok_def intro: private_fits)
        then show ?thesis using l by (auto simp: private_box_def)
      qed
      then show ?thesis using ok l by (intro caller_ok_frame [OF ok]) (auto simp: caller_ok_def changed_at_def)
    qed
    moreover have "lent_box b cap S (all_seen s) ?m' (ow_agents w) vs" using vs o' l(3) [of Data] by (simp add: lent_box_def)
    then have "shared_ok d pb cap S (all_seen s) ?m' (ow_agents w)"
      using inv b l(2,3) by (auto simp: lent_inv_def shared_ok_def)
    ultimately have "lent_inv d pb cap S ?s"
      using inv l(1) by (auto simp: lent_inv_def bytes_alive_def all_seen_def)
    then show ?thesis using Ok pub by (simp add: goes_onI)
  qed (use pr pub in \<open>auto simp: proceeds_def goes_on_def\<close>)
qed

lemma occur_goes_on:
  assumes inv: "lent_inv d pb cap S s" and r: "acquires r" and t: "possible S t s"
  shows "goes_on d cap S (occur r S cap t s)"
proof (cases t)
  case (CloneTurn i n a)
  then have i: "i < length (lo_callers s)" and a: "is_promoted a" "a \<noteq> 0" "new_box a (lo_mem s)" using t by auto
  show ?thesis
  proof (cases "cl_pc (lo_callers s ! i)")
    case Start
    from turn_start [OF inv i this r] show ?thesis by (simp add: CloneTurn)
  next
    case (Loaded w)
    from turn_loaded [OF inv i this a] show ?thesis by (simp add: CloneTurn)
  qed (simp_all add: CloneTurn turn_boxed [OF inv i] turn_lost [OF inv i] turn_released [OF inv i])
next
  case (Overhear i W)
  then have i: "i < length (lo_callers s)" using t by simp
  let ?c = "lo_callers s ! i"
  have "caller_ok d pb S (lo_mem s) \<lparr>cl_view = cl_view ?c \<union> W, cl_pc = cl_pc ?c\<rparr>"
    by (rule caller_ok_mono [OF caller_at [OF inv i]]) simp
  then show ?thesis using lent_moved [OF inv i, of "cl_view ?c \<union> W" "cl_pc ?c"] by (auto simp: Overhear caller_ok_def intro: goes_onI)
next
  case (Ask i n)
  then show ?thesis using ask_goes_on [OF inv] t by simp
next
  case (Peek i x)
  then show ?thesis using peek_goes_on [OF inv] t by simp
next
  case (Own u)
  then show ?thesis using own_goes_on [OF inv, of u] t by simp
qed

lemma lent_start_inv:
  assumes "unpromoted_at d cap V m" "S \<subseteq> {..<cap}" "0 < k"
  shows "lent_inv d None cap S (lent_start d V m k)"
proof -
  have "all_seen (lent_start d V m k) = V" using assms(3) by (simp add: all_seen_def lent_start_def)
  then show ?thesis
    using assms by (auto simp: lent_inv_def lent_start_def unpromoted_at_def whole_buffer_def caller_ok_def changed_at_def
        boxes_apart_def shared_ok_def intro: known_weaken)
qed

lemma occurred_inv:
  "occurred r S cap s0 s \<Longrightarrow> acquires r \<Longrightarrow> lent_inv d None cap S s0 \<Longrightarrow> \<exists>pb. lent_inv d pb cap S s"
proof (induction rule: occurred.induct)
  case (step s t s')
  then obtain pb where "lent_inv d pb cap S s" by blast
  from occur_goes_on [OF this step.prems(1) step.hyps(2)] step.hyps(3) show ?case by (simp add: goes_on_def)
qed blast

subsection \<open>A run\<close>

fun occurs :: "ordering \<Rightarrow> nat set \<Rightarrow> nat \<Rightarrow> event list \<Rightarrow> lent_out \<Rightarrow> lent_out res" where
  "occurs r S cap [] s = Ok s"
| "occurs r S cap (t # ts) s = (if possible S t s then rbind (occur r S cap t s) (occurs r S cap ts) else Panic)"

lemma occurred_occurs: "occurred r S cap s0 s \<Longrightarrow> occurs r S cap ts s = Ok s' \<Longrightarrow> occurred r S cap s0 s'"
  by (induction ts arbitrary: s) (auto split: if_splits intro: occurred.step)

text \<open>One byte, two threads: the first promotes, the second finds the box.\<close>

definition demo_word :: "loc mem" where
  "demo_word = \<lparr>me_next = 2, me_log = [(0, Data, Plain_Write)],
     me_hist = (\<lambda>_. [])(Data := [\<lparr>mg_val = 1, mg_event = 0, mg_view = {}\<rparr>]), me_dead = {}\<rparr>"

definition demo_events :: "event list" where
  "demo_events = [CloneTurn 0 0 8, CloneTurn 0 0 8, CloneTurn 0 0 16, CloneTurn 1 0 16, CloneTurn 1 0 16]"

lemmas occur_simps = act_simps clone_at_def compare_exchange_def moved_def hand_clone_def new_box_def
  demo_word_def demo_events_def is_unpromoted_odd nth_list_update

lemma demo_lent_start: "lent_start 1 {0} demo_word 2 =
  \<lparr>lo_owners = \<lparr>ow_mem = demo_word, ow_agents = []\<rparr>, lo_callers = [\<lparr>cl_view = {0}, cl_pc = Start\<rparr>, \<lparr>cl_view = {0}, cl_pc = Start\<rparr>]\<rparr>"
  by (simp add: lent_start_def numeral_2_eq_2)

definition demo_two :: lent_out where
  "demo_two = \<lparr>
     lo_owners = \<lparr>
       ow_mem = \<lparr>me_next = 8,
         me_log = [(7, Count 8, Atomic_Write), (6, Data, Atomic_Read), (5, Data, Atomic_Write), (4, Fields 8, Plain_Write),
           (3, Count 8, Plain_Write), (2, Data, Atomic_Read), (0, Data, Plain_Write)],
         me_hist = (\<lambda>_. [])(
           Data := [\<lparr>mg_val = 8, mg_event = 5, mg_view = {0, 2, 3, 4, 5}\<rparr>, \<lparr>mg_val = 1, mg_event = 0, mg_view = {}\<rparr>],
           Count 8 := [\<lparr>mg_val = 3, mg_event = 7, mg_view = {}\<rparr>, \<lparr>mg_val = 2, mg_event = 3, mg_view = {}\<rparr>]),
         me_dead = {}\<rparr>,
       ow_agents = [lent_agent {0} [{0, 2, 3, 4, 5}], lent_agent {0} [{0, 2, 3, 4, 5, 6, 7}]]\<rparr>,
     lo_callers = [\<lparr>cl_view = {0, 2, 3, 4, 5}, cl_pc = Start\<rparr>, \<lparr>cl_view = {0, 2, 3, 4, 5, 6, 7}, cl_pc = Start\<rparr>]\<rparr>"

lemma demo_occurs: "occurs Acquire {0} 1 demo_events (lent_start 1 {0} demo_word 2) = Ok demo_two"
  unfolding demo_lent_start by (simp add: occur_simps demo_two_def insert_commute)

lemma demo_occurred: "occurred Acquire {0} 1 (lent_start 1 {0} demo_word 2) demo_two"
  by (rule occurred_occurs [OF occurred.start demo_occurs])

lemma demo_unpromoted: "unpromoted_at 1 1 {0} demo_word"
  by (simp add: unpromoted_at_def whole_buffer_def bytes_alive_def known_def demo_word_def is_unpromoted_odd)

subsection \<open>With an acquiring load\<close>





subsection \<open>With the load of the code\<close>

text \<open>C10: 
  The load of the code is relaxed: from every unpromoted handle lent to two threads, one thread may find the box that the
  other has published and count itself in without having synchronised with its initialisation, a data race.
\<close>

theorem relaxed_load_races:
  assumes m: "unpromoted_at d cap V m" and e: "\<forall>e \<in> V. e < me_next m" and k: "2 \<le> k"
    and a: "is_promoted a" "a \<noteq> 0" "new_box a m" "is_promoted a'" "a' \<noteq> 0" "new_box a' m" "a' \<noteq> a"
  shows "\<exists>s. occurred data_order S cap (lent_start d V m k) s \<and> possible S (CloneTurn 1 0 a') s \<and>
    occur data_order S cap (CloneTurn 1 0 a') s = UB"
proof -
  let ?s0 = "lent_start d V m k" and ?e = "me_next m"
  let ?m1 = "logged Data Atomic_Read m" and ?V1 = "insert (me_next m) V"
  let ?s1 = "moved 0 (Loaded d) ?V1 ?m1 ?s0"
  let ?b = "\<lparr>mg_val = 2, mg_event = Suc ?e, mg_view = {}\<rparr>"
  let ?m2 = "logged (Fields a) Plain_Write ((logged (Count a) Plain_Write ?m1)\<lparr>me_hist := (me_hist m)(Count a := [?b])\<rparr>)"
  let ?V2 = "insert (Suc (Suc ?e)) (insert (Suc ?e) ?V1)"
  let ?s2 = "moved 0 (Boxed d a) ?V2 ?m2 ?s0"
  from m obtain x where x: "me_hist m Data = [x]" "mg_val x = d" by (auto simp: unpromoted_at_def)
  let ?V3 = "insert (Suc (Suc (Suc ?e))) ?V2 \<union> mg_view x"
  let ?y = "\<lparr>mg_val = a, mg_event = Suc (Suc (Suc ?e)), mg_view = mg_view x \<union> ?V3\<rparr>"
  let ?m3 = "(logged Data Atomic_Write ?m2)\<lparr>me_hist := (me_hist ?m2)(Data := [?y, x])\<rparr>"
  let ?s3 = "hand_clone S 0 ?V3 ?m3 ?s2"
  let ?m4 = "logged Data Atomic_Read ?m3" and ?V4 = "insert (Suc (Suc (Suc (Suc ?e)))) V"
  let ?s4 = "moved 1 (Loaded a) ?V4 ?m4 ?s3"
  have start: "lo_mem ?s0 = m" "lo_callers ?s0 = replicate k \<lparr>cl_view = V, cl_pc = Start\<rparr>"
    by (simp_all add: lent_start_def)
  have d: "d \<noteq> 0" "is_unpromoted d" using m by (auto simp: unpromoted_at_def is_unpromoted_odd)
  have data: "Data \<notin> me_dead m" "known m Data plain V" "known m Data (\<lambda>k. k = Plain_Write) V"
    using m by (auto simp: unpromoted_at_def elim: known_weaken)
  have fresh: "Count a \<notin> me_dead m" "Fields a \<notin> me_dead m" using a(3) by (auto simp: new_box_def)
  have a': "new_box a' ?m1" "new_box a' ?m2" "new_box a' ?m3" "new_box a' ?m4" "new_box a ?m1"
    using a(3,6,7) by (auto simp: new_box_def)
  note run = clone_at_def load_def load_from_def access_def pick_def Let_def data_order_def start nth_list_update
  have t1: "occur data_order S cap (CloneTurn 0 0 a) ?s0 = Ok ?s1"
    using k data x by (simp add: run)
  have t2: "occur data_order S cap (CloneTurn 0 0 a) ?s1 = Ok ?s2"
    using k d fresh new_box_known [OF a'(5)] by (simp add: run promote_at_def atomic_new_def)
  have t3: "occur data_order S cap (CloneTurn 0 0 a') ?s2 = Ok ?s3"
    using k data x known_mono [OF data(2), of ?V2] by (simp add: run compare_exchange_def rmw_def subset_insertI2)
  have t4: "occur data_order S cap (CloneTurn 1 0 a') ?s3 = Ok ?s4"
    using k data x by (simp add: run hand_clone_simps)
  have "\<not> known ?m4 (Count a) plain ?V4" using e by auto
  then have "occur data_order S cap (CloneTurn 1 0 a') ?s4 = UB"
    using k a fresh by (simp add: run increment_at_def rmw_def)
  moreover have r1: "occurred data_order S cap ?s0 ?s1"
    by (rule occurred.step [OF occurred.start _ t1]) (use k a in \<open>simp add: start\<close>)
  have r2: "occurred data_order S cap ?s0 ?s2"
    by (rule occurred.step [OF r1 _ t2]) (use k a a' in \<open>simp add: start\<close>)
  have r3: "occurred data_order S cap ?s0 ?s3"
    by (rule occurred.step [OF r2 _ t3]) (use k a a' in \<open>simp add: start\<close>)
  have "occurred data_order S cap ?s0 ?s4"
    by (rule occurred.step [OF r3 _ t4]) (use k a a' in \<open>simp add: start\<close>)
  ultimately show ?thesis using k a(4,5) a'(4) by (intro exI [of _ ?s4]) (simp add: start)
qed

theorem relaxed_load_races_witness:
  "\<exists>s. occurred data_order {0} 1 (lent_start 1 {0} demo_word 2) s \<and> occur data_order {0} 1 (CloneTurn 1 0 16) s = UB"
proof -
  have "new_box 8 demo_word" "new_box 16 demo_word" by (simp_all add: new_box_def demo_word_def)
  from relaxed_load_races [OF demo_unpromoted _ _ _ _ this(1) _ _ this(2)] show ?thesis
    by (auto simp: demo_word_def is_unpromoted_odd)
qed
end
