(* ===== verification/Allocation.thy ===== *)
theory Allocation
  imports Outcomes
begin

text \<open>
  When calls allocate. The contracts elsewhere say which bytes a handle shows; here the blocks of the heap are
  counted. \<open>into_vec\<close> and \<open>into_mut\<close> of \<open>src/bytes/bytes.rs\<close> take the allocation over exactly if the handle is
  unique, and \<open>reserve\<close> of \<open>src/bytes/bytes_mut.rs\<close> doubles the capacity whenever it reallocates, so that
  appending piece by piece allocates logarithmically often.
\<close>

abbreviation blocks :: "heap \<Rightarrow> nat" where
  "blocks h \<equiv> length (hp_blocks h)"

subsection \<open>Calls that keep the blocks\<close>

lemma write_blocks: "write_cells h p xs = Ok h' \<Longrightarrow> blocks h' = blocks h"
  by (auto simp: write_cells_def store_cells_def Let_def split: if_split_asm)

lemma copy_blocks:
  "copy_nonoverlapping h p q n = Ok h' \<Longrightarrow> blocks h' = blocks h"
  "copy_from h xs q = Ok h' \<Longrightarrow> blocks h' = blocks h"
  using write_blocks
  by (auto simp: copy_nonoverlapping_def ptr_copy_def copy_from_def split: if_split_asm)

lemma drop_blocks:
  "vec_drop v h = Ok h' \<Longrightarrow> blocks h' = blocks h"
  "release a h = Ok h' \<Longrightarrow> blocks h' = blocks h"
  by (auto simp: vec_drop_def free_block_def release_def fetch_sub_def box_set_def box_free_def split: if_split_asm)

lemma with_capacity_blocks:
  "vec_with_capacity n h = Ok (v, h') \<Longrightarrow> blocks h' = Suc (blocks h) \<and> n \<le> v_cap v \<and> v_ptr v = Ptr (blocks h) 0"
  by (auto simp: vec_with_capacity_def Let_def split: if_split_asm)

subsection \<open>Reserving\<close>

text \<open>What a reservation may do to the capacity: keep the blocks, or allocate one of twice the capacity.\<close>

definition grown :: "bytes_mut \<Rightarrow> heap \<Rightarrow> bytes_mut \<Rightarrow> heap \<Rightarrow> bool" where
  "grown b h c h' \<longleftrightarrow> bm_len c = bm_len b \<and>
     (blocks h' = blocks h \<and> bm_cap b \<le> bm_cap c \<or> blocks h' = Suc (blocks h) \<and> 2 * bm_cap b \<le> bm_cap c)"

lemma realloc_copy_blocks:
  "realloc_copy b n h = Ok (v, h') \<Longrightarrow> blocks h' = Suc (blocks h) \<and> 2 * bm_cap b \<le> v_cap v"
  by (auto simp: realloc_copy_def umul_def uadd_def Let_def split: if_split_asm
      dest!: with_capacity_blocks copy_blocks(1))

lemma reserve_unpromoted_grown:
  "reserve_unpromoted b off n True h = Ok ((c, ok), h') \<Longrightarrow> grown b h c h'"
  by (auto simp: reserve_unpromoted_def grown_def uadd_def usub_def Let_def split: if_split_asm
      dest!: copy_blocks(1) drop_blocks(1) realloc_copy_blocks)

lemma realloc_promoted_grown:
  "reserve_realloc_promoted b n True h = Ok ((c, ok), h') \<Longrightarrow>
   bm_len c = bm_len b \<and> blocks h' = Suc (blocks h) \<and> 2 * bm_cap b \<le> bm_cap c"
  by (auto simp: reserve_realloc_promoted_def dest!: drop_blocks(2) realloc_copy_blocks)

lemma reserve_promoted_grown:
  "reserve_promoted b s n True h = Ok ((c, ok), h') \<Longrightarrow> grown b h c h'"
  by (auto simp: reserve_promoted_def grown_def uadd_def usub_def Let_def split: if_split_asm
      dest!: copy_blocks(1) realloc_promoted_grown)

lemma reserve_inner_grown:
  assumes "reserve_inner b n True h = Ok ((c, ok), h')"
  shows "grown b h c h'"
proof (cases "n = 0")
  case True
  with assms show ?thesis by (simp add: reserve_inner_def grown_def)
next
  case False
  with assms obtain x where "(case x of Inl off \<Rightarrow> reserve_unpromoted b off n True h
      | Inr s \<Rightarrow> reserve_promoted b s n True h) = Ok ((c, ok), h')"
    by (auto simp: reserve_inner_def)
  then show ?thesis by (cases x) (auto intro: reserve_unpromoted_grown reserve_promoted_grown)
qed

lemma bm_reserve_grown:
  assumes "bm_reserve b n h = Ok (c, h')"
  shows "grown b h c h'" "blocks h' \<noteq> blocks h \<Longrightarrow> bm_cap b < bm_len b + n"
proof -
  have "grown b h c h' \<and> (blocks h' \<noteq> blocks h \<longrightarrow> bm_cap b < bm_len b + n)"
  proof (cases "bm_cap b - bm_len b \<ge> n")
    case True
    with assms show ?thesis by (auto simp: bm_reserve_def usub_def grown_def split: if_split_asm)
  next
    case False
    then obtain ok where "reserve_inner b n True h = Ok ((c, ok), h')" "bm_len b \<le> bm_cap b"
      using assms by (auto simp: bm_reserve_def usub_def split: if_split_asm)
    with False reserve_inner_grown show ?thesis by auto
  qed
  then show "grown b h c h'" "blocks h' \<noteq> blocks h \<Longrightarrow> bm_cap b < bm_len b + n" by blast+
qed

lemma bm_extend_grown:
  assumes "bm_extend_from_slice b xs h = Ok (c, h')"
  shows "bm_len c = bm_len b + length xs" "blocks h' = blocks h \<and> bm_cap b \<le> bm_cap c \<or>
    blocks h' = Suc (blocks h) \<and> 2 * bm_cap b \<le> bm_cap c \<and> bm_cap b < bm_len b + length xs"
proof -
  obtain d h1 where d: "bm_reserve b (length xs) h = Ok (d, h1)"
    and c: "bm_len c = bm_len d + length xs" "bm_cap c = bm_cap d" "blocks h' = blocks h1"
    using assms copy_blocks(2)
    by (auto simp: bm_extend_from_slice_def uadd_def rassert_def Let_def split: if_split_asm)
  with bm_reserve_grown [OF d] show "bm_len c = bm_len b + length xs"
    "blocks h' = blocks h \<and> bm_cap b \<le> bm_cap c \<or>
     blocks h' = Suc (blocks h) \<and> 2 * bm_cap b \<le> bm_cap c \<and> bm_cap b < bm_len b + length xs"
    by (auto simp: grown_def)
qed

subsection \<open>Appending piece by piece\<close>

fun extend_all :: "bytes_mut \<Rightarrow> u8 list list \<Rightarrow> heap \<Rightarrow> (bytes_mut \<times> heap) res" where
  "extend_all b [] h = Ok (b, h)"
| "extend_all b (xs # xss) h = rbind (bm_extend_from_slice b xs h) (\<lambda>(b, h). extend_all b xss h)"

lemma extend_all_view:
  assumes "wf_heap h (HMut b # R)" "length R < isize_max" "extend_all b xss h = Ok (c, h')"
  shows "wf_heap h' (HMut c # R) \<and> frame h h' R \<and> view h' (HMut c) = view h (HMut b) @ concat xss"
  using assms
proof (induction xss arbitrary: b h)
  case (Cons xs xss)
  obtain d h1 where d: "bm_extend_from_slice b xs h = Ok (d, h1)" "extend_all d xss h1 = Ok (c, h')"
    using Cons.prems(3) by auto
  have e: "wf_heap h1 (HMut d # R)" "frame h h1 R" "view h1 (HMut d) = view h (HMut b) @ xs"
    using bm_extend_safe [OF Cons.prems(1,2), of xs] d(1) by simp_all
  from Cons.IH [OF e(1) Cons.prems(2) d(2)] frame_trans [OF e(2)] e(3) show ?case by simp
qed simp

lemma extend_all_blocks:
  assumes "extend_all b xss h = Ok (c, h')"
  shows "blocks h \<le> blocks h' \<and> bm_len c = bm_len b + length (concat xss) \<and>
    bm_cap b * 2 ^ (blocks h' - blocks h) \<le> bm_cap c \<and>
    (blocks h < blocks h' \<longrightarrow> bm_cap b * 2 ^ (blocks h' - Suc (blocks h)) < bm_len c)"
  using assms
proof (induction xss arbitrary: b h)
  case (Cons xs xss)
  obtain d h1 where d: "bm_extend_from_slice b xs h = Ok (d, h1)" "extend_all d xss h1 = Ok (c, h')"
    using Cons.prems by auto
  note len = bm_extend_grown(1) [OF d(1)] and IH = Cons.IH [OF d(2)]
  from bm_extend_grown(2) [OF d(1)] show ?case
  proof (elim disjE conjE)
    assume a: "blocks h1 = blocks h" "bm_cap b \<le> bm_cap d"
    have "bm_cap b * k \<le> bm_cap d * k" for k using a(2) by (rule mult_le_mono1)
    note le = this [of "2 ^ (blocks h' - blocks h)"] this [of "2 ^ (blocks h' - Suc (blocks h))"]
    have "bm_cap b * 2 ^ (blocks h' - blocks h) \<le> bm_cap c" by (rule order_trans [OF le(1)]) (use IH a(1) in simp)
    moreover have "bm_cap b * 2 ^ (blocks h' - Suc (blocks h)) < bm_len c" if "blocks h < blocks h'"
      by (rule le_less_trans [OF le(2)]) (use IH a(1) that in simp)
    ultimately show ?thesis using IH len a(1) by simp
  next
    assume a: "blocks h1 = Suc (blocks h)" "2 * bm_cap b \<le> bm_cap d" "bm_cap b < bm_len b + length xs"
    define k where "k = blocks h' - blocks h1"
    have k: "blocks h' = blocks h1 + k" using IH by (simp add: k_def)
    have "bm_cap b * 2 ^ Suc k \<le> bm_cap d * 2 ^ k" using mult_le_mono1 [OF a(2), of "2 ^ k"] by (simp add: ac_simps)
    also have "\<dots> \<le> bm_cap c" using IH k by simp
    finally have "bm_cap b * 2 ^ Suc k \<le> bm_cap c" .
    moreover have "bm_cap b * 2 ^ k < bm_len c"
    proof (cases k)
      case 0
      then show ?thesis using a(3) IH len by simp
    next
      case (Suc j)
      have "bm_cap b * 2 ^ Suc j \<le> bm_cap d * 2 ^ j" using mult_le_mono1 [OF a(2), of "2 ^ j"] by (simp add: ac_simps)
      also have "\<dots> < bm_len c" using IH k Suc by simp
      finally show ?thesis using Suc by simp
    qed
    ultimately show ?thesis using IH len a(1) k by simp
  qed
qed simp

subsection \<open>Converting a \<open>Bytes\<close>\<close>

lemma into_vec_move_reuses:
  "into_vec_move b n v h = Ok (v', h') \<Longrightarrow> v_ptr v' = v_ptr v \<and> blocks h' = blocks h"
  using write_blocks
  by (auto simp: into_vec_move_def copy_nonoverlapping_def ptr_copy_def vec_set_len_def Let_def
      split: if_split_asm)

lemma slice_to_vec_fresh: "slice_to_vec xs h = Ok (v, h') \<Longrightarrow> v_ptr v = Ptr (blocks h) 0"
  by (auto simp: slice_to_vec_def vec_set_len_def split: if_split_asm dest!: with_capacity_blocks)

lemma advance_unchecked_ptr:
  "bm_advance_unchecked c n h = Ok d \<Longrightarrow> bm_ptr d = Ptr (ptr_blk (bm_ptr c)) (ptr_off (bm_ptr c) + n)"
  by (auto simp: bm_advance_unchecked_def ptr_add_def split: if_split_asm)

lemma set_len_ptr: "bm_set_len c n = Ok d \<Longrightarrow> bm_ptr d = bm_ptr c"
  by (auto simp: bm_set_len_def rassert_def split: if_split_asm)

lemma is_unique_refs:
  assumes wf: "wf_heap h (HBytes b # R)" and u: "bytes_is_unique b h = Ok u"
  shows "u \<longleftrightarrow> bs_data b \<noteq> 0 \<and> (is_unpromoted (bs_data b) \<or> refs (bs_data b) R = 0)"
proof -
  consider "bs_data b = 0" | "bs_data b \<noteq> 0" "is_unpromoted (bs_data b)"
    | "bs_data b \<noteq> 0" "\<not> is_unpromoted (bs_data b)" by blast
  then show ?thesis
  proof cases
    case 3
    note wfD = wf_ConsD [OF wf]
    obtain s where s: "hp_shared h (bs_data b) = Some s" using owner_box [OF wfD(2)] 3 by auto
    have "ref_count s = Suc (refs (bs_data b) R)" using counts_box [OF wfD(6) s] 3 by simp
    with 3 s u show ?thesis by (simp add: bytes_is_unique_def as_unpromoted_Inr is_unique_def)
  qed (use u in \<open>simp_all add: bytes_is_unique_def as_unpromoted_Inl\<close>)
qed

lemma unique_reuses:
  assumes wf: "wf_heap h (HBytes b # R)" and len: "length R \<le> isize_max" and u: "bytes_is_unique b h = Ok True"
  shows "bytes_into_vec b h = Ok (v, h') \<Longrightarrow> v_ptr v = Ptr (ptr_blk (bs_ptr b)) 0 \<and> blocks h' = blocks h"
    "bytes_into_mut b h = Ok (m, h') \<Longrightarrow> bm_ptr m = bs_ptr b \<and> blocks h' = blocks h"
proof -
  note own = is_unique_refs [OF wf u, simplified]
  have x: "owner_ok h (HBytes b)" using own wf by (simp add: wf_heap_def handle_ok_def)
  let ?w = "whole_vec h (ptr_blk (bs_ptr b))" and ?off = "ptr_off (bs_ptr b)"
  have "(\<forall>v h'. bytes_into_vec b h = Ok (v, h') \<longrightarrow> v_ptr v = Ptr (ptr_blk (bs_ptr b)) 0 \<and> blocks h' = blocks h) \<and>
    (\<forall>m h'. bytes_into_mut b h = Ok (m, h') \<longrightarrow> bm_ptr m = bs_ptr b \<and> blocks h' = blocks h)"
  proof (cases "is_unpromoted (bs_data b)")
    case True
    have "payload (bs_data b) = ?off" using owner_payload [OF wf_ConsD(1) [OF wf] x] True by simp
    with True own build_unpromoted_vec_Ok [OF wf True]
    have "bytes_into_vec b h = into_vec_move b ?off (?w (blk_size h (ptr_blk (bs_ptr b)))) h"
      "bytes_into_mut b h = rbind (bm_advance_unchecked (bm_from_vec (?w (blk_size h (ptr_blk (bs_ptr b))))) ?off h)
        (\<lambda>m. Ok (m, h))"
      by (simp_all add: bytes_into_vec_def bytes_into_mut_def as_unpromoted_Inl Let_def)
    then show ?thesis
      by (auto simp: whole_vec_def bm_from_vec_def dest!: into_vec_move_reuses advance_unchecked_ptr)
  next
    case False
    obtain s where s: "hp_shared h (bs_data b) = Some s" "sh_ptr s = Ptr (ptr_blk (bs_ptr b)) 0"
      "sh_cap s = blk_size h (ptr_blk (bs_ptr b))"
      using owner_box [OF wf_ConsD(2) [OF wf]] own False by auto
    have "release_into_vec (bs_data b) (sh_cap s) h = Ok (Some (?w (sh_cap s)), box_free (bs_data b) h)"
      using release_into_vec_Ok(1) [OF wf _ _ len, of "sh_cap s"] own False s(3) by simp
    with s own False
    have "bytes_into_vec b h = into_vec_move b ?off (?w (sh_cap s)) (box_free (bs_data b) h)"
      "bytes_into_mut b h = rbind (bm_advance_unchecked (bm_from_vec (?w (sh_cap s))) ?off (box_free (bs_data b) h))
        (\<lambda>m. rbind (bm_set_len m (bs_len b)) (\<lambda>m. Ok (m, box_free (bs_data b) h)))"
      by (simp_all add: bytes_into_vec_def bytes_into_mut_def as_unpromoted_Inr offset_from_unsigned_def Let_def)
    then show ?thesis
      by (auto simp: whole_vec_def bm_from_vec_def dest!: into_vec_move_reuses advance_unchecked_ptr set_len_ptr)
  qed
  then show "bytes_into_vec b h = Ok (v, h') \<Longrightarrow> v_ptr v = Ptr (ptr_blk (bs_ptr b)) 0 \<and> blocks h' = blocks h"
    "bytes_into_mut b h = Ok (m, h') \<Longrightarrow> bm_ptr m = bs_ptr b \<and> blocks h' = blocks h" by blast+
qed

lemma shared_copies:
  assumes wf: "wf_heap h (HBytes b # R)" and len: "length R \<le> isize_max" and u: "bytes_is_unique b h = Ok False"
  shows "bytes_into_vec b h = Ok (v, h') \<Longrightarrow> v_ptr v = Ptr (blocks h) 0"
    "bytes_into_mut b h = Ok (m, h') \<Longrightarrow> bm_ptr m = Ptr (blocks h) 0"
proof -
  have "bs_data b = 0 \<or> \<not> is_unpromoted (bs_data b) \<and> refs (bs_data b) R \<noteq> 0"
    using is_unique_refs [OF wf u] by auto
  from into_copy_cases [OF wf len this] obtain h1 where
    c: "bytes_into_vec b h = into_vec_copy b h1" "bytes_into_mut b h = into_mut_copy b h1" "hp_blocks h1 = hp_blocks h"
    by metis
  show "v_ptr v = Ptr (blocks h) 0" if "bytes_into_vec b h = Ok (v, h')"
    using that slice_to_vec_fresh c by (auto simp: into_vec_copy_def)
  show "bm_ptr m = Ptr (blocks h) 0" if "bytes_into_mut b h = Ok (m, h')"
    using that slice_to_vec_fresh c by (auto simp: into_mut_copy_def bm_from_vec_def)
qed

subsection \<open>The properties\<close>

text \<open>C18: \<open>into_vec\<close> and \<open>into_mut\<close> give the handle's bytes, and they keep what their documentation says of
  copying: if \<open>is_unique\<close> answers yes, the result uses the same allocation (a vector from its start, a
  \<open>BytesMut\<close> in place) and nothing is allocated; otherwise the bytes are in a new allocation. Every other handle
  still shows its bytes, and nothing is leaked.\<close>

theorem conversions_spec:
  assumes "wf_heap h (HBytes b # R)" "length R \<le> isize_max" "bytes_is_unique b h = Ok u"
    "\<not> u \<longrightarrow> alloc_ok h (bs_len b)"
  shows "\<exists>v h1 m h2. bytes_into_vec b h = Ok (v, h1) \<and> bytes_into_mut b h = Ok (m, h2) \<and>
    wf_heap h1 (HVec v # R) \<and> frame h h1 R \<and> view h1 (HVec v) = view h (HBytes b) \<and>
    wf_heap h2 (HMut m # R) \<and> frame h h2 R \<and> view h2 (HMut m) = view h (HBytes b) \<and>
    (if u then v_ptr v = Ptr (ptr_blk (bs_ptr b)) 0 \<and> blocks h1 = blocks h \<and> bm_ptr m = bs_ptr b \<and> blocks h2 = blocks h
     else v_ptr v = Ptr (blocks h) 0 \<and> bm_ptr m = Ptr (blocks h) 0)"
proof -
  have alloc: "bs_data b = 0 \<or> \<not> is_unpromoted (bs_data b) \<and> refs (bs_data b) R \<noteq> 0 \<Longrightarrow> alloc_ok h (bs_len b)"
    using is_unique_refs [OF assms(1,3)] assms(4) by auto
  obtain v h1 where v: "bytes_into_vec b h = Ok (v, h1)" "wf_heap h1 (HVec v # R)" "frame h h1 R"
    "view h1 (HVec v) = view h (HBytes b)" using bytes_into_vec_Ok [OF assms(1,2) alloc] by auto
  obtain m h2 where m: "bytes_into_mut b h = Ok (m, h2)" "wf_heap h2 (HMut m # R)" "frame h h2 R"
    "view h2 (HMut m) = view h (HBytes b)" using bytes_into_mut_Ok [OF assms(1,2) alloc] by auto
  show ?thesis
  proof (cases u)
    case True
    with assms(3) have "bytes_is_unique b h = Ok True" by simp
    from unique_reuses [OF assms(1,2) this] v(1) m(1) True v m show ?thesis by auto
  next
    case False
    with assms(3) have "bytes_is_unique b h = Ok False" by simp
    from shared_copies [OF assms(1,2) this] v(1) m(1) False v m show ?thesis by auto
  qed
qed

theorem conversions_witness:
  "\<exists>v h1. bytes_into_vec demo_bytes demo_heap = Ok (v, h1) \<and> view h1 (HVec v) = [2, 3, 4] \<and>
    v_ptr v = Ptr 0 0 \<and> blocks h1 = 1"
proof -
  have "bytes_is_unique demo_bytes demo_heap = Ok True" by (simp add: bytes_is_unique_def eval_simps)
  from conversions_spec [OF demo_wf _ this] show ?thesis
    by (auto simp: demo_bytes_def demo_heap_def view_def cells_def)
qed

text \<open>C19: appending is amortised: however the bytes are cut into pieces, and whether the buffer is shared or not,
  each reallocation doubles the capacity: if appending \<open>xss\<close> allocates \<open>a + 1\<close> times, the buffer already held
  more than \<open>2 ^ a\<close> times the capacity it had at first.\<close>

theorem extends_amortised:
  assumes "wf_heap h (HMut b # R)" "length R < isize_max" "extend_all b xss h = Ok (c, h')"
  shows "wf_heap h' (HMut c # R) \<and> frame h h' R \<and> view h' (HMut c) = view h (HMut b) @ concat xss \<and>
    blocks h \<le> blocks h' \<and>
    (blocks h' = blocks h \<or> bm_cap b * 2 ^ (blocks h' - blocks h - 1) < bm_len b + length (concat xss))"
proof (cases "blocks h < blocks h'")
  case True
  with extend_all_blocks [OF assms(3)] extend_all_view [OF assms] show ?thesis by simp
next
  case False
  with extend_all_blocks [OF assms(3)] extend_all_view [OF assms] show ?thesis by simp
qed

lemma demo_extends: "\<exists>c h'. extend_all demo_mut [[5], [6], [7], [8]] demo_heap = Ok (c, h')"
  by (simp add: eval_simps demo_mut_def bm_extend_from_slice_def bm_reserve_def reserve_inner_def as_unpromoted_mut_def
      reserve_unpromoted_def realloc_copy_def vec_with_capacity_def new_block_def copy_nonoverlapping_def ptr_copy_def
      apart_def readable_def writable_def write_cells_def store_cells_def cells_def blk_ok_def blk_size_def
      spare_capacity_mut_def ptr_add_def copy_from_def original_buffer_def ptr_sub_def vec_from_raw_parts_def
      vec_drop_def free_block_def mask_payload_0 uadd_def usub_def umul_def rassert_def isize_max_def usize_max_def Let_def)

theorem extends_amortised_witness:
  "\<exists>c h'. extend_all demo_mut [[5], [6], [7], [8]] demo_heap = Ok (c, h') \<and>
    view h' (HMut c) = [2, 3, 5, 6, 7, 8] \<and> blocks h' \<le> 2"
proof -
  obtain c h' where e: "extend_all demo_mut [[5], [6], [7], [8]] demo_heap = Ok (c, h')" using demo_extends by blast
  note r = extends_amortised [OF demo_mut_wf _ e]
  have "view h' (HMut c) = [2, 3, 5, 6, 7, 8]" using r by simp
  moreover have one: "blocks demo_heap = 1" by (simp add: demo_heap_def)
  have few: "blocks h' = 1 \<or> 3 * 2 ^ (blocks h' - 1 - 1) < (6 :: nat)" using r unfolding one by simp
  have "blocks h' \<le> 2"
  proof (rule ccontr)
    assume "\<not> blocks h' \<le> 2"
    then obtain k where "blocks h' = Suc (Suc (Suc k))" using le_Suc_ex [of 3 "blocks h'"] by auto
    with few show False by simp
  qed
  ultimately show ?thesis using e by blast
qed

end
