(* ===== verification/Utf8.thy ===== *)
theory Utf8
  imports Tcio_Prelude
begin

text \<open>
  The standard library's UTF-8 as \<open>src/bytes/bytestr.rs\<close> uses it: validation with its error, and
  \<open>is_char_boundary\<close>, written out on byte lists.
\<close>

subsection \<open>UTF-8\<close>

definition utf8_cont :: "u8 \<Rightarrow> bool" where
  "utf8_cont b \<longleftrightarrow> 0x80 \<le> b \<and> b \<le> 0xBF"

definition utf8_lead2 :: "u8 \<Rightarrow> bool" where
  "utf8_lead2 b \<longleftrightarrow> 0xC2 \<le> b \<and> b \<le> 0xDF"

definition utf8_lead3 :: "u8 \<Rightarrow> u8 \<Rightarrow> bool" where
  "utf8_lead3 b c \<longleftrightarrow> b = 0xE0 \<and> 0xA0 \<le> c \<and> c \<le> 0xBF \<or> 0xE1 \<le> b \<and> b \<le> 0xEC \<and> utf8_cont c \<or>
     b = 0xED \<and> 0x80 \<le> c \<and> c \<le> 0x9F \<or> 0xEE \<le> b \<and> b \<le> 0xEF \<and> utf8_cont c"

definition utf8_lead4 :: "u8 \<Rightarrow> u8 \<Rightarrow> bool" where
  "utf8_lead4 b c \<longleftrightarrow> b = 0xF0 \<and> 0x90 \<le> c \<and> c \<le> 0xBF \<or> 0xF1 \<le> b \<and> b \<le> 0xF3 \<and> utf8_cont c \<or>
     b = 0xF4 \<and> 0x80 \<le> c \<and> c \<le> 0x8F"

fun utf8_valid :: "u8 list \<Rightarrow> bool" where
  "utf8_valid [] \<longleftrightarrow> True"
| "utf8_valid (b # bs) \<longleftrightarrow>
     (if b < 0x80 then utf8_valid bs
      else case bs of
        [] \<Rightarrow> False
      | c # cs \<Rightarrow>
          if utf8_lead2 b then utf8_cont c \<and> utf8_valid cs
          else case cs of
            [] \<Rightarrow> False
          | d # ds \<Rightarrow>
              if utf8_lead3 b c then utf8_cont d \<and> utf8_valid ds
              else case ds of
                [] \<Rightarrow> False
              | e # es \<Rightarrow> utf8_lead4 b c \<and> utf8_cont d \<and> utf8_cont e \<and> utf8_valid es)"

definition is_char_boundary :: "u8 list \<Rightarrow> nat \<Rightarrow> bool" where
  "is_char_boundary s i \<longleftrightarrow>
     (if i = 0 then True
      else if length s \<le> i then i = length s
      else s ! i < 128 \<or> 192 \<le> s ! i)"

text \<open>
  \<open>str::from_utf8\<close> stops at the first sequence that is not a character. Its \<open>Utf8Error\<close> tells how many bytes were
  valid up to there, and the length of the offending sequence, or \<open>None\<close> if the input ends in the middle of one.
\<close>

record utf8_error =
  valid_up_to :: nat
  error_len :: "nat option"

definition utf8_lead3_any :: "u8 \<Rightarrow> bool" where
  "utf8_lead3_any b \<longleftrightarrow> 0xE0 \<le> b \<and> b \<le> 0xEF"

definition utf8_lead4_any :: "u8 \<Rightarrow> bool" where
  "utf8_lead4_any b \<longleftrightarrow> 0xF0 \<le> b \<and> b \<le> 0xF4"

definition utf8_err :: "nat \<Rightarrow> nat option \<Rightarrow> utf8_error option" where
  "utf8_err i len = Some \<lparr>valid_up_to = i, error_len = len\<rparr>"

fun utf8_validate :: "nat \<Rightarrow> u8 list \<Rightarrow> utf8_error option" where
  "utf8_validate i [] = None"
| "utf8_validate i (b # bs) =
     (if b < 0x80 then utf8_validate (i + 1) bs
      else if utf8_lead2 b then
        (case bs of [] \<Rightarrow> utf8_err i None
         | c # cs \<Rightarrow> if utf8_cont c then utf8_validate (i + 2) cs else utf8_err i (Some 1))
      else if utf8_lead3_any b then
        (case bs of [] \<Rightarrow> utf8_err i None
         | c # cs \<Rightarrow> if \<not> utf8_lead3 b c then utf8_err i (Some 1) else
             (case cs of [] \<Rightarrow> utf8_err i None
              | d # ds \<Rightarrow> if utf8_cont d then utf8_validate (i + 3) ds else utf8_err i (Some 2)))
      else if utf8_lead4_any b then
        (case bs of [] \<Rightarrow> utf8_err i None
         | c # cs \<Rightarrow> if \<not> utf8_lead4 b c then utf8_err i (Some 1) else
             (case cs of [] \<Rightarrow> utf8_err i None
              | d # ds \<Rightarrow> if \<not> utf8_cont d then utf8_err i (Some 2) else
                  (case ds of [] \<Rightarrow> utf8_err i None
                   | e # es \<Rightarrow> if utf8_cont e then utf8_validate (i + 4) es else utf8_err i (Some 3))))
      else utf8_err i (Some 1))"

declare utf8_validate.simps(2) [simp del]

subsection \<open>Cutting UTF-8\<close>

text \<open>The encoding of one character, and UTF-8 as a sequence of them.\<close>

fun utf8_char :: "u8 list \<Rightarrow> bool" where
  "utf8_char [b] \<longleftrightarrow> b < 0x80"
| "utf8_char [b, c] \<longleftrightarrow> utf8_lead2 b \<and> utf8_cont c"
| "utf8_char [b, c, d] \<longleftrightarrow> utf8_lead3 b c \<and> utf8_cont d"
| "utf8_char [b, c, d, e] \<longleftrightarrow> utf8_lead4 b c \<and> utf8_cont d \<and> utf8_cont e"
| "utf8_char _ \<longleftrightarrow> False"

lemmas utf8_defs = utf8_lead2_def utf8_lead3_def utf8_lead4_def utf8_cont_def

lemma lead_disjoint:
  "utf8_lead2 b \<Longrightarrow> \<not> b < 0x80" "utf8_lead3 b c \<Longrightarrow> \<not> b < 0x80" "utf8_lead4 b c \<Longrightarrow> \<not> b < 0x80"
  "utf8_lead3 b c \<Longrightarrow> \<not> utf8_lead2 b" "utf8_lead4 b c \<Longrightarrow> \<not> utf8_lead2 b" "utf8_lead4 b c \<Longrightarrow> \<not> utf8_lead3 b c"
  by (auto simp: utf8_defs word_less_nat_alt word_le_nat_alt)

lemma lead_boundary:
  "b < 0x80 \<Longrightarrow> \<not> utf8_cont b" "utf8_lead2 b \<Longrightarrow> \<not> utf8_cont b" "utf8_lead3 b c \<Longrightarrow> \<not> utf8_cont b"
  "utf8_lead4 b c \<Longrightarrow> \<not> utf8_cont b" "utf8_lead3 b c \<Longrightarrow> utf8_cont c" "utf8_lead4 b c \<Longrightarrow> utf8_cont c"
  by (auto simp: utf8_defs word_less_nat_alt word_le_nat_alt)

lemma not_cont_iff: "x < 128 \<or> 192 \<le> x \<longleftrightarrow> \<not> utf8_cont x"
  by (auto simp: utf8_cont_def word_less_nat_alt word_le_nat_alt)

declare utf8_valid.simps(2) [simp del]

lemma utf8_valid_char:
  "b < 0x80 \<Longrightarrow> utf8_valid (b # xs) = utf8_valid xs"
  "utf8_lead2 b \<Longrightarrow> utf8_valid (b # c # xs) \<longleftrightarrow> utf8_cont c \<and> utf8_valid xs"
  "utf8_lead3 b c \<Longrightarrow> utf8_valid (b # c # d # xs) \<longleftrightarrow> utf8_cont d \<and> utf8_valid xs"
  "utf8_lead4 b c \<Longrightarrow> utf8_valid (b # c # d # e # xs) \<longleftrightarrow> utf8_cont d \<and> utf8_cont e \<and> utf8_valid xs"
  by (subst utf8_valid.simps(2), simp add: lead_disjoint)+

lemma utf8_char_append: "utf8_char c \<Longrightarrow> utf8_valid (c @ xs) = utf8_valid xs"
  by (induction c rule: utf8_char.induct) (auto simp: utf8_valid_char)

lemma utf8_char_tl: "utf8_char c \<Longrightarrow> c \<noteq> [] \<and> \<not> utf8_cont (hd c) \<and> (\<forall>x \<in> set (tl c). utf8_cont x)"
  by (induction c rule: utf8_char.induct) (auto simp: lead_boundary)

lemma utf8_first:
  assumes "utf8_valid xs" "xs \<noteq> []"
  obtains c ys where "xs = c @ ys" "utf8_char c" "utf8_valid ys"
proof -
  obtain b bs where xs: "xs = b # bs" using assms(2) by (cases xs) auto
  consider "b < 0x80" "utf8_valid bs"
    | c cs where "bs = c # cs" "utf8_char [b, c]" "utf8_valid cs"
    | c d ds where "bs = c # d # ds" "utf8_char [b, c, d]" "utf8_valid ds"
    | c d e es where "bs = c # d # e # es" "utf8_char [b, c, d, e]" "utf8_valid es"
    using assms(1) by (auto simp: xs utf8_valid.simps(2) [of b] split: if_splits list.splits)
  then show thesis
    by cases (use that [of "[b]"] that [of "[b, _]"] that [of "[b, _, _]"] that [of "[b, _, _, _]"] xs in auto)
qed

lemma utf8_cont_invalid: "utf8_cont x \<Longrightarrow> \<not> utf8_valid (x # xs)"
proof
  assume x: "utf8_cont x" and "utf8_valid (x # xs)"
  then obtain c ys where "x # xs = c @ ys" "utf8_char c" by (rule_tac utf8_first [of "x # xs"]) auto
  then have "hd c = x" using utf8_char_tl by (cases c) auto
  then show False using utf8_char_tl [OF \<open>utf8_char c\<close>] x by simp
qed

lemma utf8_cut_iff:
  "utf8_valid xs \<Longrightarrow> i \<le> length xs \<Longrightarrow>
   is_char_boundary xs i \<longleftrightarrow> utf8_valid (take i xs) \<and> utf8_valid (drop i xs)"
proof (induction "length xs" arbitrary: xs i rule: less_induct)
  case less
  show ?case
  proof (cases "i = 0 \<or> xs = []")
    case True
    then show ?thesis using less.prems by (auto simp: is_char_boundary_def)
  next
    case False
    then obtain c ys where c: "xs = c @ ys" "utf8_char c" "utf8_valid ys"
      using utf8_first less.prems(1) by metis
    note tl = utf8_char_tl [OF c(2)]
    show ?thesis
    proof (cases "i < length c")
      case True
      then obtain x where "x = c ! i" "x \<in> set (tl c)" using False tl
        by (cases c) (auto simp: nth_Cons split: nat.splits)
      then have x: "x = xs ! i" "utf8_cont x" using tl True c(1) by (auto simp: nth_append)
      have "i < length xs" using True c(1) by simp
      then have "drop i xs = x # drop (Suc i) xs" using x(1) by (simp add: Cons_nth_drop_Suc)
      moreover have "\<not> is_char_boundary xs i"
        using False \<open>i < length xs\<close> x by (simp add: is_char_boundary_def not_cont_iff)
      ultimately show ?thesis using utf8_cont_invalid [OF x(2)] by simp
    next
      case ge: False
      have "length ys < length xs" "i - length c \<le> length ys" using c(1) tl less.prems(2) by auto
      note IH = less.hyps [OF this(1) c(3) this(2)]
      have "is_char_boundary xs i \<longleftrightarrow> is_char_boundary ys (i - length c)"
      proof (cases "i = length c")
        case True
        have "xs ! i = ys ! 0" "i = length xs \<longleftrightarrow> ys = []" using True c(1) by (auto simp: nth_append)
        moreover have "\<not> utf8_cont (ys ! 0)" if "ys \<noteq> []"
          using utf8_cont_invalid [of "ys ! 0" "tl ys"] c(3) that by (cases ys) auto
        ultimately show ?thesis using True c(1)
          by (auto simp: is_char_boundary_def not_cont_iff)
      next
        case False
        then show ?thesis using ge c(1) by (auto simp: is_char_boundary_def nth_append)
      qed
      moreover have "take i xs = c @ take (i - length c) ys" "drop i xs = drop (i - length c) ys"
        using c(1) ge by simp_all
      ultimately show ?thesis using IH utf8_char_append [OF c(2)] by simp
    qed
  qed
qed

subsection \<open>What the error tells\<close>

lemma lead_any:
  "utf8_lead3 b c \<Longrightarrow> utf8_lead3_any b" "utf8_lead4 b c \<Longrightarrow> utf8_lead4_any b"
  "utf8_lead4 b c \<Longrightarrow> \<not> utf8_lead3_any b"
  by (auto simp: utf8_defs utf8_lead3_any_def utf8_lead4_any_def word_less_nat_alt word_le_nat_alt)

lemma lead_any_disjoint:
  "utf8_lead3_any b \<Longrightarrow> \<not> b < 0x80" "utf8_lead3_any b \<Longrightarrow> \<not> utf8_lead2 b" "utf8_lead4_any b \<Longrightarrow> \<not> b < 0x80"
  "utf8_lead4_any b \<Longrightarrow> \<not> utf8_lead2 b" "utf8_lead4_any b \<Longrightarrow> \<not> utf8_lead3_any b"
  by (auto simp: utf8_defs utf8_lead3_any_def utf8_lead4_any_def word_less_nat_alt word_le_nat_alt)

lemma validate_simps:
  "b < 0x80 \<Longrightarrow> utf8_validate i (b # xs) = utf8_validate (i + 1) xs"
  "utf8_lead2 b \<Longrightarrow> utf8_validate i (b # c # xs) = (if utf8_cont c then utf8_validate (i + 2) xs else utf8_err i (Some 1))"
  "utf8_lead3 b c \<Longrightarrow> utf8_validate i (b # c # d # xs) =
     (if utf8_cont d then utf8_validate (i + 3) xs else utf8_err i (Some 2))"
  "utf8_lead4 b c \<Longrightarrow> utf8_validate i (b # c # d # e # xs) =
     (if \<not> utf8_cont d then utf8_err i (Some 2) else if utf8_cont e then utf8_validate (i + 4) xs else utf8_err i (Some 3))"
  by (subst utf8_validate.simps(2), simp add: lead_disjoint lead_any)+

lemma validate_char: "utf8_char c \<Longrightarrow> utf8_validate i (c @ xs) = utf8_validate (i + length c) xs"
  by (induction c rule: utf8_char.induct) (simp_all add: validate_simps eval_nat_numeral)

text \<open>Every lead has its continuations.\<close>

lemma lead_complete:
  "utf8_cont 0x80" "utf8_lead3_any b \<Longrightarrow> utf8_lead3 b (if b = 0xE0 then 0xA0 else 0x80)"
  "utf8_lead4_any b \<Longrightarrow> utf8_lead4 b (if b = 0xF0 then 0x90 else 0x80)"
  by (auto simp: utf8_defs utf8_lead3_any_def utf8_lead4_any_def word_le_nat_alt word_unat_eq_iff)

lemma utf8_char_Cons:
  "utf8_char (b # zs) \<longleftrightarrow> b < 0x80 \<and> zs = [] \<or> utf8_lead2 b \<and> (\<exists>c. zs = [c] \<and> utf8_cont c) \<or>
     (\<exists>c d. zs = [c, d] \<and> utf8_lead3 b c \<and> utf8_cont d) \<or>
     (\<exists>c d e. zs = [c, d, e] \<and> utf8_lead4 b c \<and> utf8_cont d \<and> utf8_cont e)"
  by (cases "b # zs" rule: utf8_char.cases) auto

text \<open>Where no character starts, the input is refused; it might have gone on if it ends inside of a character.\<close>

definition stuck :: "u8 list \<Rightarrow> nat option \<Rightarrow> bool" where
  "stuck xs e \<longleftrightarrow> (e = None \<longleftrightarrow> (\<exists>ys. utf8_char (xs @ ys))) \<and> (\<forall>k. e = Some k \<longrightarrow> 0 < k \<and> k \<le> 3 \<and> k \<le> length xs)"

lemma stuckI:
  "utf8_char (xs @ ys) \<Longrightarrow> stuck xs None"
  "(\<And>ys. \<not> utf8_char (xs @ ys)) \<Longrightarrow> 0 < k \<Longrightarrow> k \<le> 3 \<Longrightarrow> k \<le> length xs \<Longrightarrow> stuck xs (Some k)"
  by (auto simp: stuck_def)

lemma stuck_lead2:
  assumes b: "utf8_lead2 b" and no: "\<And>c cs. bs = c # cs \<Longrightarrow> \<not> utf8_cont c"
  shows "\<exists>e. utf8_validate i (b # bs) = utf8_err i e \<and> stuck (b # bs) e"
proof (cases bs)
  case Nil
  have "stuck [b] None" by (rule stuckI(1) [of _ "[0x80]"]) (simp add: b lead_complete(1))
  then show ?thesis using b Nil lead_disjoint(1) [OF b] by (auto simp: utf8_validate.simps(2))
next
  case (Cons c cs)
  have "stuck (b # c # cs) (Some 1)"
    by (rule stuckI(2)) (use no [OF Cons] b lead_disjoint [of b] in \<open>auto simp: utf8_char_Cons\<close>)
  then show ?thesis using no b Cons lead_disjoint(1) [OF b] by (auto simp: utf8_validate.simps(2))
qed

lemma stuck_lead3:
  assumes b: "utf8_lead3_any b" and no: "\<And>c d cs. bs = c # d # cs \<Longrightarrow> utf8_lead3 b c \<Longrightarrow> \<not> utf8_cont d"
  shows "\<exists>e. utf8_validate i (b # bs) = utf8_err i e \<and> stuck (b # bs) e"
proof -
  note dis = lead_any_disjoint(1,2) [OF b]
  let ?c = "if b = 0xE0 then 0xA0 else 0x80"
  consider "bs = []" | c cs where "bs = c # cs" "\<not> utf8_lead3 b c" | c where "bs = [c]" "utf8_lead3 b c"
    | c d ds where "bs = c # d # ds" "utf8_lead3 b c" by (metis list.exhaust)
  then show ?thesis
  proof cases
    case 1
    have "stuck [b] None" by (rule stuckI(1) [of _ "[?c, 0x80]"]) (use lead_complete(2) [OF b] in \<open>simp add: lead_complete(1)\<close>)
    then show ?thesis using b dis 1 by (auto simp: utf8_validate.simps(2))
  next
    case (2 c cs)
    have "stuck (b # c # cs) (Some 1)"
      by (rule stuckI(2)) (use 2 dis b lead_any(3) [of b c] in \<open>auto simp: utf8_char_Cons\<close>)
    then show ?thesis using b dis 2 by (auto simp: utf8_validate.simps(2))
  next
    case (3 c)
    have "stuck [b, c] None" by (rule stuckI(1) [of _ "[0x80]"]) (simp add: 3 lead_complete(1))
    then show ?thesis using b dis 3 by (auto simp: utf8_validate.simps(2))
  next
    case (4 c d ds)
    have "stuck (b # c # d # ds) (Some 2)"
      by (rule stuckI(2)) (use no [OF 4] dis lead_disjoint(6) [of b c] 4 in \<open>auto simp: utf8_char_Cons\<close>)
    then show ?thesis using b dis 4 no [OF 4] by (auto simp: utf8_validate.simps(2))
  qed
qed

lemma stuck_lead4:
  assumes b: "utf8_lead4_any b"
    and no: "\<And>c d e cs. bs = c # d # e # cs \<Longrightarrow> utf8_lead4 b c \<Longrightarrow> utf8_cont d \<Longrightarrow> \<not> utf8_cont e"
  shows "\<exists>e. utf8_validate i (b # bs) = utf8_err i e \<and> stuck (b # bs) e"
proof -
  note dis = lead_any_disjoint(3,4,5) [OF b]
  have no3: "\<not> utf8_lead3 b c" for c using dis(3) lead_any(1) by blast
  let ?c = "if b = 0xF0 then 0x90 else 0x80"
  consider "bs = []" | c cs where "bs = c # cs" "\<not> utf8_lead4 b c" | c where "bs = [c]" "utf8_lead4 b c"
    | c d ds where "bs = c # d # ds" "utf8_lead4 b c" "\<not> utf8_cont d"
    | c d where "bs = [c, d]" "utf8_lead4 b c" "utf8_cont d"
    | c d e es where "bs = c # d # e # es" "utf8_lead4 b c" "utf8_cont d" by (metis list.exhaust)
  then show ?thesis
  proof cases
    case 1
    have "stuck [b] None"
      by (rule stuckI(1) [of _ "[?c, 0x80, 0x80]"]) (use lead_complete(3) [OF b] in \<open>simp add: lead_complete(1)\<close>)
    then show ?thesis using b dis 1 by (auto simp: utf8_validate.simps(2))
  next
    case (2 c cs)
    have "stuck (b # c # cs) (Some 1)" by (rule stuckI(2)) (use 2 dis no3 in \<open>auto simp: utf8_char_Cons\<close>)
    then show ?thesis using b dis 2 by (auto simp: utf8_validate.simps(2))
  next
    case (3 c)
    have "stuck [b, c] None" by (rule stuckI(1) [of _ "[0x80, 0x80]"]) (simp add: 3 lead_complete(1))
    then show ?thesis using b dis 3 by (auto simp: utf8_validate.simps(2))
  next
    case (4 c d ds)
    have "stuck (b # c # d # ds) (Some 2)" by (rule stuckI(2)) (use 4 dis no3 in \<open>auto simp: utf8_char_Cons\<close>)
    then show ?thesis using b dis 4 by (auto simp: utf8_validate.simps(2))
  next
    case (5 c d)
    have "stuck [b, c, d] None" by (rule stuckI(1) [of _ "[0x80]"]) (simp add: 5 lead_complete(1))
    then show ?thesis using b dis 5 by (auto simp: utf8_validate.simps(2))
  next
    case (6 c d e es)
    have "stuck (b # c # d # e # es) (Some 3)"
      by (rule stuckI(2)) (use no [OF 6] dis no3 6 in \<open>auto simp: utf8_char_Cons\<close>)
    then show ?thesis using b dis 6 no [OF 6] by (auto simp: utf8_validate.simps(2))
  qed
qed

lemma validate_stuck:
  assumes "xs \<noteq> []" "\<And>c ys. xs = c @ ys \<Longrightarrow> \<not> utf8_char c"
  shows "\<exists>e. utf8_validate i xs = utf8_err i e \<and> stuck xs e"
proof -
  obtain b bs where xs: "xs = b # bs" using assms(1) by (cases xs) auto
  note no = assms(2) [unfolded xs]
  have b: "\<not> b < 0x80" using no [of "[b]" bs] by auto
  consider "utf8_lead2 b" | "utf8_lead3_any b" | "utf8_lead4_any b"
    | "\<not> utf8_lead2 b" "\<not> utf8_lead3_any b" "\<not> utf8_lead4_any b" by blast
  then show ?thesis
  proof cases
    case 1
    then have "\<not> utf8_cont c" if "bs = c # cs" for c cs using no [of "[b, c]" cs] that by auto
    then show ?thesis unfolding xs by (rule stuck_lead2 [OF 1])
  next
    case 2
    have "\<not> utf8_cont d" if "bs = c # d # cs" "utf8_lead3 b c" for c d cs using no [of "[b, c, d]" cs] that by auto
    then show ?thesis unfolding xs by (rule stuck_lead3 [OF 2])
  next
    case 3
    have "\<not> utf8_cont e" if "bs = c # d # e # cs" "utf8_lead4 b c" "utf8_cont d" for c d e cs
      using no [of "[b, c, d, e]" cs] that by auto
    then show ?thesis unfolding xs by (rule stuck_lead4 [OF 3])
  next
    case 4
    then have "stuck (b # bs) (Some 1)" by (intro stuckI(2)) (use b lead_any(1,2) in \<open>auto simp: utf8_char_Cons\<close>)
    then show ?thesis using 4 b xs by (auto simp: utf8_validate.simps(2))
  qed
qed

text \<open>The whole of it, for the longest valid prefix.\<close>

lemma utf8_take_char:
  assumes "utf8_valid (take n xs)" "take n xs \<noteq> []"
  obtains c ys where "xs = c @ ys" "utf8_char c" "length c \<le> n" "utf8_valid (take (n - length c) ys)"
proof -
  obtain c zs where c: "take n xs = c @ zs" "utf8_char c" "utf8_valid zs" by (rule utf8_first [OF assms])
  have xs: "xs = c @ zs @ drop n xs" using append_take_drop_id [of n xs] c(1) by simp
  note xs
  moreover have "length c \<le> n" using arg_cong [OF c(1), of length] by (simp add: min_def split: if_splits)
  moreover have "take (n - length c) (zs @ drop n xs) = zs"
  proof -
    have "zs @ drop n xs = drop (length c) xs" using arg_cong [OF xs, of "drop (length c)"] by simp
    then show ?thesis using arg_cong [OF c(1), of "drop (length c)"] by (simp add: drop_take)
  qed
  ultimately show thesis using that c(2,3) by metis
qed

lemma utf8_take_after_char:
  assumes c: "utf8_char c" and valid: "utf8_valid (take n (c @ ys))" and n: "n \<noteq> 0"
  shows "length c \<le> n \<and> utf8_valid (take (n - length c) ys)"
proof (cases "n < length c")
  case True
  have "utf8_valid (take n c)" "take n c \<noteq> []" using valid n True by auto
  then obtain d zs where d: "c = d @ zs" "utf8_char d" "length d \<le> n" by (rule utf8_take_char)
  then obtain z zs' where z: "zs = z # zs'" using True by (cases zs) auto
  have "z \<in> set (tl c)" using d(1) z utf8_char_tl [OF d(2)] by (cases d) auto
  then have "\<not> utf8_valid zs" using utf8_char_tl [OF c] z by (simp add: utf8_cont_invalid)
  moreover have "utf8_valid c" using utf8_char_append [OF c, of "[]"] by simp
  ultimately show ?thesis using utf8_char_append [OF d(2), of zs] d(1) by simp
next
  case False
  then show ?thesis using valid utf8_char_append [OF c] by simp
qed

lemma utf8_append_char:
  assumes "utf8_valid (xs @ ys)" "xs \<noteq> []"
  shows "(\<exists>c zs. xs = c @ zs \<and> utf8_char c \<and> utf8_valid (zs @ ys)) \<or> (\<exists>zs. utf8_char (xs @ zs))"
proof -
  obtain c zs where "xs @ ys = c @ zs" "utf8_char c" "utf8_valid zs" using utf8_first [OF assms(1)] assms(2) by auto
  then show ?thesis by (auto simp: append_eq_append_conv2)
qed

lemma validate_law:
  "case utf8_validate i xs of
     None \<Rightarrow> utf8_valid xs
   | Some e \<Rightarrow> \<exists>v. valid_up_to e = i + v \<and> v \<le> length xs \<and> utf8_valid (take v xs) \<and> \<not> utf8_valid xs \<and>
       (\<forall>n\<le>length xs. utf8_valid (take n xs) \<longrightarrow> n \<le> v) \<and>
       (error_len e = None \<longleftrightarrow> (\<exists>ys. utf8_valid (xs @ ys))) \<and>
       (\<forall>k. error_len e = Some k \<longrightarrow> 0 < k \<and> k \<le> 3 \<and> v + k \<le> length xs)"
proof (induction "length xs" arbitrary: i xs rule: less_induct)
  case less
  show ?case
  proof (cases "xs = []")
    case False
    show ?thesis
    proof (cases "\<exists>c ys. xs = c @ ys \<and> utf8_char c")
      case True
      then obtain c ys where c: "xs = c @ ys" "utf8_char c" by blast
      have val: "utf8_validate i xs = utf8_validate (i + length c) ys" using validate_char [OF c(2)] c(1) by simp
      have "length ys < length xs" using utf8_char_tl [OF c(2)] c(1) by simp
      note IH = less.hyps [OF this, of "i + length c"]
      show ?thesis
      proof (cases "utf8_validate i xs")
        case None
        then show ?thesis using IH val c utf8_char_append [OF c(2)] by simp
      next
        case (Some e)
        then obtain v where v: "valid_up_to e = i + length c + v" "v \<le> length ys" "utf8_valid (take v ys)" "\<not> utf8_valid ys"
          "\<forall>n\<le>length ys. utf8_valid (take n ys) \<longrightarrow> n \<le> v" "error_len e = None \<longleftrightarrow> (\<exists>zs. utf8_valid (ys @ zs))"
          "\<forall>k. error_len e = Some k \<longrightarrow> 0 < k \<and> k \<le> 3 \<and> v + k \<le> length ys"
          using IH val by (auto simp: add.assoc)
        have "n \<le> length c + v" if n: "n \<le> length xs" "utf8_valid (take n xs)" for n
        proof (cases "n = 0")
          case False
          then have "length c \<le> n" "utf8_valid (take (n - length c) ys)"
            using utf8_take_after_char [OF c(2), of n ys] n c(1) by simp_all
          moreover have "n - length c \<le> length ys" using n(1) c(1) by simp
          ultimately have "n - length c \<le> v" using v(5) by blast
          then show ?thesis by simp
        qed simp
        then show ?thesis using Some v c utf8_char_append [OF c(2)]
          by (auto intro!: exI [of _ "length c + v"])
      qed
    next
      case no: False
      then obtain e where e: "utf8_validate i xs = utf8_err i e" "stuck xs e"
        using validate_stuck [OF False, of i] by blast
      have "n = 0" if "n \<le> length xs" "utf8_valid (take n xs)" for n
      proof (rule ccontr)
        assume "n \<noteq> 0"
        then have "take n xs \<noteq> []" using False by simp
        with that(2) show False by (rule utf8_take_char) (use no in blast)
      qed
      moreover have "(\<exists>ys. utf8_valid (xs @ ys)) \<longleftrightarrow> (\<exists>ys. utf8_char (xs @ ys))"
        using utf8_append_char [OF _ False] no utf8_char_append [of _ "[]"] by fastforce
      moreover have "\<not> utf8_valid xs" using utf8_first [OF _ False] no by metis
      ultimately show ?thesis using e by (auto simp: utf8_err_def stuck_def)
    qed
  qed simp
qed

end
