(* ===== verification/Byte_Str.thy ===== *)
theory Byte_Str
  imports Utf8 Bytes_Spec
begin

text \<open>
  \<open>src/bytes/bytestr.rs\<close>: a \<open>ByteStr\<close> is a \<open>Bytes\<close> whose bytes are UTF-8. A \<open>&str\<close>
  argument is a list that is UTF-8. Reading a \<open>ByteStr\<close> as a string is undefined behaviour if its bytes are not UTF-8.
\<close>

subsection \<open>Operations\<close>

datatype byte_str = Byte_Str (bstr_bytes: bytes)

definition bstr_new :: "heap \<Rightarrow> byte_str" where
  "bstr_new h = Byte_Str (bytes_new h)"

text \<open>\<open>FromUtf8Error\<close> and its accessors.\<close>

record from_utf8_error =
  fe_bytes :: bytes
  fe_error :: utf8_error

definition fe_utf8_error :: "from_utf8_error \<Rightarrow> utf8_error" where
  "fe_utf8_error e = fe_error e"

definition fe_as_bytes :: "from_utf8_error \<Rightarrow> heap \<Rightarrow> u8 list res" where
  "fe_as_bytes e h = bytes_as_slice (fe_bytes e) h"

definition fe_into_bytes :: "from_utf8_error \<Rightarrow> bytes" where
  "fe_into_bytes e = fe_bytes e"

definition bstr_from_utf8 :: "bytes \<Rightarrow> heap \<Rightarrow> (from_utf8_error + byte_str) res" where
  "bstr_from_utf8 b h =
     rbind (bytes_as_slice b h) (\<lambda>xs.
       case utf8_validate 0 xs of
         None \<Rightarrow> Ok (Inr (Byte_Str b))
       | Some err \<Rightarrow> Ok (Inl \<lparr>fe_bytes = b, fe_error = err\<rparr>))"

definition bstr_from_utf8_unchecked :: "bytes \<Rightarrow> heap \<Rightarrow> byte_str res" where
  "bstr_from_utf8_unchecked b h =
     rbind (bytes_as_slice b h) (\<lambda>xs. rbind (rassert (utf8_valid xs)) (\<lambda>_. Ok (Byte_Str b)))"

text \<open>\<open>sub_str\<close> is the address and the length of a string.\<close>

definition bstr_from_slice_of :: "nat \<times> nat \<Rightarrow> bytes \<Rightarrow> heap \<Rightarrow> ((bytes \<times> byte_str) \<times> heap) res" where
  "bstr_from_slice_of sub_str b h =
     rbind (slice_from_raw b (fst sub_str) (snd sub_str) h) (\<lambda>((b, c), h). Ok ((b, Byte_Str c), h))"

definition bstr_copy_from_str :: "u8 list \<Rightarrow> heap \<Rightarrow> (byte_str \<times> heap) res" where
  "bstr_copy_from_str s h = rbind (bytes_copy_from_slice s h) (\<lambda>(b, h). Ok (Byte_Str b, h))"

definition bstr_from_static :: "ptr \<Rightarrow> nat \<Rightarrow> byte_str" where
  "bstr_from_static p n = Byte_Str (bytes_from_static p n)"

definition bstr_from_string :: "vec \<Rightarrow> heap \<Rightarrow> (byte_str \<times> heap) res" where
  "bstr_from_string v h = rbind (bytes_from_vec v h) (\<lambda>(b, h). Ok (Byte_Str b, h))"

definition bstr_from_box :: "vec \<Rightarrow> byte_str" where
  "bstr_from_box v = Byte_Str (bytes_from_box v)"

datatype cow_str = Borrowed ptr nat | Owned vec

fun bstr_from_cow :: "cow_str \<Rightarrow> heap \<Rightarrow> (byte_str \<times> heap) res" where
  "bstr_from_cow (Borrowed p n) h = Ok (bstr_from_static p n, h)"
| "bstr_from_cow (Owned v) h = bstr_from_string v h"

definition bstr_as_str :: "byte_str \<Rightarrow> heap \<Rightarrow> u8 list res" where
  "bstr_as_str s h = rbind (bytes_as_slice (bstr_bytes s) h) (\<lambda>xs. if utf8_valid xs then Ok xs else UB)"

definition bstr_truncate :: "byte_str \<Rightarrow> nat \<Rightarrow> heap \<Rightarrow> (byte_str \<times> heap) res" where
  "bstr_truncate s new_len h =
     rbind (bstr_as_str s h) (\<lambda>xs.
     if new_len \<le> length xs
     then rbind (rassert (is_char_boundary xs new_len)) (\<lambda>_.
          rbind (bytes_truncate (bstr_bytes s) new_len h) (\<lambda>(b, h). Ok (Byte_Str b, h)))
     else Ok (s, h))"

definition bstr_clear :: "byte_str \<Rightarrow> heap \<Rightarrow> (byte_str \<times> heap) res" where
  "bstr_clear s h = rbind (bytes_clear (bstr_bytes s) h) (\<lambda>(b, h). Ok (Byte_Str b, h))"

definition bstr_is_unique :: "byte_str \<Rightarrow> heap \<Rightarrow> bool res" where
  "bstr_is_unique s h = bytes_is_unique (bstr_bytes s) h"

definition bstr_slice_ref :: "byte_str \<Rightarrow> nat \<times> nat \<Rightarrow> heap \<Rightarrow> ((byte_str \<times> byte_str) \<times> heap) res" where
  "bstr_slice_ref s sub_str h =
     rbind (slice_from_raw (bstr_bytes s) (fst sub_str) (snd sub_str) h) (\<lambda>((b, c), h).
     Ok ((Byte_Str b, Byte_Str c), h))"

definition bstr_into_string :: "byte_str \<Rightarrow> heap \<Rightarrow> (vec \<times> heap) res" where
  "bstr_into_string s h =
     rbind (bytes_as_slice (bstr_bytes s) h) (\<lambda>xs.
     if utf8_valid xs then bytes_into_vec (bstr_bytes s) h else UB)"

definition bstr_into_bytes :: "byte_str \<Rightarrow> bytes" where
  "bstr_into_bytes s = bstr_bytes s"

text \<open>\<open>AsRef<[u8]>\<close>, and \<open>PartialEq\<close> with a string or another \<open>ByteStr\<close>.\<close>

definition bstr_as_bytes :: "byte_str \<Rightarrow> heap \<Rightarrow> u8 list res" where
  "bstr_as_bytes s h = bytes_as_slice (bstr_bytes s) h"

definition bstr_eq_str :: "byte_str \<Rightarrow> u8 list \<Rightarrow> heap \<Rightarrow> bool res" where
  "bstr_eq_str s other h = rbind (bstr_as_str s h) (\<lambda>xs. Ok (xs = other))"

definition bstr_eq :: "byte_str \<Rightarrow> byte_str \<Rightarrow> heap \<Rightarrow> bool res" where
  "bstr_eq s t h = rbind (bstr_as_str s h) (\<lambda>xs. rbind (bstr_as_str t h) (\<lambda>ys. Ok (xs = ys)))"

subsection \<open>Contracts\<close>

text \<open>A live \<open>ByteStr\<close>: its handle is one of those of a well-formed heap, and its bytes are UTF-8.\<close>

definition bstr_ok :: "heap \<Rightarrow> byte_str \<Rightarrow> handle list \<Rightarrow> bool" where
  "bstr_ok h s R \<longleftrightarrow> wf_heap h (HBytes (bstr_bytes s) # R) \<and> utf8_valid (view h (HBytes (bstr_bytes s)))"

definition str_of :: "heap \<Rightarrow> byte_str \<Rightarrow> u8 list" where
  "str_of h s = view h (HBytes (bstr_bytes s))"

lemma bstr_slice_Ok:
  assumes "bstr_ok h s R"
  shows "bytes_as_slice (bstr_bytes s) h = Ok (str_of h s)" "bstr_as_str s h = Ok (str_of h s)"
    "length (str_of h s) = bs_len (bstr_bytes s)" "utf8_valid (str_of h s)"
  using assms bytes_as_slice_Ok [OF wf_ConsD(2)] length_view [OF wf_ConsD(2)]
  by (auto simp: bstr_ok_def bstr_as_str_def str_of_def)

text \<open>C28: the fallible constructor accepts exactly the UTF-8 byte sequences. Its error hands the very \<open>Bytes\<close> back, and
  tells the length of the longest valid prefix; no length is given exactly if the input breaks off inside of
  a character, so that more input could make it valid.\<close>

theorem bstr_from_utf8_spec:
  assumes "wf_heap h (HBytes b # R)"
  defines "xs \<equiv> view h (HBytes b)"
  shows "\<exists>r. bstr_from_utf8 b h = Ok r \<and>
    (case r of
       Inr s \<Rightarrow> utf8_valid xs \<and> bstr_ok h s R \<and> bstr_into_bytes s = b \<and> bstr_as_str s h = Ok xs
     | Inl err \<Rightarrow> \<not> utf8_valid xs \<and> fe_into_bytes err = b \<and> fe_as_bytes err h = Ok xs \<and>
         (let v = valid_up_to (fe_utf8_error err); len = error_len (fe_utf8_error err) in
          v \<le> length xs \<and> utf8_valid (take v xs) \<and> (\<forall>n\<le>length xs. utf8_valid (take n xs) \<longrightarrow> n \<le> v) \<and>
          (len = None \<longleftrightarrow> (\<exists>ys. utf8_valid (xs @ ys))) \<and>
          (\<forall>k. len = Some k \<longrightarrow> 0 < k \<and> k \<le> 3 \<and> v + k \<le> length xs)))"
proof -
  have slice: "bytes_as_slice b h = Ok xs" using bytes_as_slice_Ok [OF wf_ConsD(2) [OF assms(1)]] by (simp add: xs_def)
  show ?thesis
  proof (cases "utf8_validate 0 xs")
    case None
    then have "utf8_valid xs" using validate_law [of xs 0] by simp
    then show ?thesis using slice None assms(1)
      by (simp add: bstr_from_utf8_def bstr_ok_def bstr_as_str_def bstr_into_bytes_def xs_def)
  next
    case (Some e)
    then show ?thesis using slice validate_law [of xs 0]
      by (simp add: bstr_from_utf8_def fe_into_bytes_def fe_as_bytes_def fe_utf8_error_def Let_def)
  qed
qed

text \<open>An \<open>A\<close>, and two of the three bytes of a euro sign.\<close>

definition cut_heap :: heap where
  "cut_heap = demo_heap\<lparr>hp_blocks := [\<lparr>blk_cells = [Some 0, Some 0x41, Some 0xE2, Some 0x82], blk_live = True, blk_static = False\<rparr>]\<rparr>"

lemma cut_wf: "wf_heap cut_heap [HBytes demo_bytes]"
proof -
  have "handle_ok cut_heap (HBytes demo_bytes)" "no_leak cut_heap [HBytes demo_bytes]" "heap_ok cut_heap"
    by (simp_all add: handle_ok_def owner_ok_def no_leak_def cut_heap_def demo_heap_def demo_bytes_def blk_ok_def
        blk_size_def cells_def heap_ok_def isize_max_def usize_max_def ptr_addr_def)
  then show ?thesis by (simp add: wf_heap_def counts_ok_def) (simp add: cut_heap_def demo_heap_def)
qed

lemma cut_view [simp]: "view cut_heap (HBytes demo_bytes) = [0x41, 0xE2, 0x82]"
  by (simp add: view_def cells_def cut_heap_def demo_bytes_def)

lemma cut_valid:
  "utf8_valid [0x41]" "\<not> utf8_valid [0x41, 0xE2]" "\<not> utf8_valid [0x41, 0xE2, 0x82]" "utf8_valid [0x41, 0xE2, 0x82, 0xAC]"
  by (simp_all add: utf8_valid.simps(2) utf8_defs)

theorem bstr_from_utf8_witness:
  "\<exists>err. bstr_from_utf8 demo_bytes cut_heap = Ok (Inl err) \<and> fe_into_bytes err = demo_bytes \<and>
     valid_up_to (fe_utf8_error err) = 1 \<and> error_len (fe_utf8_error err) = None"
proof -
  obtain err where err: "bstr_from_utf8 demo_bytes cut_heap = Ok (Inl err)" "fe_into_bytes err = demo_bytes"
    "utf8_valid (take (valid_up_to (fe_utf8_error err)) [0x41, 0xE2, 0x82])" "valid_up_to (fe_utf8_error err) \<le> 3"
    "\<forall>n\<le>3. utf8_valid (take n [0x41, 0xE2, 0x82]) \<longrightarrow> n \<le> valid_up_to (fe_utf8_error err)"
    "error_len (fe_utf8_error err) = None \<longleftrightarrow> (\<exists>ys. utf8_valid ([0x41, 0xE2, 0x82] @ ys))"
    using bstr_from_utf8_spec [OF cut_wf] cut_valid(3)
    by (elim exE conjE, rule_tac s = r in sumE) (simp_all add: Let_def numeral_3_eq_3 del: append_Cons)
  have "error_len (fe_utf8_error err) = None" using err(6) cut_valid(4) by (metis append_Cons append_Nil)
  moreover have "1 \<le> valid_up_to (fe_utf8_error err)" using err(5) cut_valid(1) by (auto dest: spec [of _ 1])
  moreover have "valid_up_to (fe_utf8_error err) \<noteq> 2" "valid_up_to (fe_utf8_error err) \<noteq> 3"
    using err(3) cut_valid(2,3) by (auto simp: numeral_eq_Suc)
  ultimately show ?thesis using err(1,2,4) by (intro exI [of _ err]) linarith
qed

text \<open>a string goes in and comes out: \<open>copy_from_str\<close> gives a valid \<open>ByteStr\<close> that shows the text, and
  \<open>into_string\<close> of it, if the allocator can serve it, returns the same text in a \<open>String\<close>, never reaching
  undefined behaviour; no other handle notices.\<close>

theorem bstr_string_roundtrip:
  assumes "wf_heap h R" "utf8_valid xs" "alloc_ok h (length xs)" "box_room h" "length R \<le> isize_max"
  shows "\<exists>s h1. bstr_copy_from_str xs h = Ok (s, h1) \<and> bstr_ok h1 s R \<and> str_of h1 s = xs \<and> frame h h1 R \<and>
    (alloc_ok h1 (length xs) \<longrightarrow>
      (\<exists>v h2. bstr_into_string s h1 = Ok (v, h2) \<and> wf_heap h2 (HVec v # R) \<and> frame h1 h2 R \<and>
        view h2 (HVec v) = xs))"
proof -
  obtain b h1 where b: "bytes_copy_from_slice xs h = Ok (b, h1)" "wf_heap h1 (HBytes b # R)" "frame h h1 R"
    "view h1 (HBytes b) = xs"
    using bytes_copy_from_slice_Ok [OF assms(1,3,4)] by blast
  have ok: "bstr_ok h1 (Byte_Str b) R" using b(2,4) assms(2) by (simp add: bstr_ok_def)
  have str: "str_of h1 (Byte_Str b) = xs" using b(4) by (simp add: str_of_def)
  note s = bstr_slice_Ok [OF ok]
  have "\<exists>v h2. bytes_into_vec b h1 = Ok (v, h2) \<and> wf_heap h2 (HVec v # R) \<and> frame h1 h2 R \<and> view h2 (HVec v) = xs"
    if "alloc_ok h1 (length xs)"
    using bytes_into_vec_Ok [OF b(2) assms(5)] that b(4) s(3) str by simp
  then have "alloc_ok h1 (length xs) \<longrightarrow> (\<exists>v h2. bstr_into_string (Byte_Str b) h1 = Ok (v, h2) \<and>
      wf_heap h2 (HVec v # R) \<and> frame h1 h2 R \<and> view h2 (HVec v) = xs)"
    using s(1) str assms(2) by (simp add: bstr_into_string_def)
  moreover have "bstr_copy_from_str xs h = Ok (Byte_Str b, h1)" using b(1) by (simp add: bstr_copy_from_str_def)
  ultimately show ?thesis using ok str b(3) by blast
qed

theorem bstr_string_witness:
  "\<exists>s h1. bstr_copy_from_str [0xC3, 0xA9] demo_heap = Ok (s, h1) \<and> str_of h1 s = [0xC3, 0xA9]"
  using bstr_string_roundtrip [OF demo_wf, of "[0xC3, 0xA9]"] demo_room
  by (simp add: utf8_valid.simps(2) utf8_defs isize_max_def) blast

text \<open>C36: \<open>truncate\<close> panics exactly when one of the two parts it would cut the string into is not UTF-8;
  otherwise the string keeps its first \<open>new_len\<close> bytes, or all of them if it is not that long, and is
  still a valid \<open>ByteStr\<close>.\<close>

theorem bstr_truncate_spec:
  assumes "bstr_ok h s R" "room h (HBytes (bstr_bytes s) # R)"
  shows "if n \<le> length (str_of h s) \<and> \<not> (utf8_valid (take n (str_of h s)) \<and> utf8_valid (drop n (str_of h s)))
    then bstr_truncate s n h = Panic
    else \<exists>t h'. bstr_truncate s n h = Ok (t, h') \<and> bstr_ok h' t R \<and> quiet h h' \<and>
      str_of h' t = take n (str_of h s)"
proof -
  note s = bstr_slice_Ok [OF assms(1)]
  have wf: "wf_heap h (HBytes (bstr_bytes s) # R)" using assms(1) by (simp add: bstr_ok_def)
  obtain b' h' where b': "bytes_truncate (bstr_bytes s) n h = Ok (b', h')" "wf_heap h' (HBytes b' # R)" "quiet h h'"
    "view h' (HBytes b') = take n (str_of h s)"
    using bytes_truncate_Ok [OF wf assms(2), of n] by (auto simp: str_of_def)
  show ?thesis
  proof (cases "n \<le> length (str_of h s)")
    case True
    then show ?thesis
      using utf8_cut_iff [OF s(4) True] s(2) b' by (auto simp: bstr_truncate_def bstr_ok_def str_of_def)
  next
    case False
    then show ?thesis using s assms(1) by (simp add: bstr_truncate_def quiet_def)
  qed
qed

theorem bstr_truncate_witness:
  "\<exists>t h'. bstr_truncate (Byte_Str demo_bytes) 2 demo_heap = Ok (t, h') \<and> str_of h' t = [2, 3]"
  using bstr_truncate_spec [of demo_heap "Byte_Str demo_bytes" "[]" 2] demo_wf demo_room(1)
  by (auto simp: bstr_ok_def str_of_def utf8_valid.simps(2))

text \<open>\<open>slice_ref\<close> and \<open>from_slice_of\<close> of a string that lies inside the receiver give a valid \<open>ByteStr\<close> that
  shows that string and shares the memory; of a string elsewhere they panic.\<close>

theorem bstr_slice_spec:
  assumes "bstr_ok h s R" "room h (HBytes (bstr_bytes s) # R)"
    "utf8_valid (take n (drop (addr - ptr_addr h (bs_ptr (bstr_bytes s))) (str_of h s)))"
  shows "if ptr_addr h (bs_ptr (bstr_bytes s)) \<le> addr \<and>
      addr + n \<le> ptr_addr h (bs_ptr (bstr_bytes s)) + length (str_of h s)
    then \<exists>s' t h'. bstr_slice_ref s (addr, n) h = Ok ((s', t), h') \<and>
      bstr_from_slice_of (addr, n) (bstr_bytes s) h = Ok ((bstr_bytes s', t), h') \<and>
      bstr_ok h' s' (HBytes (bstr_bytes t) # R) \<and> bstr_ok h' t (HBytes (bstr_bytes s') # R) \<and> quiet h h' \<and>
      str_of h' s' = str_of h s \<and>
      str_of h' t = take n (drop (addr - ptr_addr h (bs_ptr (bstr_bytes s))) (str_of h s))
    else bstr_slice_ref s (addr, n) h = Panic \<and> bstr_from_slice_of (addr, n) (bstr_bytes s) h = Panic"
proof -
  note s = bstr_slice_Ok [OF assms(1)]
  let ?m = "addr - ptr_addr h (bs_ptr (bstr_bytes s))"
  have wf: "wf_heap h (HBytes (bstr_bytes s) # R)" using assms(1) by (simp add: bstr_ok_def)
  show ?thesis
  proof (cases "ptr_addr h (bs_ptr (bstr_bytes s)) \<le> addr \<and>
      addr + n \<le> ptr_addr h (bs_ptr (bstr_bytes s)) + length (str_of h s)")
    case True
    then have "?m + n \<le> bs_len (bstr_bytes s)" "ptr_addr h (bs_ptr (bstr_bytes s)) + ?m = addr"
      using s(3) by auto
    with slice_from_raw_Ok [OF wf assms(2), of ?m n] obtain b' c h' where
      c: "slice_from_raw (bstr_bytes s) addr n h = Ok ((b', c), h')"
        "sliced h (bstr_bytes s) ?m n R b' c h'" by auto
    have "bstr_ok h' (Byte_Str b') (HBytes c # R) \<and> bstr_ok h' (Byte_Str c) (HBytes b' # R) \<and> quiet h h' \<and>
        str_of h' (Byte_Str b') = str_of h s \<and> str_of h' (Byte_Str c) = take n (drop ?m (str_of h s))"
      using c(2) wf_swap assms(3) s(4) by (auto simp: sliced_def bstr_ok_def str_of_def)
    with c(1) True show ?thesis
      by (intro if_bool_eq_conj [THEN iffD2] conjI impI exI [of _ "Byte_Str b'"] exI [of _ "Byte_Str c"] exI [of _ h'])
        (simp_all add: bstr_slice_ref_def bstr_from_slice_of_def)
  next
    case False
    then show ?thesis using slice_from_raw_Panic [OF wf_ConsD(1,2) [OF wf], of addr n] s(3)
      by (auto simp: bstr_slice_ref_def bstr_from_slice_of_def)
  qed
qed

theorem bstr_slice_witness:
  "\<exists>s' t h'. bstr_slice_ref (Byte_Str demo_bytes) (18, 2) demo_heap = Ok ((s', t), h') \<and> str_of h' t = [3, 4]"
  using bstr_slice_spec [of demo_heap "Byte_Str demo_bytes" "[]" 2 18] demo_wf demo_room(1)
  by (auto simp: bstr_ok_def str_of_def utf8_valid.simps(2))

end
