(* ===== verification/Buf.thy ===== *)
theory Buf
  imports Bytes_Mut
begin

text \<open>
  \<open>src/bytes/buf.rs\<close>: the trait \<open>Buf\<close>. An implementation is a record of its methods over a state
  (the method table a \<open>dyn Buf\<close> carries), so the provided methods are functions of the methods they
  call, and an implementation that overrides one puts its own in the record. A destination slice is
  its length on the way in and the bytes written on the way out. The provided \<open>copy_to_slice\<close> loops
  until the destination is full, for ever if the implementation keeps returning empty chunks: its
  result is \<open>None\<close> then. The locales state what an implementation promises and what its clients get.
\<close>

record 'b buf =
  remaining :: "'b \<Rightarrow> nat"
  chunk :: "'b \<Rightarrow> u8 list res"
  advance :: "'b \<Rightarrow> nat \<Rightarrow> 'b res"
  chunks_vectored :: "'b \<Rightarrow> nat \<Rightarrow> u8 list list res"
  copy_to_slice :: "'b \<Rightarrow> nat \<Rightarrow> ('b \<times> u8 list) res option"

definition has_remaining :: "'b buf \<Rightarrow> 'b \<Rightarrow> bool" where
  "has_remaining B b \<longleftrightarrow> 0 < remaining B b"

subsection \<open>Provided methods\<close>

definition default_chunks_vectored ::
  "('b \<Rightarrow> nat) \<Rightarrow> ('b \<Rightarrow> u8 list res) \<Rightarrow> 'b \<Rightarrow> nat \<Rightarrow> u8 list list res" where
  "default_chunks_vectored rem chk b n =
     (if n = 0 then Ok []
      else if 0 < rem b then rbind (chk b) (\<lambda>xs. Ok [xs])
      else Ok [])"

partial_function (option) copy_loop ::
  "('b \<Rightarrow> u8 list res) \<Rightarrow> ('b \<Rightarrow> nat \<Rightarrow> 'b res) \<Rightarrow> 'b \<Rightarrow> nat \<Rightarrow> u8 list \<Rightarrow> ('b \<times> u8 list) res option" where
  "copy_loop chk adv b n acc =
     (if n = 0 then Some (Ok (b, acc))
      else case chk b of
             Ok src \<Rightarrow>
               (case adv b (min (length src) n) of
                  Ok b' \<Rightarrow> copy_loop chk adv b' (n - min (length src) n) (acc @ take (min (length src) n) src)
                | Panic \<Rightarrow> Some Panic | Abort \<Rightarrow> Some Abort | UB \<Rightarrow> Some UB)
           | Panic \<Rightarrow> Some Panic | Abort \<Rightarrow> Some Abort | UB \<Rightarrow> Some UB)"

definition default_copy_to_slice ::
  "('b \<Rightarrow> nat) \<Rightarrow> ('b \<Rightarrow> u8 list res) \<Rightarrow> ('b \<Rightarrow> nat \<Rightarrow> 'b res) \<Rightarrow> 'b \<Rightarrow> nat \<Rightarrow> ('b \<times> u8 list) res option" where
  "default_copy_to_slice rem chk adv b n =
     (if n \<le> rem b then copy_loop chk adv b n [] else Some Panic)"

text \<open>The overriding \<open>copy_to_slice\<close> of the contiguous implementations: \<open>self[..n]\<close>, then \<open>advance\<close>.\<close>

definition contiguous_copy ::
  "('b \<Rightarrow> u8 list res) \<Rightarrow> ('b \<Rightarrow> nat \<Rightarrow> 'b res) \<Rightarrow> 'b \<Rightarrow> nat \<Rightarrow> ('b \<times> u8 list) res option" where
  "contiguous_copy chk adv b n =
     Some (rbind (chk b) (\<lambda>xs.
       if n \<le> length xs then rbind (adv b n) (\<lambda>b'. Ok (b', take n xs)) else Panic))"

definition try_get_u8 :: "'b buf \<Rightarrow> 'b \<Rightarrow> ('b \<times> u8 option) res" where
  "try_get_u8 B b =
     rbind (chunk B b) (\<lambda>xs.
       case xs of [] \<Rightarrow> Ok (b, None) | x # _ \<Rightarrow> rbind (advance B b 1) (\<lambda>b'. Ok (b', Some x)))"

definition get_u8 :: "'b buf \<Rightarrow> 'b \<Rightarrow> ('b \<times> u8) res" where
  "get_u8 B b =
     rbind (try_get_u8 B b) (\<lambda>(b', r). case r of Some x \<Rightarrow> Ok (b', x) | None \<Rightarrow> Panic)"

text \<open>
  The macro \<open>fn_get_int\<close>: \<open>sz\<close> is \<open>size_of::<$ty>()\<close> and \<open>f\<close> the conversion from bytes. An \<open>i8\<close>, \<open>i16\<close>,
  ... is the same word as the \<open>u8\<close>, \<open>u16\<close>, ..., read with \<open>sint\<close>.
\<close>

definition try_get_int ::
  "nat \<Rightarrow> (u8 list \<Rightarrow> 'w) \<Rightarrow> 'b buf \<Rightarrow> 'b \<Rightarrow> ('b \<times> 'w option) res option" where
  "try_get_int sz f B b =
     map_option (\<lambda>r. rbind r (\<lambda>(b', bytes). Ok (b', Some (f bytes)))) (copy_to_slice B b sz)"

definition get_int :: "nat \<Rightarrow> (u8 list \<Rightarrow> 'w) \<Rightarrow> 'b buf \<Rightarrow> 'b \<Rightarrow> ('b \<times> 'w) res option" where
  "get_int sz f B b =
     map_option (\<lambda>r. rbind r (\<lambda>(b', w). case w of Some x \<Rightarrow> Ok (b', x) | None \<Rightarrow> Panic))
       (try_get_int sz f B b)"

subsection \<open>Implementations\<close>

definition slice_advance :: "u8 list \<Rightarrow> nat \<Rightarrow> u8 list res" where
  "slice_advance s cnt = (if cnt \<le> length s then Ok (drop cnt s) else Panic)"

definition slice_buf :: "u8 list buf" where
  "slice_buf = \<lparr>remaining = length, chunk = Ok, advance = slice_advance,
     chunks_vectored = default_chunks_vectored length Ok,
     copy_to_slice = contiguous_copy Ok slice_advance\<rparr>"

definition bytes_chunk :: "bytes \<times> heap \<Rightarrow> u8 list res" where
  "bytes_chunk = (\<lambda>(b, h). bytes_as_slice b h)"

definition bytes_adv :: "bytes \<times> heap \<Rightarrow> nat \<Rightarrow> (bytes \<times> heap) res" where
  "bytes_adv = (\<lambda>(b, h) n. rbind (bytes_advance b n h) (\<lambda>b. Ok (b, h)))"

definition bytes_buf :: "(bytes \<times> heap) buf" where
  "bytes_buf = \<lparr>remaining = (\<lambda>(b, h). bs_len b), chunk = bytes_chunk, advance = bytes_adv,
     chunks_vectored = default_chunks_vectored (\<lambda>(b, h). bs_len b) bytes_chunk,
     copy_to_slice = contiguous_copy bytes_chunk bytes_adv\<rparr>"

definition bm_chunk :: "bytes_mut \<times> heap \<Rightarrow> u8 list res" where
  "bm_chunk = (\<lambda>(b, h). bm_as_slice b h)"

definition bm_adv :: "bytes_mut \<times> heap \<Rightarrow> nat \<Rightarrow> (bytes_mut \<times> heap) res" where
  "bm_adv = (\<lambda>(b, h) n. rbind (bm_advance b n h) (\<lambda>b. Ok (b, h)))"

definition bm_buf :: "(bytes_mut \<times> heap) buf" where
  "bm_buf = \<lparr>remaining = (\<lambda>(b, h). bm_len b), chunk = bm_chunk, advance = bm_adv,
     chunks_vectored = default_chunks_vectored (\<lambda>(b, h). bm_len b) bm_chunk,
     copy_to_slice = contiguous_copy bm_chunk bm_adv\<rparr>"

text \<open>The overriding \<open>copy_to_bytes\<close>: a shared slice of the same buffer, without a copy.\<close>

definition slice_copy_to_bytes :: "u8 list \<Rightarrow> nat \<Rightarrow> heap \<Rightarrow> ((u8 list \<times> bytes) \<times> heap) res" where
  "slice_copy_to_bytes s len h =
     (if len \<le> length s
      then rbind (bytes_copy_from_slice (take len s) h) (\<lambda>(b, h). Ok ((drop len s, b), h))
      else Panic)"

definition bytes_copy_to_bytes :: "bytes \<Rightarrow> nat \<Rightarrow> heap \<Rightarrow> ((bytes \<times> bytes) \<times> heap) res" where
  "bytes_copy_to_bytes b len h = bytes_split_to b len h"

definition bm_copy_to_bytes :: "bytes_mut \<Rightarrow> nat \<Rightarrow> heap \<Rightarrow> ((bytes_mut \<times> bytes) \<times> heap) res" where
  "bm_copy_to_bytes b len h =
     rbind (bm_split_to b len h) (\<lambda>((b, front), h).
     rbind (bm_freeze front h) (\<lambda>(c, h). Ok ((b, c), h)))"

subsection \<open>What an implementation promises\<close>

text \<open>
  \<open>inv\<close> are the valid states and \<open>content b\<close> the bytes still to be read. The three required methods
  (\<open>buf_core\<close>): \<open>chunk\<close> is a prefix, empty only at the end, and \<open>advance\<close> drops.
\<close>

locale buf_core =
  fixes rem :: "'b \<Rightarrow> nat" and chk :: "'b \<Rightarrow> u8 list res" and adv :: "'b \<Rightarrow> nat \<Rightarrow> 'b res"
    and inv :: "'b \<Rightarrow> bool" and content :: "'b \<Rightarrow> u8 list"
  assumes remaining_law: "inv b \<Longrightarrow> rem b = length (content b)"
    and chunk_law: "inv b \<Longrightarrow> \<exists>xs. chk b = Ok xs \<and> prefix xs (content b) \<and> (xs = [] \<longleftrightarrow> content b = [])"
    and advance_law: "inv b \<Longrightarrow> n \<le> length (content b) \<Longrightarrow>
      \<exists>b'. adv b n = Ok b' \<and> inv b' \<and> content b' = drop n (content b)"
begin

lemma copy_loop_Ok:
  "inv b \<Longrightarrow> n \<le> length (content b) \<Longrightarrow>
   \<exists>b'. copy_loop chk adv b n acc = Some (Ok (b', acc @ take n (content b))) \<and> inv b' \<and>
     content b' = drop n (content b)"
proof (induction n arbitrary: b acc rule: less_induct)
  case (less n)
  show ?case
  proof (cases "n = 0")
    case True
    then show ?thesis using less.prems by (simp add: copy_loop.simps)
  next
    case False
    obtain xs where xs: "chk b = Ok xs" "prefix xs (content b)" "xs \<noteq> []"
      using chunk_law [OF less.prems(1)] less.prems(2) False by auto
    let ?k = "min (length xs) n"
    have k: "?k \<le> length (content b)" "0 < ?k" "n - ?k < n" using xs False less.prems(2) by auto
    obtain b1 where b1: "adv b ?k = Ok b1" "inv b1" "content b1 = drop ?k (content b)"
      using advance_law [OF less.prems(1) k(1)] by blast
    have "n - ?k \<le> length (content b1)" using b1(3) less.prems(2) by simp
    from less.IH [OF k(3) b1(2) this] obtain b2 where
      b2: "copy_loop chk adv b1 (n - ?k) (acc @ take ?k xs) =
             Some (Ok (b2, (acc @ take ?k xs) @ take (n - ?k) (content b1)))"
        "inv b2" "content b2 = drop (n - ?k) (content b1)" by blast
    have "take ?k xs = take ?k (content b)" using xs(2) by (auto simp: prefix_def min_def)
    then have "take ?k xs @ take (n - ?k) (content b1) = take n (content b)"
      using b1(3) take_add [of ?k "n - ?k" "content b"] by simp
    moreover have "copy_loop chk adv b n acc = copy_loop chk adv b1 (n - ?k) (acc @ take ?k xs)"
      using False xs(1) b1(1) by (simp add: copy_loop.simps [of chk adv b n])
    moreover have "content b2 = drop n (content b)" using b2(3) b1(3) by simp
    ultimately show ?thesis using b2(1,2) by simp
  qed
qed

end

text \<open>The laws of the other two methods, which the provided ones and their overrides both satisfy.\<close>

definition vectored_law :: "('b \<Rightarrow> nat \<Rightarrow> u8 list list res) \<Rightarrow> ('b \<Rightarrow> bool) \<Rightarrow> ('b \<Rightarrow> u8 list) \<Rightarrow> bool" where
  "vectored_law vec I content \<longleftrightarrow>
     (\<forall>b n. I b \<longrightarrow>
        (\<exists>xss. vec b n = Ok xss \<and> length xss \<le> n \<and> prefix (concat xss) (content b) \<and>
               (xss = [] \<longleftrightarrow> n = 0 \<or> content b = []) \<and> [] \<notin> set xss))"

definition copy_law :: "('b \<Rightarrow> nat \<Rightarrow> ('b \<times> u8 list) res option) \<Rightarrow> ('b \<Rightarrow> bool) \<Rightarrow> ('b \<Rightarrow> u8 list) \<Rightarrow> bool" where
  "copy_law cp I content \<longleftrightarrow>
     (\<forall>b n. I b \<longrightarrow>
        (if n \<le> length (content b)
         then \<exists>b'. cp b n = Some (Ok (b', take n (content b))) \<and> I b' \<and> content b' = drop n (content b)
         else cp b n = Some Panic))"

context buf_core
begin

lemma default_copy_law: "copy_law (default_copy_to_slice rem chk adv) inv content"
  using copy_loop_Ok [of _ _ "[]"] by (auto simp: copy_law_def default_copy_to_slice_def remaining_law)

lemma default_vectored_law: "vectored_law (default_chunks_vectored rem chk) inv content"
proof -
  have "\<exists>xss. default_chunks_vectored rem chk b n = Ok xss \<and> length xss \<le> n \<and>
      prefix (concat xss) (content b) \<and> (xss = [] \<longleftrightarrow> n = 0 \<or> content b = []) \<and> [] \<notin> set xss"
    if inv: "inv b" for b n
  proof -
    obtain xs where "chk b = Ok xs" "prefix xs (content b)" "xs = [] \<longleftrightarrow> content b = []"
      using chunk_law [OF inv] by blast
    then show ?thesis using remaining_law [OF inv] by (auto simp: default_chunks_vectored_def)
  qed
  then show ?thesis by (simp add: vectored_law_def)
qed

lemma contiguous_copy_law:
  assumes "\<And>b. inv b \<Longrightarrow> chk b = Ok (content b)"
  shows "copy_law (contiguous_copy chk adv) inv content"
proof -
  have "if n \<le> length (content b)
      then \<exists>b'. contiguous_copy chk adv b n = Some (Ok (b', take n (content b))) \<and> inv b' \<and>
             content b' = drop n (content b)
      else contiguous_copy chk adv b n = Some Panic" if "inv b" for b n
    using assms [OF that] advance_law [OF that, of n] by (auto simp: contiguous_copy_def)
  then show ?thesis by (simp add: copy_law_def)
qed

end

locale buf_required = buf_core "remaining B" "chunk B" "advance B" inv content
  for B :: "'b buf" and inv :: "'b \<Rightarrow> bool" and content :: "'b \<Rightarrow> u8 list"

locale buf_impl = buf_required B inv content
  for B :: "'b buf" and inv :: "'b \<Rightarrow> bool" and content :: "'b \<Rightarrow> u8 list" +
  assumes vectored: "vectored_law (chunks_vectored B) inv content"
    and copy: "copy_law (copy_to_slice B) inv content"
begin

lemma copy_Ok:
  "inv b \<Longrightarrow> n \<le> length (content b) \<Longrightarrow>
   \<exists>b'. copy_to_slice B b n = Some (Ok (b', take n (content b))) \<and> inv b' \<and> content b' = drop n (content b)"
  using copy by (simp add: copy_law_def)

lemma copy_Panic: "inv b \<Longrightarrow> length (content b) < n \<Longrightarrow> copy_to_slice B b n = Some Panic"
  using copy by (simp add: copy_law_def)

lemma get_int_Ok:
  "inv b \<Longrightarrow> n \<le> length (content b) \<Longrightarrow>
   \<exists>b'. get_int n f B b = Some (Ok (b', f (take n (content b)))) \<and> inv b' \<and> content b' = drop n (content b)"
  using copy_Ok [of b n] by (auto simp: get_int_def try_get_int_def)

lemma try_get_int_never_None:
  "inv b \<Longrightarrow> length (content b) < n \<Longrightarrow> try_get_int n f B b = Some Panic"
  using copy_Panic [of b n] by (simp add: try_get_int_def)

lemma get_u8_Ok:
  "inv b \<Longrightarrow> content b \<noteq> [] \<Longrightarrow>
   \<exists>b'. get_u8 B b = Ok (b', hd (content b)) \<and> inv b' \<and> content b' = tl (content b)"
proof -
  assume inv: "inv b" and ne: "content b \<noteq> []"
  obtain xs where xs: "chunk B b = Ok xs" "prefix xs (content b)" "xs \<noteq> []"
    using chunk_law [OF inv] ne by blast
  then have hd: "hd xs = hd (content b)" by (auto simp: prefix_def)
  have "1 \<le> length (content b)" using ne by (cases "content b") simp_all
  from advance_law [OF inv this] obtain b' where "advance B b 1 = Ok b'" "inv b'" "content b' = drop 1 (content b)"
    by blast
  with xs(1,3) hd show ?thesis
    by (cases xs) (auto simp: get_u8_def try_get_u8_def drop_Suc)
qed

end

subsection \<open>The implementations keep the promise\<close>

lemma buf_core_slice: "buf_core length Ok slice_advance (\<lambda>_. True) (\<lambda>s. s)"
  by unfold_locales (auto simp: slice_advance_def)

interpretation sc: buf_core length Ok slice_advance "\<lambda>_. True" "\<lambda>s. s"
  by (rule buf_core_slice)

lemma buf_impl_contiguous:
  assumes "buf_core rem chk adv I content" "\<And>b. I b \<Longrightarrow> chk b = Ok (content b)"
    and B: "B = \<lparr>remaining = rem, chunk = chk, advance = adv,
      chunks_vectored = default_chunks_vectored rem chk, copy_to_slice = contiguous_copy chk adv\<rparr>"
  shows "buf_impl B I content"
  using assms(1) buf_core.default_vectored_law [OF assms(1)] buf_core.contiguous_copy_law [OF assms(1,2)]
  by (simp add: buf_impl_def buf_required_def buf_impl_axioms_def B)

interpretation sl: buf_impl slice_buf "\<lambda>_. True" "\<lambda>s. s"
  by (rule buf_impl_contiguous [OF buf_core_slice _ slice_buf_def]) simp

text \<open>The valid states of a handle are those in which it is one of the handles of a well-formed heap.\<close>

definition bytes_inv :: "handle list \<Rightarrow> bytes \<times> heap \<Rightarrow> bool" where
  "bytes_inv R = (\<lambda>(b, h). wf_heap h (HBytes b # R))"

definition bytes_content :: "bytes \<times> heap \<Rightarrow> u8 list" where
  "bytes_content = (\<lambda>(b, h). view h (HBytes b))"

definition bm_inv :: "handle list \<Rightarrow> bytes_mut \<times> heap \<Rightarrow> bool" where
  "bm_inv R = (\<lambda>(b, h). wf_heap h (HMut b # R))"

definition bm_content :: "bytes_mut \<times> heap \<Rightarrow> u8 list" where
  "bm_content = (\<lambda>(b, h). view h (HMut b))"

lemma buf_core_bytes: "buf_core (\<lambda>(b, h). bs_len b) bytes_chunk bytes_adv (bytes_inv R) bytes_content"
proof unfold_locales
  fix s n
  assume "bytes_inv R s"
  then obtain b h where s: "s = (b, h)" "wf_heap h (HBytes b # R)" by (auto simp: bytes_inv_def)
  note ok = wf_ConsD(2) [OF s(2)]
  show "(case s of (b, h) \<Rightarrow> bs_len b) = length (bytes_content s)"
    using length_view [OF ok] by (simp add: s(1) bytes_content_def)
  show "\<exists>xs. bytes_chunk s = Ok xs \<and> prefix xs (bytes_content s) \<and> (xs = [] \<longleftrightarrow> bytes_content s = [])"
    using bytes_as_slice_Ok [OF ok] by (simp add: s(1) bytes_chunk_def bytes_content_def)
  assume "n \<le> length (bytes_content s)"
  then have "n \<le> bs_len b" using length_view [OF ok] by (simp add: s(1) bytes_content_def)
  from bytes_advance_Ok [OF s(2) this]
  show "\<exists>s'. bytes_adv s n = Ok s' \<and> bytes_inv R s' \<and> bytes_content s' = drop n (bytes_content s)"
    by (auto simp: s(1) bytes_adv_def bytes_inv_def bytes_content_def)
qed

lemma buf_core_bm: "buf_core (\<lambda>(b, h). bm_len b) bm_chunk bm_adv (bm_inv R) bm_content"
proof unfold_locales
  fix s n
  assume "bm_inv R s"
  then obtain b h where s: "s = (b, h)" "wf_heap h (HMut b # R)" by (auto simp: bm_inv_def)
  note ok = wf_ConsD(2) [OF s(2)]
  show "(case s of (b, h) \<Rightarrow> bm_len b) = length (bm_content s)"
    using length_view [OF ok] by (simp add: s(1) bm_content_def)
  show "\<exists>xs. bm_chunk s = Ok xs \<and> prefix xs (bm_content s) \<and> (xs = [] \<longleftrightarrow> bm_content s = [])"
    using bm_as_slice_Ok [OF ok] by (simp add: s(1) bm_chunk_def bm_content_def)
  assume "n \<le> length (bm_content s)"
  then have "n \<le> bm_len b" using length_view [OF ok] by (simp add: s(1) bm_content_def)
  from bm_advance_Ok [OF s(2) this]
  show "\<exists>s'. bm_adv s n = Ok s' \<and> bm_inv R s' \<and> bm_content s' = drop n (bm_content s)"
    by (auto simp: s(1) bm_adv_def bm_inv_def bm_content_def)
qed

interpretation bb: buf_impl bytes_buf "bytes_inv R" bytes_content for R
proof (rule buf_impl_contiguous [OF buf_core_bytes _ bytes_buf_def])
  show "bytes_chunk b = Ok (bytes_content b)" if "bytes_inv R b" for b
    using that bytes_as_slice_Ok [OF wf_ConsD(2)]
    by (auto simp: bytes_inv_def bytes_chunk_def bytes_content_def split: prod.splits)
qed

interpretation bm: buf_impl bm_buf "bm_inv R" bm_content for R
proof (rule buf_impl_contiguous [OF buf_core_bm _ bm_buf_def])
  show "bm_chunk b = Ok (bm_content b)" if "bm_inv R b" for b
    using that bm_as_slice_Ok [OF wf_ConsD(2)]
    by (auto simp: bm_inv_def bm_chunk_def bm_content_def split: prod.splits)
qed

end
