(* ===== verification/Chain_Take.thy ===== *)
theory Chain_Take
  imports Buf
begin

text \<open>
  \<open>src/bytes/take.rs\<close> and the \<open>Buf\<close> half of \<open>src/bytes/chain.rs\<close>: adaptors from implementations of
  \<open>Buf\<close> to implementations of \<open>Buf\<close>. Their contents are a prefix and a concatenation, and they keep
  the contract of the trait whenever the implementations they wrap do.
\<close>

subsection \<open>Take\<close>

datatype 'b take = Take (take_inner: 'b) (take_limit: nat)

definition take_remaining :: "'b buf \<Rightarrow> 'b take \<Rightarrow> nat" where
  "take_remaining B t = min (remaining B (take_inner t)) (take_limit t)"

definition take_chunk :: "'b buf \<Rightarrow> 'b take \<Rightarrow> u8 list res" where
  "take_chunk B t =
     rbind (chunk B (take_inner t)) (\<lambda>bytes. Ok (take (min (length bytes) (take_limit t)) bytes))"

definition take_advance :: "'b buf \<Rightarrow> 'b take \<Rightarrow> nat \<Rightarrow> 'b take res" where
  "take_advance B t cnt =
     rbind (rassert (cnt \<le> take_limit t)) (\<lambda>_.
     rbind (advance B (take_inner t) cnt) (\<lambda>b. Ok (Take b (take_limit t - cnt))))"

text \<open>The loop over the slices of the inner buffer: \<open>slice.get(..limit)\<close> succeeds on the one that reaches
  the limit, which is cut and ends the loop.\<close>

fun cut_slices :: "nat \<Rightarrow> u8 list list \<Rightarrow> u8 list list" where
  "cut_slices limit [] = []"
| "cut_slices limit (s # ss) =
     (if limit \<le> length s then [take limit s] else s # cut_slices (limit - length s) ss)"

definition take_chunks_vectored :: "'b buf \<Rightarrow> 'b take \<Rightarrow> nat \<Rightarrow> u8 list list res" where
  "take_chunks_vectored B t n =
     (if take_limit t = 0 then Ok []
      else rbind (chunks_vectored B (take_inner t) (min n 32)) (\<lambda>slices.
           Ok (cut_slices (take_limit t) slices)))"

definition take_buf :: "'b buf \<Rightarrow> 'b take buf" where
  "take_buf B = \<lparr>remaining = take_remaining B, chunk = take_chunk B, advance = take_advance B,
     chunks_vectored = take_chunks_vectored B,
     copy_to_slice = default_copy_to_slice (take_remaining B) (take_chunk B) (take_advance B)\<rparr>"

definition take_inv :: "('b \<Rightarrow> bool) \<Rightarrow> 'b take \<Rightarrow> bool" where
  "take_inv I t = I (take_inner t)"

definition take_content :: "('b \<Rightarrow> u8 list) \<Rightarrow> 'b take \<Rightarrow> u8 list" where
  "take_content content t = take (take_limit t) (content (take_inner t))"

lemma cut_slices_prefix: "prefix (concat ss) xs \<Longrightarrow> prefix (concat (cut_slices n ss)) (take n xs)"
proof (induction ss arbitrary: n xs)
  case (Cons s ss)
  from Cons.prems obtain ys where xs: "xs = s @ ys" "prefix (concat ss) ys" by (auto simp: prefix_def)
  show ?case
  proof (cases "n \<le> length s")
    case True
    then show ?thesis using xs(1) by simp
  next
    case False
    then show ?thesis using Cons.IH [OF xs(2), of "n - length s"] xs(1) by simp
  qed
qed simp

lemma cut_slices_length: "length (cut_slices n ss) \<le> length ss"
  by (induction n ss rule: cut_slices.induct) simp_all

lemma cut_slices_ne: "0 < n \<Longrightarrow> [] \<notin> set ss \<Longrightarrow> [] \<notin> set (cut_slices n ss)"
  by (induction n ss rule: cut_slices.induct) auto

lemma cut_slices_Nil [simp]: "cut_slices n ss = [] \<longleftrightarrow> ss = []"
  by (cases ss) simp_all

context buf_required
begin

lemma take_core:
  "buf_core (take_remaining B) (take_chunk B) (take_advance B) (take_inv inv) (take_content content)"
proof unfold_locales
  fix t n
  assume "take_inv inv t"
  then have inv: "inv (take_inner t)" by (simp add: take_inv_def)
  show "take_remaining B t = length (take_content content t)"
    using remaining_law [OF inv] by (simp add: take_remaining_def take_content_def)
  obtain xs where xs: "chunk B (take_inner t) = Ok xs" "prefix xs (content (take_inner t))"
      "xs = [] \<longleftrightarrow> content (take_inner t) = []"
    using chunk_law [OF inv] by blast
  have "take (min (length xs) (take_limit t)) xs = take (take_limit t) xs" by (simp add: min_def)
  with xs show "\<exists>ys. take_chunk B t = Ok ys \<and> prefix ys (take_content content t) \<and>
      (ys = [] \<longleftrightarrow> take_content content t = [])"
    by (auto simp: take_chunk_def take_content_def prefix_def)
  assume n: "n \<le> length (take_content content t)"
  then have "n \<le> length (content (take_inner t))" by (simp add: take_content_def)
  from advance_law [OF inv this] obtain b' where
    "advance B (take_inner t) n = Ok b'" "inv b'" "content b' = drop n (content (take_inner t))" by blast
  then show "\<exists>t'. take_advance B t n = Ok t' \<and> take_inv inv t' \<and>
      take_content content t' = drop n (take_content content t)"
    using n by (auto simp: take_advance_def take_inv_def take_content_def drop_take)
qed

end

context buf_impl
begin

lemma take_vectored: "vectored_law (take_chunks_vectored B) (take_inv inv) (take_content content)"
proof -
  have "\<exists>xss. take_chunks_vectored B t n = Ok xss \<and> length xss \<le> n \<and>
      prefix (concat xss) (take_content content t) \<and>
      (xss = [] \<longleftrightarrow> n = 0 \<or> take_content content t = []) \<and> [] \<notin> set xss"
    if "take_inv inv t" for t n
  proof -
    have inv: "inv (take_inner t)" using that by (simp add: take_inv_def)
    obtain xss where xss: "chunks_vectored B (take_inner t) (min n 32) = Ok xss" "length xss \<le> min n 32"
        "prefix (concat xss) (content (take_inner t))"
        "xss = [] \<longleftrightarrow> min n 32 = 0 \<or> content (take_inner t) = []" "[] \<notin> set xss"
      using vectored inv unfolding vectored_law_def by blast
    show ?thesis
    proof (cases "take_limit t = 0")
      case True
      then show ?thesis by (simp add: take_chunks_vectored_def take_content_def)
    next
      case False
      then show ?thesis
        using xss cut_slices_prefix [OF xss(3)] cut_slices_length [of "take_limit t" xss]
          cut_slices_ne [OF _ xss(5), of "take_limit t"]
        by (auto simp: take_chunks_vectored_def take_content_def)
    qed
  qed
  then show ?thesis by (simp add: vectored_law_def)
qed

lemma take_impl: "buf_impl (take_buf B) (take_inv inv) (take_content content)"
  using take_core take_vectored buf_core.default_copy_law [OF take_core]
  by (simp add: buf_impl_def buf_required_def buf_impl_axioms_def take_buf_def)

end

interpretation ts: buf_impl "take_buf slice_buf" "take_inv (\<lambda>_. True)" "take_content (\<lambda>s. s)"
  by (rule sl.take_impl)

interpretation tb: buf_impl "take_buf bytes_buf" "take_inv (bytes_inv R)" "take_content bytes_content" for R
  by (rule bb.take_impl)

subsection \<open>Chain\<close>

datatype ('a, 'b) chain = Chain (chain_a: 'a) (chain_b: 'b)

definition chain_remaining :: "'a buf \<Rightarrow> 'b buf \<Rightarrow> ('a, 'b) chain \<Rightarrow> nat" where
  "chain_remaining A B c = min (remaining A (chain_a c) + remaining B (chain_b c)) usize_max"

definition chain_chunk :: "'a buf \<Rightarrow> 'b buf \<Rightarrow> ('a, 'b) chain \<Rightarrow> u8 list res" where
  "chain_chunk A B c =
     (if has_remaining A (chain_a c) then chunk A (chain_a c) else chunk B (chain_b c))"

definition chain_advance :: "'a buf \<Rightarrow> 'b buf \<Rightarrow> ('a, 'b) chain \<Rightarrow> nat \<Rightarrow> ('a, 'b) chain res" where
  "chain_advance A B c cnt =
     (let a_rem = remaining A (chain_a c) in
      rbind (advance A (chain_a c) (min a_rem cnt)) (\<lambda>a.
      if a_rem \<le> cnt
      then rbind (advance B (chain_b c) (cnt - a_rem)) (\<lambda>b. Ok (Chain a b))
      else Ok (Chain a (chain_b c))))"

definition chain_chunks_vectored :: "'a buf \<Rightarrow> 'b buf \<Rightarrow> ('a, 'b) chain \<Rightarrow> nat \<Rightarrow> u8 list list res" where
  "chain_chunks_vectored A B c n =
     rbind (chunks_vectored A (chain_a c) n) (\<lambda>xs.
     if length xs \<le> n
     then rbind (chunks_vectored B (chain_b c) (n - length xs)) (\<lambda>ys. Ok (xs @ ys))
     else Panic)"

definition chain_buf :: "'a buf \<Rightarrow> 'b buf \<Rightarrow> ('a, 'b) chain buf" where
  "chain_buf A B = \<lparr>remaining = chain_remaining A B, chunk = chain_chunk A B, advance = chain_advance A B,
     chunks_vectored = chain_chunks_vectored A B,
     copy_to_slice = default_copy_to_slice (chain_remaining A B) (chain_chunk A B) (chain_advance A B)\<rparr>"

text \<open>
  \<open>Chain\<close> puts the slices of its second buffer right after those of the first. That is the order of the
  bytes only if the first buffer handed all its bytes out whenever it left entries of \<open>dst\<close> unused, which
  the contract of \<open>chunks_vectored\<close> does not ask for.
\<close>

definition vectored_complete ::
  "('b \<Rightarrow> nat \<Rightarrow> u8 list list res) \<Rightarrow> ('b \<Rightarrow> bool) \<Rightarrow> ('b \<Rightarrow> u8 list) \<Rightarrow> bool" where
  "vectored_complete vec I content \<longleftrightarrow>
     (\<forall>b n xss. I b \<and> vec b n = Ok xss \<and> length xss < n \<longrightarrow> concat xss = content b)"

definition chain_inv ::
  "('a \<Rightarrow> bool) \<Rightarrow> ('b \<Rightarrow> bool) \<Rightarrow> ('a \<Rightarrow> u8 list) \<Rightarrow> ('b \<Rightarrow> u8 list) \<Rightarrow> ('a, 'b) chain \<Rightarrow> bool" where
  "chain_inv I J ca cb c \<longleftrightarrow>
     I (chain_a c) \<and> J (chain_b c) \<and> length (ca (chain_a c)) + length (cb (chain_b c)) \<le> usize_max"

definition chain_content :: "('a \<Rightarrow> u8 list) \<Rightarrow> ('b \<Rightarrow> u8 list) \<Rightarrow> ('a, 'b) chain \<Rightarrow> u8 list" where
  "chain_content ca cb c = ca (chain_a c) @ cb (chain_b c)"

locale chain_required = a: buf_required A ia ca + b: buf_required B ib cb
  for A :: "'a buf" and ia ca and B :: "'b buf" and ib cb
begin

lemma chain_core:
  "buf_core (chain_remaining A B) (chain_chunk A B) (chain_advance A B) (chain_inv ia ib ca cb) (chain_content ca cb)"
proof unfold_locales
  fix c n
  assume "chain_inv ia ib ca cb c"
  then have inv: "ia (chain_a c)" "ib (chain_b c)"
    and size: "length (ca (chain_a c)) + length (cb (chain_b c)) \<le> usize_max"
    by (simp_all add: chain_inv_def)
  note rem = a.remaining_law [OF inv(1)] b.remaining_law [OF inv(2)]
  show "chain_remaining A B c = length (chain_content ca cb c)"
    using rem size by (simp add: chain_remaining_def chain_content_def)
  obtain xs ys where xs: "chunk A (chain_a c) = Ok xs" "prefix xs (ca (chain_a c))" "xs = [] \<longleftrightarrow> ca (chain_a c) = []"
    and ys: "chunk B (chain_b c) = Ok ys" "prefix ys (cb (chain_b c))" "ys = [] \<longleftrightarrow> cb (chain_b c) = []"
    using a.chunk_law [OF inv(1)] b.chunk_law [OF inv(2)] by blast
  show "\<exists>zs. chain_chunk A B c = Ok zs \<and> prefix zs (chain_content ca cb c) \<and>
      (zs = [] \<longleftrightarrow> chain_content ca cb c = [])"
    using rem xs ys by (auto simp: chain_chunk_def has_remaining_def chain_content_def)
  assume n: "n \<le> length (chain_content ca cb c)"
  let ?k = "min (length (ca (chain_a c))) n"
  obtain a' where a': "advance A (chain_a c) ?k = Ok a'" "ia a'" "ca a' = drop ?k (ca (chain_a c))"
    using a.advance_law [OF inv(1), of ?k] by auto
  show "\<exists>c'. chain_advance A B c n = Ok c' \<and> chain_inv ia ib ca cb c' \<and>
      chain_content ca cb c' = drop n (chain_content ca cb c)"
  proof (cases "length (ca (chain_a c)) \<le> n")
    case True
    have "n - length (ca (chain_a c)) \<le> length (cb (chain_b c))" using n by (simp add: chain_content_def)
    from b.advance_law [OF inv(2) this] obtain b' where
      "advance B (chain_b c) (n - length (ca (chain_a c))) = Ok b'" "ib b'"
      "cb b' = drop (n - length (ca (chain_a c))) (cb (chain_b c))" by blast
    with True a' rem size show ?thesis
      by (simp add: chain_advance_def chain_inv_def chain_content_def Let_def)
  next
    case False
    with a' rem size inv show ?thesis
      by (simp add: chain_advance_def chain_inv_def chain_content_def Let_def min_def)
  qed
qed

end

locale chain_parts = chain_required A ia ca B ib cb + a: buf_impl A ia ca + b: buf_impl B ib cb
  for A :: "'a buf" and ia ca and B :: "'b buf" and ib cb +
  assumes complete: "vectored_complete (chunks_vectored A) ia ca"
begin

lemma chain_vectored: "vectored_law (chain_chunks_vectored A B) (chain_inv ia ib ca cb) (chain_content ca cb)"
proof -
  have "\<exists>xss. chain_chunks_vectored A B c n = Ok xss \<and> length xss \<le> n \<and>
      prefix (concat xss) (chain_content ca cb c) \<and>
      (xss = [] \<longleftrightarrow> n = 0 \<or> chain_content ca cb c = []) \<and> [] \<notin> set xss"
    if "chain_inv ia ib ca cb c" for c n
  proof -
    have inv: "ia (chain_a c)" "ib (chain_b c)" using that by (simp_all add: chain_inv_def)
    obtain xss where xss: "chunks_vectored A (chain_a c) n = Ok xss" "length xss \<le> n"
        "prefix (concat xss) (ca (chain_a c))" "xss = [] \<longleftrightarrow> n = 0 \<or> ca (chain_a c) = []" "[] \<notin> set xss"
      using a.vectored inv(1) unfolding vectored_law_def by blast
    obtain yss where yss: "chunks_vectored B (chain_b c) (n - length xss) = Ok yss" "length yss \<le> n - length xss"
        "prefix (concat yss) (cb (chain_b c))" "yss = [] \<longleftrightarrow> n - length xss = 0 \<or> cb (chain_b c) = []"
        "[] \<notin> set yss"
      using b.vectored inv(2) unfolding vectored_law_def by blast
    have full: "length xss < n \<Longrightarrow> concat xss = ca (chain_a c)"
      using complete inv(1) xss(1) by (auto simp: vectored_complete_def)
    have "prefix (concat (xss @ yss)) (chain_content ca cb c)"
    proof (cases "length xss < n")
      case True
      then show ?thesis using full yss(3) by (simp add: chain_content_def)
    next
      case False
      then show ?thesis using xss(3) yss(2) by (simp add: chain_content_def)
    qed
    moreover have "xss @ yss = [] \<longleftrightarrow> n = 0 \<or> chain_content ca cb c = []"
      using xss(4) yss(4) by (auto simp: chain_content_def)
    ultimately show ?thesis
      using xss yss by (auto simp: chain_chunks_vectored_def)
  qed
  then show ?thesis by (simp add: vectored_law_def)
qed

lemma chain_impl: "buf_impl (chain_buf A B) (chain_inv ia ib ca cb) (chain_content ca cb)"
  using chain_core chain_vectored buf_core.default_copy_law [OF chain_core]
  by (simp add: buf_impl_def buf_required_def buf_impl_axioms_def chain_buf_def)

end

lemma contiguous_complete:
  assumes "\<And>b. I b \<Longrightarrow> chk b = Ok (content b) \<and> rem b = length (content b)"
  shows "vectored_complete (default_chunks_vectored rem chk) I content"
  using assms by (auto simp: vectored_complete_def default_chunks_vectored_def split: if_splits)

interpretation css: chain_parts slice_buf "\<lambda>_. True" "\<lambda>s. s" slice_buf "\<lambda>_. True" "\<lambda>s. s"
  by unfold_locales (simp add: slice_buf_def contiguous_complete)

lemma bytes_complete: "vectored_complete (chunks_vectored bytes_buf) (bytes_inv R) bytes_content"
proof -
  have "vectored_complete (default_chunks_vectored (\<lambda>(b, h). bs_len b) bytes_chunk) (bytes_inv R) bytes_content"
  proof (rule contiguous_complete)
    fix s
    assume "bytes_inv R s"
    then obtain b h where s: "s = (b, h)" "handle_ok h (HBytes b)"
      by (auto simp: bytes_inv_def wf_heap_def)
    show "bytes_chunk s = Ok (bytes_content s) \<and> (case s of (b, h) \<Rightarrow> bs_len b) = length (bytes_content s)"
      using bytes_as_slice_Ok [OF s(2)] length_view [OF s(2)]
      by (simp add: s(1) bytes_chunk_def bytes_content_def)
  qed
  then show ?thesis by (simp add: bytes_buf_def)
qed

interpretation cbs: chain_parts bytes_buf "bytes_inv R" bytes_content slice_buf "\<lambda>_. True" "\<lambda>s. s" for R
  by unfold_locales (rule bytes_complete)

end
