(* ===== verification/Buf_Spec.thy ===== *)
theory Buf_Spec
  imports Chain_Take
begin

text \<open>
  The byte orders of the integer accessors, and the contracts of \<open>Buf\<close>: the provided methods end and
  are right for every lawful implementation, the adaptors are lawful, and where the code does not keep
  what its documentation says.
\<close>

subsection \<open>Byte orders\<close>

text \<open>\<open>to_le_bytes\<close>, \<open>to_be_bytes\<close>, \<open>from_le_bytes\<close> and \<open>from_be_bytes\<close> of the integer types; the native
  order is one of the two, by the target.\<close>

definition to_le_bytes :: "'a::len word \<Rightarrow> u8 list" where
  "to_le_bytes w = map (\<lambda>i. ucast (drop_bit (8 * i) w)) [0..<LENGTH('a) div 8]"

definition to_be_bytes :: "'a::len word \<Rightarrow> u8 list" where
  "to_be_bytes w = rev (to_le_bytes w)"

definition to_ne_bytes :: "bool \<Rightarrow> 'a::len word \<Rightarrow> u8 list" where
  "to_ne_bytes big w = (if big then to_be_bytes w else to_le_bytes w)"

fun le_val :: "u8 list \<Rightarrow> nat" where
  "le_val [] = 0"
| "le_val (x # xs) = unat x + 256 * le_val xs"

definition from_le_bytes :: "u8 list \<Rightarrow> 'a::len word" where
  "from_le_bytes xs = word_of_nat (le_val xs)"

definition from_be_bytes :: "u8 list \<Rightarrow> 'a::len word" where
  "from_be_bytes xs = from_le_bytes (rev xs)"

definition from_ne_bytes :: "bool \<Rightarrow> u8 list \<Rightarrow> 'a::len word" where
  "from_ne_bytes big xs = (if big then from_be_bytes xs else from_le_bytes xs)"

lemma le_val_snoc: "le_val (xs @ [y]) = le_val xs + 256 ^ length xs * unat y"
  by (induction xs) (simp_all add: algebra_simps)

lemma le_val_bytes: "le_val (map (\<lambda>i. ucast (drop_bit (8 * i) w)) [0..<k]) = unat w mod 256 ^ k"
proof (induction k)
  case (Suc k)
  have "unat (ucast (drop_bit (8 * k) w) :: u8) = (unat w div 256 ^ k) mod 256"
    by (simp add: unsigned_ucast_eq unsigned_take_bit_eq unat_drop_bit_eq)
      (simp add: drop_bit_eq_div power_mult take_bit_eq_mod)
  moreover have "unat w mod 256 ^ Suc k = 256 ^ k * (unat w div 256 ^ k mod 256) + unat w mod 256 ^ k"
    using mod_mult2_eq [of "unat w" "256 ^ k" 256] by (simp add: mult.commute)
  ultimately show ?case using Suc by (simp add: le_val_snoc)
qed simp

lemma le_roundtrip:
  assumes "8 dvd LENGTH('a::len)"
  shows "from_le_bytes (to_le_bytes (w :: 'a word)) = w"
proof -
  have "256 ^ (LENGTH('a) div 8) = (2::nat) ^ LENGTH('a)"
    using assms by (simp flip: power_mult [of "2::nat" 8, simplified])
  then have "le_val (to_le_bytes w) = unat w"
    using unsigned_less [of w] by (simp add: to_le_bytes_def le_val_bytes)
  then show ?thesis by (simp add: from_le_bytes_def)
qed

lemma length_to_bytes [simp]:
  "length (to_le_bytes (w :: 'a::len word)) = LENGTH('a) div 8"
  "length (to_be_bytes (w :: 'a::len word)) = LENGTH('a) div 8"
  "length (to_ne_bytes big (w :: 'a::len word)) = LENGTH('a) div 8"
  by (simp_all add: to_le_bytes_def to_be_bytes_def to_ne_bytes_def)

lemma bytes_roundtrip:
  assumes "8 dvd LENGTH('a::len)"
  shows "from_be_bytes (to_be_bytes (w :: 'a word)) = w" "from_ne_bytes big (to_ne_bytes big w) = w"
  using le_roundtrip [OF assms] by (simp_all add: from_be_bytes_def to_be_bytes_def from_ne_bytes_def to_ne_bytes_def)

subsection \<open>Contracts\<close>

text \<open>the provided \<open>copy_to_slice\<close> returns for every implementation that keeps the contract of the three
  required methods, however it cuts its bytes into chunks: it fills the destination with the next bytes
  and moves the cursor past them, or panics if there are too few.\<close>

theorem copy_to_slice_total:
  assumes "buf_core rem chk adv I content" "I b"
  shows "if n \<le> length (content b)
    then \<exists>b'. default_copy_to_slice rem chk adv b n = Some (Ok (b', take n (content b))) \<and> I b' \<and>
           content b' = drop n (content b)
    else default_copy_to_slice rem chk adv b n = Some Panic"
  using buf_core.default_copy_law [OF assms(1)] assms(2) by (simp add: copy_law_def)

theorem copy_to_slice_witness:
  "\<exists>b'. default_copy_to_slice length Ok slice_advance [1, 2, 3] 2 = Some (Ok (b', [1, 2])) \<and> b' = [3]"
  using copy_to_slice_total [OF buf_core_slice, where b = "[1, 2, 3]" and n = 2] by simp

text \<open>\<open>Bytes\<close> and \<open>BytesMut\<close> are lawful implementations of \<open>Buf\<close> over their bytes, for any other live
  handles.\<close>

theorem handles_are_bufs:
  "buf_impl bytes_buf (bytes_inv R) bytes_content \<and> buf_impl bm_buf (bm_inv R) bm_content"
  using bb.buf_impl_axioms bm.buf_impl_axioms by blast

text \<open>\<open>Take\<close> around a lawful implementation is a lawful implementation of the first \<open>limit\<close> bytes.\<close>

theorem take_is_buf:
  assumes "buf_impl B I content"
  shows "buf_impl (take_buf B) (take_inv I) (take_content content)"
  by (rule buf_impl.take_impl [OF assms])

theorem take_is_buf_witness:
  "buf_impl (take_buf slice_buf) (take_inv (\<lambda>_. True)) (take_content (\<lambda>s. s))"
  by (rule take_is_buf [OF sl.buf_impl_axioms])



text \<open>A buffer of several pieces, each a chunk of its own.\<close>

fun rope_advance :: "u8 list list \<Rightarrow> nat \<Rightarrow> u8 list list res" where
  "rope_advance [] n = (if n = 0 then Ok [] else Panic)"
| "rope_advance (s # ss) n = (if n < length s then Ok (drop n s # ss) else rope_advance ss (n - length s))"

definition rope_chunk :: "u8 list list \<Rightarrow> u8 list res" where
  "rope_chunk ss = Ok (case ss of [] \<Rightarrow> [] | s # _ \<Rightarrow> s)"

definition rope_remaining :: "u8 list list \<Rightarrow> nat" where
  "rope_remaining ss = length (concat ss)"

definition rope_buf :: "u8 list list buf" where
  "rope_buf = \<lparr>remaining = rope_remaining, chunk = rope_chunk, advance = rope_advance,
     chunks_vectored = (\<lambda>ss n. Ok (take n ss)),
     copy_to_slice = default_copy_to_slice rope_remaining rope_chunk rope_advance\<rparr>"

lemma rope_advance_Ok:
  "[] \<notin> set ss \<Longrightarrow> n \<le> length (concat ss) \<Longrightarrow>
   \<exists>ss'. rope_advance ss n = Ok ss' \<and> [] \<notin> set ss' \<and> concat ss' = drop n (concat ss)"
  by (induction ss n rule: rope_advance.induct) (auto simp: not_less)

lemma rope_core: "buf_core rope_remaining rope_chunk rope_advance (\<lambda>ss. [] \<notin> set ss) concat"
  by unfold_locales (auto simp: rope_remaining_def rope_chunk_def split: list.splits dest: rope_advance_Ok)

interpretation rp: buf_impl rope_buf "\<lambda>ss. [] \<notin> set ss" concat
proof -
  have "prefix (concat (take n ss)) (concat ss)" for n and ss :: "u8 list list"
    by (metis append_take_drop_id concat_append prefixI)
  moreover have "concat ss = [] \<longleftrightarrow> ss = []" if "[] \<notin> set ss" for ss :: "u8 list list"
    using that by (cases ss) auto
  ultimately have "vectored_law (\<lambda>ss n. Ok (take n ss)) (\<lambda>ss. [] \<notin> set ss) (concat :: u8 list list \<Rightarrow> u8 list)"
    by (simp add: vectored_law_def) (meson in_set_takeD)
  then show "buf_impl rope_buf (\<lambda>ss. [] \<notin> set ss) concat"
    using rope_core buf_core.default_copy_law [OF rope_core]
    by (simp add: buf_impl_def buf_required_def buf_impl_axioms_def rope_buf_def)
qed

lemma cut_slices_replicate: "k \<le> n \<Longrightarrow> cut_slices n (replicate k [x]) = replicate k [x]"
proof (induction k arbitrary: n)
  case (Suc k)
  then show ?case by (cases "n \<le> 1") (auto simp: le_Suc_eq)
qed simp

lemma concat_replicate_single: "concat (replicate k [x]) = replicate k x"
  by (induction k) simp_all

text \<open>C34: \<open>Chain::chunks_vectored\<close> can hand the bytes out in the wrong order: \<open>Take\<close> never fills more than 32
  entries, \<open>Chain\<close> then goes on with the second buffer, and the 33rd byte of the first is skipped.\<close>

theorem chain_vectored_reorders:
  "\<exists>(B :: u8 list list buf) I content c xss. buf_impl B I content \<and> chain_inv (take_inv I) (\<lambda>_. True) (take_content content) (\<lambda>s. s) c \<and>
     chain_chunks_vectored (take_buf B) slice_buf c 40 = Ok xss \<and>
     \<not> prefix (concat xss) (chain_content (take_content content) (\<lambda>s. s) c)"
proof -
  let ?c = "Chain (Take (replicate 33 [7]) 33) [9 :: 8 word]"
  have "chain_inv (take_inv (\<lambda>ss. [] \<notin> set ss)) (\<lambda>_. True) (take_content concat) (\<lambda>s. s) ?c"
    by (simp add: chain_inv_def take_inv_def take_content_def usize_max_def concat_replicate_single)
  moreover have "chain_chunks_vectored (take_buf rope_buf) slice_buf ?c 40 = Ok (replicate 32 [7] @ [[9]])"
    by (simp add: chain_chunks_vectored_def take_buf_def take_chunks_vectored_def rope_buf_def slice_buf_def
        default_chunks_vectored_def cut_slices_replicate)
  moreover have "concat (replicate 32 [7] @ [[9]]) = replicate 32 7 @ [9]"
    "chain_content (take_content concat) (\<lambda>s. s) ?c = replicate 32 7 @ [7, 9]"
    by (simp_all add: chain_content_def take_content_def concat_replicate_single)
      (simp add: numeral_eq_Suc)
  then have "\<not> prefix (concat (replicate 32 [7] @ [[9]])) (chain_content (take_content concat) (\<lambda>s. s) ?c)"
    by simp
  ultimately show ?thesis using rp.buf_impl_axioms by blast
qed

text \<open>the \<open>try_get\<close> accessors of the multi-byte integers never answer \<open>None\<close>: with too few bytes left they
  panic, against their documentation.\<close>

theorem try_get_int_panics:
  assumes "buf_impl B I content" "I b" "length (content b) < n"
  shows "try_get_int n f B b = Some Panic"
  by (rule buf_impl.try_get_int_never_None [OF assms])

theorem try_get_int_panics_witness:
  "try_get_int 2 (from_be_bytes :: u8 list \<Rightarrow> 16 word) slice_buf [1] = Some Panic"
  by (rule try_get_int_panics [OF sl.buf_impl_axioms]) simp_all

end
