(* ===== verification/Heap_Buf.thy ===== *)
theory Heap_Buf
  imports Buf_Spec Bytes_Spec
begin

text \<open>
  \<open>copy_to_bytes\<close> of \<open>src/bytes/buf.rs\<close>, \<open>take.rs\<close> and \<open>chain.rs\<close>, and \<open>BytesMut::put\<close> of
  \<open>src/bytes/bytes_mut.rs\<close>, which call each other. Source and destination live on one heap here: a source is
  a state with the handles it owns, and its methods are those of a \<open>buf\<close> at the heap of the moment. None of
  its reading methods changes the heap; \<open>copy_to_bytes\<close> does.
\<close>

subsection \<open>Calls that may not return\<close>

definition obind :: "'a res option \<Rightarrow> ('a \<Rightarrow> 'b res option) \<Rightarrow> 'b res option" where
  "obind m f =
     (case m of
        None \<Rightarrow> None | Some (Ok x) \<Rightarrow> f x
      | Some Panic \<Rightarrow> Some Panic | Some Abort \<Rightarrow> Some Abort | Some UB \<Rightarrow> Some UB)"

lemma obind_simps [simp]:
  "obind (Some (Ok x)) f = f x" "obind (Some Panic) f = Some Panic"
  by (simp_all add: obind_def)

subsection \<open>The methods\<close>

type_synonym 's to_bytes = "'s \<Rightarrow> nat \<Rightarrow> heap \<Rightarrow> (('s \<times> bytes) \<times> heap) res option"

text \<open>What happens to the source at the end of a call: a borrowed one stays.\<close>

definition ref_end :: "'s \<Rightarrow> heap \<Rightarrow> ('s \<times> heap) res" where
  "ref_end s h = Ok (s, h)"

partial_function (option) bm_put_loop ::
  "(heap \<Rightarrow> 's buf) \<Rightarrow> bytes_mut \<Rightarrow> 's \<Rightarrow> heap \<Rightarrow> ((bytes_mut \<times> 's) \<times> heap) res option" where
  "bm_put_loop B b src h =
     (if \<not> has_remaining (B h) src then Some (Ok ((b, src), h))
      else case rbind (chunk (B h) src) (\<lambda>s.
                  rbind (bm_extend_from_slice b s h) (\<lambda>(b, h).
                  rbind (advance (B h) src (length s)) (\<lambda>src. Ok (b, src, h)))) of
             Ok r \<Rightarrow> bm_put_loop B (fst r) (fst (snd r)) (snd (snd r))
           | Panic \<Rightarrow> Some Panic | Abort \<Rightarrow> Some Abort | UB \<Rightarrow> Some UB)"

text \<open>\<open>BytesMut::put\<close>: an empty receiver takes the source's allocation over if it can.\<close>

definition bm_put ::
  "(heap \<Rightarrow> 's buf) \<Rightarrow> 's to_bytes \<Rightarrow> ('s \<Rightarrow> heap \<Rightarrow> ('t \<times> heap) res) \<Rightarrow> bytes_mut \<Rightarrow> 's \<Rightarrow> heap \<Rightarrow>
   ((bytes_mut \<times> 't) \<times> heap) res option" where
  "bm_put B to_bytes end_src b src h =
     (if \<not> has_remaining (B h) src then Some (rbind (end_src src h) (\<lambda>(t, h). Ok ((b, t), h)))
      else if bm_cap b = 0
      then obind (to_bytes src (remaining (B h) src) h) (\<lambda>((src, src_copy), h). Some (
           rbind (end_src src h) (\<lambda>(t, h).
           rbind (bytes_is_unique src_copy h) (\<lambda>unique.
           if unique
           then rbind (bytes_into_mut src_copy h) (\<lambda>(m, h). rbind (bm_drop b h) (\<lambda>h. Ok ((m, t), h)))
           else rbind (bytes_as_slice src_copy h) (\<lambda>xs.
                rbind (bm_extend_from_slice b xs h) (\<lambda>(b, h).
                rbind (bytes_drop src_copy h) (\<lambda>h. Ok ((b, t), h))))))))
      else obind (Some (bm_reserve b (remaining (B h) src) h)) (\<lambda>(b, h).
           obind (bm_put_loop B b src h) (\<lambda>((b, src), h).
           Some (rbind (end_src src h) (\<lambda>(t, h). Ok ((b, t), h))))))"

definition take_copy_to_bytes :: "'s to_bytes \<Rightarrow> 's take to_bytes" where
  "take_copy_to_bytes to_bytes t len h =
     (if len \<le> take_limit t
      then obind (to_bytes (take_inner t) len h) (\<lambda>((b, x), h). Some (Ok ((Take b (take_limit t - len), x), h)))
      else Some Panic)"

text \<open>The provided \<open>copy_to_bytes\<close>; \<open>to_bytes\<close> is the implementation's own, which \<open>Take\<close> would forward to.\<close>

definition default_copy_to_bytes :: "(heap \<Rightarrow> 's buf) \<Rightarrow> 's to_bytes \<Rightarrow> 's to_bytes" where
  "default_copy_to_bytes B to_bytes s len h =
     (if len \<le> remaining (B h) s
      then obind (Some (bm_with_capacity len h)) (\<lambda>(ret, h).
           obind (bm_put (\<lambda>h. take_buf (B h)) (take_copy_to_bytes to_bytes) ref_end ret (Take s len) h) (\<lambda>((ret, t), h).
           Some (rbind (bm_freeze ret h) (\<lambda>(x, h). Ok ((take_inner t, x), h)))))
      else Some Panic)"

definition chain_copy_to_bytes ::
  "(heap \<Rightarrow> 'a buf) \<Rightarrow> (heap \<Rightarrow> 'b buf) \<Rightarrow> 'a to_bytes \<Rightarrow> 'b to_bytes \<Rightarrow> ('a, 'b) chain to_bytes" where
  "chain_copy_to_bytes A B a_bytes b_bytes c len h =
     (let a_rem = remaining (A h) (chain_a c) in
      if a_rem \<ge> len
      then obind (a_bytes (chain_a c) len h) (\<lambda>((a, x), h). Some (Ok ((Chain a (chain_b c), x), h)))
      else if a_rem = 0
      then obind (b_bytes (chain_b c) len h) (\<lambda>((b, x), h). Some (Ok ((Chain (chain_a c) b, x), h)))
      else obind (Some (rbind (uadd a_rem (remaining (B h) (chain_b c))) (\<lambda>n. rassert (len \<le> n)))) (\<lambda>_.
           obind (Some (bm_with_capacity len h)) (\<lambda>(bufm, h).
           obind (bm_put A a_bytes ref_end bufm (chain_a c) h) (\<lambda>((bufm, a), h).
           obind (bm_put (\<lambda>h. take_buf (B h)) (take_copy_to_bytes b_bytes) ref_end bufm
                    (Take (chain_b c) (len - a_rem)) h) (\<lambda>((bufm, t), h).
           Some (rbind (bm_freeze bufm h) (\<lambda>(x, h). Ok ((Chain a (take_inner t), x), h))))))))"

text \<open>The sources of the crate at a heap, and their overriding \<open>copy_to_bytes\<close>.\<close>

definition bytes_at :: "heap \<Rightarrow> bytes buf" where
  "bytes_at h = \<lparr>remaining = bs_len, chunk = (\<lambda>b. bytes_as_slice b h), advance = (\<lambda>b n. bytes_advance b n h),
     chunks_vectored = default_chunks_vectored bs_len (\<lambda>b. bytes_as_slice b h),
     copy_to_slice = contiguous_copy (\<lambda>b. bytes_as_slice b h) (\<lambda>b n. bytes_advance b n h)\<rparr>"

definition mut_at :: "heap \<Rightarrow> bytes_mut buf" where
  "mut_at h = \<lparr>remaining = bm_len, chunk = (\<lambda>b. bm_as_slice b h), advance = (\<lambda>b n. bm_advance b n h),
     chunks_vectored = default_chunks_vectored bm_len (\<lambda>b. bm_as_slice b h),
     copy_to_slice = contiguous_copy (\<lambda>b. bm_as_slice b h) (\<lambda>b n. bm_advance b n h)\<rparr>"

definition returning :: "('s \<Rightarrow> nat \<Rightarrow> heap \<Rightarrow> (('s \<times> bytes) \<times> heap) res) \<Rightarrow> 's to_bytes" where
  "returning f s n h = Some (f s n h)"

lemma bm_with_capacity_boxes: "bm_with_capacity n h = Ok (b, h') \<Longrightarrow> hp_boxes h' = hp_boxes h"
  by (auto simp: bm_with_capacity_def vec_with_capacity_def Let_def split: if_split_asm)

subsection \<open>What a source promises\<close>

text \<open>
  \<open>owned s\<close> are the live handles a source has, \<open>content h s\<close> the bytes it still holds. Its reading methods
  are lawful at every well-formed heap, what it holds is stable while its handles keep their bytes, and
  \<open>copy_to_bytes\<close> takes the next \<open>n\<close> bytes out into a handle of their own, if \<open>needs\<close> are met.
\<close>

text \<open>
  For a client of \<open>Take\<close> that gets the inner source back: of the bytes \<open>xs\<close> that it had, it still has all but
  the first \<open>n\<close> less the limit.
\<close>

definition tracked :: "(heap \<Rightarrow> 's \<Rightarrow> bool) \<Rightarrow> (heap \<Rightarrow> 's \<Rightarrow> u8 list) \<Rightarrow> nat \<Rightarrow> u8 list \<Rightarrow> heap \<Rightarrow> 's take \<Rightarrow> bool" where
  "tracked ok content n xs h t \<longleftrightarrow>
     ok h (take_inner t) \<and> take_limit t \<le> n \<and> content h (take_inner t) = drop (n - take_limit t) xs"

locale heap_reader =
  fixes B :: "heap \<Rightarrow> 's buf" and owned :: "'s \<Rightarrow> handle list"
    and ok :: "heap \<Rightarrow> 's \<Rightarrow> bool" and content :: "heap \<Rightarrow> 's \<Rightarrow> u8 list"
  assumes required: "buf_required (B h) (\<lambda>s. wf_heap h (owned s @ R) \<and> ok h s) (content h)"
    and stable: "frame h h' (owned s) \<Longrightarrow> content h' s = content h s \<and> (ok h s \<longrightarrow> ok h' s)"
    and arity: "length (owned s) = length (owned s')"
begin

lemma reading:
  assumes "wf_heap h (owned s @ R)" "ok h s"
  shows "remaining (B h) s = length (content h s)"
    "\<exists>xs. chunk (B h) s = Ok xs \<and> prefix xs (content h s) \<and> (xs = [] \<longleftrightarrow> content h s = [])"
    "n \<le> length (content h s) \<Longrightarrow>
      \<exists>s'. advance (B h) s n = Ok s' \<and> wf_heap h (owned s' @ R) \<and> ok h s' \<and> content h s' = drop n (content h s)"
  using required [of h R] assms unfolding buf_required_def buf_core_def by simp_all

text \<open>The loop of \<open>put\<close>, into spare capacity: chunk after chunk is appended.\<close>

lemma put_loop_Ok:
  "wf_heap h (HMut b # owned s @ R) \<Longrightarrow> ok h s \<Longrightarrow> length (content h s) \<le> bm_cap b - bm_len b \<Longrightarrow>
   \<exists>c s' h'. bm_put_loop B b s h = Some (Ok ((c, s'), h')) \<and> wf_heap h' (HMut c # owned s' @ R) \<and> ok h' s' \<and>
     content h' s' = [] \<and> frame h h' R \<and> hp_boxes h' = hp_boxes h \<and> view h' (HMut c) = view h (HMut b) @ content h s \<and>
     bm_len c = bm_len b + length (content h s) \<and> bm_cap c = bm_cap b"
proof (induction "length (content h s)" arbitrary: b s h rule: less_induct)
  case less
  have wf: "wf_heap h (owned s @ HMut b # R)" by (rule wf_heap_perm [OF _ less.prems(1)]) simp
  note read = reading [OF wf less.prems(2)]
  show ?case
  proof (cases "content h s = []")
    case True
    then show ?thesis using less.prems read(1) by (simp add: bm_put_loop.simps has_remaining_def)
  next
    case False
    obtain xs where xs: "chunk (B h) s = Ok xs" "prefix xs (content h s)" "xs \<noteq> []" using read(2) False by blast
    then obtain ys where ys: "content h s = xs @ ys" by (auto simp: prefix_def)
    have fits: "length xs \<le> bm_cap b - bm_len b" using less.prems(3) ys by simp
    let ?c = "b\<lparr>bm_len := bm_len b + length xs\<rparr>"
    obtain h1 where ext: "bm_extend_from_slice b xs h = Ok (?c, h1)" "wf_heap h1 (HMut ?c # owned s @ R)"
      "frame h h1 (owned s @ R)" "hp_boxes h1 = hp_boxes h" "view h1 (HMut ?c) = view h (HMut b) @ xs"
      by (rule bm_extend_spare [OF less.prems(1) fits])
    have st: "content h1 s = content h s" "ok h1 s"
      using stable [of h h1 s] ext(3) less.prems(2) by (simp_all add: frame_def)
    have wf1: "wf_heap h1 (owned s @ HMut ?c # R)" by (rule wf_heap_perm [OF _ ext(2)]) simp
    obtain s1 where s1: "advance (B h1) s (length xs) = Ok s1" "wf_heap h1 (owned s1 @ HMut ?c # R)" "ok h1 s1"
      "content h1 s1 = ys"
      using reading(3) [OF wf1 st(2), of "length xs"] st(1) ys by auto
    have wf2: "wf_heap h1 (HMut ?c # owned s1 @ R)" by (rule wf_heap_perm [OF _ s1(2)]) simp
    have "length (content h1 s1) < length (content h s)" using s1(4) ys xs(3) by simp
    moreover have "length (content h1 s1) \<le> bm_cap ?c - bm_len ?c" using s1(4) ys less.prems(3) by simp
    ultimately obtain c s' h' where c: "bm_put_loop B ?c s1 h1 = Some (Ok ((c, s'), h'))"
      "wf_heap h' (HMut c # owned s' @ R)" "ok h' s'" "content h' s' = []" "frame h1 h' R" "hp_boxes h' = hp_boxes h1"
      "view h' (HMut c) = view h1 (HMut ?c) @ content h1 s1" "bm_len c = bm_len ?c + length (content h1 s1)"
      "bm_cap c = bm_cap ?c" using less.hyps [OF _ wf2 s1(3)] by blast
    have "has_remaining (B h) s" using read(1) False by (simp add: has_remaining_def)
    then have "bm_put_loop B b s h = Some (Ok ((c, s'), h'))"
      using xs(1) ext(1) s1(1) c(1) by (simp add: bm_put_loop.simps [of B b s h])
    moreover have "frame h h1 R" using ext(3) by (simp add: frame_def)
    then have "frame h h' R" using c(5) by (rule frame_trans)
    ultimately show ?thesis using c ext(4,5) s1(4) ys by auto
  qed
qed

text \<open>\<open>put\<close> of a borrowed source into spare capacity: no allocation, and \<open>copy_to_bytes\<close> is not called.\<close>

lemma put_spare:
  assumes wf: "wf_heap h (HMut b # owned s @ R)" "ok h s" and fits: "length (content h s) \<le> bm_cap b - bm_len b"
  shows "\<exists>c s' h'. bm_put B any ref_end b s h = Some (Ok ((c, s'), h')) \<and> wf_heap h' (HMut c # owned s' @ R) \<and>
     ok h' s' \<and> content h' s' = [] \<and> frame h h' R \<and> hp_boxes h' = hp_boxes h \<and>
     view h' (HMut c) = view h (HMut b) @ content h s \<and>
     bm_len c = bm_len b + length (content h s) \<and> bm_cap c = bm_cap b"
proof (cases "content h s = []")
  case True
  have "wf_heap h (owned s @ HMut b # R)" by (rule wf_heap_perm [OF _ wf(1)]) simp
  then have "\<not> has_remaining (B h) s" using reading(1) wf(2) True by (simp add: has_remaining_def)
  then show ?thesis using wf True by (simp add: bm_put_def ref_end_def)
next
  case False
  have "wf_heap h (owned s @ HMut b # R)" by (rule wf_heap_perm [OF _ wf(1)]) simp
  then have n: "remaining (B h) s = length (content h s)" using reading(1) wf(2) by simp
  moreover have "0 < length (content h s)" using False by simp
  ultimately have "has_remaining (B h) s" "bm_cap b \<noteq> 0" using fits by (simp add: has_remaining_def, linarith)
  moreover have "bm_reserve b (remaining (B h) s) h = Ok (b, h)"
    using fits n mut_owner(3) [OF wf(1)] by (simp add: bm_reserve_def usub_Ok)
  ultimately show ?thesis using put_loop_Ok [OF wf fits] by (auto simp: bm_put_def ref_end_def)
qed

text \<open>\<open>Take\<close> of a reader is a reader.\<close>

lemma take_reader:
  "heap_reader (\<lambda>h. take_buf (B h)) (\<lambda>t. owned (take_inner t)) (tracked ok content n xs) (\<lambda>h. take_content (content h))"
proof (rule heap_reader.intro)
  fix h R
  note core = buf_required.take_core [OF required [of h R]]
  show "buf_required (take_buf (B h)) (\<lambda>t. wf_heap h (owned (take_inner t) @ R) \<and> tracked ok content n xs h t) (take_content (content h))"
    unfolding buf_required_def take_buf_def buf.simps
  proof (unfold_locales, goal_cases)
    case (1 t)
    then show ?case using core by (simp add: buf_core_def take_inv_def tracked_def)
  next
    case (2 t)
    then show ?case using core by (simp add: buf_core_def take_inv_def tracked_def)
  next
    case (3 t k)
    then have wf: "wf_heap h (owned (take_inner t) @ R)" "ok h (take_inner t)" and lim: "take_limit t \<le> n"
      and X: "content h (take_inner t) = drop (n - take_limit t) xs" by (simp_all add: tracked_def)
    have k: "k \<le> take_limit t" "k \<le> length (content h (take_inner t))" using 3(2) by (simp_all add: take_content_def)
    obtain s' where s': "advance (B h) (take_inner t) k = Ok s'" "wf_heap h (owned s' @ R)" "ok h s'"
      "content h s' = drop k (content h (take_inner t))" using reading(3) [OF wf k(2)] by blast
    have "n - (take_limit t - k) = k + (n - take_limit t)" using k(1) lim by simp
    then have "content h s' = drop (n - (take_limit t - k)) xs" using s'(4) X by simp
    moreover have "take_advance (B h) t k = Ok (Take s' (take_limit t - k))"
      using s'(1) k(1) by (simp add: take_advance_def rassert_def)
    ultimately show ?case using s' lim by (simp add: tracked_def take_content_def drop_take)
  qed
next
  fix h h' t
  assume "frame h h' (owned (take_inner t))"
  then show "take_content (content h') t = take_content (content h) t \<and> (tracked ok content n xs h t \<longrightarrow> tracked ok content n xs h' t)"
    using stable by (simp add: take_content_def tracked_def)
next
  fix t t' :: "'s take"
  show "length (owned (take_inner t)) = length (owned (take_inner t'))" by (rule arity)
qed

text \<open>\<open>put\<close> of the first \<open>n\<close> bytes of a borrowed source, into spare capacity.\<close>

lemma put_take_spare:
  assumes wf: "wf_heap h (HMut b # owned s @ R)" "ok h s"
    and fits: "n \<le> length (content h s)" "n \<le> bm_cap b - bm_len b"
  obtains c s' h' where "bm_put (\<lambda>h. take_buf (B h)) any ref_end b (Take s n) h = Some (Ok ((c, Take s' 0), h'))"
    "wf_heap h' (HMut c # owned s' @ R)" "ok h' s'" "content h' s' = drop n (content h s)" "frame h h' R"
    "hp_boxes h' = hp_boxes h" "view h' (HMut c) = view h (HMut b) @ take n (content h s)"
    "bm_len c = bm_len b + n" "bm_cap c = bm_cap b"
proof -
  note take = take_reader [of n "content h s"]
  have len: "length (take_content (content h) (Take s n)) = n" using fits(1) by (simp add: take_content_def)
  have "wf_heap h (HMut b # owned (take_inner (Take s n)) @ R)" "tracked ok content n (content h s) h (Take s n)"
    using wf by (simp_all add: tracked_def)
  from heap_reader.put_spare [OF take this, where any = any] len fits(2) obtain c t h' where
    c: "bm_put (\<lambda>h. take_buf (B h)) any ref_end b (Take s n) h = Some (Ok ((c, t), h'))"
    "wf_heap h' (HMut c # owned (take_inner t) @ R)" "tracked ok content n (content h s) h' t"
    "take_content (content h') t = []" "frame h h' R" "hp_boxes h' = hp_boxes h"
    "view h' (HMut c) = view h (HMut b) @ take n (content h s)" "bm_len c = bm_len b + n" "bm_cap c = bm_cap b"
    by (auto simp: take_content_def)
  have "take_limit t = 0" using c(3,4) fits(1) by (auto simp: tracked_def take_content_def)
  then have "t = Take (take_inner t) 0" "content h' (take_inner t) = drop n (content h s)" "ok h' (take_inner t)"
    using c(3) by (cases t; simp add: tracked_def)+
  then show thesis using that c by metis
qed

text \<open>
  The provided \<open>copy_to_bytes\<close> keeps its promise whatever the implementation's own one does: it is never
  called, as the buffer it is given has room for all the bytes.
\<close>

lemma default_to_bytes_Ok:
  assumes wf: "wf_heap h (owned s @ R)" "ok h s" and room: "box_room h" and n: "n \<le> length (content h s)"
    and alloc: "alloc_ok h n"
  shows "\<exists>s' c h'. default_copy_to_bytes B any s n h = Some (Ok ((s', c), h')) \<and>
    wf_heap h' (HBytes c # owned s' @ R) \<and> ok h' s' \<and> frame h h' R \<and>
    view h' (HBytes c) = take n (content h s) \<and> content h' s' = drop n (content h s)"
proof -
  obtain b h1 where b: "bm_with_capacity n h = Ok (b, h1)" "wf_heap h1 (HMut b # owned s @ R)"
    "frame h h1 (owned s @ R)" "view h1 (HMut b) = []" "n \<le> bm_cap b" "hp_boxes h1 = hp_boxes h"
    using bm_with_capacity_Ok [OF wf(1) alloc] bm_with_capacity_boxes by blast
  have st: "content h1 s = content h s" "ok h1 s"
    using stable [of h h1 s] b(3) wf(2) by (simp_all add: frame_def)
  have "bm_len b = 0" using length_view [of h1 "HMut b"] b(2,4) by (simp add: wf_heap_def)
  then have fits: "n \<le> bm_cap b - bm_len b" using b(5) by simp
  obtain c s' h2 where c: "bm_put (\<lambda>h. take_buf (B h)) (take_copy_to_bytes any) ref_end b (Take s n) h1 = Some (Ok ((c, Take s' 0), h2))"
    "wf_heap h2 (HMut c # owned s' @ R)" "ok h2 s'" "content h2 s' = drop n (content h1 s)" "frame h1 h2 R"
    "hp_boxes h2 = hp_boxes h1" "view h2 (HMut c) = view h1 (HMut b) @ take n (content h1 s)"
    by (rule put_take_spare [OF b(2) st(2) _ fits]) (use n st(1) in simp)
  have "box_room h2" using room c(6) b(6) by (simp add: box_room_def)
  then obtain x h3 where x: "bm_freeze c h2 = Ok (x, h3)" "wf_heap h3 (HBytes x # owned s' @ R)" "quiet h2 h3"
    "view h3 (HBytes x) = view h2 (HMut c)" using bm_freeze_Ok [OF c(2)] by blast
  have f: "frame h2 h3 hs" for hs by (rule quiet_frame [OF x(3)])
  have "content h3 s' = content h2 s'" "ok h3 s'" using stable [OF f] c(3) by simp_all
  moreover have "frame h h3 R" using b(3) c(5) f [of R] by (simp add: frame_def)
  moreover have "n \<le> remaining (B h) s" using reading(1) [OF wf] n by simp
  then have "default_copy_to_bytes B any s n h = Some (Ok ((s', x), h3))"
    using b(1) c(1) x(1) by (simp add: default_copy_to_bytes_def)
  ultimately show ?thesis using x c b(4) st(1) by auto
qed

lemma default_to_bytes_Panic:
  "wf_heap h (owned s @ R) \<Longrightarrow> ok h s \<Longrightarrow> length (content h s) < n \<Longrightarrow> default_copy_to_bytes B any s n h = Some Panic"
  using reading(1) by (simp add: default_copy_to_bytes_def)

end

text \<open>The contract of \<open>copy_to_bytes\<close>: the next \<open>n\<close> bytes in a handle of their own.\<close>

locale heap_source = heap_reader B owned ok content
  for B :: "heap \<Rightarrow> 's buf" and owned ok content +
  fixes to_bytes :: "'s to_bytes" and needs :: "'s \<Rightarrow> nat \<Rightarrow> heap \<Rightarrow> bool"
  assumes to_bytes_law: "wf_heap h (owned s @ R) \<Longrightarrow> ok h s \<Longrightarrow> box_room h \<Longrightarrow> length (owned s @ R) < isize_max \<Longrightarrow>
      n \<le> length (content h s) \<Longrightarrow> needs s n h \<Longrightarrow>
      \<exists>s' c h'. to_bytes s n h = Some (Ok ((s', c), h')) \<and> wf_heap h' (HBytes c # owned s' @ R) \<and> ok h' s' \<and>
        frame h h' R \<and> view h' (HBytes c) = take n (content h s) \<and> content h' s' = drop n (content h s)"
    and to_bytes_Panic: "wf_heap h (owned s @ R) \<Longrightarrow> ok h s \<Longrightarrow> length (content h s) < n \<Longrightarrow>
      to_bytes s n h = Some Panic"
begin

text \<open>\<open>Take\<close> of a source is a source.\<close>

lemma take_source:
  "heap_source (\<lambda>h. take_buf (B h)) (\<lambda>t. owned (take_inner t)) (\<lambda>h t. ok h (take_inner t))
     (\<lambda>h. take_content (content h)) (take_copy_to_bytes to_bytes) (\<lambda>t. needs (take_inner t))"
proof (intro heap_source.intro heap_source_axioms.intro heap_reader.intro, goal_cases)
  case (1 h R)
  have "take_inv (\<lambda>s. wf_heap h (owned s @ R) \<and> ok h s) = (\<lambda>t. wf_heap h (owned (take_inner t) @ R) \<and> ok h (take_inner t))"
    by (simp add: fun_eq_iff take_inv_def)
  then show ?case using buf_required.take_core [OF required [of h R]] by (simp add: buf_required_def take_buf_def)
next
  case (2 h h' t)
  then show ?case using stable by (simp add: take_content_def)
next
  case (3 s s')
  show ?case by (rule arity)
next
  case (4 h t R n)
  then have n: "n \<le> take_limit t" "n \<le> length (content h (take_inner t))" by (simp_all add: take_content_def)
  from to_bytes_law [OF 4(1-4) n(2) 4(6)] obtain s' c h' where
    "to_bytes (take_inner t) n h = Some (Ok ((s', c), h'))" "wf_heap h' (HBytes c # owned s' @ R)" "ok h' s'"
    "frame h h' R" "view h' (HBytes c) = take n (content h (take_inner t))"
    "content h' s' = drop n (content h (take_inner t))" by blast
  then show ?case using n by (auto simp: take_copy_to_bytes_def take_content_def min_def drop_take)
next
  case (5 h t R n)
  then show ?case using to_bytes_Panic [OF 5(1,2)] by (auto simp: take_copy_to_bytes_def take_content_def obind_def)
qed

end

subsection \<open>The sources of the crate\<close>

definition no_needs :: "'s \<Rightarrow> nat \<Rightarrow> heap \<Rightarrow> bool" where
  "no_needs s n h \<longleftrightarrow> True"

definition alloc_needs :: "'s \<Rightarrow> nat \<Rightarrow> heap \<Rightarrow> bool" where
  "alloc_needs s n h \<longleftrightarrow> alloc_ok h n"

text \<open>\<open>copy_to_bytes\<close> of a \<open>BytesMut\<close> may box twice: splitting promotes, and then it freezes.\<close>

definition mut_needs :: "bytes_mut \<Rightarrow> nat \<Rightarrow> heap \<Rightarrow> bool" where
  "mut_needs b n h \<longleftrightarrow> (case bm_split_to b n h of Ok (_, h') \<Rightarrow> box_room h' | _ \<Rightarrow> True)"

interpretation slice_src: heap_source "\<lambda>_. slice_buf" "\<lambda>_. []" "\<lambda>_ _. True" "\<lambda>_ s. s"
  "returning slice_copy_to_bytes" alloc_needs
proof (intro heap_source.intro heap_source_axioms.intro heap_reader.intro, goal_cases)
  case (1 h R)
  show ?case using buf_core_slice by (auto simp: buf_required_def slice_buf_def buf_core_def)
next
  case (4 h s R n)
  then have "length (take n s) = n" by simp
  with 4 obtain c h' where "bytes_copy_from_slice (take n s) h = Ok (c, h')" "wf_heap h' (HBytes c # R)" "frame h h' R"
    "view h' (HBytes c) = take n s"
    using bytes_copy_from_slice_Ok [of h R "take n s"] by (auto simp: alloc_needs_def simp del: length_take)
  then show ?case using 4(5) by (auto simp: returning_def slice_copy_to_bytes_def)
qed (auto simp: returning_def slice_copy_to_bytes_def)

interpretation bytes_src: heap_source bytes_at "\<lambda>b. [HBytes b]" "\<lambda>_ _. True" "\<lambda>h b. view h (HBytes b)"
  "returning bytes_copy_to_bytes" no_needs
proof (intro heap_source.intro heap_source_axioms.intro heap_reader.intro, goal_cases)
  case (1 h R)
  show ?case
    unfolding buf_required_def bytes_at_def buf.simps
  proof (unfold_locales, goal_cases)
    case (3 b n)
    then have "n \<le> bs_len b" using length_view [OF wf_ConsD(2), of h "HBytes b" R] by simp
    then show ?case using bytes_advance_Ok [of h b R n] 3(1) by simp
  qed (use length_view bytes_as_slice_Ok wf_ConsD(2) in fastforce)+
next
  case (4 h b R n)
  have len: "length (view h (HBytes b)) = bs_len b" using length_view [of h "HBytes b"] 4(1) by (simp add: wf_heap_def)
  have "room h (HBytes b # R)" using 4(3,4) by (simp add: room_def)
  then obtain lo hi h' where "bytes_try_split_to b n h = Ok ((hi, Some lo), h')" "split_at h b n R lo hi h'"
    using try_split_to_Ok [of h b R n] 4(1,5) len by auto
  then show ?case
    by (auto simp: returning_def bytes_copy_to_bytes_def bytes_split_to_def split_at_def quiet_frame)
next
  case (5 h b R n)
  have len: "length (view h (HBytes b)) = bs_len b" using length_view [of h "HBytes b"] 5(1) by (simp add: wf_heap_def)
  then show ?case using split_Panic(2) 5(3) by (simp add: returning_def bytes_copy_to_bytes_def)
qed (auto simp: frame_def)

interpretation mut_src: heap_source mut_at "\<lambda>b. [HMut b]" "\<lambda>_ _. True" "\<lambda>h b. view h (HMut b)"
  "returning bm_copy_to_bytes" mut_needs
proof (intro heap_source.intro heap_source_axioms.intro heap_reader.intro, goal_cases)
  case (1 h R)
  show ?case
    unfolding buf_required_def mut_at_def buf.simps
  proof (unfold_locales, goal_cases)
    case (3 b n)
    then have "n \<le> bm_len b" using length_view [OF wf_ConsD(2), of h "HMut b" R] by simp
    then show ?case using bm_advance_Ok [of h b R n] 3(1) by simp
  qed (use length_view bm_as_slice_Ok wf_ConsD(2) in fastforce)+
next
  case (4 h b R n)
  have len: "length (view h (HMut b)) = bm_len b" using length_view [of h "HMut b"] 4(1) by (simp add: wf_heap_def)
  have "room h (HMut b # R)" using 4(3,4) by (simp add: room_def)
  then obtain lo hi h1 where s: "bm_split_to b n h = Ok ((hi, lo), h1)" "mut_split h b n R lo hi h1"
    using bm_try_split_to_Ok [of h b R n] 4(1,5) len by (auto simp: bm_split_to_def)
  then have wf: "wf_heap h1 (HMut lo # HMut hi # R)" and "box_room h1"
    using 4(6) by (simp_all add: mut_split_def mut_needs_def)
  then obtain c h' where c: "bm_freeze lo h1 = Ok (c, h')" "wf_heap h' (HBytes c # HMut hi # R)" "quiet h1 h'"
    "view h' (HBytes c) = view h1 (HMut lo)" using bm_freeze_Ok by blast
  have "quiet h h'" using s(2) c(3) quiet_trans by (auto simp: mut_split_def)
  then show ?case
    using s c quiet_view [OF c(3)] by (auto simp: returning_def bm_copy_to_bytes_def mut_split_def quiet_frame)
next
  case (5 h b R n)
  have len: "length (view h (HMut b)) = bm_len b" using length_view [of h "HMut b"] 5(1) by (simp add: wf_heap_def)
  then show ?case using bm_split_Panic(1) 5(3) by (simp add: returning_def bm_copy_to_bytes_def)
qed (auto simp: frame_def)


subsection \<open>Chains of sources\<close>

definition chain_needs ::
  "(heap \<Rightarrow> 'a buf) \<Rightarrow> ('a \<Rightarrow> nat \<Rightarrow> heap \<Rightarrow> bool) \<Rightarrow> ('b \<Rightarrow> nat \<Rightarrow> heap \<Rightarrow> bool) \<Rightarrow> ('a, 'b) chain \<Rightarrow> nat \<Rightarrow> heap \<Rightarrow> bool" where
  "chain_needs A na nb c n h \<longleftrightarrow>
     (if n \<le> remaining (A h) (chain_a c) then na (chain_a c) n h
      else if remaining (A h) (chain_a c) = 0 then nb (chain_b c) n h else alloc_ok h n)"

definition chain_ok ::
  "(heap \<Rightarrow> 'a \<Rightarrow> bool) \<Rightarrow> (heap \<Rightarrow> 'b \<Rightarrow> bool) \<Rightarrow> (heap \<Rightarrow> 'a \<Rightarrow> u8 list) \<Rightarrow> (heap \<Rightarrow> 'b \<Rightarrow> u8 list) \<Rightarrow> heap \<Rightarrow> ('a, 'b) chain \<Rightarrow> bool" where
  "chain_ok oka okb ca cb h c \<longleftrightarrow>
     oka h (chain_a c) \<and> okb h (chain_b c) \<and> length (ca h (chain_a c)) + length (cb h (chain_b c)) \<le> usize_max"

locale chain_sources = a: heap_source A oa oka ca ta na + b: heap_source B ob okb cb tb nb
  for A :: "heap \<Rightarrow> 'a buf" and oa oka ca ta na and B :: "heap \<Rightarrow> 'b buf" and ob okb cb tb nb
begin

lemma swap: "wf_heap h ((xs @ ys) @ R) \<Longrightarrow> wf_heap h (xs @ ys @ R)" "wf_heap h ((xs @ ys) @ R) \<Longrightarrow> wf_heap h (ys @ xs @ R)"
  by (simp, erule wf_heap_perm [rotated], simp)

lemma chain_reading:
  assumes wf: "wf_heap h ((oa (chain_a c) @ ob (chain_b c)) @ R)" and ok: "chain_ok oka okb ca cb h c"
  shows "chain_remaining (A h) (B h) c = length (chain_content (ca h) (cb h) c)"
    "\<exists>xs. chain_chunk (A h) (B h) c = Ok xs \<and> prefix xs (chain_content (ca h) (cb h) c) \<and>
       (xs = [] \<longleftrightarrow> chain_content (ca h) (cb h) c = [])"
    "n \<le> length (chain_content (ca h) (cb h) c) \<Longrightarrow>
      \<exists>c'. chain_advance (A h) (B h) c n = Ok c' \<and> wf_heap h ((oa (chain_a c') @ ob (chain_b c')) @ R) \<and>
        chain_ok oka okb ca cb h c' \<and> chain_content (ca h) (cb h) c' = drop n (chain_content (ca h) (cb h) c)"
proof -
  let ?a = "chain_a c" and ?b = "chain_b c"
  note wfs = swap [OF wf]
  have oks: "oka h ?a" "okb h ?b" and size: "length (ca h ?a) + length (cb h ?b) \<le> usize_max"
    using ok by (simp_all add: chain_ok_def)
  note ra = a.reading [OF wfs(1) oks(1)] and rb = b.reading [OF wfs(2) oks(2)]
  show "chain_remaining (A h) (B h) c = length (chain_content (ca h) (cb h) c)"
    using ra(1) rb(1) size by (simp add: chain_remaining_def chain_content_def)
  show "\<exists>xs. chain_chunk (A h) (B h) c = Ok xs \<and> prefix xs (chain_content (ca h) (cb h) c) \<and>
       (xs = [] \<longleftrightarrow> chain_content (ca h) (cb h) c = [])"
    using ra(1,2) rb(1,2) by (auto simp: chain_chunk_def has_remaining_def chain_content_def)
  assume n: "n \<le> length (chain_content (ca h) (cb h) c)"
  let ?k = "min (length (ca h ?a)) n"
  obtain a' where a': "advance (A h) ?a ?k = Ok a'" "wf_heap h (oa a' @ ob ?b @ R)" "oka h a'"
    "ca h a' = drop ?k (ca h ?a)" using ra(3) [of ?k] by auto
  show "\<exists>c'. chain_advance (A h) (B h) c n = Ok c' \<and> wf_heap h ((oa (chain_a c') @ ob (chain_b c')) @ R) \<and>
        chain_ok oka okb ca cb h c' \<and> chain_content (ca h) (cb h) c' = drop n (chain_content (ca h) (cb h) c)"
  proof (cases "length (ca h ?a) \<le> n")
    case True
    let ?m = "n - length (ca h ?a)"
    have "wf_heap h (ob ?b @ oa a' @ R)" by (rule wf_heap_perm [OF _ a'(2)]) simp
    moreover have "?m \<le> length (cb h ?b)" using n by (simp add: chain_content_def)
    ultimately obtain b' where
      b': "advance (B h) ?b ?m = Ok b'" "wf_heap h (ob b' @ oa a' @ R)" "okb h b'" "cb h b' = drop ?m (cb h ?b)"
      using b.reading(3) [OF _ oks(2)] by blast
    have "wf_heap h ((oa a' @ ob b') @ R)" by (rule wf_heap_perm [OF _ b'(2)]) simp
    with True a' b' ra(1) size show ?thesis
      by (simp add: chain_advance_def chain_ok_def chain_content_def Let_def)
  next
    case False
    with a' ra(1) size oks show ?thesis
      by (simp add: chain_advance_def chain_ok_def chain_content_def Let_def min_def)
  qed
qed

lemma chain_reader:
  "heap_reader (\<lambda>h. chain_buf (A h) (B h)) (\<lambda>c. oa (chain_a c) @ ob (chain_b c)) (chain_ok oka okb ca cb)
     (\<lambda>h. chain_content (ca h) (cb h))"
proof (intro heap_reader.intro, goal_cases)
  case (1 h R)
  show ?case
    unfolding buf_required_def chain_buf_def buf.simps
  proof (unfold_locales, goal_cases)
    case (1 c)
    then show ?case using chain_reading(1) by blast
  next
    case (2 c)
    then show ?case using chain_reading(2) by blast
  next
    case (3 c n)
    then show ?case using chain_reading(3) [of h c R n] by (simp only: conj_assoc)
  qed
next
  case (2 h h' c)
  then have "frame h h' (oa (chain_a c))" "frame h h' (ob (chain_b c))" by (simp_all add: frame_def)
  then show ?case using a.stable b.stable by (auto simp: chain_content_def chain_ok_def)
next
  case (3 s s')
  show ?case
    unfolding length_append using a.arity [of "chain_a s" "chain_a s'"] b.arity [of "chain_b s" "chain_b s'"] by simp
qed

text \<open>When the bytes asked for straddle the border they are copied into a buffer of their own.\<close>

lemma straddle_Ok:
  assumes wf: "wf_heap h (oa x @ ob y @ R)" "oka h x" "okb h y" and room: "box_room h" "alloc_ok h n"
    and n: "length (ca h x) < n" "n \<le> length (ca h x) + length (cb h y)" "length (ca h x) + length (cb h y) \<le> usize_max"
    and ne: "ca h x \<noteq> []"
  shows "\<exists>x' y' c h'. chain_copy_to_bytes A B ta tb (Chain x y) n h = Some (Ok ((Chain x' y', c), h')) \<and>
    wf_heap h' (HBytes c # (oa x' @ ob y') @ R) \<and> oka h' x' \<and> okb h' y' \<and> frame h h' R \<and>
    view h' (HBytes c) = take n (ca h x @ cb h y) \<and> ca h' x' = [] \<and> cb h' y' = drop (n - length (ca h x)) (cb h y)"
proof -
  let ?k = "length (ca h x)"
  obtain m h1 where m: "bm_with_capacity n h = Ok (m, h1)" "wf_heap h1 (HMut m # oa x @ ob y @ R)"
    "frame h h1 (oa x @ ob y @ R)" "view h1 (HMut m) = []" "n \<le> bm_cap m" "hp_boxes h1 = hp_boxes h"
    using bm_with_capacity_Ok [OF wf(1) room(2)] bm_with_capacity_boxes by blast
  have f: "frame h h1 (oa x)" "frame h h1 (ob y)" "frame h h1 R" using m(3) by (simp_all add: frame_def)
  have st1: "ca h1 x = ca h x" "oka h1 x" "cb h1 y = cb h y" "okb h1 y"
    using a.stable [OF f(1)] b.stable [OF f(2)] wf(2,3) by simp_all
  have len: "bm_len m = 0" using length_view [of h1 "HMut m"] m(2,4) by (simp add: wf_heap_def)
  have "length (ca h1 x) \<le> bm_cap m - bm_len m" using len m(5) n(1) st1(1) by simp
  from a.put_spare [OF m(2) st1(2) this, where any = ta] obtain m2 x' h2 where
    m2: "bm_put A ta ref_end m x h1 = Some (Ok ((m2, x'), h2))" "wf_heap h2 (HMut m2 # oa x' @ ob y @ R)" "oka h2 x'"
    "ca h2 x' = []" "frame h1 h2 (ob y @ R)" "hp_boxes h2 = hp_boxes h1" "view h2 (HMut m2) = ca h x"
    "bm_len m2 = ?k" "bm_cap m2 = bm_cap m" using len st1(1) m(4) by auto
  have g: "frame h1 h2 (ob y)" "frame h1 h2 R" using m2(5) by (simp_all add: frame_def)
  have st2: "cb h2 y = cb h y" "okb h2 y" using b.stable [OF g(1)] st1(3,4) by simp_all
  have wf2: "wf_heap h2 (HMut m2 # ob y @ oa x' @ R)" by (rule wf_heap_perm [OF _ m2(2)]) simp
  have k: "n - ?k \<le> length (cb h2 y)" using n(2) st2(1) by simp
  have fits: "n - ?k \<le> bm_cap m2 - bm_len m2" using m2(8,9) m(5) by simp
  obtain m3 y' h3 where
    m3: "bm_put (\<lambda>h. take_buf (B h)) (take_copy_to_bytes tb) ref_end m2 (Take y (n - ?k)) h2 = Some (Ok ((m3, Take y' 0), h3))"
    "wf_heap h3 (HMut m3 # ob y' @ oa x' @ R)" "okb h3 y'" "cb h3 y' = drop (n - ?k) (cb h2 y)" "frame h2 h3 (oa x' @ R)"
    "hp_boxes h3 = hp_boxes h2" "view h3 (HMut m3) = view h2 (HMut m2) @ take (n - ?k) (cb h2 y)"
    by (rule b.put_take_spare [OF wf2 st2(2) k fits])
  have fr: "frame h2 h3 (oa x')" "frame h2 h3 R" using m3(5) by (simp_all add: frame_def)
  have st3: "ca h3 x' = []" "oka h3 x'" using a.stable [OF fr(1)] m2(3,4) by simp_all
  have "box_room h3" using room(1) m(6) m2(6) m3(6) by (simp add: box_room_def)
  then obtain c h4 where c: "bm_freeze m3 h3 = Ok (c, h4)" "wf_heap h4 (HBytes c # ob y' @ oa x' @ R)" "quiet h3 h4"
    "view h4 (HBytes c) = view h3 (HMut m3)" using bm_freeze_Ok [OF m3(2)] by blast
  note q = quiet_frame [OF c(3)]
  have wf4: "wf_heap h4 (HBytes c # (oa x' @ ob y') @ R)" by (rule wf_heap_perm [OF _ c(2)]) simp
  have st4: "ca h4 x' = []" "oka h4 x'" "cb h4 y' = drop (n - ?k) (cb h y)" "okb h4 y'"
    using a.stable [OF q] b.stable [OF q] st3 m3(3,4) st2(1) by simp_all
  have fr4: "frame h h4 R" using frame_trans [OF f(3) frame_trans [OF g(2) frame_trans [OF fr(2) q]]] .
  have rem: "remaining (A h) x = ?k" "remaining (B h) y = length (cb h y)"
    using a.reading(1) [OF wf(1,2)] b.reading(1) [of h y "oa x @ R"] wf(3) wf_heap_perm [OF _ wf(1), of "ob y @ oa x @ R"]
    by simp_all
  have "?k \<noteq> 0" using ne by simp
  then have "chain_copy_to_bytes A B ta tb (Chain x y) n h = Some (Ok ((Chain x' y', c), h4))"
    using rem n m(1) m2(1) m3(1) c(1) by (simp add: chain_copy_to_bytes_def uadd_Ok rassert_def Let_def)
  moreover have "view h4 (HBytes c) = take n (ca h x @ cb h y)" using c(4) m3(7) m2(7) st2(1) n(1) by simp
  ultimately show ?thesis using wf4 st4 fr4 by blast
qed

text \<open>A chain of sources is a source: \<open>copy_to_bytes\<close> takes from one side, or across the border.\<close>

lemma chain_source:
  "heap_source (\<lambda>h. chain_buf (A h) (B h)) (\<lambda>c. oa (chain_a c) @ ob (chain_b c)) (chain_ok oka okb ca cb)
     (\<lambda>h. chain_content (ca h) (cb h)) (chain_copy_to_bytes A B ta tb) (chain_needs A na nb)"
proof (intro heap_source.intro heap_source_axioms.intro chain_reader, goal_cases)
  case (1 h c R n)
  obtain x y where c: "c = Chain x y" by (cases c)
  have oks: "oka h x" "okb h y" and size: "length (ca h x) + length (cb h y) \<le> usize_max"
    using 1(2) c by (simp_all add: chain_ok_def)
  have wf: "wf_heap h (oa x @ ob y @ R)" and wf': "wf_heap h (ob y @ oa x @ R)"
    using swap [of h "oa x" "ob y" R] 1(1) c by simp_all
  have count: "length (oa x @ ob y @ R) < isize_max" "length (ob y @ oa x @ R) < isize_max" using 1(4) c by simp_all
  have rem: "remaining (A h) x = length (ca h x)" by (rule a.reading(1) [OF wf oks(1)])
  have n: "n \<le> length (ca h x) + length (cb h y)" using 1(5) c by (simp add: chain_content_def)
  consider "n \<le> length (ca h x)" | "\<not> n \<le> length (ca h x)" "ca h x = []"
    | "length (ca h x) < n" "ca h x \<noteq> []" by linarith
  then show ?case
  proof cases
    case 1
    with \<open>chain_needs A na nb c n h\<close> have "na x n h" using rem c by (simp add: chain_needs_def)
    from a.to_bytes_law [OF wf oks(1) \<open>box_room h\<close> count(1) 1 this] obtain x' z h' where
      z: "ta x n h = Some (Ok ((x', z), h'))" "wf_heap h' (HBytes z # oa x' @ ob y @ R)" "oka h' x'"
      "frame h h' (ob y @ R)" "view h' (HBytes z) = take n (ca h x)" "ca h' x' = drop n (ca h x)" by blast
    then have f: "frame h h' (ob y)" "frame h h' R" by (simp_all add: frame_def)
    then show ?thesis using z b.stable [OF f(1)] oks size rem 1 c
      by (simp add: chain_copy_to_bytes_def chain_content_def chain_ok_def Let_def)
  next
    case 2
    then have "nb y n h" and n': "n \<le> length (cb h y)"
      using \<open>chain_needs A na nb c n h\<close> rem c n by (simp_all add: chain_needs_def)
    from b.to_bytes_law [OF wf' oks(2) \<open>box_room h\<close> count(2) n' this(1)] obtain y' z h' where
      z: "tb y n h = Some (Ok ((y', z), h'))" "wf_heap h' (HBytes z # ob y' @ oa x @ R)" "okb h' y'"
      "frame h h' (oa x @ R)" "view h' (HBytes z) = take n (cb h y)" "cb h' y' = drop n (cb h y)" by blast
    then have f: "frame h h' (oa x)" "frame h h' R" by (simp_all add: frame_def)
    have "wf_heap h' (HBytes z # (oa x @ ob y') @ R)" by (rule wf_heap_perm [OF _ z(2)]) simp
    then show ?thesis using z f a.stable [OF f(1)] oks size rem 2 c
      by (simp add: chain_copy_to_bytes_def chain_content_def chain_ok_def Let_def)
  next
    case 3
    then have "alloc_ok h n" using \<open>chain_needs A na nb c n h\<close> rem c by (simp add: chain_needs_def)
    from straddle_Ok [OF wf oks \<open>box_room h\<close> this 3(1) n size 3(2)] obtain x' y' z h' where
      z: "chain_copy_to_bytes A B ta tb (Chain x y) n h = Some (Ok ((Chain x' y', z), h'))"
      "wf_heap h' (HBytes z # (oa x' @ ob y') @ R)" "oka h' x'" "okb h' y'" "frame h h' R"
      "view h' (HBytes z) = take n (ca h x @ cb h y)" "ca h' x' = []" "cb h' y' = drop (n - length (ca h x)) (cb h y)"
      by blast
    then show ?thesis using size 3(1) c by (simp add: chain_content_def chain_ok_def)
  qed
next
  case (2 h c R n)
  obtain x y where c: "c = Chain x y" by (cases c)
  have oks: "oka h x" "okb h y" and size: "length (ca h x) + length (cb h y) \<le> usize_max"
    using 2(2) c by (simp_all add: chain_ok_def)
  have wf: "wf_heap h (oa x @ ob y @ R)" and wf': "wf_heap h (ob y @ oa x @ R)"
    using swap [of h "oa x" "ob y" R] 2(1) c by simp_all
  have rem: "remaining (A h) x = length (ca h x)" "remaining (B h) y = length (cb h y)"
    by (rule a.reading(1) [OF wf oks(1)], rule b.reading(1) [OF wf' oks(2)])
  have n: "length (ca h x) + length (cb h y) < n" using 2(3) c by (simp add: chain_content_def)
  show ?case
  proof (cases "ca h x = []")
    case True
    then show ?thesis using b.to_bytes_Panic [OF wf' oks(2)] n rem c
      by (simp add: chain_copy_to_bytes_def Let_def obind_def)
  next
    case False
    then show ?thesis using n rem c size by (simp add: chain_copy_to_bytes_def Let_def uadd_Ok rassert_def)
  qed
qed

end

interpretation bytes_slice: chain_sources bytes_at "\<lambda>b. [HBytes b]" "\<lambda>_ _. True" "\<lambda>h b. view h (HBytes b)"
  "returning bytes_copy_to_bytes" no_needs "\<lambda>_. slice_buf" "\<lambda>_. []" "\<lambda>_ _. True" "\<lambda>_ s. s"
  "returning slice_copy_to_bytes" alloc_needs
  by unfold_locales

subsection \<open>\<open>put\<close>\<close>

text \<open>The end of a call disposes of the source, or of nothing, and leaves everything else as it is.\<close>

definition ends :: "('s \<Rightarrow> handle list) \<Rightarrow> ('s \<Rightarrow> heap \<Rightarrow> ('t \<times> heap) res) \<Rightarrow> ('t \<Rightarrow> handle list) \<Rightarrow> bool" where
  "ends owned fin kept \<longleftrightarrow>
     (\<forall>h s R. wf_heap h (owned s @ R) \<and> length R \<le> isize_max \<longrightarrow>
       (\<exists>t h'. fin s h = Ok (t, h') \<and> wf_heap h' (kept t @ R) \<and> quiet h h' \<and> length (kept t) \<le> length (owned s)))"

definition drop_bytes_end :: "bytes \<Rightarrow> heap \<Rightarrow> (unit \<times> heap) res" where
  "drop_bytes_end b h = rbind (bytes_drop b h) (\<lambda>h. Ok ((), h))"

definition drop_mut_end :: "bytes_mut \<Rightarrow> heap \<Rightarrow> (unit \<times> heap) res" where
  "drop_mut_end b h = rbind (bm_drop b h) (\<lambda>h. Ok ((), h))"

lemma endsD:
  assumes "ends owned fin kept" "wf_heap h (owned s @ R)" "length R \<le> isize_max"
  obtains t h' where "fin s h = Ok (t, h')" "wf_heap h' (kept t @ R)" "quiet h h'" "length (kept t) \<le> length (owned s)"
  using assms unfolding ends_def by blast

lemma ends_simps [simp]:
  "ends owned ref_end owned" "ends (\<lambda>b. [HBytes b]) drop_bytes_end (\<lambda>_. [])" "ends (\<lambda>b. [HMut b]) drop_mut_end (\<lambda>_. [])"
  using bytes_drop_Ok bm_drop_Ok by (force simp: ends_def ref_end_def drop_bytes_end_def drop_mut_end_def)+

text \<open>What \<open>put\<close> asks of the allocator on each of its branches.\<close>

definition put_needs ::
  "(heap \<Rightarrow> 's buf) \<Rightarrow> 's to_bytes \<Rightarrow> ('s \<Rightarrow> heap \<Rightarrow> ('t \<times> heap) res) \<Rightarrow> ('s \<Rightarrow> nat \<Rightarrow> heap \<Rightarrow> bool) \<Rightarrow>
   bytes_mut \<Rightarrow> 's \<Rightarrow> heap \<Rightarrow> bool" where
  "put_needs B to_bytes fin needs b s h \<longleftrightarrow>
     (let n = remaining (B h) s in
      n = 0 \<or>
      (if bm_cap b = 0
       then needs s n h \<and> box_room h \<and>
         (case to_bytes s n h of
            Some (Ok ((s', c), h')) \<Rightarrow>
              (case fin s' h' of Ok (_, h') \<Rightarrow> alloc_ok h' n \<and> grow_ok h' b n | _ \<Rightarrow> True)
          | _ \<Rightarrow> True)
       else grow_ok h b n))"

text \<open>\<open>done\<close>: the receiver has the bytes, the source has been drained and then disposed of.\<close>

definition put_done ::
  "(heap \<Rightarrow> 's \<Rightarrow> bool) \<Rightarrow> (heap \<Rightarrow> 's \<Rightarrow> u8 list) \<Rightarrow> ('s \<Rightarrow> heap \<Rightarrow> ('t \<times> heap) res) \<Rightarrow> ('t \<Rightarrow> handle list) \<Rightarrow>
   bytes_mut \<Rightarrow> 's \<Rightarrow> heap \<Rightarrow> handle list \<Rightarrow> bytes_mut \<Rightarrow> 't \<Rightarrow> heap \<Rightarrow> bool" where
  "put_done ok content fin kept b s h R c t h' \<longleftrightarrow>
     wf_heap h' (HMut c # kept t @ R) \<and> frame h h' R \<and> view h' (HMut c) = view h (HMut b) @ content h s \<and>
     (\<exists>s1 h1 h2. ok h1 s1 \<and> content h1 s1 = [] \<and> fin s1 h1 = Ok (t, h2))"

context heap_source
begin

text \<open>The receiver has no capacity: the bytes are taken over, or copied if they are shared.\<close>

lemma put_take_over:
  assumes wf: "wf_heap h (HMut b # owned s @ R)" "ok h s" and len: "length (HMut b # owned s @ R) < isize_max"
    and fin: "ends owned fin kept" and ne: "content h s \<noteq> []" and cap: "bm_cap b = 0"
    and needs: "put_needs B to_bytes fin needs b s h"
  shows "\<exists>c t h'. bm_put B to_bytes fin b s h = Some (Ok ((c, t), h')) \<and> put_done ok content fin kept b s h R c t h'"
proof -
  let ?n = "length (content h s)"
  have wf': "wf_heap h (owned s @ HMut b # R)" by (rule wf_heap_perm [OF _ wf(1)]) simp
  have n: "remaining (B h) s = ?n" "has_remaining (B h) s"
    using reading(1) [OF wf' wf(2)] ne by (simp_all add: has_remaining_def)
  have v: "view h (HMut b) = []"
    using mut_owner(3) [OF wf(1)] cap length_view [of h "HMut b"] wf(1) by (simp add: wf_heap_def)
  have ask: "needs s ?n h" "box_room h" using needs n(1) ne cap by (simp_all add: put_needs_def Let_def)
  have len': "length (owned s @ HMut b # R) < isize_max" using len by simp
  obtain s1 x h1 where x: "to_bytes s ?n h = Some (Ok ((s1, x), h1))" "wf_heap h1 (HBytes x # owned s1 @ HMut b # R)"
    "ok h1 s1" "frame h h1 (HMut b # R)" "view h1 (HBytes x) = content h s" "content h1 s1 = []"
    using to_bytes_law [OF wf' wf(2) ask(2) len' _ ask(1)] by auto
  have lx: "bs_len x = ?n" using length_view [of h1 "HBytes x"] x(2,5) by (simp add: wf_heap_def)
  have wf1: "wf_heap h1 (owned s1 @ HBytes x # HMut b # R)" by (rule wf_heap_perm [OF _ x(2)]) simp
  have "length (HBytes x # HMut b # R) \<le> isize_max" using len by simp
  then obtain t h2 where t: "fin s1 h1 = Ok (t, h2)" "wf_heap h2 (kept t @ HBytes x # HMut b # R)" "quiet h1 h2"
    "length (kept t) \<le> length (owned s1)" using endsD [OF fin wf1] by blast
  note q = quiet_view [OF t(3)]
  have lens: "length (kept t @ R) < isize_max" "Suc (length (kept t @ R)) < isize_max"
    using t(4) len arity [of s s1] by simp_all
  have fr: "frame h h2 R" using x(4) q by (simp add: frame_def)
  have finish: ?thesis if r: "bm_put B to_bytes fin b s h = Some (Ok ((c, t), h3))" "wf_heap h3 (HMut c # kept t @ R)"
    "frame h2 h3 R" "view h3 (HMut c) = content h s" for c h3
    using r x(3,6) t(1) v frame_trans [OF fr r(3)] unfolding put_done_def by auto
  have wfx: "wf_heap h2 (HBytes x # HMut b # kept t @ R)" by (rule wf_heap_perm [OF _ t(2)]) simp
  note unique = bytes_is_unique_Ok [OF wfx]
  show ?thesis
  proof (cases "bs_data x \<noteq> 0 \<and> sole (HBytes x) (HMut b # kept t @ R)")
    case True
    have "alloc_ok h2 (bs_len x)" using needs n ne cap x(1) t(1) lx by (simp add: put_needs_def Let_def)
    then obtain m h3 where m: "bytes_into_mut x h2 = Ok (m, h3)" "wf_heap h3 (HMut m # HMut b # kept t @ R)"
      "frame h2 h3 (HMut b # kept t @ R)" "view h3 (HMut m) = view h2 (HBytes x)"
      using bytes_into_mut_Ok [OF wfx] lens by auto
    have "wf_heap h3 (HMut b # HMut m # kept t @ R)" by (rule wf_heap_perm [OF _ m(2)]) simp
    then obtain h4 where d: "bm_drop b h3 = Ok h4" "wf_heap h4 (HMut m # kept t @ R)" "quiet h3 h4"
      using bm_drop_Ok lens(2) by force
    have "frame h2 h4 R" using m(3) quiet_view [OF d(3)] by (simp add: frame_def)
    moreover have "bm_put B to_bytes fin b s h = Some (Ok ((m, t), h4))"
      using n x(1) t(1) unique True m(1) d(1) cap by (simp add: bm_put_def)
    ultimately show ?thesis using finish d(2) m(4) x(5) q quiet_view [OF d(3)] by simp
  next
    case False
    have wfb: "wf_heap h2 (HMut b # HBytes x # kept t @ R)" by (rule wf_heap_perm [OF _ wfx]) simp
    have "grow_ok h2 b (length (content h s))" using needs n ne cap x(1) t(1) by (simp add: put_needs_def Let_def)
    then obtain c h3 where c: "bm_extend_from_slice b (content h s) h2 = Ok (c, h3)"
      "wf_heap h3 (HMut c # HBytes x # kept t @ R)" "frame h2 h3 (HBytes x # kept t @ R)"
      "view h3 (HMut c) = view h2 (HMut b) @ content h s"
      using bm_extend_Ok [OF wfb, of "content h s"] lens(2) by (auto simp: grow_ok_def)
    have "wf_heap h3 (HBytes x # HMut c # kept t @ R)" by (rule wf_heap_perm [OF _ c(2)]) simp
    then obtain h4 where d: "bytes_drop x h3 = Ok h4" "wf_heap h4 (HMut c # kept t @ R)" "quiet h3 h4"
      using bytes_drop_Ok lens(2) by force
    have "frame h2 h4 R" using c(3) quiet_view [OF d(3)] by (simp add: frame_def)
    moreover have "bytes_as_slice x h2 = Ok (content h s)"
      using bytes_as_slice_Ok [OF wf_ConsD(2) [OF wfx]] q x(5) by simp
    then have "bm_put B to_bytes fin b s h = Some (Ok ((c, t), h4))"
      using n x(1) t(1) unique False c(1) d(1) cap by (simp add: bm_put_def)
    moreover have "view h2 (HMut b) = []" using q x(4) v by (simp add: frame_def)
    ultimately show ?thesis using finish d(2) c(4) quiet_view [OF d(3)] by simp
  qed
qed

text \<open>Every branch of \<open>put\<close>.\<close>

lemma put_Ok:
  assumes wf: "wf_heap h (HMut b # owned s @ R)" "ok h s" and len: "length (HMut b # owned s @ R) < isize_max"
    and fin: "ends owned fin kept" and needs: "put_needs B to_bytes fin needs b s h"
  shows "\<exists>c t h'. bm_put B to_bytes fin b s h = Some (Ok ((c, t), h')) \<and> put_done ok content fin kept b s h R c t h'"
proof -
  have wf': "wf_heap h (owned s @ HMut b # R)" by (rule wf_heap_perm [OF _ wf(1)]) simp
  note rem = reading(1) [OF wf' wf(2)]
  have lenR: "length (HMut b # R) \<le> isize_max" using len by simp
  consider "content h s = []" | "content h s \<noteq> []" "bm_cap b = 0" | "content h s \<noteq> []" "bm_cap b \<noteq> 0" by blast
  then show ?thesis
  proof cases
    case 1
    obtain t h' where t: "fin s h = Ok (t, h')" "wf_heap h' (kept t @ HMut b # R)" "quiet h h'"
      by (rule endsD [OF fin wf' lenR])
    have "wf_heap h' (HMut b # kept t @ R)" by (rule wf_heap_perm [OF _ t(2)]) simp
    then have "put_done ok content fin kept b s h R b t h'"
      using 1 wf(2) t(1) quiet_frame [OF t(3), of R] quiet_view [OF t(3)] unfolding put_done_def by auto
    moreover have "bm_put B to_bytes fin b s h = Some (Ok ((b, t), h'))"
      using 1 rem t(1) by (simp add: bm_put_def has_remaining_def)
    ultimately show ?thesis by blast
  next
    case 2
    then show ?thesis using put_take_over [OF wf len fin _ _ needs] by blast
  next
    case 3
    then have grow: "grow_ok h b (length (content h s))" and more: "has_remaining (B h) s"
      using needs rem by (simp_all add: put_needs_def Let_def has_remaining_def)
    have "length (owned s @ R) < isize_max" using len by simp
    then obtain c h1 where c: "bm_reserve b (length (content h s)) h = Ok (c, h1)" "wf_heap h1 (HMut c # owned s @ R)"
      "frame h h1 (owned s @ R)" "view h1 (HMut c) = view h (HMut b)" "length (content h s) \<le> bm_cap c - bm_len c"
      using bm_reserve_Ok [OF wf(1), of "length (content h s)"] grow by (auto simp: reserved_def grow_ok_def)
    have st: "content h1 s = content h s" "ok h1 s"
      using stable [of h h1 s] c(3) wf(2) by (simp_all add: frame_def)
    obtain d s1 h2 where d: "bm_put_loop B c s h1 = Some (Ok ((d, s1), h2))" "wf_heap h2 (HMut d # owned s1 @ R)"
      "ok h2 s1" "content h2 s1 = []" "frame h1 h2 R" "view h2 (HMut d) = view h1 (HMut c) @ content h s"
      using put_loop_Ok [OF c(2) st(2)] st(1) c(5) by auto
    have "wf_heap h2 (owned s1 @ HMut d # R)" by (rule wf_heap_perm [OF _ d(2)]) simp
    then obtain t h3 where t: "fin s1 h2 = Ok (t, h3)" "wf_heap h3 (kept t @ HMut d # R)" "quiet h2 h3"
      using endsD [OF fin] lenR by (metis length_Cons)
    have "wf_heap h3 (HMut d # kept t @ R)" by (rule wf_heap_perm [OF _ t(2)]) simp
    moreover have "frame h h1 R" using c(3) by (simp add: frame_def)
    then have "frame h h3 R" by (rule frame_trans [OF _ frame_trans [OF d(5) quiet_frame [OF t(3)]]])
    ultimately have "put_done ok content fin kept b s h R d t h3"
      using d(3,4,6) t(1) c(4) quiet_view [OF t(3)] unfolding put_done_def by auto
    moreover have "bm_put B to_bytes fin b s h = Some (Ok ((d, t), h3))"
      using more 3(2) c(1) d(1) t(1) rem by (simp add: bm_put_def)
    ultimately show ?thesis by blast
  qed
qed

end

subsection \<open>Contracts\<close>

text \<open>The pieces of a rope have no handles.\<close>

interpretation rope_src: heap_reader "\<lambda>_. rope_buf" "\<lambda>_. []" "\<lambda>_ ss. [] \<notin> set ss" "\<lambda>_. concat"
proof (intro heap_reader.intro, goal_cases)
  case (1 h R)
  show ?case using rope_core by (simp add: buf_required_def buf_core_def rope_buf_def)
qed simp_all

text \<open>C24: the provided \<open>copy_to_bytes\<close> makes a source of every lawful reader, however fragmented: it returns, the
  next \<open>n\<close> bytes are in a fresh handle, the source has the rest, no other handle notices; with too few bytes it
  panics. The implementation's own \<open>copy_to_bytes\<close>, to which the inner \<open>Take\<close> would forward, is never called.\<close>

theorem default_is_source:
  assumes "heap_reader B owned ok content"
  shows "heap_source B owned ok content (default_copy_to_bytes B any) alloc_needs"
proof (intro heap_source.intro assms heap_source_axioms.intro)
  show "\<exists>s' c h'. default_copy_to_bytes B any s n h = Some (Ok ((s', c), h')) \<and> wf_heap h' (HBytes c # owned s' @ R) \<and>
      ok h' s' \<and> frame h h' R \<and> view h' (HBytes c) = take n (content h s) \<and> content h' s' = drop n (content h s)"
    if "wf_heap h (owned s @ R)" "ok h s" "box_room h" "n \<le> length (content h s)" "alloc_needs s n h" for h s R n
    using heap_reader.default_to_bytes_Ok [OF assms that(1-4)] that(5) by (simp add: alloc_needs_def)
  show "default_copy_to_bytes B any s n h = Some Panic"
    if "wf_heap h (owned s @ R)" "ok h s" "length (content h s) < n" for h s R n
    by (rule heap_reader.default_to_bytes_Panic [OF assms that])
qed

theorem default_is_source_witness:
  "\<exists>s c h. default_copy_to_bytes (\<lambda>_. rope_buf) (\<lambda>_ _ _. None) [[1], [2, 3]] 2 demo_heap = Some (Ok ((s, c), h)) \<and>
     wf_heap h [HBytes c, HBytes demo_bytes] \<and> view h (HBytes c) = [1, 2] \<and> concat s = [3]"
  using heap_source.to_bytes_law [OF default_is_source [OF rope_src.heap_reader_axioms, where any = "\<lambda>_ _ _. None"], where h = demo_heap and
      s = "[[1], [2, 3]]" and R = "[HBytes demo_bytes]" and n = 2] demo_wf demo_room(2) demo_room(3) [of 2] isize_big [of 1]
  by (auto simp: alloc_needs_def)

text \<open>C25: \<open>Chain::copy_to_bytes\<close> makes a source of two sources: the bytes asked for come from one side, without a
  copy if that side needs none, or from both through a buffer of their own.\<close>

theorem chain_is_source:
  assumes "heap_source A oa oka ca ta na" "heap_source B ob okb cb tb nb"
  shows "heap_source (\<lambda>h. chain_buf (A h) (B h)) (\<lambda>c. oa (chain_a c) @ ob (chain_b c)) (chain_ok oka okb ca cb)
     (\<lambda>h. chain_content (ca h) (cb h)) (chain_copy_to_bytes A B ta tb) (chain_needs A na nb)"
  by (rule chain_sources.chain_source) (simp add: chain_sources_def assms)

theorem chain_is_source_witness:
  "\<exists>c x h. chain_copy_to_bytes bytes_at (\<lambda>_. slice_buf) (returning bytes_copy_to_bytes) (returning slice_copy_to_bytes)
       (Chain demo_bytes [5, 6]) 4 demo_heap = Some (Ok ((c, x), h)) \<and>
     wf_heap h [HBytes x, HBytes (chain_a c)] \<and> view h (HBytes x) = [2, 3, 4, 5] \<and> view h (HBytes (chain_a c)) @ chain_b c = [6]"
proof -
  let ?c = "Chain demo_bytes [5, 6 :: u8]"
  note src = chain_is_source [OF bytes_src.heap_source_axioms slice_src.heap_source_axioms]
  have "chain_needs bytes_at no_needs alloc_needs ?c 4 demo_heap"
    using demo_room(3) [of 4] by (simp add: chain_needs_def bytes_at_def alloc_needs_def)
  moreover have "chain_ok (\<lambda>_ _. True) (\<lambda>_ _. True) (\<lambda>h b. view h (HBytes b)) (\<lambda>_ s. s) demo_heap ?c"
    by (simp add: chain_ok_def usize_max_def)
  ultimately show ?thesis
    using heap_source.to_bytes_law [OF src, where h = demo_heap and s = ?c and R = "[]" and n = 4]
      demo_wf demo_room(2) isize_big [of 1] by (auto simp: chain_content_def)
qed

text \<open>C23: \<open>BytesMut::put\<close> returns for every source, borrowed or owned, and appends all its bytes: on the branch
  without a capacity that takes the source's allocation over, on the one that copies what is shared, and on the
  one that reserves and loops. The source has been drained, then dropped if \<open>put\<close> owned it, the old allocation
  of the receiver released, and no other handle notices.\<close>

theorem bm_put_spec:
  assumes "heap_source B owned ok content to_bytes needs" "wf_heap h (HMut b # owned s @ R)" "ok h s"
    "length (HMut b # owned s @ R) < isize_max" "ends owned fin kept" "put_needs B to_bytes fin needs b s h"
  shows "\<exists>c t h'. bm_put B to_bytes fin b s h = Some (Ok ((c, t), h')) \<and> wf_heap h' (HMut c # kept t @ R) \<and>
    frame h h' R \<and> view h' (HMut c) = view h (HMut b) @ content h s \<and>
    (\<exists>s1 h1 h2. ok h1 s1 \<and> content h1 s1 = [] \<and> fin s1 h1 = Ok (t, h2))"
  using heap_source.put_Ok [OF assms] by (simp add: put_done_def)

theorem bm_put_witness:
  "\<exists>c t h. bm_put (\<lambda>_. slice_buf) (returning slice_copy_to_bytes) ref_end demo_mut [7, 8] demo_heap = Some (Ok ((c, t), h)) \<and>
     wf_heap h [HMut c] \<and> view h (HMut c) = [2, 3, 7, 8] \<and> t = []"
proof -
  have "put_needs (\<lambda>_. slice_buf) (returning slice_copy_to_bytes) ref_end alloc_needs demo_mut [7, 8] demo_heap"
    using demo_room(3) [of 8] less_imp_le [OF isize_big [of 5]]
    by (simp add: put_needs_def grow_ok_def slice_buf_def)
  from bm_put_spec [OF slice_src.heap_source_axioms _ _ _ ends_simps(1) this, of "[]"] demo_mut_wf isize_big [of 1]
  show ?thesis by (auto simp: ref_end_def)
qed

end
