(* ===== verification/Buf_Mut.thy ===== *)
theory Buf_Mut
  imports Buf_Spec
begin

text \<open>
  \<open>src/bytes/buf_mut.rs\<close>, the writers of \<open>src/bytes/uninit_slice.rs\<close> and the \<open>BufMut\<close> half of
  \<open>src/bytes/chain.rs\<close>. As for \<open>Buf\<close>, an implementation is the record of its methods; \<open>write_chunk\<close> is
  what a caller does to the slice that \<open>chunk_mut\<close> returned, storing bytes at its start. The loops end
  only for implementations that make room: their result is \<open>None\<close> if they run for ever.
\<close>

record 'm buf_mut =
  remaining_mut :: "'m \<Rightarrow> nat res"
  chunk_mut :: "'m \<Rightarrow> ('m \<times> nat) res"
  write_chunk :: "'m \<Rightarrow> u8 list \<Rightarrow> 'm res"
  advance_mut :: "'m \<Rightarrow> nat \<Rightarrow> 'm res"

definition has_remaining_mut :: "'m buf_mut \<Rightarrow> 'm \<Rightarrow> bool res" where
  "has_remaining_mut M m = rbind (remaining_mut M m) (\<lambda>n. Ok (0 < n))"

subsection \<open>Provided methods\<close>

text \<open>One turn of both loops: take a chunk, store what fits of \<open>src\<close>, move the cursor.\<close>

definition put_step :: "'m buf_mut \<Rightarrow> 'm \<Rightarrow> u8 list \<Rightarrow> ('m \<times> nat) res" where
  "put_step M m src =
     rbind (chunk_mut M m) (\<lambda>(m, dst_len).
     let cnt = min (length src) dst_len in
     rbind (write_chunk M m (take cnt src)) (\<lambda>m.
     rbind (advance_mut M m cnt) (\<lambda>m. Ok (m, cnt))))"

partial_function (option) put_slice_loop :: "'m buf_mut \<Rightarrow> 'm \<Rightarrow> u8 list \<Rightarrow> 'm res option" where
  "put_slice_loop M m src =
     (if src = [] then Some (Ok m)
      else case put_step M m src of
             Ok r \<Rightarrow> put_slice_loop M (fst r) (drop (snd r) src)
           | Panic \<Rightarrow> Some Panic | Abort \<Rightarrow> Some Abort | UB \<Rightarrow> Some UB)"

definition default_put_slice :: "'m buf_mut \<Rightarrow> 'm \<Rightarrow> u8 list \<Rightarrow> 'm res option" where
  "default_put_slice M m src =
     (case remaining_mut M m of
        Ok n \<Rightarrow> if n < length src then Some Panic else put_slice_loop M m src
      | Panic \<Rightarrow> Some Panic | Abort \<Rightarrow> Some Abort | UB \<Rightarrow> Some UB)"

text \<open>One turn of \<open>put\<close>, whose source is any \<open>Buf\<close>.\<close>

definition put_buf_step :: "'m buf_mut \<Rightarrow> 'b buf \<Rightarrow> 'm \<Rightarrow> 'b \<Rightarrow> ('m \<times> 'b) res" where
  "put_buf_step M B m b =
     rbind (chunk_mut M m) (\<lambda>(m, dst_len).
     rbind (chunk B b) (\<lambda>s.
     let cnt = min (length s) dst_len in
     rbind (write_chunk M m (take cnt s)) (\<lambda>m.
     rbind (advance_mut M m cnt) (\<lambda>m.
     rbind (advance B b cnt) (\<lambda>b. Ok (m, b))))))"

partial_function (option) put_loop :: "'m buf_mut \<Rightarrow> 'b buf \<Rightarrow> 'm \<Rightarrow> 'b \<Rightarrow> ('m \<times> 'b) res option" where
  "put_loop M B m b =
     (if \<not> has_remaining B b then Some (Ok (m, b))
      else case put_buf_step M B m b of
             Ok r \<Rightarrow> put_loop M B (fst r) (snd r)
           | Panic \<Rightarrow> Some Panic | Abort \<Rightarrow> Some Abort | UB \<Rightarrow> Some UB)"

definition default_put :: "'m buf_mut \<Rightarrow> 'b buf \<Rightarrow> 'm \<Rightarrow> 'b \<Rightarrow> ('m \<times> 'b) res option" where
  "default_put M B m src =
     (case remaining_mut M m of
        Ok n \<Rightarrow> if n < remaining B src then Some Panic else put_loop M B m src
      | Panic \<Rightarrow> Some Panic | Abort \<Rightarrow> Some Abort | UB \<Rightarrow> Some UB)"

definition put_u8 :: "'m buf_mut \<Rightarrow> 'm \<Rightarrow> u8 \<Rightarrow> 'm res" where
  "put_u8 M m n =
     rbind (has_remaining_mut M m) (\<lambda>r.
     if \<not> r then Panic
     else rbind (chunk_mut M m) (\<lambda>(m, len).
          if len = 0 then Panic
          else rbind (write_chunk M m [n]) (\<lambda>m. advance_mut M m 1)))"

text \<open>The macro \<open>fn_put_int\<close>: \<open>put_slice\<close> of the bytes of the number.\<close>

definition put_int :: "('m \<Rightarrow> u8 list \<Rightarrow> 'm res option) \<Rightarrow> ('w \<Rightarrow> u8 list) \<Rightarrow> 'm \<Rightarrow> 'w \<Rightarrow> 'm res option" where
  "put_int put f m n = put m (f n)"

subsection \<open>Slices\<close>

text \<open>
  A \<open>&mut [u8]\<close>, \<open>&mut [MaybeUninit<u8>]\<close> or \<open>&mut UninitSlice\<close> as a cursor: the cells it has moved past,
  and those it still covers.
\<close>

record cursor =
  cur_done :: "u8 option list"
  cur_rest :: "u8 option list"

definition cursor_write :: "cursor \<Rightarrow> u8 list \<Rightarrow> cursor res" where
  "cursor_write c xs =
     (if length xs \<le> length (cur_rest c)
      then Ok (c\<lparr>cur_rest := map Some xs @ drop (length xs) (cur_rest c)\<rparr>) else Panic)"

text \<open>\<open>split_at_mut_unchecked\<close> is undefined behaviour past the end.\<close>

definition cursor_advance :: "cursor \<Rightarrow> nat \<Rightarrow> cursor res" where
  "cursor_advance c cnt =
     (if cnt \<le> length (cur_rest c)
      then Ok \<lparr>cur_done = cur_done c @ take cnt (cur_rest c), cur_rest = drop cnt (cur_rest c)\<rparr> else UB)"

definition cursor_buf_mut :: "cursor buf_mut" where
  "cursor_buf_mut = \<lparr>remaining_mut = (\<lambda>c. Ok (length (cur_rest c))),
     chunk_mut = (\<lambda>c. Ok (c, length (cur_rest c))), write_chunk = cursor_write, advance_mut = cursor_advance\<rparr>"

text \<open>The overriding \<open>put_slice\<close> of the slices: \<open>split_at_mut\<close>, then a copy.\<close>

definition cursor_put_slice :: "cursor \<Rightarrow> u8 list \<Rightarrow> cursor res" where
  "cursor_put_slice c src =
     (if length (cur_rest c) < length src then Panic
      else Ok \<lparr>cur_done = cur_done c @ map Some src, cur_rest = drop (length src) (cur_rest c)\<rparr>)"

text \<open>\<open>UninitSlice::copy_from_slice\<close>, of a whole slice.\<close>

definition uninit_copy_from_slice :: "u8 option list \<Rightarrow> u8 list \<Rightarrow> u8 option list res" where
  "uninit_copy_from_slice s src = rbind (rassert (length s = length src)) (\<lambda>_. Ok (map Some src))"

text \<open>
  The overriding \<open>put\<close> and \<open>put_slice\<close> of a \<open>Vec<u8>\<close> append; \<open>put\<close> takes chunk after chunk. A vector
  panics (capacity overflow) when it is to hold more than \<open>isize::MAX\<close> bytes.
\<close>

definition vec_put_slice :: "u8 list \<Rightarrow> u8 list \<Rightarrow> u8 list res" where
  "vec_put_slice v src = (if length v + length src \<le> isize_max then Ok (v @ src) else Panic)"

partial_function (option) vec_put_loop :: "'b buf \<Rightarrow> u8 list \<Rightarrow> 'b \<Rightarrow> (u8 list \<times> 'b) res option" where
  "vec_put_loop B v b =
     (if \<not> has_remaining B b then Some (Ok (v, b))
      else case rbind (chunk B b) (\<lambda>s.
                  rbind (vec_put_slice v s) (\<lambda>v.
                  rbind (advance B b (length s)) (\<lambda>b. Ok (v, b)))) of
             Ok r \<Rightarrow> vec_put_loop B (fst r) (snd r)
           | Panic \<Rightarrow> Some Panic | Abort \<Rightarrow> Some Abort | UB \<Rightarrow> Some UB)"

definition vec_put :: "'b buf \<Rightarrow> u8 list \<Rightarrow> 'b \<Rightarrow> (u8 list \<times> 'b) res option" where
  "vec_put B v src =
     (if length v + remaining B src \<le> isize_max then vec_put_loop B v src else Some Panic)"

subsection \<open>Chains of writers\<close>

definition chain_remaining_mut :: "'a buf_mut \<Rightarrow> 'b buf_mut \<Rightarrow> ('a, 'b) chain \<Rightarrow> nat res" where
  "chain_remaining_mut A B c =
     rbind (remaining_mut A (chain_a c)) (\<lambda>m.
     rbind (remaining_mut B (chain_b c)) (\<lambda>n. Ok (min (m + n) usize_max)))"

definition chain_chunk_mut :: "'a buf_mut \<Rightarrow> 'b buf_mut \<Rightarrow> ('a, 'b) chain \<Rightarrow> (('a, 'b) chain \<times> nat) res" where
  "chain_chunk_mut A B c =
     rbind (has_remaining_mut A (chain_a c)) (\<lambda>r.
     if r then rbind (chunk_mut A (chain_a c)) (\<lambda>(a, k). Ok (Chain a (chain_b c), k))
     else rbind (chunk_mut B (chain_b c)) (\<lambda>(b, k). Ok (Chain (chain_a c) b, k)))"

text \<open>The slice a write goes to is the one \<open>chunk_mut\<close> would return.\<close>

definition chain_write_chunk :: "'a buf_mut \<Rightarrow> 'b buf_mut \<Rightarrow> ('a, 'b) chain \<Rightarrow> u8 list \<Rightarrow> ('a, 'b) chain res" where
  "chain_write_chunk A B c xs =
     rbind (has_remaining_mut A (chain_a c)) (\<lambda>r.
     if r then rbind (write_chunk A (chain_a c) xs) (\<lambda>a. Ok (Chain a (chain_b c)))
     else rbind (write_chunk B (chain_b c) xs) (\<lambda>b. Ok (Chain (chain_a c) b)))"

definition chain_advance_mut :: "'a buf_mut \<Rightarrow> 'b buf_mut \<Rightarrow> ('a, 'b) chain \<Rightarrow> nat \<Rightarrow> ('a, 'b) chain res" where
  "chain_advance_mut A B c cnt =
     rbind (remaining_mut A (chain_a c)) (\<lambda>a_rem.
     rbind (advance_mut A (chain_a c) (min a_rem cnt)) (\<lambda>a.
     if a_rem \<le> cnt
     then rbind (advance_mut B (chain_b c) (cnt - a_rem)) (\<lambda>b. Ok (Chain a b))
     else Ok (Chain a (chain_b c))))"

definition chain_buf_mut :: "'a buf_mut \<Rightarrow> 'b buf_mut \<Rightarrow> ('a, 'b) chain buf_mut" where
  "chain_buf_mut A B = \<lparr>remaining_mut = chain_remaining_mut A B, chunk_mut = chain_chunk_mut A B,
     write_chunk = chain_write_chunk A B, advance_mut = chain_advance_mut A B\<rparr>"

subsection \<open>What a writer promises\<close>

text \<open>
  \<open>space m\<close> is the room left and \<open>written m\<close> the cells already passed. Bytes may be stored in the chunk,
  which changes neither, and advancing over some of them then appends those.
\<close>

definition takes :: "'m buf_mut \<Rightarrow> ('m \<Rightarrow> bool) \<Rightarrow> ('m \<Rightarrow> nat) \<Rightarrow> ('m \<Rightarrow> u8 option list) \<Rightarrow> 'm \<Rightarrow> nat \<Rightarrow> bool" where
  "takes M valid space written m k \<longleftrightarrow>
     (\<forall>xs. length xs \<le> k \<longrightarrow>
        (\<exists>m1. write_chunk M m xs = Ok m1 \<and> valid m1 \<and> space m1 = space m \<and> written m1 = written m \<and>
          (\<forall>n \<le> length xs. \<exists>m2. advance_mut M m1 n = Ok m2 \<and> valid m2 \<and> space m2 = space m - n \<and>
            written m2 = written m @ map Some (take n xs))))"

lemma takesE:
  assumes "takes M valid space written m k" "length xs \<le> k"
  obtains m1 where "write_chunk M m xs = Ok m1" "valid m1" "space m1 = space m" "written m1 = written m"
    "\<forall>n\<le>length xs. \<exists>m2. advance_mut M m1 n = Ok m2 \<and> valid m2 \<and> space m2 = space m - n \<and>
       written m2 = written m @ map Some (take n xs)"
  using assms unfolding takes_def by blast

lemma takesD:
  assumes "takes M valid space written m k" "length xs \<le> k"
  obtains m1 m2 where "write_chunk M m xs = Ok m1" "advance_mut M m1 (length xs) = Ok m2" "valid m2"
    "space m2 = space m - length xs" "written m2 = written m @ map Some xs"
  by (rule takesE [OF assms]) (use that in fastforce)

text \<open>A chunk is handed out, and is empty only when no room is left.\<close>

definition offers :: "'m buf_mut \<Rightarrow> ('m \<Rightarrow> bool) \<Rightarrow> ('m \<Rightarrow> nat) \<Rightarrow> ('m \<Rightarrow> u8 option list) \<Rightarrow> 'm \<Rightarrow> bool" where
  "offers M valid space written m \<longleftrightarrow>
     (\<exists>m' k. chunk_mut M m = Ok (m', k) \<and> valid m' \<and> space m' = space m \<and> written m' = written m \<and>
        k \<le> space m \<and> (k = 0 \<longleftrightarrow> space m = 0) \<and> takes M valid space written m' k)"

lemma offersE:
  assumes "offers M valid space written m"
  obtains m' k where "chunk_mut M m = Ok (m', k)" "k = 0 \<longleftrightarrow> space m = 0" "space m' = space m"
    "written m' = written m" "takes M valid space written m' k" "valid m'" "k \<le> space m"
  using assms unfolding offers_def by (elim exE conjE) (rule that)

text \<open>A writer may have to grow for a chunk; it is \<open>able\<close> to if the allocator lets it.\<close>

locale buf_mut_offer =
  fixes M :: "'m buf_mut" and valid :: "'m \<Rightarrow> bool" and space :: "'m \<Rightarrow> nat"
    and written :: "'m \<Rightarrow> u8 option list" and able :: "'m \<Rightarrow> bool"
  assumes remaining_law: "valid m \<Longrightarrow> remaining_mut M m = Ok (space m)"
    and offer_law: "valid m \<Longrightarrow> able m \<Longrightarrow> offers M valid space written m"
begin

lemma has_remaining_mut_Ok: "valid m \<Longrightarrow> has_remaining_mut M m = Ok (0 < space m)"
  by (simp add: has_remaining_mut_def remaining_law)

lemma put_step_Ok:
  assumes "valid m" "able m" "src \<noteq> []" "length src \<le> space m"
  shows "\<exists>m' n. put_step M m src = Ok (m', n) \<and> 0 < n \<and> n \<le> length src \<and> valid m' \<and>
    space m' = space m - n \<and> written m' = written m @ map Some (take n src)"
proof -
  obtain m1 k where m1: "chunk_mut M m = Ok (m1, k)" "k = 0 \<longleftrightarrow> space m = 0" "space m1 = space m"
    "written m1 = written m" "takes M valid space written m1 k"
    by (rule offersE [OF offer_law [OF assms(1,2)]])
  let ?n = "min (length src) k"
  have len: "length (take ?n src) = ?n" by simp
  have n: "0 < ?n" using m1(2) assms(3,4) by (cases src) auto
  have "length (take ?n src) \<le> k" by simp
  from m1(5) this obtain m2 m3 where "write_chunk M m1 (take ?n src) = Ok m2"
    "advance_mut M m2 (length (take ?n src)) = Ok m3" and
    m3: "valid m3" "space m3 = space m1 - length (take ?n src)" "written m3 = written m1 @ map Some (take ?n src)"
    by (rule takesD)
  with m1(1) have "put_step M m src = Ok (m3, ?n)" by (simp add: put_step_def Let_def)
  moreover have "space m3 = space m - ?n" using m3(2) m1(3) by simp
  moreover have "written m3 = written m @ map Some (take ?n src)" using m3(3) m1(4) by simp
  ultimately show ?thesis using n m3(1) min.cobounded1 by blast
qed

lemma put_u8_Ok:
  assumes "valid m" "able m"
  shows "if space m = 0 then put_u8 M m x = Panic
    else \<exists>m'. put_u8 M m x = Ok m' \<and> valid m' \<and> space m' = space m - 1 \<and> written m' = written m @ [Some x]"
proof (cases "space m = 0")
  case False
  obtain m1 k where m1: "chunk_mut M m = Ok (m1, k)" "k = 0 \<longleftrightarrow> space m = 0" "space m1 = space m"
    "written m1 = written m" "takes M valid space written m1 k"
    by (rule offersE [OF offer_law [OF assms]])
  have "length [x] \<le> k" using m1(2) False by simp
  with m1(5) obtain m2 m3 where "write_chunk M m1 [x] = Ok m2" "advance_mut M m2 (length [x]) = Ok m3"
    "valid m3" "space m3 = space m1 - length [x]" "written m3 = written m1 @ map Some [x]"
    by (rule takesD)
  then show ?thesis using m1 False has_remaining_mut_Ok [OF assms(1)] by (simp add: put_u8_def)
qed (simp add: put_u8_def has_remaining_mut_Ok [OF assms(1)])

end

text \<open>One that is always able, as those that do not grow are.\<close>

locale buf_mut_core =
  fixes M :: "'m buf_mut" and valid :: "'m \<Rightarrow> bool" and space :: "'m \<Rightarrow> nat"
    and written :: "'m \<Rightarrow> u8 option list"
  assumes remaining_law: "valid m \<Longrightarrow> remaining_mut M m = Ok (space m)"
    and chunk_law: "valid m \<Longrightarrow> offers M valid space written m"
    and advance_0_law: "valid m \<Longrightarrow> advance_mut M m 0 = Ok m"

sublocale buf_mut_core \<subseteq> able: buf_mut_offer M valid space written "\<lambda>_. True"
  by unfold_locales (auto intro: remaining_law chunk_law)

context buf_mut_core
begin

lemmas chunk_E = offersE [OF chunk_law]

lemma put_slice_loop_Ok:
  "valid m \<Longrightarrow> length src \<le> space m \<Longrightarrow>
   \<exists>m'. put_slice_loop M m src = Some (Ok m') \<and> valid m' \<and> space m' = space m - length src \<and>
     written m' = written m @ map Some src"
proof (induction "length src" arbitrary: m src rule: less_induct)
  case less
  show ?case
  proof (cases "src = []")
    case True
    then show ?thesis using less.prems by (simp add: put_slice_loop.simps)
  next
    case False
    obtain m1 n where m1: "put_step M m src = Ok (m1, n)" "0 < n" "n \<le> length src" "valid m1"
      "space m1 = space m - n" "written m1 = written m @ map Some (take n src)"
      using able.put_step_Ok [OF less.prems(1) TrueI False less.prems(2)] by blast
    have "length (drop n src) < length src" "length (drop n src) \<le> space m1"
      using m1(2,3,5) less.prems(2) by auto
    from less.hyps [OF this(1) m1(4) this(2)] obtain m2 where
      m2: "put_slice_loop M m1 (drop n src) = Some (Ok m2)" "valid m2"
        "space m2 = space m1 - length (drop n src)" "written m2 = written m1 @ map Some (drop n src)" by blast
    have "put_slice_loop M m src = Some (Ok m2)"
      using False m1(1) m2(1) by (simp add: put_slice_loop.simps [of M m src])
    moreover have "written m2 = written m @ map Some src"
      using m1(6) m2(4) by (simp add: map_append [symmetric] del: map_append)
    ultimately show ?thesis using m2(2,3) m1(3,5) by simp
  qed
qed

lemma default_put_slice_Ok:
  "valid m \<Longrightarrow>
   (if length src \<le> space m
    then \<exists>m'. default_put_slice M m src = Some (Ok m') \<and> valid m' \<and> space m' = space m - length src \<and>
           written m' = written m @ map Some src
    else default_put_slice M m src = Some Panic)"
  using put_slice_loop_Ok [of m src] by (auto simp: default_put_slice_def remaining_law)

end

subsection \<open>Draining a reader into a writer\<close>

locale put_pair = buf_mut_core M valid space written + buf_impl B inv content
  for M :: "'m buf_mut" and valid space written and B :: "'b buf" and inv content
begin

lemma put_buf_step_Ok:
  assumes "valid m" "inv b" "content b \<noteq> []" "length (content b) \<le> space m"
  shows "\<exists>m' b' n. put_buf_step M B m b = Ok (m', b') \<and> 0 < n \<and> n \<le> length (content b) \<and> valid m' \<and>
    space m' = space m - n \<and> written m' = written m @ map Some (take n (content b)) \<and>
    inv b' \<and> content b' = drop n (content b)"
proof -
  obtain m1 k where m1: "chunk_mut M m = Ok (m1, k)" "k = 0 \<longleftrightarrow> space m = 0" "space m1 = space m"
    "written m1 = written m" "takes M valid space written m1 k"
    by (rule chunk_E [OF assms(1)])
  obtain s where s: "chunk B b = Ok s" "prefix s (content b)" "s \<noteq> []"
    using buf_core_axioms assms(2,3) unfolding buf_core_def by blast
  let ?n = "min (length s) k"
  have len: "length (take ?n s) = ?n" by simp
  have "k \<noteq> 0" using m1(2) assms(3,4) by (cases "content b") auto
  then have n: "0 < ?n" "?n \<le> length (content b)" using s(2,3) prefix_length_le by (auto simp: min_le_iff_disj)
  have "length (take ?n s) \<le> k" by simp
  from m1(5) this obtain m2 m3 where "write_chunk M m1 (take ?n s) = Ok m2"
    "advance_mut M m2 (length (take ?n s)) = Ok m3" and
    m3: "valid m3" "space m3 = space m1 - length (take ?n s)" "written m3 = written m1 @ map Some (take ?n s)"
    by (rule takesD)
  moreover obtain b1 where "advance B b ?n = Ok b1" "inv b1" "content b1 = drop ?n (content b)"
    using buf_core.advance_law [OF buf_core_axioms assms(2) n(2)] by blast
  moreover have "take ?n s = take ?n (content b)" using s(2) by (auto simp: prefix_def)
  ultimately have "put_buf_step M B m b = Ok (m3, b1) \<and> 0 < ?n \<and> ?n \<le> length (content b) \<and> valid m3 \<and>
    space m3 = space m - ?n \<and> written m3 = written m @ map Some (take ?n (content b)) \<and>
    inv b1 \<and> content b1 = drop ?n (content b)"
    using n m1 s(1) len by (simp add: put_buf_step_def Let_def)
  then show ?thesis by blast
qed

lemma put_loop_Ok:
  "valid m \<Longrightarrow> inv b \<Longrightarrow> length (content b) \<le> space m \<Longrightarrow>
   \<exists>m' b'. put_loop M B m b = Some (Ok (m', b')) \<and> valid m' \<and> inv b' \<and> content b' = [] \<and>
     space m' = space m - length (content b) \<and> written m' = written m @ map Some (content b)"
proof (induction "length (content b)" arbitrary: m b rule: less_induct)
  case less
  have rem: "has_remaining B b \<longleftrightarrow> content b \<noteq> []"
    using buf_core.remaining_law [OF buf_core_axioms less.prems(2)] by (simp add: has_remaining_def)
  show ?case
  proof (cases "content b = []")
    case True
    then show ?thesis using less.prems rem by (simp add: put_loop.simps)
  next
    case False
    obtain m1 b1 n where st: "put_buf_step M B m b = Ok (m1, b1)" "0 < n" "n \<le> length (content b)" "valid m1"
      "space m1 = space m - n" "written m1 = written m @ map Some (take n (content b))"
      "inv b1" "content b1 = drop n (content b)"
      using put_buf_step_Ok [OF less.prems(1,2) False less.prems(3)] by blast
    have "length (content b1) < length (content b)" "length (content b1) \<le> space m1"
      using st(2,3,5,8) less.prems(3) by auto
    from less.hyps [OF this(1) st(4,7) this(2)] obtain m2 b2 where
      m2: "put_loop M B m1 b1 = Some (Ok (m2, b2))" "valid m2" "inv b2" "content b2 = []"
        "space m2 = space m1 - length (content b1)" "written m2 = written m1 @ map Some (content b1)" by blast
    have "put_loop M B m b = Some (Ok (m2, b2))"
      using False rem st(1) m2(1) by (simp add: put_loop.simps [of M B m b])
    moreover have "written m2 = written m @ map Some (content b)"
      using st(6,8) m2(6) by (simp add: map_append [symmetric] del: map_append)
    ultimately show ?thesis using m2(2-5) st(3,5,8) by simp
  qed
qed

lemma default_put_Ok:
  "valid m \<Longrightarrow> inv b \<Longrightarrow>
   (if length (content b) \<le> space m
    then \<exists>m' b'. default_put M B m b = Some (Ok (m', b')) \<and> valid m' \<and> inv b' \<and> content b' = [] \<and>
           space m' = space m - length (content b) \<and> written m' = written m @ map Some (content b)
    else default_put M B m b = Some Panic)"
  using put_loop_Ok [of m b] buf_core.remaining_law [OF buf_core_axioms, of b]
  by (auto simp: default_put_def buf_mut_core.remaining_law [OF buf_mut_core_axioms])

end

context buf_impl
begin

lemma vec_put_loop_Ok:
  "inv b \<Longrightarrow> length v + length (content b) \<le> isize_max \<Longrightarrow>
   \<exists>b'. vec_put_loop B v b = Some (Ok (v @ content b, b')) \<and> inv b' \<and> content b' = []"
proof (induction "length (content b)" arbitrary: v b rule: less_induct)
  case less
  have rem: "has_remaining B b \<longleftrightarrow> content b \<noteq> []"
    using remaining_law [OF less.prems(1)] by (simp add: has_remaining_def)
  show ?case
  proof (cases "content b = []")
    case True
    then show ?thesis using less.prems rem by (simp add: vec_put_loop.simps)
  next
    case False
    obtain s where s: "chunk B b = Ok s" "prefix s (content b)" "s \<noteq> []"
      using chunk_law [OF less.prems(1)] False by blast
    then obtain r where r: "content b = s @ r" by (auto simp: prefix_def)
    then have "length s \<le> length (content b)" by simp
    from advance_law [OF less.prems(1) this] r obtain b1 where
      b1: "advance B b (length s) = Ok b1" "inv b1" "content b1 = r" by auto
    have "length (content b1) < length (content b)" "length (v @ s) + length (content b1) \<le> isize_max"
      using b1(3) r s(3) less.prems(2) by simp_all
    from less.hyps [OF this(1) b1(2) this(2)] show ?thesis
      using False rem s(1) b1(1,3) r less.prems(2)
      by (simp add: vec_put_loop.simps [of B v b] vec_put_slice_def)
  qed
qed

lemma vec_put_Ok:
  "inv b \<Longrightarrow>
   (if length v + length (content b) \<le> isize_max
    then \<exists>b'. vec_put B v b = Some (Ok (v @ content b, b')) \<and> inv b' \<and> content b' = []
    else vec_put B v b = Some Panic)"
  using vec_put_loop_Ok [of b v] remaining_law [of b] by (simp add: vec_put_def)

end

subsection \<open>Slices and chains of them\<close>

lemma buf_mut_core_cursor: "buf_mut_core cursor_buf_mut (\<lambda>_. True) (\<lambda>c. length (cur_rest c)) cur_done"
  by unfold_locales
    (auto simp: cursor_buf_mut_def cursor_write_def cursor_advance_def offers_def takes_def take_map)

interpretation cm: buf_mut_core cursor_buf_mut "\<lambda>_. True" "\<lambda>c. length (cur_rest c)" cur_done
  by (rule buf_mut_core_cursor)

interpretation cpb: put_pair cursor_buf_mut "\<lambda>_. True" "\<lambda>c. length (cur_rest c)" cur_done
  bytes_buf "bytes_inv R" bytes_content for R
  by (intro put_pair.intro buf_mut_core_cursor bb.buf_impl_axioms)

text \<open>The overriding \<open>put_slice\<close> of a slice does what the provided one does, on every input.\<close>

lemma cursor_put_slice_eq: "default_put_slice cursor_buf_mut c src = Some (cursor_put_slice c src)"
proof (cases "src = [] \<or> length (cur_rest c) < length src")
  case True
  then show ?thesis
    by (auto simp: default_put_slice_def cursor_put_slice_def put_slice_loop.simps cursor_buf_mut_def)
next
  case False
  then have "put_step cursor_buf_mut c src =
      Ok (\<lparr>cur_done = cur_done c @ map Some src, cur_rest = drop (length src) (cur_rest c)\<rparr>, length src)"
    by (simp add: put_step_def cursor_buf_mut_def cursor_write_def cursor_advance_def Let_def min_def)
  then have "put_slice_loop cursor_buf_mut c src = Some (cursor_put_slice c src)"
    using False by (simp add: put_slice_loop.simps [of _ c] put_slice_loop.simps [of _ _ "[]"] cursor_put_slice_def)
  then show ?thesis using False cm.remaining_law [of c] by (simp add: default_put_slice_def)
qed

definition chain_valid ::
  "('a \<Rightarrow> bool) \<Rightarrow> ('a \<Rightarrow> nat) \<Rightarrow> ('b \<Rightarrow> bool) \<Rightarrow> ('b \<Rightarrow> nat) \<Rightarrow> ('b \<Rightarrow> u8 option list) \<Rightarrow> ('a, 'b) chain \<Rightarrow> bool" where
  "chain_valid va sa vb sb wb c \<longleftrightarrow> va (chain_a c) \<and> vb (chain_b c) \<and>
     sa (chain_a c) + sb (chain_b c) \<le> usize_max \<and> (sa (chain_a c) = 0 \<or> wb (chain_b c) = [])"

locale chain_writers = a: buf_mut_core A va sa wa + b: buf_mut_core B vb sb wb
  for A :: "'a buf_mut" and va sa wa and B :: "'b buf_mut" and vb sb wb
begin

abbreviation chain_ok :: "('a, 'b) chain \<Rightarrow> bool" where
  "chain_ok \<equiv> chain_valid va sa vb sb wb"

abbreviation chain_space :: "('a, 'b) chain \<Rightarrow> nat" where
  "chain_space c \<equiv> sa (chain_a c) + sb (chain_b c)"

abbreviation chain_written :: "('a, 'b) chain \<Rightarrow> u8 option list" where
  "chain_written c \<equiv> wa (chain_a c) @ wb (chain_b c)"

lemma takes_first:
  assumes ok: "chain_ok (Chain a b)" and "0 < sa a" and t: "takes A va sa wa a k" and k: "k \<le> sa a"
  shows "takes (chain_buf_mut A B) chain_ok chain_space chain_written (Chain a b) k"
  unfolding takes_def
proof (intro allI impI)
  fix xs :: "u8 list"
  assume len: "length xs \<le> k"
  obtain m1 where m: "write_chunk A a xs = Ok m1" "va m1" "sa m1 = sa a" "wa m1 = wa a"
    and adv: "\<forall>n\<le>length xs. \<exists>m2. advance_mut A m1 n = Ok m2 \<and> va m2 \<and> sa m2 = sa a - n \<and>
      wa m2 = wa a @ map Some (take n xs)" using t len by (rule takesE)
  have v: "va a" "vb b" "sa a + sb b \<le> usize_max" "wb b = []"
    using ok assms(2) by (auto simp: chain_valid_def)
  have "\<exists>m2. advance_mut (chain_buf_mut A B) (Chain m1 b) n = Ok m2 \<and> chain_ok m2 \<and>
      chain_space m2 = chain_space (Chain a b) - n \<and> chain_written m2 = chain_written (Chain a b) @ map Some (take n xs)"
    if n: "n \<le> length xs" for n
  proof -
    obtain m2 where m2: "advance_mut A m1 n = Ok m2" "va m2" "sa m2 = sa a - n" "wa m2 = wa a @ map Some (take n xs)"
      using adv n by blast
    have "n \<le> sa a" using n len k by simp
    then have "chain_advance_mut A B (Chain m1 b) n = Ok (Chain m2 b)"
      using m2(1) m(3) a.remaining_law [OF m(2)] b.advance_0_law [OF v(2)] by (simp add: chain_advance_mut_def)
    then show ?thesis using m2 v \<open>n \<le> sa a\<close> by (simp add: chain_buf_mut_def chain_valid_def)
  qed
  moreover have "chain_write_chunk A B (Chain a b) xs = Ok (Chain m1 b)"
    using m(1) a.able.has_remaining_mut_Ok [OF v(1)] assms(2) by (simp add: chain_write_chunk_def)
  ultimately show "\<exists>m1. write_chunk (chain_buf_mut A B) (Chain a b) xs = Ok m1 \<and> chain_ok m1 \<and>
      chain_space m1 = chain_space (Chain a b) \<and> chain_written m1 = chain_written (Chain a b) \<and>
      (\<forall>n\<le>length xs. \<exists>m2. advance_mut (chain_buf_mut A B) m1 n = Ok m2 \<and> chain_ok m2 \<and>
        chain_space m2 = chain_space (Chain a b) - n \<and>
        chain_written m2 = chain_written (Chain a b) @ map Some (take n xs))"
    using m v by (intro exI [of _ "Chain m1 b"]) (simp add: chain_buf_mut_def chain_valid_def)
qed

lemma takes_second:
  assumes ok: "chain_ok (Chain a b)" and "sa a = 0" and t: "takes B vb sb wb b k"
  shows "takes (chain_buf_mut A B) chain_ok chain_space chain_written (Chain a b) k"
  unfolding takes_def
proof (intro allI impI)
  fix xs :: "u8 list"
  assume len: "length xs \<le> k"
  obtain m1 where m: "write_chunk B b xs = Ok m1" "vb m1" "sb m1 = sb b" "wb m1 = wb b"
    and adv: "\<forall>n\<le>length xs. \<exists>m2. advance_mut B m1 n = Ok m2 \<and> vb m2 \<and> sb m2 = sb b - n \<and>
      wb m2 = wb b @ map Some (take n xs)" using t len by (rule takesE)
  have v: "va a" "vb b" "sb b \<le> usize_max" using ok by (auto simp: chain_valid_def)
  have "\<exists>m2. advance_mut (chain_buf_mut A B) (Chain a m1) n = Ok m2 \<and> chain_ok m2 \<and>
      chain_space m2 = chain_space (Chain a b) - n \<and> chain_written m2 = chain_written (Chain a b) @ map Some (take n xs)"
    if n: "n \<le> length xs" for n
  proof -
    obtain m2 where m2: "advance_mut B m1 n = Ok m2" "vb m2" "sb m2 = sb b - n" "wb m2 = wb b @ map Some (take n xs)"
      using adv n by blast
    have "chain_advance_mut A B (Chain a m1) n = Ok (Chain a m2)"
      using m2(1) a.remaining_law [OF v(1)] a.advance_0_law [OF v(1)] assms(2) by (simp add: chain_advance_mut_def)
    then show ?thesis using m2 v assms(2) by (simp add: chain_buf_mut_def chain_valid_def)
  qed
  moreover have "chain_write_chunk A B (Chain a b) xs = Ok (Chain a m1)"
    using m(1) a.able.has_remaining_mut_Ok [OF v(1)] assms(2) by (simp add: chain_write_chunk_def)
  ultimately show "\<exists>m1. write_chunk (chain_buf_mut A B) (Chain a b) xs = Ok m1 \<and> chain_ok m1 \<and>
      chain_space m1 = chain_space (Chain a b) \<and> chain_written m1 = chain_written (Chain a b) \<and>
      (\<forall>n\<le>length xs. \<exists>m2. advance_mut (chain_buf_mut A B) m1 n = Ok m2 \<and> chain_ok m2 \<and>
        chain_space m2 = chain_space (Chain a b) - n \<and>
        chain_written m2 = chain_written (Chain a b) @ map Some (take n xs))"
    using m v assms(2) by (intro exI [of _ "Chain a m1"]) (simp add: chain_buf_mut_def chain_valid_def)
qed

lemma chain_chunk_law:
  assumes ok: "chain_ok c"
  shows "offers (chain_buf_mut A B) chain_ok chain_space chain_written c"
proof -
  obtain a b where c: "c = Chain a b" by (cases c)
  have v: "va a" "vb b" "sa a + sb b \<le> usize_max" "sa a = 0 \<or> wb b = []"
    using ok by (auto simp: chain_valid_def c)
  show ?thesis
  proof (cases "sa a = 0")
    case True
    obtain b' k where b': "chunk_mut B b = Ok (b', k)" "k = 0 \<longleftrightarrow> sb b = 0" "sb b' = sb b" "wb b' = wb b"
      "takes B vb sb wb b' k" "vb b'" "k \<le> sb b" by (rule b.chunk_E [OF v(2)])
    have ok': "chain_ok (Chain a b')" using v b' by (simp add: chain_valid_def)
    moreover have "chunk_mut (chain_buf_mut A B) c = Ok (Chain a b', k)"
      using True b'(1) a.able.has_remaining_mut_Ok [OF v(1)] by (simp add: c chain_buf_mut_def chain_chunk_mut_def)
    ultimately show ?thesis using True b' takes_second [OF ok' True b'(5)] unfolding offers_def
      by (intro exI [of _ "Chain a b'"] exI [of _ k]) (simp add: c)
  next
    case False
    obtain a' k where a': "chunk_mut A a = Ok (a', k)" "k = 0 \<longleftrightarrow> sa a = 0" "sa a' = sa a" "wa a' = wa a"
      "takes A va sa wa a' k" "va a'" "k \<le> sa a" by (rule a.chunk_E [OF v(1)])
    have ok': "chain_ok (Chain a' b)" using v a' by (simp add: chain_valid_def)
    moreover have "chunk_mut (chain_buf_mut A B) c = Ok (Chain a' b, k)"
      using False a'(1) a.able.has_remaining_mut_Ok [OF v(1)] by (simp add: c chain_buf_mut_def chain_chunk_mut_def)
    moreover have "takes (chain_buf_mut A B) chain_ok chain_space chain_written (Chain a' b) k"
      using takes_first [OF ok' _ a'(5)] a'(3,7) False by simp
    ultimately show ?thesis using False a' unfolding offers_def
      by (intro exI [of _ "Chain a' b"] exI [of _ k]) (simp add: c)
  qed
qed

lemma chain_core: "buf_mut_core (chain_buf_mut A B) (chain_valid va sa vb sb wb)
  (\<lambda>c. sa (chain_a c) + sb (chain_b c)) (\<lambda>c. wa (chain_a c) @ wb (chain_b c))"
proof (unfold_locales, goal_cases)
  case (1 c)
  then show ?case using a.remaining_law [of "chain_a c"] b.remaining_law [of "chain_b c"]
    by (simp add: chain_valid_def chain_buf_mut_def chain_remaining_mut_def)
next
  case (2 c)
  then show ?case by (rule chain_chunk_law)
next
  case (3 c)
  then show ?case using a.remaining_law [of "chain_a c"] a.advance_0_law [of "chain_a c"] b.advance_0_law [of "chain_b c"]
    by (cases c) (auto simp: chain_valid_def chain_buf_mut_def chain_advance_mut_def)
qed

sublocale ch: buf_mut_core "chain_buf_mut A B" "chain_valid va sa vb sb wb"
  "\<lambda>c. sa (chain_a c) + sb (chain_b c)" "\<lambda>c. wa (chain_a c) @ wb (chain_b c)"
  by (rule chain_core)

end

interpretation cc: chain_writers cursor_buf_mut "\<lambda>_. True" "\<lambda>c. length (cur_rest c)" cur_done
  cursor_buf_mut "\<lambda>_. True" "\<lambda>c. length (cur_rest c)" cur_done
  by (intro chain_writers.intro buf_mut_core_cursor)

subsection \<open>Contracts\<close>

text \<open>the provided \<open>put_slice\<close> returns for every writer that keeps the contract, however small its
  chunks: it appends exactly the bytes of the slice, or panics if there is not room for all of them, and
  leaves the writer lawful.\<close>

theorem put_slice_total:
  assumes "buf_mut_core M valid space written" "valid m"
  shows "if length src \<le> space m
    then \<exists>m'. default_put_slice M m src = Some (Ok m') \<and> valid m' \<and> space m' = space m - length src \<and>
           written m' = written m @ map Some src
    else default_put_slice M m src = Some Panic"
  by (rule buf_mut_core.default_put_slice_Ok [OF assms])

definition two_cursors :: "(cursor, cursor) chain" where
  "two_cursors = Chain \<lparr>cur_done = [], cur_rest = [None, None]\<rparr> \<lparr>cur_done = [], cur_rest = [None, Some 7, None]\<rparr>"

lemma two_cursors_valid:
  "chain_valid (\<lambda>_. True) (\<lambda>c. length (cur_rest c)) (\<lambda>_. True) (\<lambda>c. length (cur_rest c)) cur_done two_cursors"
  by (simp add: chain_valid_def two_cursors_def usize_max_def)

theorem put_slice_witness:
  "\<exists>c. default_put_slice (chain_buf_mut cursor_buf_mut cursor_buf_mut) two_cursors [1, 2, 3] = Some (Ok c) \<and>
    cur_done (chain_a c) @ cur_done (chain_b c) = [Some 1, Some 2, Some 3]"
  using put_slice_total [OF cc.ch.buf_mut_core_axioms two_cursors_valid, of "[1, 2, 3]"]
  by (auto simp: two_cursors_def)

text \<open>C31: the provided \<open>put\<close> drains any lawful \<open>Buf\<close> into any lawful \<open>BufMut\<close>: it returns, whatever the
  two chunk sizes are, the reader is empty, and the writer got its bytes in order; it panics if they do
  not fit.\<close>

theorem put_total:
  assumes "buf_mut_core M valid space written" "buf_impl B I content" "valid m" "I b"
  shows "if length (content b) \<le> space m
    then \<exists>m' b'. default_put M B m b = Some (Ok (m', b')) \<and> valid m' \<and> I b' \<and> content b' = [] \<and>
           space m' = space m - length (content b) \<and> written m' = written m @ map Some (content b)
    else default_put M B m b = Some Panic"
  using put_pair.default_put_Ok [OF put_pair.intro [OF assms(1,2)] assms(3,4)] .

theorem put_witness:
  "\<exists>m b. default_put (chain_buf_mut cursor_buf_mut cursor_buf_mut) (chain_buf slice_buf slice_buf) two_cursors
      (Chain [1] [2, 3]) = Some (Ok (m, b)) \<and>
    cur_done (chain_a m) @ cur_done (chain_b m) = [Some 1, Some 2, Some 3]"
  using put_total [OF cc.ch.buf_mut_core_axioms css.chain_impl two_cursors_valid, of "Chain [1] [2, 3]"]
  by (auto simp: two_cursors_def chain_inv_def chain_content_def usize_max_def)

text \<open>C35: a chain of lawful writers is a lawful writer: the first is filled before the second is touched, and
  the room is the sum.\<close>

theorem chain_is_buf_mut:
  assumes "buf_mut_core A va sa wa" "buf_mut_core B vb sb wb"
  shows "buf_mut_core (chain_buf_mut A B) (chain_valid va sa vb sb wb)
    (\<lambda>c. sa (chain_a c) + sb (chain_b c)) (\<lambda>c. wa (chain_a c) @ wb (chain_b c))"
  by (rule chain_writers.chain_core [OF chain_writers.intro [OF assms]])

theorem chain_is_buf_mut_witness:
  "buf_mut_core (chain_buf_mut cursor_buf_mut cursor_buf_mut)
    (chain_valid (\<lambda>_. True) (\<lambda>c. length (cur_rest c)) (\<lambda>_. True) (\<lambda>c. length (cur_rest c)) cur_done)
    (\<lambda>c. length (cur_rest (chain_a c)) + length (cur_rest (chain_b c)))
    (\<lambda>c. cur_done (chain_a c) @ cur_done (chain_b c))"
  by (rule chain_is_buf_mut [OF buf_mut_core_cursor buf_mut_core_cursor])



end
