(* ===== verification/Uninit_Slice.thy ===== *)
theory Uninit_Slice
  imports Buf_Mut Bytes_Spec
begin

text \<open>
  \<open>src/bytes/uninit_slice.rs\<close>: an \<open>UninitSlice\<close> reference is a pointer and a length, over memory that may be
  uninitialised. As a \<open>BufMut\<close> it moves over the memory it was made of; the contract below is that it does what
  the cursor of the other writers does, and touches nothing else.
\<close>

record uninit =
  us_ptr :: ptr
  us_len :: nat

text \<open>\<open>UninitSlice::new\<close> and \<open>from_uninit\<close> reinterpret a slice, \<open>from_raw_parts_mut\<close> makes one first.\<close>

definition us_new :: "uninit \<Rightarrow> uninit" where
  "us_new bytes = bytes"

definition us_from_uninit :: "uninit \<Rightarrow> uninit" where
  "us_from_uninit bytes = bytes"

definition us_from_raw_parts_mut :: "ptr \<Rightarrow> nat \<Rightarrow> heap \<Rightarrow> uninit res" where
  "us_from_raw_parts_mut p len h =
     (if writable h p len then Ok (us_from_uninit \<lparr>us_ptr = p, us_len = len\<rparr>) else UB)"

definition us_is_empty :: "uninit \<Rightarrow> bool" where
  "us_is_empty s \<longleftrightarrow> us_len s = 0"

definition us_as_mut_ptr :: "uninit \<Rightarrow> ptr" where
  "us_as_mut_ptr s = us_ptr s"

definition us_copy_from_slice :: "uninit \<Rightarrow> u8 list \<Rightarrow> heap \<Rightarrow> heap res" where
  "us_copy_from_slice s src h = rbind (rassert (us_len s = length src)) (\<lambda>_. copy_from h src (us_as_mut_ptr s))"

definition us_as_uninit_slice_mut :: "uninit \<Rightarrow> uninit" where
  "us_as_uninit_slice_mut s = s"

text \<open>\<open>split_at_mut_unchecked\<close> of a slice, and \<open>split_at_mut\<close>, which checks.\<close>

definition us_split_unchecked :: "uninit \<Rightarrow> nat \<Rightarrow> heap \<Rightarrow> (uninit \<times> uninit) res" where
  "us_split_unchecked s n h =
     (if n \<le> us_len s
      then rbind (ptr_add h (us_ptr s) n) (\<lambda>p. Ok (\<lparr>us_ptr = us_ptr s, us_len = n\<rparr>, \<lparr>us_ptr = p, us_len = us_len s - n\<rparr>))
      else UB)"

definition us_split :: "uninit \<Rightarrow> nat \<Rightarrow> heap \<Rightarrow> (uninit \<times> uninit) res" where
  "us_split s n h = rbind (rassert (n \<le> us_len s)) (\<lambda>_. us_split_unchecked s n h)"

subsection \<open>\<open>BufMut for &mut UninitSlice\<close>\<close>

definition us_advance_mut :: "uninit \<Rightarrow> nat \<Rightarrow> heap \<Rightarrow> uninit res" where
  "us_advance_mut s cnt h =
     rbind (us_split_unchecked (us_as_uninit_slice_mut s) cnt h) (\<lambda>(_, b). Ok (us_from_uninit b))"

definition us_put_slice :: "uninit \<Rightarrow> u8 list \<Rightarrow> heap \<Rightarrow> (uninit \<times> heap) res" where
  "us_put_slice s src h =
     rbind (us_split (us_as_uninit_slice_mut s) (length src) h) (\<lambda>(a, b).
     rbind (copy_from h src (us_as_mut_ptr a)) (\<lambda>h. Ok (us_from_uninit b, h)))"

text \<open>The state has the heap; bytes go to the start of the slice.\<close>

definition us_buf_mut :: "(uninit \<times> heap) buf_mut" where
  "us_buf_mut = \<lparr>remaining_mut = (\<lambda>(s, h). Ok (us_len s)), chunk_mut = (\<lambda>(s, h). Ok ((s, h), us_len s)),
     write_chunk = (\<lambda>(s, h) xs. rbind (rassert (length xs \<le> us_len s)) (\<lambda>_.
       rbind (copy_from h xs (us_as_mut_ptr s)) (\<lambda>h. Ok (s, h)))),
     advance_mut = (\<lambda>(s, h) n. rbind (us_advance_mut s n h) (\<lambda>s. Ok (s, h)))\<rparr>"

subsection \<open>Indexing\<close>

datatype us_range = Range nat nat | RangeFrom nat | RangeFull | RangeInclusive nat nat | RangeTo nat | RangeToInclusive nat

text \<open>The half-open range that slice indexing makes of each, unless it panics.\<close>

definition checked_range :: "nat \<Rightarrow> nat \<Rightarrow> nat \<Rightarrow> (nat \<times> nat) option" where
  "checked_range a b len = (if a \<le> b \<and> b \<le> len then Some (a, b) else None)"

fun range_of :: "us_range \<Rightarrow> nat \<Rightarrow> (nat \<times> nat) option" where
  "range_of (Range a b) len = checked_range a b len"
| "range_of (RangeFrom a) len = checked_range a len len"
| "range_of RangeFull len = Some (0, len)"
| "range_of (RangeInclusive a b) len = (if b = usize_max then None else checked_range a (b + 1) len)"
| "range_of (RangeTo b) len = checked_range 0 b len"
| "range_of (RangeToInclusive b) len = (if b = usize_max then None else checked_range 0 (b + 1) len)"

definition us_index :: "uninit \<Rightarrow> us_range \<Rightarrow> heap \<Rightarrow> uninit res" where
  "us_index s r h =
     (case range_of r (us_len s) of
        None \<Rightarrow> Panic
      | Some (lo, hi) \<Rightarrow> rbind (ptr_add h (us_ptr s) lo) (\<lambda>p. Ok (us_from_uninit \<lparr>us_ptr = p, us_len = hi - lo\<rparr>)))"

text \<open>The indices a range means.\<close>

fun in_range :: "us_range \<Rightarrow> nat \<Rightarrow> bool" where
  "in_range (Range a b) i \<longleftrightarrow> a \<le> i \<and> i < b"
| "in_range (RangeFrom a) i \<longleftrightarrow> a \<le> i"
| "in_range RangeFull i \<longleftrightarrow> True"
| "in_range (RangeInclusive a b) i \<longleftrightarrow> a \<le> i \<and> i \<le> b"
| "in_range (RangeTo b) i \<longleftrightarrow> i < b"
| "in_range (RangeToInclusive b) i \<longleftrightarrow> i \<le> b"

lemma range_of_Some:
  "range_of r len = Some (lo, hi) \<Longrightarrow> lo \<le> hi \<and> hi \<le> len \<and> (\<forall>i<len. lo \<le> i \<and> i < hi \<longleftrightarrow> in_range r i)"
  by (cases r) (auto simp: checked_range_def split: if_splits)

subsection \<open>The slice as a writer\<close>

text \<open>Writable memory, and a heap that differs from \<open>h0\<close> in nothing else.\<close>

definition region :: "heap \<Rightarrow> ptr \<Rightarrow> nat \<Rightarrow> bool" where
  "region h p n \<longleftrightarrow> blk_ok h (ptr_blk p) \<and> \<not> blk_static (hp_blocks h ! ptr_blk p) \<and>
     ptr_off p + n \<le> blk_size h (ptr_blk p)"

definition outside_same :: "ptr \<Rightarrow> nat \<Rightarrow> heap \<Rightarrow> heap \<Rightarrow> bool" where
  "outside_same p n h0 h \<longleftrightarrow>
     (\<forall>q m. ptr_blk q \<noteq> ptr_blk p \<or> ptr_off q + m \<le> ptr_off p \<or> ptr_off p + n \<le> ptr_off q \<longrightarrow> cells h q m = cells h0 q m)"

definition us_valid :: "heap \<Rightarrow> ptr \<Rightarrow> nat \<Rightarrow> uninit \<times> heap \<Rightarrow> bool" where
  "us_valid h0 p n m \<longleftrightarrow> region (snd m) p n \<and> outside_same p n h0 (snd m) \<and> us_len (fst m) \<le> n \<and>
     us_ptr (fst m) = Ptr (ptr_blk p) (ptr_off p + (n - us_len (fst m)))"

definition us_written :: "ptr \<Rightarrow> nat \<Rightarrow> uninit \<times> heap \<Rightarrow> u8 option list" where
  "us_written p n m = cells (snd m) p (n - us_len (fst m))"

lemma region_readable:
  assumes "region h p n" "ptr_blk q = ptr_blk p" "ptr_off q = ptr_off p + d" "d + k \<le> n"
  shows "readable h q k"
proof -
  have "ptr_off p + (d + k) \<le> blk_size h (ptr_blk p)" using assms(1,4) by (simp add: region_def)
  then show ?thesis using assms(1-3) by (simp add: region_def readable_def add.assoc)
qed

lemma us_takes:
  assumes v: "us_valid h0 p n (s, h)"
  shows "takes us_buf_mut (us_valid h0 p n) (\<lambda>m. us_len (fst m)) (us_written p n) (s, h) (us_len s)"
  unfolding takes_def
proof (intro allI impI)
  fix xs :: "u8 list"
  assume len: "length xs \<le> us_len s"
  let ?q = "us_ptr s" and ?h = "store_cells h (us_ptr s) (map Some xs)" and ?d = "n - us_len s"
  have s: "region h p n" "outside_same p n h0 h" "us_len s \<le> n" "?q = Ptr (ptr_blk p) (ptr_off p + ?d)"
    using v by (simp_all add: us_valid_def)
  have size: "ptr_off ?q + length xs \<le> blk_size h (ptr_blk ?q)" and blk: "ptr_blk p < length (hp_blocks h)"
  proof -
    have "?d + length xs \<le> n" using s(3) len by linarith
    then show "ptr_off ?q + length xs \<le> blk_size h (ptr_blk ?q)" using s(1) unfolding s(4) region_def by (simp add: add.assoc)
    show "ptr_blk p < length (hp_blocks h)" using s(1) by (simp add: region_def blk_ok_def)
  qed
  have reg: "region ?h p n" using s(1) size by (simp add: region_def store_cells_block)
  have out: "outside_same p n h0 ?h"
    unfolding outside_same_def
  proof (intro allI impI)
    fix q m
    assume q: "ptr_blk q \<noteq> ptr_blk p \<or> ptr_off q + m \<le> ptr_off p \<or> ptr_off p + n \<le> ptr_off q"
    have "cells ?h q m = cells h q m"
    proof (cases "ptr_blk q = ptr_blk p")
      case True
      then consider "ptr_off q + m \<le> ptr_off ?q" | "ptr_off ?q + length (map Some xs) \<le> ptr_off q"
        using q s(3,4) len by fastforce
      then show ?thesis
        by cases (use True s(4) size in \<open>simp_all add: cells_store_below cells_store_above\<close>)
    qed (simp add: cells_store_other s(4))
    then show "cells ?h q m = cells h0 q m" using s(2) q by (simp add: outside_same_def)
  qed
  have old: "cells ?h p ?d = cells h p ?d" by (rule cells_store_below) (use s(4) size in simp_all)
  have new: "cells ?h ?q k = map Some (take k xs)" if "k \<le> length xs" for k
    using cells_take [of k "length xs" ?h ?q] cells_store_same [of ?q h "map Some xs"] that size blk s(4) by (simp add: take_map)
  have "copy_from h xs ?q = Ok ?h"
    using s(1,4) size len by (simp add: copy_from_def write_cells_def writable_def readable_def region_def)
  then have "write_chunk us_buf_mut (s, h) xs = Ok (s, ?h)"
    using len by (simp add: us_buf_mut_def us_as_mut_ptr_def rassert_def)
  moreover have "us_valid h0 p n (s, ?h)" using reg out s by (simp add: us_valid_def)
  moreover have "\<exists>m2. advance_mut us_buf_mut (s, ?h) k = Ok m2 \<and> us_valid h0 p n m2 \<and> us_len (fst m2) = us_len s - k \<and>
      us_written p n m2 = cells h p ?d @ map Some (take k xs)" if k: "k \<le> length xs" for k
  proof -
    let ?t = "\<lparr>us_ptr = Ptr (ptr_blk p) (ptr_off p + ?d + k), us_len = us_len s - k\<rparr>"
    have "k \<le> us_len s" using k len by simp
    then have d: "n - (us_len s - k) = ?d + k" using s(3) by simp
    have "?d + k \<le> n" using s(3) \<open>k \<le> us_len s\<close> by linarith
    then have "readable ?h ?q k" by (intro region_readable [OF reg, where d = ?d]) (simp_all add: s(4))
    then have "advance_mut us_buf_mut (s, ?h) k = Ok (?t, ?h)"
      using \<open>k \<le> us_len s\<close> s(4) by (simp add: us_buf_mut_def us_advance_mut_def us_split_unchecked_def
          us_as_uninit_slice_mut_def us_from_uninit_def ptr_add_def)
    moreover have "us_valid h0 p n (?t, ?h)" using reg out s(3) d by (simp add: us_valid_def add.assoc)
    moreover have "cells ?h p (?d + k) = cells h p ?d @ map Some (take k xs)"
      using cells_add [of ?h p ?d k] old new [OF k] s(4) by simp
    ultimately show ?thesis using d by (auto simp: us_written_def)
  qed
  ultimately show "\<exists>m1. write_chunk us_buf_mut (s, h) xs = Ok m1 \<and> us_valid h0 p n m1 \<and> us_len (fst m1) = us_len (fst (s, h)) \<and>
      us_written p n m1 = us_written p n (s, h) \<and>
      (\<forall>k\<le>length xs. \<exists>m2. advance_mut us_buf_mut m1 k = Ok m2 \<and> us_valid h0 p n m2 \<and>
        us_len (fst m2) = us_len (fst (s, h)) - k \<and> us_written p n m2 = us_written p n (s, h) @ map Some (take k xs))"
    using old by (intro exI [of _ "(s, ?h)"]) (simp add: us_written_def)
qed

lemma us_core: "buf_mut_core us_buf_mut (us_valid h0 p n) (\<lambda>m. us_len (fst m)) (us_written p n)"
proof (unfold_locales, goal_cases)
  case (1 m)
  then show ?case by (cases m) (simp add: us_buf_mut_def)
next
  case (2 m)
  obtain s h where m: "m = (s, h)" by (cases m)
  show ?case unfolding offers_def using 2 us_takes [of h0 p n s h] m
    by (intro exI [of _ m] exI [of _ "us_len s"]) (simp add: us_buf_mut_def)
next
  case (3 m)
  then show ?case
    by (cases m) (simp add: us_buf_mut_def us_advance_mut_def us_split_unchecked_def us_as_uninit_slice_mut_def
        us_from_uninit_def ptr_add_def readable_def us_valid_def)
qed

interpretation usw: buf_mut_core us_buf_mut "us_valid h0 p n" "\<lambda>m. us_len (fst m)" "us_written p n" for h0 p n
  by (rule us_core)

subsection \<open>Contracts\<close>

lemma us_split_Ok:
  assumes "us_valid h0 p n (s, h)" "k \<le> us_len s"
  shows "us_split_unchecked s k h =
    Ok (\<lparr>us_ptr = us_ptr s, us_len = k\<rparr>, \<lparr>us_ptr = Ptr (ptr_blk p) (ptr_off p + (n - us_len s) + k), us_len = us_len s - k\<rparr>)"
proof -
  have s: "region h p n" "us_len s \<le> n" "us_ptr s = Ptr (ptr_blk p) (ptr_off p + (n - us_len s))"
    using assms(1) by (simp_all add: us_valid_def)
  have "(n - us_len s) + k \<le> n" using s(2) assms(2) by linarith
  then have "readable h (us_ptr s) k" by (intro region_readable [OF s(1), where d = "n - us_len s"]) (simp_all add: s(3))
  then show ?thesis using assms(2) s(3) by (simp add: us_split_unchecked_def ptr_add_def)
qed

text \<open>C29: the overriding \<open>put_slice\<close> of \<open>&mut UninitSlice\<close> does to memory and cursor exactly what the provided one
  would do, panics included.\<close>

theorem us_put_slice_equiv:
  assumes "us_valid h0 p n (s, h)"
  shows "default_put_slice us_buf_mut (s, h) src = Some (us_put_slice s src h)"
proof (cases "length src \<le> us_len s")
  case True
  note split = us_split_Ok [OF assms True]
  obtain m where m: "write_chunk us_buf_mut (s, h) src = Ok m"
    by (rule takesE [OF us_takes [OF assms] True])
  then obtain h' where h': "copy_from h src (us_ptr s) = Ok h'" "m = (s, h')"
    by (auto simp: us_buf_mut_def us_as_mut_ptr_def)
  have valid: "us_valid h0 p n (s, h')" using takesE [OF us_takes [OF assms] True] m h'(2) by (metis res.inject)
  note split' = us_split_Ok [OF valid True]
  let ?b = "\<lparr>us_ptr = Ptr (ptr_blk p) (ptr_off p + (n - us_len s) + length src), us_len = us_len s - length src\<rparr>"
  have put: "us_put_slice s src h = Ok (?b, h')"
    using True split h'(1) by (simp add: us_put_slice_def us_split_def us_as_uninit_slice_mut_def us_as_mut_ptr_def us_from_uninit_def rassert_def)
  show ?thesis
  proof (cases "src = []")
    case True
    then show ?thesis using put assms h'(1)
      by (cases s) (simp add: default_put_slice_def put_slice_loop.simps us_buf_mut_def us_valid_def copy_from_def write_cells_def)
  next
    case False
    have "put_step us_buf_mut (s, h) src = Ok ((?b, h'), length src)"
      using True split' m h'(2) by (simp add: put_step_def us_buf_mut_def us_advance_mut_def
          us_as_uninit_slice_mut_def us_from_uninit_def Let_def min_absorb1)
    then have "put_slice_loop us_buf_mut (s, h) src = Some (Ok (?b, h'))"
      using False by (simp add: put_slice_loop.simps [of _ "(s, h)"] put_slice_loop.simps [of _ _ "[]"])
    moreover have "remaining_mut us_buf_mut (s, h) = Ok (us_len s)" by (simp add: us_buf_mut_def)
    ultimately show ?thesis using True put by (simp add: default_put_slice_def)
  qed
next
  case False
  then show ?thesis
    by (simp add: default_put_slice_def us_put_slice_def us_split_def us_as_uninit_slice_mut_def rassert_def us_buf_mut_def)
qed

theorem us_put_slice_witness:
  "\<exists>s h. default_put_slice us_buf_mut (\<lparr>us_ptr = Ptr 0 1, us_len = 3\<rparr>, demo_heap) [7, 8] = Some (Ok (s, h)) \<and>
     us_put_slice \<lparr>us_ptr = Ptr 0 1, us_len = 3\<rparr> [7, 8] demo_heap = Ok (s, h) \<and> cells h (Ptr 0 0) 4 = [Some 1, Some 7, Some 8, Some 4]"
proof -
  have "us_valid demo_heap (Ptr 0 1) 3 (\<lparr>us_ptr = Ptr 0 1, us_len = 3\<rparr>, demo_heap)"
    by (simp add: us_valid_def region_def outside_same_def demo_heap_def blk_ok_def blk_size_def)
  from us_put_slice_equiv [OF this, of "[7, 8]"] show ?thesis
    by (simp add: us_put_slice_def us_split_def us_split_unchecked_def us_as_uninit_slice_mut_def us_as_mut_ptr_def
        us_from_uninit_def rassert_def eval_simps copy_from_def write_cells_def writable_def store_cells_def cells_def)
qed

text \<open>an index answers the part of the slice with exactly the positions that the range means, or panics.\<close>

theorem us_index_spec:
  assumes "us_valid h0 p n (s, h)"
  shows "us_index s r h = Panic \<or>
    (\<exists>t lo. us_index s r h = Ok t \<and> us_ptr t = Ptr (ptr_blk (us_ptr s)) (ptr_off (us_ptr s) + lo) \<and> lo + us_len t \<le> us_len s \<and>
      (\<forall>i<us_len s. lo \<le> i \<and> i < lo + us_len t \<longleftrightarrow> in_range r i))"
proof (cases "range_of r (us_len s)")
  case None
  then show ?thesis by (simp add: us_index_def)
next
  case (Some b)
  obtain lo hi where b: "b = (lo, hi)" by (cases b)
  note r = range_of_Some [OF Some [unfolded b]]
  have s: "region h p n" "us_len s \<le> n" "us_ptr s = Ptr (ptr_blk p) (ptr_off p + (n - us_len s))"
    using assms by (simp_all add: us_valid_def)
  have "(n - us_len s) + lo \<le> n" using s(2) r by linarith
  then have "readable h (us_ptr s) lo" by (intro region_readable [OF s(1), where d = "n - us_len s"]) (simp_all add: s(3))
  then show ?thesis using Some b r by (auto simp: us_index_def ptr_add_def us_from_uninit_def)
qed

end
