(* ===== verification/Futures.thy ===== *)
theory Futures
  imports Tcio_Prelude
begin

text \<open>
  \<open>src/futures/\<close> and \<open>src/either/\<close>. A future is its state and a \<open>poll\<close> function; the task context, which
  the combinators only pass on, is an arbitrary value. \<open>run\<close> is what an executor does: it polls with one
  context after the other until the future is ready, and tells with which context that was.
\<close>

datatype 'o poll = Ready 'o | Pending

type_synonym ('s, 'c, 'o) fut = "'s \<Rightarrow> 'c \<Rightarrow> ('s \<times> 'o poll) res"

fun run :: "('s, 'c, 'o) fut \<Rightarrow> 's \<Rightarrow> 'c list \<Rightarrow> (('o \<times> 'c list) option) res" where
  "run P s [] = Ok None"
| "run P s (c # cs) =
     rbind (P s c) (\<lambda>(s', r). case r of Ready x \<Rightarrow> Ok (Some (x, c # cs)) | Pending \<Rightarrow> run P s' cs)"

subsection \<open>\<open>map\<close>\<close>

datatype ('s, 'm) map_fut = Map (map_f: 's) (map_map: "'m option")

definition map_new :: "'s \<Rightarrow> 'm \<Rightarrow> ('s, 'm) map_fut" where
  "map_new f m = Map f (Some m)"

text \<open>\<open>map.take().expect(...)\<close>: a future that is ready a second time finds no function and panics.\<close>

definition map_poll :: "('s, 'c, 'o) fut \<Rightarrow> (('s, 'o \<Rightarrow> 'p) map_fut, 'c, 'p) fut" where
  "map_poll P me cx =
     rbind (P (map_f me) cx) (\<lambda>(f, r).
       case r of
         Ready ok \<Rightarrow> (case map_map me of
                        Some m \<Rightarrow> Ok (Map f None, Ready (m ok))
                      | None \<Rightarrow> Panic)
       | Pending \<Rightarrow> Ok (Map f (map_map me), Pending))"

subsection \<open>\<open>then\<close>\<close>

datatype ('s, 't) phase = F1 's | F2 't

datatype ('s, 't, 'm) then_fut = Then (then_phase: "('s, 't) phase") (then_map: "'m option")

definition then_new :: "'s \<Rightarrow> 'm \<Rightarrow> ('s, 't, 'm) then_fut" where
  "then_new f m = Then (F1 f) (Some m)"

text \<open>In the second phase \<open>poll\<close> polls the second future; in the first it polls the first one and, if that is
  ready, enters the second phase and polls again with the same context.\<close>

definition then_poll2 :: "('t, 'c, 'p) fut \<Rightarrow> 't \<Rightarrow> 'm option \<Rightarrow> 'c \<Rightarrow> (('s, 't, 'm) then_fut \<times> 'p poll) res" where
  "then_poll2 Q t m cx = rbind (Q t cx) (\<lambda>(t', r). Ok (Then (F2 t') m, r))"

definition then_poll ::
  "('s, 'c, 'o) fut \<Rightarrow> ('t, 'c, 'p) fut \<Rightarrow> (('s, 't, 'o \<Rightarrow> 't) then_fut, 'c, 'p) fut" where
  "then_poll P Q me cx =
     (case then_phase me of
        F1 f \<Rightarrow>
          rbind (P f cx) (\<lambda>(f', r).
            case r of
              Pending \<Rightarrow> Ok (Then (F1 f') (then_map me), Pending)
            | Ready ok \<Rightarrow>
                (case then_map me of
                   Some m \<Rightarrow> then_poll2 Q (m ok) None cx
                 | None \<Rightarrow> Panic))
      | F2 t \<Rightarrow> then_poll2 Q t (then_map me) cx)"

subsection \<open>\<open>Either\<close> and \<open>EitherMap\<close>\<close>

datatype ('l, 'r) either = Left 'l | Right 'r

datatype ('l, 'r) either_map = MLeft 'l | MRight 'r

fun either_from_map :: "('l, 'r) either_map \<Rightarrow> ('l, 'r) either" where
  "either_from_map (MLeft l) = Left l" | "either_from_map (MRight r) = Right r"

fun either_map_from :: "('l, 'r) either \<Rightarrow> ('l, 'r) either_map" where
  "either_map_from (Left l) = MLeft l" | "either_map_from (Right r) = MRight r"

fun either_poll :: "('l, 'c, 'o) fut \<Rightarrow> ('r, 'c, 'o) fut \<Rightarrow> (('l, 'r) either, 'c, 'o) fut" where
  "either_poll P Q (Left l) cx = rbind (P l cx) (\<lambda>(l', x). Ok (Left l', x))"
| "either_poll P Q (Right r) cx = rbind (Q r cx) (\<lambda>(r', x). Ok (Right r', x))"

fun poll_map :: "('o \<Rightarrow> 'p) \<Rightarrow> 'o poll \<Rightarrow> 'p poll" where
  "poll_map f (Ready x) = Ready (f x)" | "poll_map f Pending = Pending"

fun either_map_poll ::
  "('l, 'c, 'o) fut \<Rightarrow> ('r, 'c, 'p) fut \<Rightarrow> (('l, 'r) either_map, 'c, ('o, 'p) either_map) fut" where
  "either_map_poll P Q (MLeft l) cx = rbind (P l cx) (\<lambda>(l', x). Ok (MLeft l', poll_map MLeft x))"
| "either_map_poll P Q (MRight r) cx = rbind (Q r cx) (\<lambda>(r', x). Ok (MRight r', poll_map MRight x))"

text \<open>Iterators: \<open>next\<close> is a function of the state.\<close>

fun either_next :: "('l \<Rightarrow> 'l \<times> 'i option) \<Rightarrow> ('r \<Rightarrow> 'r \<times> 'i option) \<Rightarrow> ('l, 'r) either \<Rightarrow> ('l, 'r) either \<times> 'i option" where
  "either_next nl nr (Left l) = (case nl l of (l', x) \<Rightarrow> (Left l', x))"
| "either_next nl nr (Right r) = (case nr r of (r', x) \<Rightarrow> (Right r', x))"

fun either_map_next ::
  "('l \<Rightarrow> 'l \<times> 'i option) \<Rightarrow> ('r \<Rightarrow> 'r \<times> 'j option) \<Rightarrow> ('l, 'r) either_map \<Rightarrow>
   ('l, 'r) either_map \<times> ('i, 'j) either_map option" where
  "either_map_next nl nr (MLeft l) = (case nl l of (l', x) \<Rightarrow> (MLeft l', map_option MLeft x))"
| "either_map_next nl nr (MRight r) = (case nr r of (r', x) \<Rightarrow> (MRight r', map_option MRight x))"

text \<open>\<open>io::Read\<close> and \<open>io::Write\<close> forward each call; \<open>'a\<close> is what the call is given and \<open>'b\<close> what it returns.\<close>

fun either_io :: "('l \<Rightarrow> 'a \<Rightarrow> 'l \<times> 'b) \<Rightarrow> ('r \<Rightarrow> 'a \<Rightarrow> 'r \<times> 'b) \<Rightarrow> ('l, 'r) either \<Rightarrow> 'a \<Rightarrow> ('l, 'r) either \<times> 'b" where
  "either_io fl fr (Left l) x = (case fl l x of (l', y) \<Rightarrow> (Left l', y))"
| "either_io fl fr (Right r) x = (case fr r x of (r', y) \<Rightarrow> (Right r', y))"

text \<open>Draining an iterator, at most \<open>n\<close> items.\<close>

fun drain :: "('s \<Rightarrow> 's \<times> 'i option) \<Rightarrow> nat \<Rightarrow> 's \<Rightarrow> 'i list" where
  "drain nxt 0 s = []"
| "drain nxt (Suc n) s = (case nxt s of (s', None) \<Rightarrow> [] | (s', Some x) \<Rightarrow> x # drain nxt n s')"

subsection \<open>What the combinators do\<close>

lemma run_map_Some:
  "run (map_poll P) (Map s (Some g)) cs =
   rbind (run P s cs) (\<lambda>r. Ok (map_option (\<lambda>(x, rest). (g x, rest)) r))"
proof (induction cs arbitrary: s)
  case (Cons c cs)
  show ?case
  proof (cases "P s c")
    case (Ok r)
    then show ?thesis using Cons by (cases r; cases "snd r") (auto simp: map_poll_def)
  qed (simp_all add: map_poll_def)
qed simp

lemma then_poll_simps:
  "then_poll P Q (Then (F1 f) m) cx =
     rbind (P f cx) (\<lambda>(f', r).
       case r of
         Pending \<Rightarrow> Ok (Then (F1 f') m, Pending)
       | Ready ok \<Rightarrow> (case m of Some g \<Rightarrow> then_poll2 Q (g ok) None cx | None \<Rightarrow> Panic))"
  "then_poll P Q (Then (F2 t) m) cx = then_poll2 Q t m cx"
  by (simp_all add: then_poll_def)

lemma run_then2: "run (then_poll P Q) (Then (F2 t) m) cs = run Q t cs"
proof (induction cs arbitrary: t)
  case (Cons c cs)
  show ?case
  proof (cases "Q t c")
    case (Ok r)
    then show ?thesis using Cons by (cases r; cases "snd r") (auto simp: then_poll_simps then_poll2_def)
  qed (simp_all add: then_poll_simps then_poll2_def)
qed simp

lemma run_then1:
  "run (then_poll P Q) (Then (F1 s) (Some g)) cs =
   rbind (run P s cs) (\<lambda>r. case r of None \<Rightarrow> Ok None | Some (x, rest) \<Rightarrow> run Q (g x) rest)"
proof (induction cs arbitrary: s)
  case (Cons c cs)
  show ?case
  proof (cases "P s c")
    case (Ok r)
    obtain s' p where r: "r = (s', p)" by (cases r)
    show ?thesis
    proof (cases p)
      case Pending
      then show ?thesis using Ok r Cons by (simp add: then_poll_simps)
    next
      case (Ready x)
      show ?thesis
      proof (cases "Q (g x) c")
        case Okq: (Ok q)
        obtain t' y where q: "q = (t', y)" by (cases q)
        show ?thesis
          using Ok r Ready Okq q run_then2 [of P Q t' None cs]
          by (cases y) (simp_all add: then_poll_simps then_poll2_def)
      qed (use Ok r Ready in \<open>simp_all add: then_poll_simps then_poll2_def\<close>)
    qed
  qed (simp_all add: then_poll_simps)
qed simp

lemma run_either:
  "run (either_poll P Q) (Left l) cs = run P l cs" "run (either_poll P Q) (Right r) cs = run Q r cs"
proof -
  show "run (either_poll P Q) (Left l) cs = run P l cs"
  proof (induction cs arbitrary: l)
    case (Cons c cs)
    then show ?case by (cases "P l c") (auto split: prod.splits poll.splits)
  qed simp
  show "run (either_poll P Q) (Right r) cs = run Q r cs"
  proof (induction cs arbitrary: r)
    case (Cons c cs)
    then show ?case by (cases "Q r c") (auto split: prod.splits poll.splits)
  qed simp
qed

lemma drain_either:
  "drain (either_map_next nl nr) n (MLeft l) = map MLeft (drain nl n l)"
  "drain (either_map_next nl nr) n (MRight r) = map MRight (drain nr n r)"
  by (induction n arbitrary: l r) (auto split: prod.splits option.splits)

text \<open>\<open>map\<close> is ready exactly when the future it wraps is, with the function applied to its output,
  whatever contexts it is polled with; being called once, the function is never missing.\<close>

theorem map_run:
  "run (map_poll P) (map_new s g) cs =
   rbind (run P s cs) (\<lambda>r. Ok (map_option (\<lambda>(x, rest). (g x, rest)) r))"
  unfolding map_new_def by (rule run_map_Some)

text \<open>\<open>then\<close> is sequential composition: it runs the first future, and from the very context that made it
  ready on it runs the future computed from its output; so it panics only if one of the two does.\<close>

theorem then_run:
  "run (then_poll P Q) (then_new s g) cs =
   rbind (run P s cs) (\<lambda>r. case r of None \<Rightarrow> Ok None | Some (x, rest) \<Rightarrow> run Q (g x) rest)"
  unfolding then_new_def by (rule run_then1)

text \<open>an \<open>Either\<close> runs as the future it holds, \<open>EitherMap\<close> as an iterator yields the tagged items of the
  iterator it holds, and the conversions between the two types are inverse to each other.\<close>

theorem either_run:
  "run (either_poll P Q) (Left l) cs = run P l cs \<and> run (either_poll P Q) (Right r) cs = run Q r cs \<and>
   drain (either_map_next nl nr) n (MLeft a) = map MLeft (drain nl n a) \<and>
   drain (either_map_next nl nr) n (MRight b) = map MRight (drain nr n b) \<and>
   either_from_map (either_map_from e) = e \<and> either_map_from (either_from_map m) = m"
  using run_either drain_either by (cases e; cases m) auto

end
