(* ===== verification/Async_IO.thy ===== *)
theory Async_IO
  imports Buf_Mut Futures
begin

text \<open>
  \<open>src/io/\<close>: the traits \<open>AsyncRead\<close> and \<open>AsyncWrite\<close>. A writer is the record of its methods over a state;
  the provided methods are functions of those they call. An \<open>io::Result<T>\<close> is a sum, its error either
  the \<open>WriteZero\<close> that the code makes or one of the writer's. The forwarding implementations for
  \<open>&mut T\<close>, \<open>Box<T>\<close> and \<open>Pin<T>\<close> call the same method of \<open>T\<close> each.
\<close>

datatype 'e io_error = WriteZero | Other 'e

type_synonym ('e, 'a) io_poll = "('e io_error + 'a) poll"

record ('w, 'c, 'e) async_write =
  poll_write :: "'w \<Rightarrow> u8 list \<Rightarrow> 'c \<Rightarrow> ('w \<times> ('e, nat) io_poll) res"
  poll_flush :: "'w \<Rightarrow> 'c \<Rightarrow> ('w \<times> ('e, unit) io_poll) res"
  poll_shutdown :: "'w \<Rightarrow> 'c \<Rightarrow> ('w \<times> ('e, unit) io_poll) res"
  poll_write_vectored :: "'w \<Rightarrow> u8 list list \<Rightarrow> 'c \<Rightarrow> ('w \<times> ('e, nat) io_poll) res"
  is_write_vectored :: "'w \<Rightarrow> bool"

subsection \<open>Provided methods\<close>

definition default_write_vectored ::
  "('w \<Rightarrow> u8 list \<Rightarrow> 'c \<Rightarrow> ('w \<times> ('e, nat) io_poll) res) \<Rightarrow> 'w \<Rightarrow> u8 list list \<Rightarrow> 'c \<Rightarrow>
   ('w \<times> ('e, nat) io_poll) res" where
  "default_write_vectored pw w bufs cx =
     pw w (case find (\<lambda>b. b \<noteq> []) bufs of None \<Rightarrow> [] | Some b \<Rightarrow> b) cx"

definition poll_write_buf ::
  "('w, 'c, 'e) async_write \<Rightarrow> 'b buf \<Rightarrow> 'w \<Rightarrow> 'b \<Rightarrow> 'c \<Rightarrow> (('w \<times> 'b) \<times> ('e, nat) io_poll) res" where
  "poll_write_buf W B w b cx =
     rbind (chunk B b) (\<lambda>xs.
     rbind (poll_write W w xs cx) (\<lambda>(w, r).
       case r of
         Ready (Inr write) \<Rightarrow> rbind (advance B b write) (\<lambda>b. Ok ((w, b), Ready (Inr write)))
       | Ready (Inl err) \<Rightarrow> Ok ((w, b), Ready (Inl err))
       | Pending \<Rightarrow> Ok ((w, b), Pending)))"

partial_function (option) poll_write_all_buf ::
  "('w, 'c, 'e) async_write \<Rightarrow> 'b buf \<Rightarrow> 'w \<Rightarrow> 'b \<Rightarrow> 'c \<Rightarrow> (('w \<times> 'b) \<times> ('e, unit) io_poll) res option" where
  "poll_write_all_buf W B w b cx =
     (if \<not> has_remaining B b then Some (Ok ((w, b), Ready (Inr ())))
      else case poll_write_buf W B w b cx of
             Ok (s, r) \<Rightarrow>
               (case r of
                  Pending \<Rightarrow> Some (Ok (s, Pending))
                | Ready (Inl err) \<Rightarrow> Some (Ok (s, Ready (Inl err)))
                | Ready (Inr read) \<Rightarrow>
                    if read = 0 then Some (Ok (s, Ready (Inl WriteZero)))
                    else poll_write_all_buf W B (fst s) (snd s) cx)
           | Panic \<Rightarrow> Some Panic | Abort \<Rightarrow> Some Abort | UB \<Rightarrow> Some UB)"

text \<open>At most 64 slices are handed to the writer at once.\<close>

definition poll_write_buf_vectored ::
  "('w, 'c, 'e) async_write \<Rightarrow> 'b buf \<Rightarrow> 'w \<Rightarrow> 'b \<Rightarrow> 'c \<Rightarrow> (('w \<times> 'b) \<times> ('e, unit) io_poll) res" where
  "poll_write_buf_vectored W B w b cx =
     rbind (chunks_vectored B b 64) (\<lambda>io_slice.
     rbind (poll_write_vectored W w io_slice cx) (\<lambda>(w, r).
       case r of
         Ready (Inr write) \<Rightarrow> rbind (advance B b write) (\<lambda>b. Ok ((w, b), Ready (Inr ())))
       | Ready (Inl err) \<Rightarrow> Ok ((w, b), Ready (Inl err))
       | Pending \<Rightarrow> Ok ((w, b), Pending)))"

subsection \<open>Implementations\<close>

text \<open>\<open>AsyncRead for &[u8]\<close>; \<open>put\<close> is the \<open>put_slice\<close> of the destination.\<close>

definition slice_poll_read ::
  "('m \<Rightarrow> nat res) \<Rightarrow> ('m \<Rightarrow> u8 list \<Rightarrow> 'm res option) \<Rightarrow> u8 list \<Rightarrow> 'm \<Rightarrow> 'c \<Rightarrow>
   ((u8 list \<times> 'm) \<times> ('e, nat) io_poll) res option" where
  "slice_poll_read rem put me buf cx =
     (case rem buf of
        Ok n \<Rightarrow>
          (let cnt = min (length me) n in
           map_option (\<lambda>r. rbind r (\<lambda>buf. Ok ((drop cnt me, buf), Ready (Inr cnt)))) (put buf (take cnt me)))
      | Panic \<Rightarrow> Some Panic | Abort \<Rightarrow> Some Abort | UB \<Rightarrow> Some UB)"

text \<open>\<open>AsyncWrite for &mut [u8]\<close>: \<open>copy_from_slice\<close> panics unless the two slices are of one length.\<close>

definition slice_poll_write :: "cursor \<Rightarrow> u8 list \<Rightarrow> 'c \<Rightarrow> (cursor \<times> ('e, nat) io_poll) res" where
  "slice_poll_write me buf cx =
     (let cnt = min (length (cur_rest me)) (length buf) in
      rbind (rassert (length (take cnt (cur_rest me)) = length buf)) (\<lambda>_.
      Ok (\<lparr>cur_done = cur_done me @ map Some buf, cur_rest = drop cnt (cur_rest me)\<rparr>, Ready (Inr cnt))))"

definition ready_ok :: "'w \<Rightarrow> 'c \<Rightarrow> ('w \<times> ('e, unit) io_poll) res" where
  "ready_ok w cx = Ok (w, Ready (Inr ()))"

definition slice_writer :: "(cursor, 'c, 'e) async_write" where
  "slice_writer = \<lparr>poll_write = slice_poll_write, poll_flush = ready_ok, poll_shutdown = ready_ok,
     poll_write_vectored = default_write_vectored slice_poll_write, is_write_vectored = (\<lambda>_. False)\<rparr>"

text \<open>\<open>AsyncWrite for Vec<u8>\<close>.\<close>

definition vec_poll_write :: "u8 list \<Rightarrow> u8 list \<Rightarrow> 'c \<Rightarrow> (u8 list \<times> ('e, nat) io_poll) res" where
  "vec_poll_write v buf cx = rbind (vec_put_slice v buf) (\<lambda>v. Ok (v, Ready (Inr (length buf))))"

definition vec_writer :: "(u8 list, 'c, 'e) async_write" where
  "vec_writer = \<lparr>poll_write = vec_poll_write, poll_flush = ready_ok, poll_shutdown = ready_ok,
     poll_write_vectored = default_write_vectored vec_poll_write, is_write_vectored = (\<lambda>_. False)\<rparr>"

subsection \<open>What a writer promises\<close>

text \<open>
  \<open>sink w\<close> are the bytes the writer has accepted so far, and it takes calls of at most \<open>lim w\<close> bytes.
  It reports how long the prefix was that it accepted; if it fails or is not ready, it accepted nothing.
\<close>

definition write_law ::
  "('w \<Rightarrow> 'x \<Rightarrow> 'c \<Rightarrow> ('w \<times> ('e, nat) io_poll) res) \<Rightarrow> ('x \<Rightarrow> u8 list) \<Rightarrow> ('w \<Rightarrow> bool) \<Rightarrow>
   ('w \<Rightarrow> u8 list) \<Rightarrow> ('w \<Rightarrow> nat) \<Rightarrow> bool" where
  "write_law pw data ok sink lim \<longleftrightarrow>
     (\<forall>w x cx. ok w \<longrightarrow> length (data x) \<le> lim w \<longrightarrow>
       (\<exists>w' r. pw w x cx = Ok (w', r) \<and> ok w' \<and>
          (case r of Ready (Inr n) \<Rightarrow> n \<le> length (data x) \<and> sink w' = sink w @ take n (data x) \<and> lim w \<le> lim w' + n
           | _ \<Rightarrow> sink w' = sink w \<and> lim w \<le> lim w')))"

lemma write_lawE:
  assumes "write_law pw data ok sink lim" "ok w" "length (data x) \<le> lim w"
  obtains (written) w' n where "pw w x cx = Ok (w', Ready (Inr n))" "ok w'" "n \<le> length (data x)"
      "sink w' = sink w @ take n (data x)" "lim w \<le> lim w' + n"
    | (failed) w' e where "pw w x cx = Ok (w', Ready (Inl e))" "ok w'" "sink w' = sink w" "lim w \<le> lim w'"
    | (pending) w' where "pw w x cx = Ok (w', Pending)" "ok w'" "sink w' = sink w" "lim w \<le> lim w'"
proof -
  from assms obtain w' r where r: "pw w x cx = Ok (w', r)" "ok w'"
    "case r of Ready (Inr n) \<Rightarrow> n \<le> length (data x) \<and> sink w' = sink w @ take n (data x) \<and> lim w \<le> lim w' + n
     | _ \<Rightarrow> sink w' = sink w \<and> lim w \<le> lim w'" unfolding write_law_def by blast
  show thesis
  proof (cases r)
    case (Ready s)
    show thesis
    proof (cases s)
      case (Inl e)
      then show thesis using failed r Ready by simp
    next
      case (Inr n)
      then show thesis using written r Ready by simp
    qed
  next
    case Pending
    then show thesis using pending r by simp
  qed
qed

text \<open>The provided \<open>poll_write_vectored\<close> writes a prefix of the first buffer that is not empty, hence of all.\<close>

lemma default_write_vectored_law:
  assumes "write_law pw (\<lambda>xs. xs) ok sink lim"
  shows "write_law (default_write_vectored pw) concat ok sink lim"
  unfolding write_law_def
proof (intro allI impI)
  fix w cx and bufs :: "u8 list list"
  assume w: "ok w" and len: "length (concat bufs) \<le> lim w"
  let ?x = "case find (\<lambda>b. b \<noteq> []) bufs of None \<Rightarrow> [] | Some b \<Rightarrow> b"
  have pre: "prefix ?x (concat bufs)"
    by (induction bufs) (auto split: option.splits)
  then have le: "length ?x \<le> length (concat bufs)" and "length ?x \<le> lim w"
    using len prefix_length_le by (blast, fastforce)
  have "take n ?x = take n (concat bufs)" if "n \<le> length ?x" for n
    using pre that by (auto simp: prefix_def)
  with assms w \<open>length ?x \<le> lim w\<close> le
  show "\<exists>w' r. default_write_vectored pw w bufs cx = Ok (w', r) \<and> ok w' \<and>
      (case r of Ready (Inr n) \<Rightarrow> n \<le> length (concat bufs) \<and> sink w' = sink w @ take n (concat bufs) \<and>
           lim w \<le> lim w' + n
       | _ \<Rightarrow> sink w' = sink w \<and> lim w \<le> lim w')"
    unfolding default_write_vectored_def
    by (elim write_lawE [where x = ?x and cx = cx]) auto
qed

locale writer =
  fixes W :: "('w, 'c, 'e) async_write" and ok :: "'w \<Rightarrow> bool" and sink :: "'w \<Rightarrow> u8 list" and lim :: "'w \<Rightarrow> nat"
  assumes write_one: "write_law (poll_write W) (\<lambda>xs. xs) ok sink lim"
    and write_vectored: "write_law (poll_write_vectored W) concat ok sink lim"

locale writer_reader = writer W ok sink lim + buf_impl B inv content
  for W :: "('w, 'c, 'e) async_write" and ok sink lim and B :: "'b buf" and inv content
begin

lemma poll_write_buf_cases:
  assumes "ok w" "inv b" "length (content b) \<le> lim w"
  obtains (written) w' b' n where "poll_write_buf W B w b cx = Ok ((w', b'), Ready (Inr n))" "ok w'" "inv b'"
      "n \<le> length (content b)" "content b' = drop n (content b)" "sink w' = sink w @ take n (content b)"
      "length (content b') \<le> lim w'"
    | (failed) w' e where "poll_write_buf W B w b cx = Ok ((w', b), Ready (Inl e))" "ok w'" "sink w' = sink w"
    | (pending) w' where "poll_write_buf W B w b cx = Ok ((w', b), Pending)" "ok w'" "sink w' = sink w"
proof -
  obtain xs where xs: "chunk B b = Ok xs" "prefix xs (content b)"
    using chunk_law [OF assms(2)] by blast
  then have len: "length xs \<le> length (content b)" by (simp add: prefix_length_le)
  then have "length xs \<le> lim w" using assms(3) by simp
  with write_one assms(1) show thesis
  proof (cases rule: write_lawE [where x = xs and cx = cx])
    case (written w' n)
    then have "n \<le> length (content b)" using len by simp
    from advance_law [OF assms(2) this] obtain b' where
      b': "advance B b n = Ok b'" "inv b'" "content b' = drop n (content b)" by blast
    have "take n xs = take n (content b)" using written(3) xs(2) by (auto simp: prefix_def)
    then show thesis using written b' xs(1) that(1) [of w' b' n] \<open>n \<le> length (content b)\<close> assms(3)
      by (simp add: poll_write_buf_def)
  next
    case (failed w' e)
    then show thesis using xs(1) that(2) by (simp add: poll_write_buf_def)
  next
    case (pending w')
    then show thesis using xs(1) that(3) by (simp add: poll_write_buf_def)
  qed
qed

lemma write_all_Ok:
  "ok w \<Longrightarrow> inv b \<Longrightarrow> length (content b) \<le> lim w \<Longrightarrow>
   \<exists>w' b' r. poll_write_all_buf W B w b cx = Some (Ok ((w', b'), r)) \<and> ok w' \<and> inv b' \<and>
     sink w' @ content b' = sink w @ content b \<and> (r = Ready (Inr ()) \<longleftrightarrow> content b' = [])"
proof (induction "length (content b)" arbitrary: w b rule: less_induct)
  case less
  have rem: "has_remaining B b \<longleftrightarrow> content b \<noteq> []"
    using remaining_law [OF less.prems(2)] by (simp add: has_remaining_def)
  note step = poll_write_all_buf.simps [of W B w b cx]
  show ?case
  proof (cases "content b = []")
    case True
    then show ?thesis using less.prems rem step by simp
  next
    case False
    from less.prems show ?thesis
    proof (cases rule: poll_write_buf_cases [where cx = cx])
      case (written w' b' n)
      show ?thesis
      proof (cases "n = 0")
        case True
        then have "poll_write_all_buf W B w b cx = Some (Ok ((w', b'), Ready (Inl WriteZero)))"
          using step False rem written(1) by simp
        then show ?thesis using written True False by simp
      next
        case nz: False
        have "length (content b') < length (content b)" using written(4,5) nz False by simp
        from less.hyps [OF this written(2,3,7)] obtain w2 b2 r where
          r: "poll_write_all_buf W B w' b' cx = Some (Ok ((w2, b2), r))" "ok w2" "inv b2"
            "sink w2 @ content b2 = sink w' @ content b'" "r = Ready (Inr ()) \<longleftrightarrow> content b2 = []" by blast
        have "poll_write_all_buf W B w b cx = Some (Ok ((w2, b2), r))"
          using step False rem nz written(1) r(1) by simp
        then show ?thesis using r written(5,6) by simp
      qed
    next
      case (failed w' e)
      then show ?thesis using step False rem less.prems(2) by simp
    next
      case (pending w')
      then show ?thesis using step False rem less.prems(2) by simp
    qed
  qed
qed

lemma write_buf_vectored_Ok:
  assumes "ok w" "inv b" "length (content b) \<le> lim w"
  shows "\<exists>w' b' r. poll_write_buf_vectored W B w b cx = Ok ((w', b'), r) \<and> ok w' \<and> inv b' \<and>
    sink w' @ content b' = sink w @ content b"
proof -
  obtain xss where xss: "chunks_vectored B b 64 = Ok xss" "prefix (concat xss) (content b)"
    using vectored assms(2) unfolding vectored_law_def by blast
  then have len: "length (concat xss) \<le> length (content b)" by (simp only: prefix_length_le)
  then have "length (concat xss) \<le> lim w" using assms(3) by linarith
  with write_vectored assms(1) show ?thesis
  proof (cases rule: write_lawE [where x = xss and cx = cx])
    case (written w' n)
    then have "n \<le> length (content b)" using len by linarith
    from advance_law [OF assms(2) this] obtain b' where
      b': "advance B b n = Ok b'" "inv b'" "content b' = drop n (content b)" by blast
    have "take n (concat xss) = take n (content b)" using written(3) xss(2) by (auto simp: prefix_def)
    then show ?thesis using written b' xss(1) by (simp add: poll_write_buf_vectored_def)
  next
    case (failed w' e)
    then show ?thesis using xss(1) assms(2) by (simp add: poll_write_buf_vectored_def)
  next
    case (pending w')
    then show ?thesis using xss(1) assms(2) by (simp add: poll_write_buf_vectored_def)
  qed
qed

end

subsection \<open>The implementations keep the promise\<close>

lemma slice_write_law: "write_law slice_poll_write (\<lambda>xs. xs) (\<lambda>_. True) (\<lambda>c. map the (cur_done c)) (\<lambda>c. length (cur_rest c))"
  by (simp add: write_law_def slice_poll_write_def Let_def)

lemma vec_write_law:
  "write_law vec_poll_write (\<lambda>xs. xs) (\<lambda>v. length v \<le> isize_max) (\<lambda>v. v) (\<lambda>v. isize_max - length v)"
  by (auto simp: write_law_def vec_poll_write_def vec_put_slice_def)

interpretation slw: writer slice_writer "\<lambda>_. True" "\<lambda>c. map the (cur_done c)" "\<lambda>c. length (cur_rest c)"
  by unfold_locales (simp_all add: slice_writer_def slice_write_law default_write_vectored_law)

interpretation vw: writer vec_writer "\<lambda>v. length v \<le> isize_max" "\<lambda>v. v" "\<lambda>v. isize_max - length v"
  by unfold_locales (simp_all add: vec_writer_def vec_write_law default_write_vectored_law)

interpretation vwb: writer_reader vec_writer "\<lambda>v. length v \<le> isize_max" "\<lambda>v. v" "\<lambda>v. isize_max - length v"
  bytes_buf "bytes_inv R" bytes_content for R
  by unfold_locales

text \<open>A writer that accepts a few bytes at a time, by a given schedule, and then is not ready.\<close>

fun trickle_write :: "u8 list \<times> nat list \<Rightarrow> u8 list \<Rightarrow> unit \<Rightarrow> ((u8 list \<times> nat list) \<times> (unit, nat) io_poll) res" where
  "trickle_write (s, []) xs cx = Ok ((s, []), Pending)"
| "trickle_write (s, k # ks) xs cx = Ok ((s @ take k xs, ks), Ready (Inr (min k (length xs))))"

definition trickle_writer :: "(u8 list \<times> nat list, unit, unit) async_write" where
  "trickle_writer = \<lparr>poll_write = trickle_write, poll_flush = ready_ok, poll_shutdown = ready_ok,
     poll_write_vectored = default_write_vectored trickle_write, is_write_vectored = (\<lambda>_. False)\<rparr>"

lemma trickle_law: "write_law trickle_write (\<lambda>xs. xs) (\<lambda>_. True) fst (\<lambda>_. 1000)"
  unfolding write_law_def
proof (intro allI impI)
  fix w :: "u8 list \<times> nat list" and xs :: "u8 list" and cx
  have "take k xs = take (min k (length xs)) xs" for k by (simp add: min_def)
  moreover obtain s ks where "w = (s, ks)" by (cases w)
  ultimately show "\<exists>w' r. trickle_write w xs cx = Ok (w', r) \<and> True \<and>
      (case r of Ready (Inr n) \<Rightarrow> n \<le> length xs \<and> fst w' = fst w @ take n xs \<and> 1000 \<le> 1000 + n
       | _ \<Rightarrow> fst w' = fst w \<and> (1000::nat) \<le> 1000)"
    by (cases ks) auto
qed

context buf_impl
begin

lemma vec_write_all_Ok:
  "inv b \<Longrightarrow> length v + length (content b) \<le> isize_max \<Longrightarrow>
   \<exists>b'. poll_write_all_buf vec_writer B v b cx = Some (Ok ((v @ content b, b'), Ready (Inr ()) :: ('e, unit) io_poll)) \<and>
     inv b' \<and> content b' = []"
proof (induction "length (content b)" arbitrary: v b rule: less_induct)
  case less
  have rem: "has_remaining B b \<longleftrightarrow> content b \<noteq> []"
    using remaining_law [OF less.prems(1)] by (simp add: has_remaining_def)
  show ?case
  proof (cases "content b = []")
    case True
    then show ?thesis using less.prems rem by (simp add: poll_write_all_buf.simps)
  next
    case False
    obtain s where s: "chunk B b = Ok s" "prefix s (content b)" "s \<noteq> []"
      using chunk_law [OF less.prems(1)] False by blast
    then obtain r where r: "content b = s @ r" by (auto simp: prefix_def)
    then have "length s \<le> length (content b)" by simp
    from advance_law [OF less.prems(1) this] r obtain b1 where
      b1: "advance B b (length s) = Ok b1" "inv b1" "content b1 = r" by auto
    have "length (content b1) < length (content b)" "length (v @ s) + length (content b1) \<le> isize_max"
      using b1(3) r s(3) less.prems(2) by simp_all
    from less.hyps [OF this(1) b1(2) this(2)] obtain b2 where
      b2: "poll_write_all_buf vec_writer B (v @ s) b1 cx = Some (Ok (((v @ s) @ content b1, b2), Ready (Inr ()) :: ('e, unit) io_poll))"
        "inv b2" "content b2 = []" by blast
    have "poll_write_buf vec_writer B v b cx = Ok ((v @ s, b1), Ready (Inr (length s)) :: ('e, nat) io_poll)"
      using s(1) b1(1) r less.prems(2)
      by (simp add: poll_write_buf_def vec_writer_def vec_poll_write_def vec_put_slice_def)
    then show ?thesis
      using b2 False rem s(3) b1(3) r by (simp add: poll_write_all_buf.simps [of _ B v b])
  qed
qed

end

interpretation tw: writer trickle_writer "\<lambda>_. True" fst "\<lambda>_. 1000"
  by unfold_locales (simp_all add: trickle_writer_def trickle_law default_write_vectored_law)

subsection \<open>Contracts\<close>

text \<open>C30: \<open>poll_write_all_buf\<close> returns, for every lawful writer and buffer. No byte is lost, repeated or
  reordered: what the writer has accepted followed by what is left in the buffer is what it was before,
  also when the call ends with an error or is pending, so that it can be resumed. It reports success
  exactly if the buffer is empty.\<close>

theorem write_all_total:
  assumes "writer W ok sink lim" "buf_impl B I content" "ok w" "I b" "length (content b) \<le> lim w"
  shows "\<exists>w' b' r. poll_write_all_buf W B w b cx = Some (Ok ((w', b'), r)) \<and> ok w' \<and> I b' \<and>
    sink w' @ content b' = sink w @ content b \<and> (r = Ready (Inr ()) \<longleftrightarrow> content b' = [])"
  by (rule writer_reader.write_all_Ok [OF writer_reader.intro [OF assms(1,2)] assms(3-5)])

theorem write_all_witness:
  "\<exists>w' b' r. poll_write_all_buf trickle_writer slice_buf ([], [2, 2, 1]) [1, 2, 3] () = Some (Ok ((w', b'), r)) \<and>
    fst w' @ b' = [1, 2, 3]"
  using write_all_total [OF tw.writer_axioms sl.buf_impl_axioms,
      where w = "([], [2, 2, 1])" and b = "[1, 2, 3]" and cx = "()"] by fastforce

text \<open>one call of \<open>poll_write_buf\<close> moves the reported number of bytes from the buffer to the writer, and
  \<open>poll_write_buf_vectored\<close> moves bytes in order too, though it hands 64 slices over at once.\<close>

theorem write_buf_spec:
  assumes "writer W ok sink lim" "buf_impl B I content" "ok w" "I b" "length (content b) \<le> lim w"
  shows "(\<exists>w' b' r. poll_write_buf W B w b cx = Ok ((w', b'), r) \<and> ok w' \<and> I b' \<and>
      sink w' @ content b' = sink w @ content b \<and>
      content b' = drop (case r of Ready (Inr n) \<Rightarrow> n | _ \<Rightarrow> 0) (content b)) \<and>
    (\<exists>w' b' r. poll_write_buf_vectored W B w b cx = Ok ((w', b'), r) \<and> ok w' \<and> I b' \<and>
      sink w' @ content b' = sink w @ content b)"
proof
  note wr = writer_reader.intro [OF assms(1,2)]
  show "\<exists>w' b' r. poll_write_buf W B w b cx = Ok ((w', b'), r) \<and> ok w' \<and> I b' \<and>
      sink w' @ content b' = sink w @ content b \<and>
      content b' = drop (case r of Ready (Inr n) \<Rightarrow> n | _ \<Rightarrow> 0) (content b)"
    by (rule writer_reader.poll_write_buf_cases [OF wr assms(3-5), where cx = cx]) (use assms(4) in auto)
  show "\<exists>w' b' r. poll_write_buf_vectored W B w b cx = Ok ((w', b'), r) \<and> ok w' \<and> I b' \<and>
      sink w' @ content b' = sink w @ content b"
    by (rule writer_reader.write_buf_vectored_Ok [OF wr assms(3-5)])
qed

theorem write_buf_witness:
  "\<exists>w' b' r. poll_write_buf_vectored trickle_writer (chain_buf slice_buf slice_buf) ([], [2]) (Chain [1, 2] [3]) () =
      Ok ((w', b'), r) \<and> fst w' @ chain_content (\<lambda>s. s) (\<lambda>s. s) b' = [1, 2, 3]"
  using write_buf_spec [OF tw.writer_axioms css.chain_impl,
      where w = "([], [2])" and b = "Chain [1, 2] [3]" and cx = "()"]
  by (fastforce simp: chain_inv_def chain_content_def usize_max_def)

text \<open>writing the whole of a \<open>Bytes\<close> or any other lawful buffer into a vector is always ready, appends its
  bytes and empties it, as long as the vector may be that long.\<close>

theorem write_all_vec:
  assumes "buf_impl B I content" "I b" "length v + length (content b) \<le> isize_max"
  shows "\<exists>b'. poll_write_all_buf vec_writer B v b cx =
      Some (Ok ((v @ content b, b'), Ready (Inr ()) :: ('e, unit) io_poll)) \<and> I b' \<and> content b' = []"
  by (rule buf_impl.vec_write_all_Ok [OF assms])

theorem write_all_vec_witness:
  "\<exists>b'. poll_write_all_buf vec_writer (chain_buf slice_buf slice_buf) [9] (Chain [1, 2] [3]) () =
      Some (Ok (([9, 1, 2, 3], b'), Ready (Inr ()) :: (unit, unit) io_poll))"
  using write_all_vec [OF css.chain_impl, where b = "Chain [1, 2] [3]" and v = "[9]" and cx = "()"]
  by (auto simp: chain_inv_def chain_content_def usize_max_def isize_max_def)

text \<open>\<open>poll_write\<close> of a \<open>&mut [u8]\<close> panics whenever the data is longer than the slice, though it
  computes the number of bytes that fit; otherwise it stores all of it.\<close>

theorem slice_write_panics:
  "slice_poll_write me buf cx =
    (if length buf \<le> length (cur_rest me)
     then Ok (\<lparr>cur_done = cur_done me @ map Some buf, cur_rest = drop (length buf) (cur_rest me)\<rparr>,
              Ready (Inr (length buf)))
     else Panic)"
  by (auto simp: slice_poll_write_def Let_def min_def)

text \<open>\<open>poll_read\<close> of a \<open>&[u8]\<close> moves as many bytes as the destination has room for, at most all, and
  reports how many; the destination may be any lawful writer.\<close>

theorem slice_read_spec:
  assumes "buf_mut_core M valid space written" "valid m"
  shows "\<exists>m'. slice_poll_read (remaining_mut M) (default_put_slice M) me m cx =
      Some (Ok ((drop (min (length me) (space m)) me, m'), Ready (Inr (min (length me) (space m))))) \<and>
    valid m' \<and> written m' = written m @ map Some (take (min (length me) (space m)) me)"
  using buf_mut_core.default_put_slice_Ok [OF assms, of "take (min (length me) (space m)) me"]
  by (auto simp: slice_poll_read_def buf_mut_core.remaining_law [OF assms] Let_def min_def split: if_splits)

theorem slice_read_witness:
  "\<exists>c. slice_poll_read (remaining_mut cursor_buf_mut) (default_put_slice cursor_buf_mut) [1, 2, 3]
      \<lparr>cur_done = [], cur_rest = [None, None]\<rparr> () = Some (Ok (([3], c), Ready (Inr 2) :: (unit, nat) io_poll)) \<and>
    cur_done c = [Some 1, Some 2]"
  using slice_read_spec [OF buf_mut_core_cursor,
      where m = "\<lparr>cur_done = [], cur_rest = [None, None]\<rparr>" and me = "[1, 2, 3]" and cx = "()"]
  by (simp add: numeral_2_eq_2)

end
