(* ===== verification/Growing.thy ===== *)
theory Growing
  imports Buf_Mut Bytes_Spec
begin

text \<open>
  The writers that grow: \<open>BufMut\<close> for \<open>BytesMut\<close> (\<open>src/bytes/bytes_mut.rs\<close>) and for \<open>Vec<u8>\<close>
  (\<open>src/bytes/buf_mut.rs\<close>). Their \<open>chunk_mut\<close> reserves 64 bytes when they are full, so they offer a chunk
  as long as the allocator lets them.
\<close>

subsection \<open>\<open>BytesMut\<close>\<close>

text \<open>The state of a \<open>BytesMut\<close> writer has the heap it lives on.\<close>

definition bm_buf_mut :: "(bytes_mut \<times> heap) buf_mut" where
  "bm_buf_mut = \<lparr>remaining_mut = (\<lambda>(b, h). bm_remaining_mut b),
     chunk_mut = (\<lambda>(b, h). rbind (bm_chunk_mut b h) (\<lambda>((b, p, n), h). Ok ((b, h), n))),
     write_chunk = (\<lambda>(b, h) xs. rbind (bm_write_chunk b xs h) (\<lambda>h. Ok (b, h))),
     advance_mut = (\<lambda>(b, h) n. rbind (bm_advance_mut b n) (\<lambda>b. Ok (b, h)))\<rparr>"

text \<open>
  The handle stays well-formed among the other live handles \<open>R\<close>, which show what they showed on the heap
  \<open>h0\<close> at the start.
\<close>

definition mut_valid :: "heap \<Rightarrow> handle list \<Rightarrow> bytes_mut \<times> heap \<Rightarrow> bool" where
  "mut_valid h0 R m \<longleftrightarrow> wf_heap (snd m) (HMut (fst m) # R) \<and> frame h0 (snd m) R \<and> length R < isize_max"

definition mut_space :: "bytes_mut \<times> heap \<Rightarrow> nat" where
  "mut_space m = isize_max - bm_len (fst m)"

definition mut_written :: "bytes_mut \<times> heap \<Rightarrow> u8 option list" where
  "mut_written m = map Some (view (snd m) (HMut (fst m)))"

definition mut_able :: "bytes_mut \<times> heap \<Rightarrow> bool" where
  "mut_able m \<longleftrightarrow> (bm_cap (fst m) = bm_len (fst m) \<longrightarrow> grow_ok (snd m) (fst m) 64)"

text \<open>\<open>chunk_mut\<close> reserves only when the buffer is full, and then has at least 64 bytes to offer.\<close>

lemma bm_chunk_mut_Ok:
  assumes wf: "wf_heap h (HMut b # R)" and len: "length R < isize_max" and able: "mut_able (b, h)"
  obtains c p h' where "bm_chunk_mut b h = Ok ((c, p, bm_cap c - bm_len c), h')" "wf_heap h' (HMut c # R)"
    "frame h h' R" "view h' (HMut c) = view h (HMut b)" "bm_len c = bm_len b" "bm_len c < bm_cap c"
    "bm_cap c \<le> isize_max"
proof -
  obtain c h' where c: "(if bm_cap b = bm_len b then bm_reserve b 64 h else Ok (b, h)) = Ok (c, h')"
    "wf_heap h' (HMut c # R)" "frame h h' R" "view h' (HMut c) = view h (HMut b)" "bm_len c < bm_cap c"
  proof (cases "bm_cap b = bm_len b")
    case True
    then obtain c h' where "bm_reserve b 64 h = Ok (c, h')" "reserved h b 64 R True c True h'"
      using bm_reserve_Ok [OF wf len, of 64] able by (auto simp: mut_able_def grow_ok_def)
    then show thesis using True that by (auto simp: reserved_def)
  next
    case False
    then show thesis using that [of b h] wf mut_owner(3) [OF wf] by simp
  qed
  note x = mut_owner [OF c(2)]
  have "bm_len c = bm_len b"
    using length_view [of h' "HMut c"] length_view [of h "HMut b"] wf c(2,4) by (simp add: wf_heap_def)
  moreover have "readable h' (bm_ptr c) (bm_len c)" using x(1,3,4) by (simp add: readable_def owner_ok_def)
  then have "bm_chunk_mut b h = Ok ((c, Ptr (ptr_blk (bm_ptr c)) (ptr_off (bm_ptr c) + bm_len c), bm_cap c - bm_len c), h')"
    using c(1) x(3) by (simp add: bm_chunk_mut_def spare_capacity_mut_def ptr_add_def usub_Ok)
  ultimately show thesis using that c x(4,5) by fastforce
qed

lemma mut_takes:
  assumes "mut_valid h0 R (b, h)"
  shows "takes bm_buf_mut (mut_valid h0 R) mut_space mut_written (b, h) (bm_cap b - bm_len b)"
  unfolding takes_def
proof (intro allI impI)
  fix xs :: "u8 list"
  assume fits: "length xs \<le> bm_cap b - bm_len b"
  have wf: "wf_heap h (HMut b # R)" and f0: "frame h0 h R" "length R < isize_max" using assms by (simp_all add: mut_valid_def)
  note x = mut_owner [OF wf]
  obtain h' where h': "bm_write_chunk b xs h = Ok h'" "wf_heap h' (HMut b # R)" "frame h h' R"
    "view h' (HMut b) = view h (HMut b)" and set:
    "\<forall>n\<le>length xs. wf_heap h' (HMut (b\<lparr>bm_len := bm_len b + n\<rparr>) # R) \<and>
       view h' (HMut (b\<lparr>bm_len := bm_len b + n\<rparr>)) = view h (HMut b) @ take n xs" by (rule spare_store [OF wf fits])
  have "\<exists>m2. advance_mut bm_buf_mut (b, h') n = Ok m2 \<and> mut_valid h0 R m2 \<and> mut_space m2 = mut_space (b, h) - n \<and>
      mut_written m2 = mut_written (b, h) @ map Some (take n xs)" if "n \<le> length xs" for n
  proof -
    have "bm_len b + n \<le> bm_cap b" "bm_len b + n \<le> usize_max"
      using that fits x(3,4,5) by (simp_all add: isize_max_def usize_max_def)
    then have "advance_mut bm_buf_mut (b, h') n = Ok (b\<lparr>bm_len := bm_len b + n\<rparr>, h')"
      by (simp add: bm_buf_mut_def bm_advance_mut_def bm_set_len_def uadd_Ok rassert_def)
    then show ?thesis
      using set that frame_trans [OF f0(1) h'(3)] f0(2) by (simp add: mut_valid_def mut_space_def mut_written_def)
  qed
  then show "\<exists>m1. write_chunk bm_buf_mut (b, h) xs = Ok m1 \<and> mut_valid h0 R m1 \<and> mut_space m1 = mut_space (b, h) \<and>
      mut_written m1 = mut_written (b, h) \<and>
      (\<forall>n\<le>length xs. \<exists>m2. advance_mut bm_buf_mut m1 n = Ok m2 \<and> mut_valid h0 R m2 \<and>
        mut_space m2 = mut_space (b, h) - n \<and> mut_written m2 = mut_written (b, h) @ map Some (take n xs))"
    using h' frame_trans [OF f0(1) h'(3)] f0(2)
    by (intro exI [of _ "(b, h')"]) (simp add: bm_buf_mut_def mut_valid_def mut_space_def mut_written_def)
qed

interpretation bmw: buf_mut_offer bm_buf_mut "mut_valid h0 R" mut_space mut_written mut_able for h0 R
proof (unfold_locales, goal_cases)
  case (1 m)
  then show ?case using mut_owner(3,4,5) [of "snd m" "fst m" R]
    by (cases m) (simp add: bm_buf_mut_def mut_valid_def mut_space_def bm_remaining_mut_def usub_Ok)
next
  case (2 m)
  obtain b h where m: "m = (b, h)" by (cases m)
  have wf: "wf_heap h (HMut b # R)" "length R < isize_max" and f0: "frame h0 h R" using 2(1) m by (simp_all add: mut_valid_def)
  obtain c p h' where c: "bm_chunk_mut b h = Ok ((c, p, bm_cap c - bm_len c), h')" "wf_heap h' (HMut c # R)"
    "frame h h' R" "view h' (HMut c) = view h (HMut b)" "bm_len c = bm_len b" "bm_len c < bm_cap c" "bm_cap c \<le> isize_max"
    using bm_chunk_mut_Ok [OF wf] 2(2) m by blast
  have v: "mut_valid h0 R (c, h')" using c(2) frame_trans [OF f0 c(3)] wf(2) by (simp add: mut_valid_def)
  show ?case
    unfolding offers_def
    using c v mut_takes [OF v] m
    by (intro exI [of _ "(c, h')"] exI [of _ "bm_cap c - bm_len c"]) (auto simp: bm_buf_mut_def mut_space_def mut_written_def)
qed

subsection \<open>\<open>Vec<u8>\<close>\<close>

text \<open>
  A vector as the bytes it holds and the cells of its spare capacity; \<open>Vec::reserve\<close> panics past
  \<open>isize::MAX\<close> and otherwise grants at least what was asked for, \<open>extra\<close> on top.
\<close>

record vec_buf =
  vb_bytes :: "u8 list"
  vb_spare :: "u8 option list"

definition vec_reserve :: "(nat \<Rightarrow> nat) \<Rightarrow> vec_buf \<Rightarrow> nat \<Rightarrow> vec_buf res" where
  "vec_reserve extra v n =
     (let len = length (vb_bytes v) in
      if n \<le> length (vb_spare v) then Ok v
      else if len + n + extra len \<le> isize_max then Ok (v\<lparr>vb_spare := replicate (n + extra len) None\<rparr>)
      else Panic)"

definition vec_chunk_mut :: "(nat \<Rightarrow> nat) \<Rightarrow> vec_buf \<Rightarrow> (vec_buf \<times> nat) res" where
  "vec_chunk_mut extra v =
     rbind (if vb_spare v = [] then vec_reserve extra v 64 else Ok v) (\<lambda>v. Ok (v, length (vb_spare v)))"

text \<open>\<open>set_len\<close> past the capacity, or over cells that were never written, is undefined behaviour.\<close>

definition vec_advance_mut :: "vec_buf \<Rightarrow> nat \<Rightarrow> vec_buf res" where
  "vec_advance_mut v cnt =
     (if cnt \<le> length (vb_spare v) \<and> None \<notin> set (take cnt (vb_spare v))
      then Ok \<lparr>vb_bytes = vb_bytes v @ map the (take cnt (vb_spare v)), vb_spare = drop cnt (vb_spare v)\<rparr> else UB)"

definition vec_buf_mut :: "(nat \<Rightarrow> nat) \<Rightarrow> vec_buf buf_mut" where
  "vec_buf_mut extra = \<lparr>remaining_mut = (\<lambda>v. usub isize_max (length (vb_bytes v))), chunk_mut = vec_chunk_mut extra,
     write_chunk = (\<lambda>v xs. rbind (rassert (length xs \<le> length (vb_spare v))) (\<lambda>_.
       Ok (v\<lparr>vb_spare := map Some xs @ drop (length xs) (vb_spare v)\<rparr>))),
     advance_mut = vec_advance_mut\<rparr>"

definition vec_valid :: "vec_buf \<Rightarrow> bool" where
  "vec_valid v \<longleftrightarrow> length (vb_bytes v) + length (vb_spare v) \<le> isize_max"

definition vec_able :: "(nat \<Rightarrow> nat) \<Rightarrow> vec_buf \<Rightarrow> bool" where
  "vec_able extra v \<longleftrightarrow>
     (vb_spare v = [] \<longrightarrow> length (vb_bytes v) + 64 + extra (length (vb_bytes v)) \<le> isize_max)"

interpretation vec_w: buf_mut_offer "vec_buf_mut extra" vec_valid "\<lambda>v. isize_max - length (vb_bytes v)"
  "\<lambda>v. map Some (vb_bytes v)" "vec_able extra" for extra
proof (unfold_locales, goal_cases)
  case (1 v)
  then show ?case by (simp add: vec_buf_mut_def vec_valid_def usub_Ok)
next
  case (2 v)
  have takes: "takes (vec_buf_mut extra) vec_valid (\<lambda>v. isize_max - length (vb_bytes v)) (\<lambda>v. map Some (vb_bytes v))
      w (length (vb_spare w))" if "vec_valid w" for w
    using that by (auto simp: takes_def vec_buf_mut_def vec_valid_def vec_advance_mut_def rassert_def take_map comp_def)
  obtain w where w: "chunk_mut (vec_buf_mut extra) v = Ok (w, length (vb_spare w))" "vec_valid w"
    "vb_bytes w = vb_bytes v" "vb_spare w \<noteq> []"
  proof (cases "vb_spare v = []")
    case True
    let ?w = "v\<lparr>vb_spare := replicate (64 + extra (length (vb_bytes v))) None\<rparr>"
    have "chunk_mut (vec_buf_mut extra) v = Ok (?w, length (vb_spare ?w))"
      using 2 True by (simp add: vec_buf_mut_def vec_chunk_mut_def vec_reserve_def vec_able_def Let_def)
    then show thesis by (rule that) (use 2 True in \<open>simp_all add: vec_valid_def vec_able_def\<close>)
  next
    case False
    then show thesis using that [of v] 2 by (simp add: vec_buf_mut_def vec_chunk_mut_def)
  qed
  then have "length (vb_spare w) \<le> isize_max - length (vb_bytes v)" "isize_max - length (vb_bytes v) \<noteq> 0"
    by (cases "vb_spare w"; simp add: vec_valid_def)+
  with w takes [OF w(2)] show ?case
    unfolding offers_def by (intro exI [of _ w] exI [of _ "length (vb_spare w)"]) simp
qed

end
