(* ===== verification/Tokio_IO.thy ===== *)
theory Tokio_IO
  imports Growing Async_IO
begin

text \<open>
  \<open>src/tokio/mod.rs\<close>: \<open>AsyncRead\<close> and \<open>AsyncWrite\<close> for tokio's \<open>TcpStream\<close> and \<open>UnixStream\<close>. Tokio itself is a
  parameter: the streams' own \<open>poll_read\<close> and writing methods, and \<open>ReadBuf\<close>, of which \<open>uninit n\<close> makes one over
  \<open>n\<close> uninitialised bytes, \<open>filled\<close> is the part that holds data, and \<open>stored\<close> what has been written into the
  memory under it. The two streams have the same code.
\<close>

record ('t, 'c, 'e, 'r) tokio_read =
  tk_uninit :: "nat \<Rightarrow> 'r"
  tk_stored :: "'r \<Rightarrow> u8 list"
  tk_filled :: "'r \<Rightarrow> u8 list"
  tk_poll_read :: "'t \<Rightarrow> 'c \<Rightarrow> 'r \<Rightarrow> (('t \<times> 'r) \<times> ('e, unit) io_poll) res"

text \<open>The chunk is lent to tokio, and the cursor moves over the filled part if the read succeeds.\<close>

definition stream_poll_read ::
  "('t, 'c, 'e, 'r) tokio_read \<Rightarrow> 'm buf_mut \<Rightarrow> 't \<Rightarrow> 'm \<Rightarrow> 'c \<Rightarrow> (('t \<times> 'm) \<times> ('e, nat) io_poll) res" where
  "stream_poll_read T M s buf cx =
     rbind (chunk_mut M buf) (\<lambda>(buf, len).
     rbind (tk_poll_read T s cx (tk_uninit T len)) (\<lambda>((s, read), r).
     rbind (write_chunk M buf (tk_stored T read)) (\<lambda>buf.
       case r of
         Pending \<Rightarrow> Ok ((s, buf), Pending)
       | Ready (Inl err) \<Rightarrow> Ok ((s, buf), Ready (Inl err))
       | Ready (Inr _) \<Rightarrow>
           (let read = length (tk_filled T read) in
            rbind (advance_mut M buf read) (\<lambda>buf. Ok ((s, buf), Ready (Inr read)))))))"

text \<open>Writing forwards to tokio's methods.\<close>

definition stream_writer :: "('t, 'c, 'e) async_write \<Rightarrow> ('t, 'c, 'e) async_write" where
  "stream_writer T = \<lparr>poll_write = (\<lambda>s buf cx. poll_write T s buf cx), poll_flush = (\<lambda>s cx. poll_flush T s cx),
     poll_shutdown = (\<lambda>s cx. poll_shutdown T s cx),
     poll_write_vectored = (\<lambda>s bufs cx. poll_write_vectored T s bufs cx),
     is_write_vectored = (\<lambda>s. is_write_vectored T s)\<rparr>"

text \<open>The \<open>UnixStream\<close> implementations.\<close>

definition unix_poll_read ::
  "('t, 'c, 'e, 'r) tokio_read \<Rightarrow> 'm buf_mut \<Rightarrow> 't \<Rightarrow> 'm \<Rightarrow> 'c \<Rightarrow> (('t \<times> 'm) \<times> ('e, nat) io_poll) res" where
  "unix_poll_read = stream_poll_read"

definition unix_writer :: "('t, 'c, 'e) async_write \<Rightarrow> ('t, 'c, 'e) async_write" where
  "unix_writer = stream_writer"

subsection \<open>What tokio documents\<close>

text \<open>
  \<open>got s\<close> are the bytes the stream has delivered so far and \<open>eof s\<close> tells that there will be no more. A read
  fills a prefix of what it initialises, inside the buffer; if it is pending or fails, no data was read; if it
  succeeds without data, that is the end of the stream or of the buffer.
\<close>

locale tokio_stream =
  fixes T :: "('t, 'c, 'e, 'r) tokio_read" and ok :: "'t \<Rightarrow> bool" and got :: "'t \<Rightarrow> u8 list" and eof :: "'t \<Rightarrow> bool"
  assumes read_law: "ok s \<Longrightarrow>
    \<exists>s' read r. tk_poll_read T s cx (tk_uninit T len) = Ok ((s', read), r) \<and> ok s' \<and>
      prefix (tk_filled T read) (tk_stored T read) \<and> length (tk_stored T read) \<le> len \<and>
      (case r of Ready (Inr _) \<Rightarrow> got s' = got s @ tk_filled T read \<and> (tk_filled T read = [] \<longrightarrow> len = 0 \<or> eof s)
       | _ \<Rightarrow> got s' = got s)"

locale tokio_reader = tokio_stream T ok got eof + buf_mut_offer M valid space written able
  for T :: "('t, 'c, 'e, 'r) tokio_read" and ok got eof and M :: "'m buf_mut" and valid space written able
begin

lemma stream_poll_read_Ok:
  assumes "ok s" "valid m" "able m"
  shows "\<exists>s' m' r xs. stream_poll_read T M s m cx = Ok ((s', m'), r) \<and> ok s' \<and> valid m' \<and>
    got s' = got s @ xs \<and> written m' = written m @ map Some xs \<and> space m' = space m - length xs \<and>
    (case r of Ready (Inr n) \<Rightarrow> n = length xs \<and> (n = 0 \<longrightarrow> space m = 0 \<or> eof s) | _ \<Rightarrow> xs = [])"
proof -
  obtain m1 k where m1: "chunk_mut M m = Ok (m1, k)" "k = 0 \<longleftrightarrow> space m = 0" "space m1 = space m"
    "written m1 = written m" "takes M valid space written m1 k"
    by (rule offersE [OF offer_law [OF assms(2,3)]])
  obtain s' read r where r: "tk_poll_read T s cx (tk_uninit T k) = Ok ((s', read), r)" "ok s'"
    "prefix (tk_filled T read) (tk_stored T read)" "length (tk_stored T read) \<le> k"
    "case r of Ready (Inr _) \<Rightarrow> got s' = got s @ tk_filled T read \<and> (tk_filled T read = [] \<longrightarrow> k = 0 \<or> eof s)
     | _ \<Rightarrow> got s' = got s"
    using read_law [OF assms(1)] by blast
  let ?xs = "tk_filled T read"
  obtain m2 where m2: "write_chunk M m1 (tk_stored T read) = Ok m2" "valid m2" "space m2 = space m1" "written m2 = written m1"
    and adv: "\<forall>n\<le>length (tk_stored T read). \<exists>m3. advance_mut M m2 n = Ok m3 \<and> valid m3 \<and> space m3 = space m1 - n \<and>
      written m3 = written m1 @ map Some (take n (tk_stored T read))"
    using m1(5) r(4) by (rule takesE)
  show ?thesis
  proof (cases "\<exists>u. r = Ready (Inr u)")
    case True
    have "length ?xs \<le> length (tk_stored T read)" "take (length ?xs) (tk_stored T read) = ?xs"
      using r(3) by (auto simp: prefix_def)
    then obtain m3 where m3: "advance_mut M m2 (length ?xs) = Ok m3" "valid m3" "space m3 = space m1 - length ?xs"
      "written m3 = written m1 @ map Some ?xs" using adv by metis
    have "stream_poll_read T M s m cx = Ok ((s', m3), Ready (Inr (length ?xs)))"
      using True m1(1) r(1) m2(1) m3(1) by (auto simp: stream_poll_read_def Let_def)
    then show ?thesis using True r(2,5) m1(2-4) m3 by auto
  next
    case False
    then have "stream_poll_read T M s m cx =
        Ok ((s', m2), case r of Ready (Inl e) \<Rightarrow> Ready (Inl e) | _ \<Rightarrow> Pending)" "got s' = got s"
      using m1(1) r(1,5) m2(1) by (auto simp: stream_poll_read_def split: poll.splits sum.splits)
    then show ?thesis using False r(2) m1(3,4) m2 by (auto split: poll.splits sum.splits)
  qed
qed

end

text \<open>The writing side is as lawful as tokio's, so that the provided methods work on it.\<close>

lemma stream_writer_law: "writer W ok sink lim \<Longrightarrow> writer (stream_writer W) ok sink lim"
  by (simp add: stream_writer_def writer_def)

subsection \<open>A concrete stream\<close>

text \<open>
  A pipe with a script of reads: \<open>Some n\<close> delivers at most \<open>n\<close> bytes of what is left, \<open>None\<close> is not ready. It
  zeroes a byte beyond those that it fills where it can.
\<close>

record pipe =
  pipe_got :: "u8 list"
  pipe_left :: "u8 list"
  pipe_script :: "nat option list"

record read_buf =
  rb_cap :: nat
  rb_stored :: "u8 list"
  rb_filled :: nat

definition pipe_poll_read :: "pipe \<Rightarrow> unit \<Rightarrow> read_buf \<Rightarrow> ((pipe \<times> read_buf) \<times> (unit, unit) io_poll) res" where
  "pipe_poll_read p cx rb =
     (case pipe_script p of
        Some n # script \<Rightarrow>
          (let xs = take (min (Suc n) (rb_cap rb)) (pipe_left p) in
           Ok ((\<lparr>pipe_got = pipe_got p @ xs, pipe_left = drop (length xs) (pipe_left p), pipe_script = script\<rparr>,
             rb\<lparr>rb_stored := take (rb_cap rb) (xs @ [0]), rb_filled := length xs\<rparr>), Ready (Inr ())))
      | None # script \<Rightarrow> Ok ((p\<lparr>pipe_script := script\<rparr>, rb), Pending)
      | [] \<Rightarrow> Ok ((p, rb), Ready (Inl (Other ()))))"

definition pipe_tokio :: "(pipe, unit, unit, read_buf) tokio_read" where
  "pipe_tokio = \<lparr>tk_uninit = (\<lambda>n. \<lparr>rb_cap = n, rb_stored = [], rb_filled = 0\<rparr>), tk_stored = rb_stored,
     tk_filled = (\<lambda>rb. take (rb_filled rb) (rb_stored rb)), tk_poll_read = pipe_poll_read\<rparr>"

lemma pipe_stream: "tokio_stream pipe_tokio (\<lambda>_. True) pipe_got (\<lambda>p. pipe_left p = [])"
proof (unfold_locales, goal_cases)
  case (1 p cx len)
  consider "pipe_script p = []" | ks where "pipe_script p = None # ks"
    | n ks where "pipe_script p = Some n # ks" by (metis list.exhaust option.exhaust)
  then show ?case
  proof cases
    case (3 n ks)
    let ?xs = "take (min (Suc n) len) (pipe_left p)"
    have "length ?xs \<le> len" by simp
    then have "take (length ?xs) (take len (?xs @ [0])) = ?xs" by (simp add: min_def)
    moreover have "?xs = [] \<longrightarrow> len = 0 \<or> pipe_left p = []" by auto
    ultimately show ?thesis
      using 3 by (auto simp: pipe_tokio_def pipe_poll_read_def Let_def take_is_prefix)
  qed (simp_all add: pipe_tokio_def pipe_poll_read_def)
qed

interpretation pipe_mut: tokio_reader pipe_tokio "\<lambda>_. True" pipe_got "\<lambda>p. pipe_left p = []"
  bm_buf_mut "mut_valid h0 R" mut_space mut_written mut_able for h0 R
  by (intro tokio_reader.intro pipe_stream bmw.buf_mut_offer_axioms)

interpretation pipe_vec: tokio_reader pipe_tokio "\<lambda>_. True" pipe_got "\<lambda>p. pipe_left p = []"
  "vec_buf_mut extra" vec_valid "\<lambda>v. isize_max - length (vb_bytes v)" "\<lambda>v. map Some (vb_bytes v)" "vec_able extra" for extra
  by (intro tokio_reader.intro pipe_stream vec_w.buf_mut_offer_axioms)

subsection \<open>Contracts\<close>

text \<open>C27: reading from a socket loses no byte and reports no byte that is not there: whatever tokio delivers is
  appended to the destination, no more, and the count is its number; pending and errors leave both sides as they
  were; a count of 0 means that the stream is at its end or that the destination has no room.\<close>

theorem stream_poll_read_spec:
  assumes "tokio_stream T ok got eof" "buf_mut_offer M valid space written able" "ok s" "valid m" "able m"
  shows "\<exists>s' m' r xs. stream_poll_read T M s m cx = Ok ((s', m'), r) \<and> ok s' \<and> valid m' \<and>
    got s' = got s @ xs \<and> written m' = written m @ map Some xs \<and> space m' = space m - length xs \<and>
    (case r of Ready (Inr n) \<Rightarrow> n = length xs \<and> (n = 0 \<longrightarrow> space m = 0 \<or> eof s) | _ \<Rightarrow> xs = [])"
  by (rule tokio_reader.stream_poll_read_Ok [OF tokio_reader.intro [OF assms(1,2)] assms(3-5)])

theorem stream_poll_read_witness:
  "\<exists>p b h r. stream_poll_read pipe_tokio bm_buf_mut \<lparr>pipe_got = [], pipe_left = [7, 8, 9], pipe_script = [Some 1]\<rparr>
      (demo_mut, demo_heap) () = Ok ((p, (b, h)), r) \<and> wf_heap h [HMut b] \<and> view h (HMut b) = [2, 3] @ pipe_got p"
proof -
  have "mut_valid demo_heap [] (demo_mut, demo_heap)" "mut_able (demo_mut, demo_heap)"
    using demo_mut_wf isize_big [of 0] by (simp_all add: mut_valid_def mut_able_def)
  from stream_poll_read_spec [OF pipe_stream bmw.buf_mut_offer_axioms TrueI this, where cx = "()" and
      s = "\<lparr>pipe_got = [], pipe_left = [7, 8, 9], pipe_script = [Some 1]\<rparr>"]
  show ?thesis by (auto simp: mut_valid_def mut_written_def)
qed

end
