(* ===== verification/Lossy_Fmt.thy ===== *)
theory Lossy_Fmt
  imports Tcio_Prelude
begin

text \<open>
  \<open>src/fmt.rs\<close>: the lossy formatting of bytes. What a formatter has been given to write is a list of
  ASCII codes; writing to it does not fail here, since the code only passes a failure on.
\<close>

definition is_ascii_graphic :: "u8 \<Rightarrow> bool" where
  "is_ascii_graphic b \<longleftrightarrow> 33 \<le> unat b \<and> unat b \<le> 126"

definition is_ascii_whitespace :: "u8 \<Rightarrow> bool" where
  "is_ascii_whitespace b \<longleftrightarrow> b = 32 \<or> b = 9 \<or> b = 10 \<or> b = 12 \<or> b = 13"

text \<open>The format \<open>{b:x}\<close>: lower-case hexadecimal without padding.\<close>

definition hex_digit :: "nat \<Rightarrow> u8" where
  "hex_digit n = word_of_nat (if n < 10 then 48 + n else 87 + n)"

definition hex_byte :: "u8 \<Rightarrow> u8 list" where
  "hex_byte b =
     (if unat b < 16 then [hex_digit (unat b)] else [hex_digit (unat b div 16), hex_digit (unat b mod 16)])"

definition lossy_byte :: "u8 \<Rightarrow> u8 list" where
  "lossy_byte b =
     (if b = 13 then [92, 114]
      else if b = 10 then [92, 110]
      else if is_ascii_graphic b \<or> is_ascii_whitespace b then [b]
      else [92, 120] @ hex_byte b)"

fun lossy_display :: "u8 list \<Rightarrow> u8 list" where
  "lossy_display [] = []"
| "lossy_display (b # bs) = lossy_byte b @ lossy_display bs"

definition lossy_debug :: "u8 list \<Rightarrow> u8 list" where
  "lossy_debug bs = [98, 34] @ lossy_display bs @ [34]"

definition printable :: "u8 \<Rightarrow> bool" where
  "printable b \<longleftrightarrow> 32 \<le> unat b \<and> unat b \<le> 126"

lemma hex_digit_printable: "n < 16 \<Longrightarrow> printable (hex_digit n)"
  by (simp add: hex_digit_def printable_def unat_of_nat)

lemma lossy_byte_set: "x \<in> set (lossy_byte b) \<Longrightarrow> printable x \<or> x = 9 \<or> x = 12"
proof -
  have "unat b < 256" using unsigned_less [of b] by simp
  then have "unat b div 16 < 16" "unat b mod 16 < 16" by simp_all
  then show "x \<in> set (lossy_byte b) \<Longrightarrow> printable x \<or> x = 9 \<or> x = 12"
    using hex_digit_printable [of "unat b"] hex_digit_printable [of "unat b div 16"]
      hex_digit_printable [of "unat b mod 16"]
    by (auto simp: lossy_byte_def hex_byte_def is_ascii_graphic_def is_ascii_whitespace_def printable_def
        split: if_splits)
qed

lemma lossy_display_set: "x \<in> set (lossy_display bs) \<Longrightarrow> printable x \<or> x = 9 \<or> x = 12"
  by (induction bs) (auto dest: lossy_byte_set)

lemma lossy_byte_printable: "printable b \<Longrightarrow> lossy_byte b = [b]"
proof -
  assume p: "printable b"
  then have "b \<noteq> 13" "b \<noteq> 10" by (auto simp: printable_def)
  moreover have "is_ascii_graphic b \<or> b = 32"
  proof (cases "unat b = 32")
    case True
    then have "b = 32" using word_eq_of_nat by fastforce
    then show ?thesis ..
  qed (use p in \<open>simp add: is_ascii_graphic_def printable_def\<close>)
  ultimately show ?thesis by (auto simp: lossy_byte_def is_ascii_whitespace_def)
qed

text \<open>the lossy form is safe to print: it never holds a line break or a control or non-ASCII byte other
  than tab and form feed, and it is the input itself where that was printable already.\<close>

theorem lossy_printable:
  "(\<forall>x\<in>set (lossy_debug bs). printable x \<or> x = 9 \<or> x = 12) \<and>
   ((\<forall>x\<in>set bs. printable x) \<longrightarrow> lossy_display bs = bs)"
proof
  show "\<forall>x\<in>set (lossy_debug bs). printable x \<or> x = 9 \<or> x = 12"
    using lossy_display_set by (auto simp: lossy_debug_def printable_def)
  show "(\<forall>x\<in>set bs. printable x) \<longrightarrow> lossy_display bs = bs"
    by (induction bs) (simp_all add: lossy_byte_printable)
qed

theorem lossy_printable_witness:
  "lossy_display [72, 105] = [72, 105] \<and> lossy_debug [13, 18] = [98, 34, 92, 114, 92, 120, 49, 50, 34]"
  using lossy_printable [of "[72, 105]"]
  by (simp add: printable_def lossy_debug_def lossy_byte_def hex_byte_def hex_digit_def is_ascii_graphic_def
      is_ascii_whitespace_def)

text \<open>the lossy form does not determine the bytes: the hexadecimal escapes are not padded, so an escaped
  byte followed by a digit looks like another escaped byte.\<close>

theorem lossy_ambiguous: "lossy_display [1, 50] = lossy_display [18]"
  by (simp add: lossy_byte_def hex_byte_def hex_digit_def is_ascii_graphic_def is_ascii_whitespace_def)

end
