(* ===== verification/Traits.thy ===== *)
theory Traits
  imports Bytes_Spec Lossy_Fmt Async_IO
begin

text \<open>
  The traits of the standard library that \<open>Bytes\<close> and \<open>BytesMut\<close> implement (\<open>src/bytes/bytes.rs\<close>,
  \<open>src/bytes/bytes_mut.rs\<close>): the conversions, writing through \<open>DerefMut\<close>, comparison and \<open>Debug\<close>; and the
  implementations of \<open>Buf\<close>, \<open>BufMut\<close> and \<open>AsyncWrite\<close> that forward to what a reference or a box points to.
\<close>

subsection \<open>Writing through \<open>DerefMut\<close>\<close>

text \<open>\<open>slice::from_raw_parts_mut\<close> asks for initialised memory that may be written.\<close>

definition bm_as_mut_slice :: "bytes_mut \<Rightarrow> heap \<Rightarrow> (ptr \<times> nat) res" where
  "bm_as_mut_slice b h =
     (if writable h (bm_ptr b) (bm_len b) \<and> None \<notin> set (cells h (bm_ptr b) (bm_len b))
      then Ok (bm_ptr b, bm_len b) else UB)"

text \<open>What a borrower does to it: \<open>b[i..i + n].copy_from_slice(xs)\<close>.\<close>

definition bm_store :: "bytes_mut \<Rightarrow> nat \<Rightarrow> u8 list \<Rightarrow> heap \<Rightarrow> heap res" where
  "bm_store b i xs h =
     rbind (bm_as_mut_slice b h) (\<lambda>(p, n).
     rbind (rassert (i + length xs \<le> n)) (\<lambda>_.
     rbind (ptr_add h p i) (\<lambda>p. copy_from h xs p)))"

subsection \<open>Conversions\<close>

text \<open>\<open>From\<close> for \<open>Bytes\<close>; a string converts as its bytes.\<close>

datatype bytes_source = From_Static ptr nat | From_Box vec | From_Vec vec | From_Mut bytes_mut

fun bytes_from :: "bytes_source \<Rightarrow> heap \<Rightarrow> (bytes \<times> heap) res" where
  "bytes_from (From_Static p n) h = Ok (bytes_from_static p n, h)"
| "bytes_from (From_Box v) h = Ok (bytes_from_box v, h)"
| "bytes_from (From_Vec v) h = bytes_from_vec v h"
| "bytes_from (From_Mut b) h = bm_freeze b h"

text \<open>\<open>From\<close> for \<open>BytesMut\<close>: a borrowed slice is copied.\<close>

datatype mut_source = From_Slice "u8 list" | From_Owned vec | From_Bytes bytes

fun bm_from :: "mut_source \<Rightarrow> heap \<Rightarrow> (bytes_mut \<times> heap) res" where
  "bm_from (From_Slice xs) h = rbind (slice_to_vec xs h) (\<lambda>(v, h). Ok (bm_from_vec v, h))"
| "bm_from (From_Owned v) h = Ok (bm_from_vec v, h)"
| "bm_from (From_Bytes b) h = bytes_into_mut b h"

definition vec_from_bytes :: "bytes \<Rightarrow> heap \<Rightarrow> (vec \<times> heap) res" where
  "vec_from_bytes b h = bytes_into_vec b h"

subsection \<open>Comparison and \<open>Debug\<close>\<close>

definition bytes_eq_slice :: "bytes \<Rightarrow> u8 list \<Rightarrow> heap \<Rightarrow> bool res" where
  "bytes_eq_slice b other h = rbind (bytes_as_slice b h) (\<lambda>xs. Ok (xs = other))"

definition bytes_eq_mut :: "bytes \<Rightarrow> bytes_mut \<Rightarrow> heap \<Rightarrow> bool res" where
  "bytes_eq_mut b other h = rbind (bytes_as_slice b h) (\<lambda>xs. rbind (bm_as_slice other h) (\<lambda>ys. Ok (xs = ys)))"

definition bm_eq_slice :: "bytes_mut \<Rightarrow> u8 list \<Rightarrow> heap \<Rightarrow> bool res" where
  "bm_eq_slice b other h = rbind (bm_as_slice b h) (\<lambda>xs. Ok (xs = other))"

definition bm_eq :: "bytes_mut \<Rightarrow> bytes_mut \<Rightarrow> heap \<Rightarrow> bool res" where
  "bm_eq b other h = rbind (bm_as_slice b h) (\<lambda>xs. rbind (bm_as_slice other h) (\<lambda>ys. Ok (xs = ys)))"

definition bm_eq_bytes :: "bytes_mut \<Rightarrow> bytes \<Rightarrow> heap \<Rightarrow> bool res" where
  "bm_eq_bytes b other h = rbind (bm_as_slice b h) (\<lambda>xs. rbind (bytes_as_slice other h) (\<lambda>ys. Ok (xs = ys)))"

definition bytes_debug :: "bytes \<Rightarrow> heap \<Rightarrow> u8 list res" where
  "bytes_debug b h = rbind (bytes_as_slice b h) (\<lambda>xs. Ok (lossy_debug xs))"

definition bm_debug :: "bytes_mut \<Rightarrow> heap \<Rightarrow> u8 list res" where
  "bm_debug b h = rbind (bm_as_slice b h) (\<lambda>xs. Ok (lossy_debug xs))"

subsection \<open>Forwarding\<close>

text \<open>\<open>&mut T\<close> and \<open>Box<T>\<close>: the state is that of the \<open>T\<close> pointed to.\<close>

definition fwd_buf :: "'b buf \<Rightarrow> 'b buf" where
  "fwd_buf B = \<lparr>remaining = (\<lambda>b. remaining B b), chunk = (\<lambda>b. chunk B b), advance = (\<lambda>b cnt. advance B b cnt),
     chunks_vectored = (\<lambda>b n. chunks_vectored B b n), copy_to_slice = (\<lambda>b n. copy_to_slice B b n)\<rparr>"

definition fwd_buf_mut :: "'m buf_mut \<Rightarrow> 'm buf_mut" where
  "fwd_buf_mut M = \<lparr>remaining_mut = (\<lambda>m. remaining_mut M m), chunk_mut = (\<lambda>m. chunk_mut M m),
     write_chunk = (\<lambda>m xs. write_chunk M m xs), advance_mut = (\<lambda>m cnt. advance_mut M m cnt)\<rparr>"

text \<open>\<open>put\<close> is not forwarded: through a reference it is the provided one, whatever the writer overrides.\<close>

definition fwd_put :: "'m buf_mut \<Rightarrow> 'b buf \<Rightarrow> 'm \<Rightarrow> 'b \<Rightarrow> ('m \<times> 'b) res option" where
  "fwd_put M B m src = default_put (fwd_buf_mut M) B m src"

definition fwd_writer :: "('w, 'c, 'e) async_write \<Rightarrow> ('w, 'c, 'e) async_write" where
  "fwd_writer W = \<lparr>poll_write = (\<lambda>w buf cx. poll_write W w buf cx), poll_flush = (\<lambda>w cx. poll_flush W w cx),
     poll_shutdown = (\<lambda>w cx. poll_shutdown W w cx),
     poll_write_vectored = (\<lambda>w bufs cx. poll_write_vectored W w bufs cx), is_write_vectored = (\<lambda>w. is_write_vectored W w)\<rparr>"

definition fwd_poll_read :: "('r \<Rightarrow> 'm \<Rightarrow> 'c \<Rightarrow> 'x) \<Rightarrow> 'r \<Rightarrow> 'm \<Rightarrow> 'c \<Rightarrow> 'x" where
  "fwd_poll_read read s buf cx = read s buf cx"

lemma fwd_same [simp]: "fwd_buf B = B" "fwd_buf_mut M = M" "fwd_writer W = W"
  by (simp_all add: fwd_buf_def fwd_buf_mut_def fwd_writer_def)

subsection \<open>What they do\<close>

lemma splice_cells:
  assumes "i + length xs \<le> n" "ptr_off p + n \<le> blk_size h (ptr_blk p)" "ptr_blk p < length (hp_blocks h)"
  shows "cells (store_cells h (Ptr (ptr_blk p) (ptr_off p + i)) xs) p n =
    take i (cells h p n) @ xs @ drop (i + length xs) (cells h p n)"
proof -
  let ?q = "Ptr (ptr_blk p) (ptr_off p + i)"
  let ?h = "store_cells h ?q xs" and ?r = "Ptr (ptr_blk p) (ptr_off p + (i + length xs))"
  have size: "ptr_off ?q + length xs \<le> blk_size h (ptr_blk ?q)" using assms(1,2) by simp
  have n: "n = i + length xs + (n - (i + length xs))" using assms(1) by simp
  have "cells ?h p i = cells h p i" by (rule cells_store_below) (use size in simp_all)
  moreover have "cells ?h ?q (length xs) = xs" by (rule cells_store_same) (use size assms(3) in simp_all)
  moreover have "cells ?h ?r (n - (i + length xs)) = cells h ?r (n - (i + length xs))"
    by (rule cells_store_above) (use size in simp_all)
  moreover have "cells h p i = take i (cells h p n)" by (rule cells_take) (use assms(1) in simp)
  moreover have "cells h ?r (n - (i + length xs)) = drop (i + length xs) (cells h p n)"
    using cells_drop [of h p "i + length xs" "n - (i + length xs)"] n by simp
  ultimately show ?thesis
    using cells_add [of ?h p "i + length xs" "n - (i + length xs)"] cells_add [of ?h p i "length xs"] n by simp
qed

lemma bytes_from_box_Ok:
  assumes wf: "wf_heap h (HVec v # R)" and box: "v_cap v = v_len v"
  shows "wf_heap h (HBytes (bytes_from_box v) # R)" "view h (HBytes (bytes_from_box v)) = view h (HVec v)"
proof -
  note v = wf_vec [OF wf]
  have heap: "heap_ok h" using wf by (simp add: wf_heap_def)
  have "owner_ok h (HBytes (bytes_from_box v))"
    using v(3) box by (simp add: owner_ok_def bytes_from_box_def new_unpromoted_tag)
  then show "wf_heap h (HBytes (bytes_from_box v) # R)"
    using wf_adopt [OF wf _ v(4), of "HBytes (bytes_from_box v)"]
    by (simp add: box_free_id [OF heap]) (simp add: bytes_from_box_def new_unpromoted_tag)
  show "view h (HBytes (bytes_from_box v)) = view h (HVec v)" by (simp add: view_def bytes_from_box_def)
qed

text \<open>C26: what is written through a \<open>BytesMut\<close> lands in its own bytes and is never seen through any other live
  handle, not even those split off the same allocation; writing out of bounds panics.\<close>

theorem bm_store_spec:
  assumes "wf_heap h (HMut b # R)"
  shows "if i + length xs \<le> bm_len b
    then \<exists>h'. bm_store b i xs h = Ok h' \<and> wf_heap h' (HMut b # R) \<and> frame h h' R \<and>
           view h' (HMut b) = take i (view h (HMut b)) @ xs @ drop (i + length xs) (view h (HMut b))
    else bm_store b i xs h = Panic"
proof -
  note x = mut_owner [OF assms]
  let ?p = "Ptr (ptr_blk (bm_ptr b)) (ptr_off (bm_ptr b) + i)"
  let ?h = "store_cells h ?p (map Some xs)"
  have slice: "bm_as_mut_slice b h = Ok (bm_ptr b, bm_len b)"
    using x(1,3) by (auto simp: bm_as_mut_slice_def writable_def readable_def owner_ok_def)
  show ?thesis
  proof (cases "i + length xs \<le> bm_len b")
    case True
    have fits: "ptr_off (bm_ptr b) + bm_len b \<le> blk_size h (ptr_blk (bm_ptr b))" using x(3,4) by linarith
    note w = write_Ok [OF assms, of "map Some xs" ?p]
    have w': "copy_from h xs ?p = Ok ?h" "wf_heap ?h (HMut b # R)" "frame h ?h R"
      using w True x(2,3) by (simp_all add: copy_from_def)
    have blk: "ptr_blk (bm_ptr b) < length (hp_blocks h)" using x(1) by (simp add: owner_ok_def blk_ok_def)
    have "ptr_off (bm_ptr b) + i \<le> blk_size h (ptr_blk (bm_ptr b))" using fits True by linarith
    then have "readable h (bm_ptr b) i" using x(1) by (simp add: readable_def owner_ok_def)
    then have "bm_store b i xs h = Ok ?h" using slice True w'(1) by (simp add: bm_store_def rassert_def ptr_add_def)
    moreover have "view ?h (HMut b) = take i (view h (HMut b)) @ xs @ drop (i + length xs) (view h (HMut b))"
      using splice_cells [of i "map Some xs" "bm_len b" "bm_ptr b" h] True fits blk
      by (simp add: view_def take_map drop_map comp_def)
    ultimately show ?thesis using True w'(2,3) by simp
  next
    case False
    then show ?thesis using slice by (simp add: bm_store_def rassert_def)
  qed
qed

theorem bm_store_witness:
  "\<exists>h. bm_store (demo_half 0) 1 [9] demo_halves = Ok h \<and> view h (HMut (demo_half 0)) = [1, 9] \<and>
     view h (HMut (demo_half 1)) = [3, 4]"
  using bm_store_spec [OF demo_halves_wf, of 1 "[9]"] by (auto simp: frame_def)

text \<open>What a source owns, shows, and has to satisfy.\<close>

fun source_owned :: "bytes_source \<Rightarrow> handle list" where
  "source_owned (From_Static p n) = []" | "source_owned (From_Box v) = [HVec v]"
| "source_owned (From_Vec v) = [HVec v]" | "source_owned (From_Mut b) = [HMut b]"

fun source_shows :: "heap \<Rightarrow> bytes_source \<Rightarrow> u8 list" where
  "source_shows h (From_Static p n) = view h (HBytes (bytes_from_static p n))"
| "source_shows h (From_Box v) = view h (HVec v)"
| "source_shows h (From_Vec v) = view h (HVec v)"
| "source_shows h (From_Mut b) = view h (HMut b)"

fun source_ok :: "heap \<Rightarrow> bytes_source \<Rightarrow> bool" where
  "source_ok h (From_Static p n) \<longleftrightarrow> handle_ok h (HBytes (bytes_from_static p n))"
| "source_ok h (From_Box v) \<longleftrightarrow> v_cap v = v_len v"
| "source_ok h _ \<longleftrightarrow> True"

text \<open>every \<open>Bytes::from\<close> takes the bytes over without a copy, from static data, a box, a vector or a
  \<open>BytesMut\<close>, and becomes the owner of what the source owned.\<close>

theorem bytes_from_spec:
  assumes "wf_heap h (source_owned s @ R)" "source_ok h s" "box_room h"
  shows "\<exists>b h'. bytes_from s h = Ok (b, h') \<and> wf_heap h' (HBytes b # R) \<and> quiet h h' \<and>
    view h' (HBytes b) = source_shows h s"
proof (cases s)
  case (From_Static p n)
  then have "wf_heap h (HBytes (bytes_from_static p n) # R)"
    using assms(1,2) by (intro wf_null_add) (simp_all add: bytes_from_static_def)
  then show ?thesis using From_Static by simp
next
  case (From_Box v)
  then show ?thesis using bytes_from_box_Ok [of h v R] assms(1,2) by simp
next
  case (From_Vec v)
  then show ?thesis using bytes_from_vec_Ok [of h v R] assms(1,3) by simp
next
  case (From_Mut b)
  then show ?thesis using bm_freeze_Ok [of h b R] assms(1,3) by simp
qed

text \<open>converting back and forth loses nothing: \<open>Bytes::from(BytesMut::from(b))\<close> and \<open>Bytes::from(Vec::from(b))\<close>
  show the bytes that \<open>b\<close> showed, whether \<open>b\<close> was static, alone or shared, and no other handle notices.\<close>

theorem bytes_conversion_roundtrip:
  assumes "wf_heap h (HBytes b # R)" "length R \<le> isize_max" "alloc_ok h (bs_len b)"
  shows "(\<exists>m h1. bm_from (From_Bytes b) h = Ok (m, h1) \<and> (box_room h1 \<longrightarrow>
      (\<exists>c h2. bytes_from (From_Mut m) h1 = Ok (c, h2) \<and> wf_heap h2 (HBytes c # R) \<and> frame h h2 R \<and>
        view h2 (HBytes c) = view h (HBytes b)))) \<and>
    (\<exists>v h1. vec_from_bytes b h = Ok (v, h1) \<and> (box_room h1 \<longrightarrow>
      (\<exists>c h2. bytes_from (From_Vec v) h1 = Ok (c, h2) \<and> wf_heap h2 (HBytes c # R) \<and> frame h h2 R \<and>
        view h2 (HBytes c) = view h (HBytes b))))"
proof
  obtain m h1 where m: "bytes_into_mut b h = Ok (m, h1)" "wf_heap h1 (HMut m # R)" "frame h h1 R"
    "view h1 (HMut m) = view h (HBytes b)" using bytes_into_mut_Ok [OF assms] by blast
  then show "\<exists>m h1. bm_from (From_Bytes b) h = Ok (m, h1) \<and> (box_room h1 \<longrightarrow>
      (\<exists>c h2. bytes_from (From_Mut m) h1 = Ok (c, h2) \<and> wf_heap h2 (HBytes c # R) \<and> frame h h2 R \<and>
        view h2 (HBytes c) = view h (HBytes b)))"
    using bm_freeze_Ok [OF m(2)] frame_trans [OF m(3) quiet_frame] by fastforce
  obtain v h1 where v: "bytes_into_vec b h = Ok (v, h1)" "wf_heap h1 (HVec v # R)" "frame h h1 R"
    "view h1 (HVec v) = view h (HBytes b)" using bytes_into_vec_Ok [OF assms] by blast
  then show "\<exists>v h1. vec_from_bytes b h = Ok (v, h1) \<and> (box_room h1 \<longrightarrow>
      (\<exists>c h2. bytes_from (From_Vec v) h1 = Ok (c, h2) \<and> wf_heap h2 (HBytes c # R) \<and> frame h h2 R \<and>
        view h2 (HBytes c) = view h (HBytes b)))"
    using bytes_from_vec_Ok [OF v(2)] frame_trans [OF v(3) quiet_frame]
    by (fastforce simp: vec_from_bytes_def)
qed

theorem bytes_conversion_witness:
  "\<exists>m h. bm_from (From_Bytes demo_bytes) demo_heap = Ok (m, h) \<and> (box_room h \<longrightarrow>
     (\<exists>c h2. bytes_from (From_Mut m) h = Ok (c, h2) \<and> view h2 (HBytes c) = [2, 3, 4]))"
  using bytes_conversion_roundtrip [OF demo_wf] demo_room(3) [of 3] by fastforce

text \<open>every comparison compares the bytes shown, and \<open>Debug\<close> formats them.\<close>

theorem compare_spec:
  assumes "wf_heap h hs" "HBytes b \<in> set hs" "HMut m \<in> set hs"
  shows "bytes_eq_slice b xs h = Ok (view h (HBytes b) = xs) \<and> bm_eq_slice m xs h = Ok (view h (HMut m) = xs) \<and>
    bytes_eq_mut b m h = Ok (view h (HBytes b) = view h (HMut m)) \<and>
    bm_eq_bytes m b h = Ok (view h (HMut m) = view h (HBytes b)) \<and> bm_eq m m h = Ok True \<and>
    bytes_debug b h = Ok (lossy_debug (view h (HBytes b))) \<and> bm_debug m h = Ok (lossy_debug (view h (HMut m)))"
proof -
  have "handle_ok h (HBytes b)" "handle_ok h (HMut m)" using assms by (auto simp: wf_heap_def)
  then show ?thesis
    by (simp add: bytes_as_slice_Ok bm_as_slice_Ok bytes_eq_slice_def bm_eq_slice_def bytes_eq_mut_def bm_eq_bytes_def
        bm_eq_def bytes_debug_def bm_debug_def)
qed

end
