(* ===== verification/Either_Forward.thy ===== *)
theory Either_Forward
  imports Futures
begin

text \<open>
  The other traits that \<open>Either\<close> and \<open>EitherMap\<close> forward (\<open>src/either/either.rs\<close>, \<open>src/either/either_map.rs\<close>):
  a method that only reads is an observation of the value held, one that takes \<open>&mut self\<close> a function of it.
\<close>

subsection \<open>Observations\<close>

fun either_get :: "('l \<Rightarrow> 'o) \<Rightarrow> ('r \<Rightarrow> 'o) \<Rightarrow> ('l, 'r) either \<Rightarrow> 'o" where
  "either_get f g (Left l) = f l" | "either_get f g (Right r) = g r"

fun either_map_get :: "('l \<Rightarrow> 'o) \<Rightarrow> ('r \<Rightarrow> 'o) \<Rightarrow> ('l, 'r) either_map \<Rightarrow> 'o" where
  "either_map_get f g (MLeft l) = f l" | "either_map_get f g (MRight r) = g r"

text \<open>\<open>fmt::Display\<close>: the text that is written to the formatter \<open>f\<close>, or its error.\<close>

definition either_fmt :: "('l \<Rightarrow> 'f \<Rightarrow> 'f option) \<Rightarrow> ('r \<Rightarrow> 'f \<Rightarrow> 'f option) \<Rightarrow> ('l, 'r) either \<Rightarrow> 'f \<Rightarrow> 'f option" where
  "either_fmt fl fr e f = either_get (\<lambda>l. fl l f) (\<lambda>r. fr r f) e"

definition either_map_fmt :: "('l \<Rightarrow> 'f \<Rightarrow> 'f option) \<Rightarrow> ('r \<Rightarrow> 'f \<Rightarrow> 'f option) \<Rightarrow> ('l, 'r) either_map \<Rightarrow> 'f \<Rightarrow> 'f option" where
  "either_map_fmt fl fr e f = either_map_get (\<lambda>l. fl l f) (\<lambda>r. fr r f) e"

definition either_deref :: "('l \<Rightarrow> 't) \<Rightarrow> ('r \<Rightarrow> 't) \<Rightarrow> ('l, 'r) either \<Rightarrow> 't" where
  "either_deref = either_get"

text \<open>\<open>deref_mut\<close> lends the target out; \<open>f\<close> is what the borrower does to it.\<close>

definition either_deref_mut ::
  "(('t \<Rightarrow> 't) \<Rightarrow> 'l \<Rightarrow> 'l) \<Rightarrow> (('t \<Rightarrow> 't) \<Rightarrow> 'r \<Rightarrow> 'r) \<Rightarrow> ('t \<Rightarrow> 't) \<Rightarrow> ('l, 'r) either \<Rightarrow> ('l, 'r) either" where
  "either_deref_mut dl dr f e = (case e of Left l \<Rightarrow> Left (dl f l) | Right r \<Rightarrow> Right (dr f r))"

definition either_size_hint ::
  "('l \<Rightarrow> nat \<times> nat option) \<Rightarrow> ('r \<Rightarrow> nat \<times> nat option) \<Rightarrow> ('l, 'r) either \<Rightarrow> nat \<times> nat option" where
  "either_size_hint = either_get"

definition either_map_size_hint ::
  "('l \<Rightarrow> nat \<times> nat option) \<Rightarrow> ('r \<Rightarrow> nat \<times> nat option) \<Rightarrow> ('l, 'r) either_map \<Rightarrow> nat \<times> nat option" where
  "either_map_size_hint = either_map_get"

definition either_source :: "('l \<Rightarrow> 'e option) \<Rightarrow> ('r \<Rightarrow> 'e option) \<Rightarrow> ('l, 'r) either \<Rightarrow> 'e option" where
  "either_source = either_get"

definition either_map_source :: "('l \<Rightarrow> 'e option) \<Rightarrow> ('r \<Rightarrow> 'e option) \<Rightarrow> ('l, 'r) either_map \<Rightarrow> 'e option" where
  "either_map_source = either_map_get"

text \<open>\<open>AsRef<[u8]>\<close> and \<open>AsRef<str>\<close>.\<close>

definition either_as_ref :: "('l \<Rightarrow> u8 list) \<Rightarrow> ('r \<Rightarrow> u8 list) \<Rightarrow> ('l, 'r) either \<Rightarrow> u8 list" where
  "either_as_ref = either_get"

definition either_map_as_ref :: "('l \<Rightarrow> u8 list) \<Rightarrow> ('r \<Rightarrow> u8 list) \<Rightarrow> ('l, 'r) either_map \<Rightarrow> u8 list" where
  "either_map_as_ref = either_map_get"

text \<open>\<open>io::Read\<close> and \<open>io::Write\<close> of \<open>EitherMap\<close>.\<close>

fun either_map_io ::
  "('l \<Rightarrow> 'a \<Rightarrow> 'l \<times> 'b) \<Rightarrow> ('r \<Rightarrow> 'a \<Rightarrow> 'r \<times> 'b) \<Rightarrow> ('l, 'r) either_map \<Rightarrow> 'a \<Rightarrow> ('l, 'r) either_map \<times> 'b" where
  "either_map_io fl fr (MLeft l) x = (case fl l x of (l', y) \<Rightarrow> (MLeft l', y))"
| "either_map_io fl fr (MRight r) x = (case fr r x of (r', y) \<Rightarrow> (MRight r', y))"

subsection \<open>Laws that survive\<close>

text \<open>
  The contract of \<open>size_hint\<close>: an iterator that ends yields at least the lower and at most the upper bound of
  items. \<open>drain\<close> with one more turn than it yields items has reached the end.
\<close>

definition hint_law :: "('s \<Rightarrow> 's \<times> 'i option) \<Rightarrow> ('s \<Rightarrow> nat \<times> nat option) \<Rightarrow> 's \<Rightarrow> bool" where
  "hint_law nxt hint s \<longleftrightarrow>
     (\<forall>n. (length (drain nxt n s) < n \<longrightarrow> fst (hint s) \<le> length (drain nxt n s)) \<and>
       (\<forall>hi. snd (hint s) = Some hi \<longrightarrow> length (drain nxt n s) \<le> hi))"

lemma drain_either_next:
  "drain (either_next nl nr) n (Left l) = drain nl n l" "drain (either_next nl nr) n (Right r) = drain nr n r"
  by (induction n arbitrary: l r) (auto split: prod.splits option.splits)

lemma either_hint_law:
  "hint_law (either_next nl nr) (either_size_hint hl hr) (Left l) \<longleftrightarrow> hint_law nl hl l"
  "hint_law (either_next nl nr) (either_size_hint hl hr) (Right r) \<longleftrightarrow> hint_law nr hr r"
  "hint_law (either_map_next nl nr') (either_map_size_hint hl hr') (MLeft l) \<longleftrightarrow> hint_law nl hl l"
  "hint_law (either_map_next nl nr') (either_map_size_hint hl hr') (MRight r') \<longleftrightarrow> hint_law nr' hr' r'"
  by (simp_all add: hint_law_def drain_either_next drain_either either_size_hint_def either_map_size_hint_def)

text \<open>The lens laws of \<open>deref\<close> and \<open>deref_mut\<close>: what the borrower writes is what is read, and the side stays.\<close>

lemma either_deref_law:
  assumes "\<And>f l. gl (dl f l) = f (gl l)" "\<And>f r. gr (dr f r) = f (gr r)"
  shows "either_deref gl gr (either_deref_mut dl dr f e) = f (either_deref gl gr e)"
  using assms by (cases e) (simp_all add: either_deref_def either_deref_mut_def)

text \<open>A sequence of calls to the value held.\<close>

fun calls :: "('s \<Rightarrow> 'a \<Rightarrow> 's \<times> 'b) \<Rightarrow> 's \<Rightarrow> 'a list \<Rightarrow> 'b list" where
  "calls f s [] = []"
| "calls f s (x # xs) = (case f s x of (s', y) \<Rightarrow> y # calls f s' xs)"

lemma calls_either:
  "calls (either_io fl fr) (Left l) xs = calls fl l xs" "calls (either_io fl fr) (Right r) xs = calls fr r xs"
  "calls (either_map_io fl fr) (MLeft l) xs = calls fl l xs" "calls (either_map_io fl fr) (MRight r) xs = calls fr r xs"
  by (induction xs arbitrary: l r) (auto split: prod.splits)

text \<open>an \<open>Either\<close> of two iterators with honest size hints has an honest size hint.\<close>

theorem either_size_hint_honest:
  assumes "\<And>l. hint_law nl hl l" "\<And>r. hint_law nr hr r"
  shows "hint_law (either_next nl nr) (either_size_hint hl hr) e"
  using assms by (cases e) (simp_all add: either_hint_law)

end
