(* ===== verification/Num_Tests.thy ===== *)
theory Num_Tests
  imports Num_Parse
begin

text \<open>
  The unit tests of \<open>src/num/num.rs\<close>, run on the model: each assertion is a conjunct.
\<close>

definition ascii :: "string \<Rightarrow> u8 list" where
  "ascii s = map of_char s"

definition U64_MAX_BUF :: "u8 list" where
  "U64_MAX_BUF = ascii ''18446744073709551615''"

definition I64_MAX_BUF :: "u8 list" where
  "I64_MAX_BUF = ascii ''+9223372036854775807''"

definition I64_MIN_BUF :: "u8 list" where
  "I64_MIN_BUF = ascii ''-9223372036854775808''"

definition test_atou :: bool where
  "test_atou \<longleftrightarrow>
     atou (ascii ''0'') = Some 0 \<and>
     atou (ascii ''1'') = Some 1 \<and>
     atou (ascii ''255'') = Some 255 \<and>
     atou (ascii ''1024'') = Some 1024 \<and>
     atou (ascii ''9999999999999999999'') = Some 9999999999999999999 \<and>
     atou U64_MAX_BUF = Some 18446744073709551615 \<and>
     atou (ascii ''00000000000000000015'') = Some 15 \<and>
     atou (ascii ''00000000000000000006'') = Some 6 \<and>
     atou [] = None \<and>
     atou (replicate 5 0) = None \<and>
     atou (replicate 5 255) = None \<and>
     atou (replicate U64_MAX_CH 0) = None \<and>
     atou (replicate U64_MAX_CH 255) = None \<and>
     atou (ascii ''-1'') = None \<and>
     atou (ascii ''foo'') = None \<and>
     atou (ascii ''184467440737095516155'') = None \<and>
     atou (ascii ''18446744073709551616'') = None \<and>
     atou (ascii ''28446744073709551615'') = None \<and>
     atou (ascii ''19446744073709551615'') = None \<and>
     atou (ascii ''18546744073709551615'') = None \<and>
     atou (ascii ''99999999999999999999'') = None"

definition test_wrapping_atou :: bool where
  "test_wrapping_atou \<longleftrightarrow>
     wrapping_atou (ascii ''0'') = Some 0 \<and>
     wrapping_atou (ascii ''1'') = Some 1 \<and>
     wrapping_atou (ascii ''255'') = Some 255 \<and>
     wrapping_atou (ascii ''1024'') = Some 1024 \<and>
     wrapping_atou (ascii ''9999999999999999999'') = Some 9999999999999999999 \<and>
     wrapping_atou U64_MAX_BUF = Some 18446744073709551615 \<and>
     wrapping_atou (ascii ''00000000000000000015'') = Some 15 \<and>
     wrapping_atou (ascii ''00000000000000000006'') = Some 6 \<and>
     wrapping_atou [] = Some 0 \<and>
     wrapping_atou (ascii ''184467440737095516155'') \<noteq> None \<and>
     wrapping_atou (ascii ''18446744073709551616'') \<noteq> None \<and>
     wrapping_atou (ascii ''28446744073709551615'') \<noteq> None \<and>
     wrapping_atou (ascii ''19446744073709551615'') \<noteq> None \<and>
     wrapping_atou (ascii ''18546744073709551615'') \<noteq> None \<and>
     wrapping_atou (ascii ''99999999999999999999'') \<noteq> None \<and>
     wrapping_atou (replicate 5 0) = None \<and>
     wrapping_atou (replicate 5 255) = None \<and>
     wrapping_atou (replicate U64_MAX_CH 0) = None \<and>
     wrapping_atou (replicate U64_MAX_CH 255) = None \<and>
     wrapping_atou (ascii ''-1'') = None \<and>
     wrapping_atou (ascii ''foo'') = None"

definition test_atoi :: bool where
  "test_atoi \<longleftrightarrow>
     atoi (ascii ''0'') = Some 0 \<and>
     atoi (ascii ''+0'') = Some 0 \<and>
     atoi (ascii ''-0'') = Some 0 \<and>
     atoi (ascii ''1'') = Some 1 \<and>
     atoi (ascii ''+1'') = Some 1 \<and>
     atoi (ascii ''-1'') = Some (- 1) \<and>
     atoi (ascii ''255'') = Some 255 \<and>
     atoi (ascii ''+255'') = Some 255 \<and>
     atoi (ascii ''-255'') = Some (- 255) \<and>
     atoi (ascii ''1024'') = Some 1024 \<and>
     atoi (ascii ''+1024'') = Some 1024 \<and>
     atoi (ascii ''-1024'') = Some (- 1024) \<and>
     atoi (ascii ''0000000000000000008'') = Some 8 \<and>
     atoi (ascii ''999999999999999999'') = Some 999999999999999999 \<and>
     atoi (ascii ''+999999999999999999'') = Some 999999999999999999 \<and>
     atoi (ascii ''-999999999999999999'') = Some (- 999999999999999999) \<and>
     atoi I64_MAX_BUF = Some 9223372036854775807 \<and>
     atoi I64_MIN_BUF = Some (- 9223372036854775808) \<and>
     atoi (ascii ''-9223372036854775807'') = Some (- 9223372036854775807) \<and>
     atoi (ascii ''-000000000000000015'') = Some (- 15) \<and>
     atoi [] = None \<and>
     atoi (replicate 5 0) = None \<and>
     atoi (replicate 5 255) = None \<and>
     atoi (replicate I64_MAX_CH 0) = None \<and>
     atoi (replicate I64_MAX_CH 255) = None \<and>
     atoi (ascii ''foo'') = None \<and>
     atoi (ascii ''-'') = None \<and>
     atoi (ascii ''+'') = None \<and>
     atoi (ascii ''92233720368547758077'') = None \<and>
     atoi (ascii ''9223372036854775808'') = None \<and>
     atoi (ascii ''9323372036854775807'') = None \<and>
     atoi (ascii ''9233372036854775807'') = None \<and>
     atoi (ascii ''9224372036854775807'') = None \<and>
     atoi (ascii ''9223472036854775807'') = None \<and>
     atoi (ascii ''9223382036854775807'') = None"

lemma replicate_5: "replicate 5 x = [x, x, x, x, x]"
  by (simp add: numeral_eq_Suc)

lemmas num_test_simps = replicate_5 ascii_def U64_MAX_BUF_def I64_MAX_BUF_def I64_MIN_BUF_def U64_MAX_CH_def I64_MAX_CH_def
  atou_def atou_step_def checked_mul_u64_def checked_add_u64_def wrapping_atou_def wrapping_atou_step_def
  atoi_def atoi_step_def atoi_sign_def checked_mul_i64_def checked_add_i64_def in_i64_def Let_def

lemma test_atou: test_atou
  by (simp add: test_atou_def num_test_simps)

lemma test_wrapping_atou: test_wrapping_atou
  by (simp add: test_wrapping_atou_def num_test_simps)

lemma test_atoi: test_atoi
  by (simp add: test_atoi_def num_test_simps)

end
