(* ===== verification/Shorthands.thy ===== *)
theory Shorthands
  imports Traits Byte_Str Uninit_Slice Growing Chain_Take Num_Tests
begin

text \<open>
  The remaining methods of the public interface, each a few words on top of those modelled before: slicing
  with ranges and references, the trait implementations that borrow a handle, the \<open>i8\<close> integers, the
  writer over \<open>MaybeUninit\<close> cells, the constructors of the adaptors, and what is formatted.
\<close>

subsection \<open>\<open>Bytes\<close>\<close>

definition bytes_as_ptr :: "bytes \<Rightarrow> ptr" where
  "bytes_as_ptr b = bs_ptr b"

definition bytes_len :: "bytes \<Rightarrow> nat" where
  "bytes_len b = bs_len b"

definition bytes_slice :: "bytes \<Rightarrow> bound \<times> bound \<Rightarrow> heap \<Rightarrow> ((bytes \<times> bytes) \<times> heap) res" where
  "bytes_slice b rng h = slice_bound b (fst rng) (snd rng) h"

text \<open>\<open>sl\<close>, the code's \<open>subset\<close>, is a borrowed slice: its pointer and its length.\<close>

definition bytes_slice_ref :: "bytes \<Rightarrow> ptr \<times> nat \<Rightarrow> heap \<Rightarrow> ((bytes \<times> bytes) \<times> heap) res" where
  "bytes_slice_ref b sl h = slice_from_raw b (ptr_addr h (fst sl)) (snd sl) h"

definition bytes_drop_trait :: "bytes \<Rightarrow> heap \<Rightarrow> heap res" where
  "bytes_drop_trait b h = bytes_drop b h"

definition bytes_default :: "heap \<Rightarrow> bytes" where
  "bytes_default h = bytes_new h"

definition bytes_clone :: "bytes \<Rightarrow> heap \<Rightarrow> ((bytes \<times> bytes) \<times> heap) res" where
  "bytes_clone b h = clone_inner b h"

definition bytes_as_ref :: "bytes \<Rightarrow> heap \<Rightarrow> u8 list res" where
  "bytes_as_ref b h = bytes_as_slice b h"

definition bytes_deref :: "bytes \<Rightarrow> heap \<Rightarrow> u8 list res" where
  "bytes_deref b h = bytes_as_slice b h"

subsection \<open>\<open>BytesMut\<close>\<close>

definition bm_as_ptr :: "bytes_mut \<Rightarrow> ptr" where
  "bm_as_ptr b = bm_ptr b"

definition bm_as_mut_ptr :: "bytes_mut \<Rightarrow> ptr" where
  "bm_as_mut_ptr b = bm_ptr b"

definition bm_length :: "bytes_mut \<Rightarrow> nat" where
  "bm_length b = bm_len b"

definition bm_is_empty :: "bytes_mut \<Rightarrow> bool" where
  "bm_is_empty b \<longleftrightarrow> bm_len b = 0"

definition bm_capacity :: "bytes_mut \<Rightarrow> nat" where
  "bm_capacity b = bm_cap b"

definition bm_default :: "heap \<Rightarrow> (bytes_mut \<times> heap) res" where
  "bm_default h = bm_new h"

definition bm_deref :: "bytes_mut \<Rightarrow> heap \<Rightarrow> u8 list res" where
  "bm_deref b h = bm_as_slice b h"

definition bm_as_ref :: "bytes_mut \<Rightarrow> heap \<Rightarrow> u8 list res" where
  "bm_as_ref b h = bm_as_slice b h"

definition bm_as_mut :: "bytes_mut \<Rightarrow> heap \<Rightarrow> (ptr \<times> nat) res" where
  "bm_as_mut b h = bm_as_mut_slice b h"

definition bm_eq_array :: "bytes_mut \<Rightarrow> u8 list \<Rightarrow> heap \<Rightarrow> bool res" where
  "bm_eq_array b other h = rbind (bm_as_slice b h) (\<lambda>xs. Ok (xs = other))"

text \<open>The \<open>put_slice\<close> that overrides the provided one of \<open>BufMut\<close>, and \<open>io::Write::flush\<close>.\<close>

definition bm_put_slice :: "bytes_mut \<Rightarrow> u8 list \<Rightarrow> heap \<Rightarrow> (bytes_mut \<times> heap) res" where
  "bm_put_slice b src h = bm_extend_from_slice b src h"

definition bm_flush :: "bytes_mut \<Rightarrow> bytes_mut \<times> ('e + unit)" where
  "bm_flush b = (b, Inr ())"

subsection \<open>\<open>ByteStr\<close>\<close>

definition bstr_from_str :: "ptr \<Rightarrow> nat \<Rightarrow> byte_str" where
  "bstr_from_str p n = bstr_from_static p n"

definition bstr_default :: "heap \<Rightarrow> byte_str" where
  "bstr_default h = bstr_new h"

definition bytes_from_bstr :: "byte_str \<Rightarrow> bytes" where
  "bytes_from_bstr s = bstr_bytes s"

definition string_from_bstr :: "byte_str \<Rightarrow> heap \<Rightarrow> (vec \<times> heap) res" where
  "string_from_bstr s h = bstr_into_string s h"

definition bstr_as_ref_str :: "byte_str \<Rightarrow> heap \<Rightarrow> u8 list res" where
  "bstr_as_ref_str s h = bstr_as_str s h"

definition bstr_deref :: "byte_str \<Rightarrow> heap \<Rightarrow> u8 list res" where
  "bstr_deref s h = bstr_as_str s h"

text \<open>\<open>Display\<close> with the format \<open>{}\<close>; a string is written as it is.\<close>

definition bstr_display :: "byte_str \<Rightarrow> heap \<Rightarrow> u8 list res" where
  "bstr_display s h = bstr_as_str s h"

text \<open>The standard library's formats \<open>{}\<close> and \<open>{:?}\<close> of a \<open>Utf8Error\<close>, which \<open>FromUtf8Error\<close> passes on.\<close>

definition utf8_error_display :: "utf8_error \<Rightarrow> u8 list" where
  "utf8_error_display e =
     (case error_len e of
        Some n \<Rightarrow> ascii ''invalid utf-8 sequence of '' @ dec_digits n @ ascii '' bytes from index '' @ dec_digits (valid_up_to e)
      | None \<Rightarrow> ascii ''incomplete utf-8 byte sequence from index '' @ dec_digits (valid_up_to e))"

definition utf8_error_debug :: "utf8_error \<Rightarrow> u8 list" where
  "utf8_error_debug e =
     ascii ''Utf8Error { valid_up_to: '' @ dec_digits (valid_up_to e) @ ascii '', error_len: '' @
     (case error_len e of Some n \<Rightarrow> ascii ''Some('' @ dec_digits n @ ascii '')'' | None \<Rightarrow> ascii ''None'') @ ascii '' }''"

definition fe_display :: "from_utf8_error \<Rightarrow> u8 list" where
  "fe_display e = utf8_error_display (fe_error e)"

definition fe_debug :: "from_utf8_error \<Rightarrow> u8 list" where
  "fe_debug e = utf8_error_debug (fe_error e)"

subsection \<open>\<open>UninitSlice\<close> and slices of \<open>MaybeUninit\<close>\<close>

definition us_length :: "uninit \<Rightarrow> nat" where
  "us_length s = us_len s"

text \<open>The format \<open>{:?}\<close>: the length alone, as a range.\<close>

definition us_debug :: "uninit \<Rightarrow> u8 list" where
  "us_debug s = ascii ''UninitBytes(..'' @ dec_digits (us_len s) @ ascii '')''"

definition us_from_slice :: "uninit \<Rightarrow> uninit" where
  "us_from_slice bytes = us_new bytes"

definition us_from_maybe_uninit :: "uninit \<Rightarrow> uninit" where
  "us_from_maybe_uninit bytes = us_from_uninit bytes"

text \<open>
  A \<open>&mut [MaybeUninit<u8>]\<close> is a pointer and a length too. Its \<open>BufMut\<close> is the one of \<open>&mut UninitSlice\<close>, but
  for the order in which \<open>put_slice\<close> checks and splits.
\<close>

definition mu_advance_mut :: "uninit \<Rightarrow> nat \<Rightarrow> heap \<Rightarrow> uninit res" where
  "mu_advance_mut s cnt h = rbind (us_split_unchecked s cnt h) (\<lambda>(_, b). Ok b)"

definition mu_put_slice :: "uninit \<Rightarrow> u8 list \<Rightarrow> heap \<Rightarrow> (uninit \<times> heap) res" where
  "mu_put_slice s src h =
     (if us_len s < length src then Panic
      else rbind (us_split s (length src) h) (\<lambda>(a, b).
           rbind (copy_from h src (us_ptr a)) (\<lambda>h. Ok (b, h))))"

definition mu_buf_mut :: "(uninit \<times> heap) buf_mut" where
  "mu_buf_mut = \<lparr>remaining_mut = (\<lambda>(s, h). Ok (us_len s)),
     chunk_mut = (\<lambda>(s, h). Ok ((s, h), us_len (us_from_uninit s))),
     write_chunk = (\<lambda>(s, h) xs. rbind (rassert (length xs \<le> us_len s)) (\<lambda>_.
       rbind (copy_from h xs (us_as_mut_ptr (us_from_uninit s))) (\<lambda>h. Ok (s, h)))),
     advance_mut = (\<lambda>(s, h) n. rbind (mu_advance_mut s n h) (\<lambda>s. Ok (s, h)))\<rparr>"

subsection \<open>The provided methods of \<open>Buf\<close> and \<open>BufMut\<close>\<close>

text \<open>An \<open>i8\<close> is an integer here: \<open>as i8\<close> reads the byte in two's complement, \<open>as u8\<close> wraps it around.\<close>

definition try_get_i8 :: "'b buf \<Rightarrow> 'b \<Rightarrow> ('b \<times> int option) res" where
  "try_get_i8 B b =
     rbind (chunk B b) (\<lambda>xs.
       case xs of [] \<Rightarrow> Ok (b, None) | x # _ \<Rightarrow> rbind (advance B b 1) (\<lambda>b'. Ok (b', Some (sint x))))"

definition get_i8 :: "'b buf \<Rightarrow> 'b \<Rightarrow> ('b \<times> int) res" where
  "get_i8 B b =
     rbind (try_get_i8 B b) (\<lambda>(b', r). case r of Some x \<Rightarrow> Ok (b', x) | None \<Rightarrow> Panic)"

definition put_i8 :: "'m buf_mut \<Rightarrow> 'm \<Rightarrow> int \<Rightarrow> 'm res" where
  "put_i8 M m n =
     rbind (has_remaining_mut M m) (\<lambda>r.
     if \<not> r then Panic
     else rbind (chunk_mut M m) (\<lambda>(m, len).
          if len = 0 then Panic
          else rbind (write_chunk M m [word_of_int n]) (\<lambda>m. advance_mut M m 1)))"

definition take_new :: "'b \<Rightarrow> nat \<Rightarrow> 'b take" where
  "take_new inner limit = Take inner limit"

definition take_into_inner :: "'b take \<Rightarrow> 'b" where
  "take_into_inner t = take_inner t"

definition buf_take :: "'b \<Rightarrow> nat \<Rightarrow> 'b take" where
  "buf_take b limit = take_new b limit"

definition chain_new :: "'a \<Rightarrow> 'b \<Rightarrow> ('a, 'b) chain" where
  "chain_new a b = Chain a b"

definition chain_into_inner :: "('a, 'b) chain \<Rightarrow> 'a \<times> 'b" where
  "chain_into_inner c = (chain_a c, chain_b c)"

definition buf_chain :: "'a \<Rightarrow> 'b \<Rightarrow> ('a, 'b) chain" where
  "buf_chain b nxt = chain_new b nxt"

definition chain_mut :: "'a \<Rightarrow> 'b \<Rightarrow> ('a, 'b) chain" where
  "chain_mut m nxt = chain_new m nxt"

subsection \<open>Forwarded \<open>AsyncWrite\<close> methods\<close>

definition fwd_poll_write_buf ::
  "('w, 'c, 'e) async_write \<Rightarrow> 'b buf \<Rightarrow> 'w \<Rightarrow> 'b \<Rightarrow> 'c \<Rightarrow> (('w \<times> 'b) \<times> ('e, nat) io_poll) res" where
  "fwd_poll_write_buf W B w buf cx = poll_write_buf W B w buf cx"

definition fwd_poll_write_all_buf ::
  "('w, 'c, 'e) async_write \<Rightarrow> 'b buf \<Rightarrow> 'w \<Rightarrow> 'b \<Rightarrow> 'c \<Rightarrow> (('w \<times> 'b) \<times> ('e, unit) io_poll) res option" where
  "fwd_poll_write_all_buf W B w buf cx = poll_write_all_buf W B w buf cx"

definition fwd_poll_write_buf_vectored ::
  "('w, 'c, 'e) async_write \<Rightarrow> 'b buf \<Rightarrow> 'w \<Rightarrow> 'b \<Rightarrow> 'c \<Rightarrow> (('w \<times> 'b) \<times> ('e, unit) io_poll) res" where
  "fwd_poll_write_buf_vectored W B w buf cx = poll_write_buf_vectored W B w buf cx"

subsection \<open>What they do\<close>

text \<open>Slicing by a reference into a slice finds the same bytes again.\<close>

lemma slice_then_slice_ref:
  assumes wf: "wf_heap h (HBytes b # R)" and room: "room h (HBytes b # R)"
    and le: "m + n \<le> bs_len b"
  shows "\<exists>b' c h'. bytes_slice_ref b (Ptr (ptr_blk (bs_ptr b)) (ptr_off (bs_ptr b) + m), n) h = Ok ((b', c), h') \<and>
    sliced h b m n R b' c h'"
    and "\<exists>b' c h'. bytes_slice b (Included m, Excluded (m + n)) h = Ok ((b', c), h') \<and> sliced h b m n R b' c h'"
proof -
  show "\<exists>b' c h'. bytes_slice_ref b (Ptr (ptr_blk (bs_ptr b)) (ptr_off (bs_ptr b) + m), n) h = Ok ((b', c), h') \<and>
    sliced h b m n R b' c h'"
    using slice_from_raw_Ok [OF assms] by (simp add: bytes_slice_ref_def ptr_addr_def add.assoc)
  show "\<exists>b' c h'. bytes_slice b (Included m, Excluded (m + n)) h = Ok ((b', c), h') \<and> sliced h b m n R b' c h'"
    using slice_bound_Ok [OF wf room, of "Included m" "Excluded (m + n)"] le
    by (simp add: bytes_slice_def bound_lo_def bound_hi_def)
qed

text \<open>The two writers over uninitialised memory are one, and so \<open>put_slice\<close> does what the provided one would do.\<close>

lemma mu_same: "mu_advance_mut = us_advance_mut" "mu_buf_mut = us_buf_mut" "mu_put_slice = us_put_slice"
  by (auto simp: mu_advance_mut_def us_advance_mut_def us_as_uninit_slice_mut_def us_from_uninit_def mu_buf_mut_def
      us_buf_mut_def mu_put_slice_def us_put_slice_def us_split_def us_as_mut_ptr_def rassert_def fun_eq_iff)

text \<open>\<open>put_i8\<close> and \<open>get_i8\<close> are \<open>put_u8\<close> and \<open>get_u8\<close> of the same byte, so every \<open>i8\<close> is read back.\<close>

lemma i8_u8:
  "put_i8 M m n = put_u8 M m (word_of_int n)"
  "get_i8 B b = rbind (get_u8 B b) (\<lambda>(b, x). Ok (b, sint x))"
  by (simp add: put_i8_def put_u8_def)
    (cases "chunk B b"; simp add: get_i8_def try_get_i8_def get_u8_def try_get_u8_def split: list.splits;
      cases "advance B b 1"; simp)

lemma i8_roundtrip:
  assumes "- 128 \<le> n" "n < 128"
  shows "put_i8 cursor_buf_mut \<lparr>cur_done = [], cur_rest = [None]\<rparr> n =
      Ok \<lparr>cur_done = [Some (word_of_int n)], cur_rest = []\<rparr>"
    and "get_i8 slice_buf (word_of_int n # rest) = Ok (rest, n)"
  using sint_of_i8 [OF assms]
  by (simp_all add: put_i8_def has_remaining_mut_def cursor_buf_mut_def cursor_write_def cursor_advance_def
      get_i8_def try_get_i8_def slice_buf_def slice_advance_def)

lemma error_texts:
  "fe_display \<lparr>fe_bytes = b, fe_error = \<lparr>valid_up_to = 12, error_len = Some 1\<rparr>\<rparr> =
     ascii ''invalid utf-8 sequence of 1 bytes from index 12''"
  "fe_debug \<lparr>fe_bytes = b, fe_error = \<lparr>valid_up_to = 3, error_len = None\<rparr>\<rparr> =
     ascii ''Utf8Error { valid_up_to: 3, error_len: None }''"
  "us_debug \<lparr>us_ptr = p, us_len = 64\<rparr> = ascii ''UninitBytes(..64)''"
  by (simp_all add: fe_display_def fe_debug_def us_debug_def utf8_error_display_def utf8_error_debug_def ascii_def
      dec_digits.simps)

end
