(* ===== verification/Buffer_Tests.thy ===== *)
theory Buffer_Tests
  imports Shorthands
begin

text \<open>
  The test suites \<open>src/bytes/test/test_bytes.rs\<close> and \<open>test_bytes_mut.rs\<close>, run on the model. Each test is a
  program on a heap whose allocator grants exactly what is asked for, as the tests expect; locals are dropped
  at the end of a test in the reverse order of their declaration. A test passes if no assertion panics and
  every buffer and box is gone at the end.
\<close>

definition test_heap :: heap where
  "test_heap = \<lparr>hp_blocks = [\<lparr>blk_cells = [], blk_live = True, blk_static = True\<rparr>],
     hp_base = (\<lambda>i. word_of_nat (4096 * (i + 1))), hp_extra = (\<lambda>_. 0), hp_empty = Ptr 0 0,
     hp_shared = (\<lambda>_. None), hp_boxes = 0\<rparr>"

definition released :: "heap \<Rightarrow> bool" where
  "released h \<longleftrightarrow> (\<forall>b \<in> set (hp_blocks h). blk_live b \<longrightarrow> blk_cells b = []) \<and>
     (\<forall>i \<in> set [0..<hp_boxes h]. hp_shared h (box_addr i) = None)"

definition passes :: "(heap \<Rightarrow> heap res) \<Rightarrow> bool" where
  "passes t \<longleftrightarrow> (case t test_heap of Ok h \<Rightarrow> released h | _ \<Rightarrow> False)"

definition should_panic :: "(heap \<Rightarrow> heap res) \<Rightarrow> bool" where
  "should_panic t \<longleftrightarrow> t test_heap = Panic"

subsection \<open>Helpers\<close>

text \<open>\<open>vec![x; n]\<close> and \<open>to_vec\<close> allocate what they hold; \<open>vec_excess\<close> makes a vector with spare capacity.\<close>

type_synonym 'a run = "heap \<Rightarrow> ('a \<times> heap) res"

definition tests_from :: "u8 list \<Rightarrow> bytes run" where
  "tests_from xs h = rbind (slice_to_vec xs h) (\<lambda>(v, h). bytes_from_vec v h)"

definition vec_excess :: "nat \<Rightarrow> u8 list \<Rightarrow> vec run" where
  "vec_excess cap xs h =
     rbind (vec_with_capacity cap h) (\<lambda>(v, h).
     rbind (copy_from h xs (v_ptr v)) (\<lambda>h.
     rbind (vec_set_len v (length xs)) (\<lambda>v.
     rbind (rassert (v_cap v \<noteq> v_len v)) (\<lambda>_. Ok (v, h)))))"

definition tests_from_excess :: "nat \<Rightarrow> u8 list \<Rightarrow> bytes run" where
  "tests_from_excess cap xs h = rbind (vec_excess cap xs h) (\<lambda>(v, h). bytes_from_vec v h)"

definition assert_promoted :: "bytes \<Rightarrow> heap \<Rightarrow> unit res" where
  "assert_promoted b h = rbind (rassert (is_promoted (bs_data b))) (\<lambda>_. rbind (box_deref (bs_data b) h) (\<lambda>_. Ok ()))"

definition assert_unpromoted :: "bytes \<Rightarrow> unit res" where
  "assert_unpromoted b = rassert (is_unpromoted (bs_data b))"

definition bytes_show :: "bytes \<Rightarrow> u8 list \<Rightarrow> heap \<Rightarrow> unit res" where
  "bytes_show b xs h = rbind (bytes_as_slice b h) (\<lambda>ys. rassert (ys = xs))"

definition bm_show :: "bytes_mut \<Rightarrow> u8 list \<Rightarrow> heap \<Rightarrow> unit res" where
  "bm_show b xs h = rbind (bm_as_slice b h) (\<lambda>ys. rassert (ys = xs))"

definition unique_is :: "bool \<Rightarrow> bytes \<Rightarrow> heap \<Rightarrow> unit res" where
  "unique_is u b h = rbind (bytes_is_unique b h) (\<lambda>r. rassert (r = u))"

text \<open>The macros \<open>into_vec!\<close> and \<open>into_mut!\<close> convert and compare the address, and the result is dropped.\<close>

definition into_vec_test :: "bytes \<Rightarrow> bool \<Rightarrow> nat \<Rightarrow> u8 list \<Rightarrow> heap \<Rightarrow> heap res" where
  "into_vec_test b eq addr xs h =
     rbind (bytes_into_vec b h) (\<lambda>(v, h).
     rbind (rassert ((ptr_addr h (v_ptr v) = addr) = eq)) (\<lambda>_.
     rbind (slice_from_raw_parts h (v_ptr v) (v_len v)) (\<lambda>ys.
     rbind (rassert (ys = xs)) (\<lambda>_. vec_drop v h))))"

definition into_mut_test :: "bytes \<Rightarrow> bool \<Rightarrow> nat \<Rightarrow> u8 list \<Rightarrow> heap \<Rightarrow> heap res" where
  "into_mut_test b eq addr xs h =
     rbind (bytes_into_mut b h) (\<lambda>(m, h).
     rbind (rassert ((ptr_addr h (bm_ptr m) = addr) = eq)) (\<lambda>_.
     rbind (bm_show m xs h) (\<lambda>_. bm_drop m h)))"

subsection \<open>\<open>test_bytes.rs\<close>\<close>

definition test_bytes_static_empty :: bool where
  "test_bytes_static_empty \<longleftrightarrow> passes (\<lambda>h.
     let none = bytes_new h in
     rbind (unique_is False none h) (\<lambda>_.
     rbind (bytes_show none [] h) (\<lambda>_.
     rbind (bytes_clone none h) (\<lambda>((none, cloned), h).
     rbind (unique_is False none h) (\<lambda>_.
     rbind (unique_is False cloned h) (\<lambda>_.
     rbind (bytes_show cloned [] h) (\<lambda>_.
     rbind (bytes_into_vec cloned h) (\<lambda>(v, h).
     rbind (rassert (v_cap v = 0)) (\<lambda>_.
     rbind (vec_drop v h) (\<lambda>h. bytes_drop_trait none h))))))))))"

definition test_bytes_shared_unique :: bool where
  "test_bytes_shared_unique \<longleftrightarrow> passes (\<lambda>h.
     rbind (tests_from (replicate 8 4) h) (\<lambda>(b, h).
     rbind (assert_unpromoted b) (\<lambda>_.
     rbind (unique_is True b h) (\<lambda>_.
     rbind (bytes_clone b h) (\<lambda>((b, cloned), h).
     rbind (assert_promoted cloned h) (\<lambda>_.
     rbind (unique_is False cloned h) (\<lambda>_.
     rbind (assert_promoted b h) (\<lambda>_.
     rbind (unique_is False b h) (\<lambda>_.
     rbind (bytes_drop_trait cloned h) (\<lambda>h.
     rbind (unique_is True b h) (\<lambda>_. bytes_drop_trait b h)))))))))))"

definition content :: "u8 list" where
  "content = ascii ''Content-Type''"

definition tests_not_mutated :: bool where
  "tests_not_mutated \<longleftrightarrow>
   passes (\<lambda>h.
     rbind (tests_from (replicate 8 4) h) (\<lambda>(b, h).
     rbind (assert_unpromoted b) (\<lambda>_.
     rbind (bytes_show b (replicate 8 4) h) (\<lambda>_.
     bytes_drop_trait b h)))) \<and>
   passes (\<lambda>h.
     rbind (tests_from (replicate 8 4) h) (\<lambda>(b, h).
     into_vec_test b True (ptr_addr h (bytes_as_ptr b)) (replicate 8 4) h)) \<and>
   passes (\<lambda>h.
     rbind (tests_from (replicate 8 4) h) (\<lambda>(b, h).
     into_mut_test b True (ptr_addr h (bytes_as_ptr b)) (replicate 8 4) h)) \<and>
   passes (\<lambda>h.
     rbind (tests_from_excess 12 (replicate 8 4) h) (\<lambda>(b, h).
     rbind (assert_promoted b h) (\<lambda>_.
     rbind (bytes_show b (replicate 8 4) h) (\<lambda>_.
     bytes_drop_trait b h)))) \<and>
   passes (\<lambda>h.
     rbind (tests_from_excess 12 (replicate 8 4) h) (\<lambda>(b, h).
     into_vec_test b True (ptr_addr h (bytes_as_ptr b)) (replicate 8 4) h)) \<and>
   passes (\<lambda>h.
     rbind (tests_from_excess 12 (replicate 8 4) h) (\<lambda>(b, h).
     into_mut_test b True (ptr_addr h (bytes_as_ptr b)) (replicate 8 4) h))"

definition tests_advance :: bool where
  "tests_advance \<longleftrightarrow>
   passes (\<lambda>h.
     rbind (tests_from content h) (\<lambda>(b, h).
     rbind (bytes_advance b 2 h) (\<lambda>b.
     rbind (assert_unpromoted b) (\<lambda>_.
     rbind (bytes_show b (drop 2 content) h) (\<lambda>_.
     bytes_drop_trait b h))))) \<and>
   passes (\<lambda>h.
     rbind (tests_from content h) (\<lambda>(b, h).
     rbind (Ok (ptr_addr h (bytes_as_ptr b))) (\<lambda>addr.
     rbind (bytes_advance b 2 h) (\<lambda>b.
     into_vec_test b True addr (drop 2 content) h)))) \<and>
   passes (\<lambda>h.
     rbind (tests_from content h) (\<lambda>(b, h).
     rbind (Ok (ptr_addr h (bytes_as_ptr b))) (\<lambda>addr.
     rbind (bytes_advance b 2 h) (\<lambda>b.
     into_mut_test b True (addr + 2) (drop 2 content) h)))) \<and>
   passes (\<lambda>h.
     rbind (tests_from_excess 18 content h) (\<lambda>(b, h).
     rbind (bytes_advance b 2 h) (\<lambda>b.
     rbind (assert_promoted b h) (\<lambda>_.
     rbind (bytes_show b (drop 2 content) h) (\<lambda>_.
     bytes_drop_trait b h))))) \<and>
   passes (\<lambda>h.
     rbind (tests_from_excess 18 content h) (\<lambda>(b, h).
     rbind (Ok (ptr_addr h (bytes_as_ptr b))) (\<lambda>addr.
     rbind (bytes_advance b 2 h) (\<lambda>b.
     into_vec_test b True addr (drop 2 content) h)))) \<and>
   passes (\<lambda>h.
     rbind (tests_from_excess 18 content h) (\<lambda>(b, h).
     rbind (Ok (ptr_addr h (bytes_as_ptr b))) (\<lambda>addr.
     rbind (bytes_advance b 2 h) (\<lambda>b.
     into_mut_test b True (addr + 2) (drop 2 content) h))))"

definition tests_truncate :: bool where
  "tests_truncate \<longleftrightarrow>
   passes (\<lambda>h.
     rbind (tests_from content h) (\<lambda>(b, h).
     rbind (assert_unpromoted b) (\<lambda>_.
     rbind (bytes_truncate b 7 h) (\<lambda>(b, h).
     rbind (assert_promoted b h) (\<lambda>_.
     rbind (bytes_show b (take 7 content) h) (\<lambda>_.
     bytes_drop_trait b h)))))) \<and>
   passes (\<lambda>h.
     rbind (tests_from content h) (\<lambda>(b, h).
     rbind (bytes_truncate_off b 5 h) (\<lambda>(b, h).
     rbind (bytes_show b (take 7 content) h) (\<lambda>_.
     bytes_drop_trait b h)))) \<and>
   passes (\<lambda>h.
     rbind (tests_from content h) (\<lambda>(b, h).
     rbind (Ok (ptr_addr h (bytes_as_ptr b))) (\<lambda>addr.
     rbind (bytes_truncate b 7 h) (\<lambda>(b, h).
     into_vec_test b True addr (take 7 content) h)))) \<and>
   passes (\<lambda>h.
     rbind (tests_from content h) (\<lambda>(b, h).
     rbind (Ok (ptr_addr h (bytes_as_ptr b))) (\<lambda>addr.
     rbind (bytes_truncate b 7 h) (\<lambda>(b, h).
     into_vec_test b True addr (take 7 content) h)))) \<and>
   passes (\<lambda>h.
     rbind (tests_from_excess 18 content h) (\<lambda>(b, h).
     rbind (assert_promoted b h) (\<lambda>_.
     rbind (bytes_truncate b 7 h) (\<lambda>(b, h).
     rbind (assert_promoted b h) (\<lambda>_.
     rbind (bytes_show b (take 7 content) h) (\<lambda>_.
     bytes_drop_trait b h)))))) \<and>
   passes (\<lambda>h.
     rbind (tests_from_excess 18 content h) (\<lambda>(b, h).
     rbind (bytes_truncate_off b 5 h) (\<lambda>(b, h).
     rbind (bytes_show b (take 7 content) h) (\<lambda>_.
     bytes_drop_trait b h)))) \<and>
   passes (\<lambda>h.
     rbind (tests_from_excess 18 content h) (\<lambda>(b, h).
     rbind (Ok (ptr_addr h (bytes_as_ptr b))) (\<lambda>addr.
     rbind (bytes_truncate b 7 h) (\<lambda>(b, h).
     into_vec_test b True addr (take 7 content) h)))) \<and>
   passes (\<lambda>h.
     rbind (tests_from_excess 18 content h) (\<lambda>(b, h).
     rbind (Ok (ptr_addr h (bytes_as_ptr b))) (\<lambda>addr.
     rbind (bytes_truncate b 7 h) (\<lambda>(b, h).
     into_vec_test b True addr (take 7 content) h))))"

definition tests_cloned :: bool where
  "tests_cloned \<longleftrightarrow>
   passes (\<lambda>h.
     rbind (tests_from (replicate 8 4) h) (\<lambda>(b, h).
     rbind (assert_unpromoted b) (\<lambda>_.
     rbind (bytes_clone b h) (\<lambda>((b, cloned), h).
     rbind (assert_promoted b h) (\<lambda>_.
     rbind (assert_promoted cloned h) (\<lambda>_.
     rbind (bytes_show cloned (replicate 8 4) h) (\<lambda>_.
     rbind (bytes_drop_trait b h) (\<lambda>h.
     bytes_drop_trait cloned h)))))))) \<and>
   passes (\<lambda>h.
     rbind (tests_from (replicate 8 4) h) (\<lambda>(b, h).
     rbind (Ok (ptr_addr h (bytes_as_ptr b))) (\<lambda>addr.
     rbind (bytes_clone b h) (\<lambda>((b, cloned), h).
     rbind (into_vec_test b False addr (replicate 8 4) h) (\<lambda>h.
     bytes_drop_trait cloned h))))) \<and>
   passes (\<lambda>h.
     rbind (tests_from (replicate 8 4) h) (\<lambda>(b, h).
     rbind (Ok (ptr_addr h (bytes_as_ptr b))) (\<lambda>addr.
     rbind (bytes_clone b h) (\<lambda>((b, cloned), h).
     rbind (into_mut_test b False addr (replicate 8 4) h) (\<lambda>h.
     bytes_drop_trait cloned h))))) \<and>
   passes (\<lambda>h.
     rbind (tests_from_excess 12 (replicate 8 4) h) (\<lambda>(b, h).
     rbind (bytes_clone b h) (\<lambda>((b, cloned), h).
     rbind (bytes_drop_trait b h) (\<lambda>h.
     bytes_drop_trait cloned h)))) \<and>
   passes (\<lambda>h.
     rbind (tests_from_excess 12 (replicate 8 4) h) (\<lambda>(b, h).
     rbind (Ok (ptr_addr h (bytes_as_ptr b))) (\<lambda>addr.
     rbind (bytes_clone b h) (\<lambda>((b, cloned), h).
     rbind (into_vec_test b False addr (replicate 8 4) h) (\<lambda>h.
     bytes_drop_trait cloned h))))) \<and>
   passes (\<lambda>h.
     rbind (tests_from_excess 12 (replicate 8 4) h) (\<lambda>(b, h).
     rbind (Ok (ptr_addr h (bytes_as_ptr b))) (\<lambda>addr.
     rbind (bytes_clone b h) (\<lambda>((b, cloned), h).
     rbind (into_mut_test b False addr (replicate 8 4) h) (\<lambda>h.
     bytes_drop_trait cloned h))))) \<and>
   passes (\<lambda>h.
     rbind (tests_from (replicate 8 4) h) (\<lambda>(b, h).
     rbind (bytes_clone b h) (\<lambda>((b, cloned), h).
     rbind (bytes_drop_trait cloned h) (\<lambda>h.
     rbind (assert_promoted b h) (\<lambda>_.
     bytes_drop_trait b h))))) \<and>
   passes (\<lambda>h.
     rbind (tests_from (replicate 8 4) h) (\<lambda>(b, h).
     rbind (Ok (ptr_addr h (bytes_as_ptr b))) (\<lambda>addr.
     rbind (bytes_clone b h) (\<lambda>((b, cloned), h).
     rbind (bytes_drop_trait cloned h) (\<lambda>h.
     into_vec_test b True addr (replicate 8 4) h))))) \<and>
   passes (\<lambda>h.
     rbind (tests_from (replicate 8 4) h) (\<lambda>(b, h).
     rbind (Ok (ptr_addr h (bytes_as_ptr b))) (\<lambda>addr.
     rbind (bytes_clone b h) (\<lambda>((b, cloned), h).
     rbind (bytes_drop_trait cloned h) (\<lambda>h.
     into_mut_test b True addr (replicate 8 4) h))))) \<and>
   passes (\<lambda>h.
     rbind (tests_from_excess 12 (replicate 8 4) h) (\<lambda>(b, h).
     rbind (bytes_clone b h) (\<lambda>((b, cloned), h).
     rbind (bytes_drop_trait cloned h) (\<lambda>h.
     rbind (assert_promoted b h) (\<lambda>_.
     bytes_drop_trait b h))))) \<and>
   passes (\<lambda>h.
     rbind (tests_from_excess 12 (replicate 8 4) h) (\<lambda>(b, h).
     rbind (Ok (ptr_addr h (bytes_as_ptr b))) (\<lambda>addr.
     rbind (bytes_clone b h) (\<lambda>((b, cloned), h).
     rbind (bytes_drop_trait cloned h) (\<lambda>h.
     into_vec_test b True addr (replicate 8 4) h))))) \<and>
   passes (\<lambda>h.
     rbind (tests_from_excess 12 (replicate 8 4) h) (\<lambda>(b, h).
     rbind (Ok (ptr_addr h (bytes_as_ptr b))) (\<lambda>addr.
     rbind (bytes_clone b h) (\<lambda>((b, cloned), h).
     rbind (bytes_drop_trait cloned h) (\<lambda>h.
     into_mut_test b True addr (replicate 8 4) h)))))"

definition tests_split :: bool where
  "tests_split \<longleftrightarrow>
   passes (\<lambda>h.
     rbind (tests_from content h) (\<lambda>(b, h).
     rbind (assert_unpromoted b) (\<lambda>_.
     rbind (bytes_split_to b 7 h) (\<lambda>((b, to), h).
     rbind (assert_promoted b h) (\<lambda>_.
     rbind (bytes_show to (take 7 content) h) (\<lambda>_.
     rbind (bytes_show b (drop 7 content) h) (\<lambda>_.
     rbind (bytes_drop_trait b h) (\<lambda>h.
     bytes_drop_trait to h)))))))) \<and>
   should_panic (\<lambda>h.
     rbind (tests_from content h) (\<lambda>(b, h).
     rbind (bytes_split_to b usize_max h) (\<lambda>((b, to), h).
     Ok h))) \<and>
   passes (\<lambda>h.
     rbind (tests_from content h) (\<lambda>(b, h).
     rbind (assert_unpromoted b) (\<lambda>_.
     rbind (bytes_split_off b 7 h) (\<lambda>((b, to), h).
     rbind (assert_promoted b h) (\<lambda>_.
     rbind (bytes_show b (take 7 content) h) (\<lambda>_.
     rbind (bytes_show to (drop 7 content) h) (\<lambda>_.
     rbind (bytes_drop_trait b h) (\<lambda>h.
     bytes_drop_trait to h)))))))) \<and>
   should_panic (\<lambda>h.
     rbind (tests_from content h) (\<lambda>(b, h).
     rbind (bytes_split_off b usize_max h) (\<lambda>((b, to), h).
     Ok h)))"

definition tests_slice :: bool where
  "tests_slice \<longleftrightarrow>
   passes (\<lambda>h.
     rbind (tests_from content h) (\<lambda>(b, h).
     rbind (assert_unpromoted b) (\<lambda>_.
     rbind (bytes_slice b (Included 3, Excluded 8) h) (\<lambda>((b, s), h).
     rbind (assert_promoted b h) (\<lambda>_.
     rbind (bytes_deref b h) (\<lambda>xs.
     rbind (rassert (8 \<le> length xs)) (\<lambda>_.
     rbind (bytes_show s (take 5 (drop 3 xs)) h) (\<lambda>_.
     rbind (bytes_drop_trait s h) (\<lambda>h.
     bytes_drop_trait b h))))))))) \<and>
   should_panic (\<lambda>h.
     rbind (tests_from content h) (\<lambda>(b, h).
     rbind (bytes_slice b (Included 4, Excluded (bytes_len b + 1)) h) (\<lambda>((b, s), h).
     Ok h))) \<and>
   should_panic (\<lambda>h.
     rbind (tests_from content h) (\<lambda>(b, h).
     rbind (bytes_slice b (Included (bytes_len b), Excluded (bytes_len b * 2)) h) (\<lambda>((b, s), h).
     Ok h)))"

definition tests_slice_raw :: bool where
  "tests_slice_raw \<longleftrightarrow>
   passes (\<lambda>h.
     rbind (tests_from content h) (\<lambda>(b, h).
     rbind (ptr_add h (bytes_as_ptr b) 3) (\<lambda>p.
     rbind (bytes_slice_ref b (p, 5) h) (\<lambda>((b, s), h).
     rbind (assert_promoted b h) (\<lambda>_.
     rbind (bytes_deref b h) (\<lambda>xs.
     rbind (rassert (8 \<le> length xs)) (\<lambda>_.
     rbind (bytes_show s (take 5 (drop 3 xs)) h) (\<lambda>_.
     rbind (bytes_drop_trait s h) (\<lambda>h.
     bytes_drop_trait b h))))))))) \<and>
   passes (\<lambda>h.
     rbind (tests_from content h) (\<lambda>(b, h).
     rbind (slice_from_raw b (ptr_addr h (bytes_as_ptr b) + 3) 5 h) (\<lambda>((b, s), h).
     rbind (assert_promoted b h) (\<lambda>_.
     rbind (bytes_deref b h) (\<lambda>xs.
     rbind (rassert (8 \<le> length xs)) (\<lambda>_.
     rbind (bytes_show s (take 5 (drop 3 xs)) h) (\<lambda>_.
     rbind (bytes_drop_trait s h) (\<lambda>h.
     bytes_drop_trait b h)))))))) \<and>
   should_panic (\<lambda>h.
     rbind (tests_from content h) (\<lambda>(b, h).
     rbind (slice_from_raw b (ptr_addr h (bytes_as_ptr b) - 4) 2 h) (\<lambda>((b, s), h).
     Ok h))) \<and>
   should_panic (\<lambda>h.
     rbind (tests_from content h) (\<lambda>(b, h).
     rbind (slice_from_raw b (ptr_addr h (bytes_as_ptr b) - 4) 6 h) (\<lambda>((b, s), h).
     Ok h))) \<and>
   should_panic (\<lambda>h.
     rbind (tests_from content h) (\<lambda>(b, h).
     rbind (slice_from_raw b (ptr_addr h (bytes_as_ptr b) - 4) (bytes_len b + 8) h) (\<lambda>((b, s), h).
     Ok h))) \<and>
   should_panic (\<lambda>h.
     rbind (tests_from content h) (\<lambda>(b, h).
     rbind (slice_from_raw b (ptr_addr h (bytes_as_ptr b) + 4) (bytes_len b) h) (\<lambda>((b, s), h).
     Ok h))) \<and>
   should_panic (\<lambda>h.
     rbind (tests_from content h) (\<lambda>(b, h).
     rbind (slice_from_raw b (ptr_addr h (bytes_as_ptr b) + bytes_len b) (bytes_len b + 8) h) (\<lambda>((b, s), h).
     Ok h)))"

definition test_bytes_from_mut :: bool where
  "test_bytes_from_mut \<longleftrightarrow>
   passes (\<lambda>h.
     rbind (slice_to_vec (replicate 8 4) h) (\<lambda>(v, h).
     rbind (bm_from (From_Owned v) h) (\<lambda>(m, h).
     rbind (bytes_from (From_Mut m) h) (\<lambda>(b, h).
     rbind (Ok (ptr_addr h (bytes_as_ptr b))) (\<lambda>addr.
     rbind (assert_unpromoted b) (\<lambda>_.
     rbind (unique_is True b h) (\<lambda>_.
     rbind (rassert (\<not> bytes_is_empty b)) (\<lambda>_.
     rbind (bytes_show b (replicate 8 4) h) (\<lambda>_.
     rbind (bytes_clone b h) (\<lambda>((b, cloned), h).
     rbind (assert_promoted b h) (\<lambda>_.
     rbind (unique_is False b h) (\<lambda>_.
     rbind (unique_is False cloned h) (\<lambda>_.
     rbind (bytes_show cloned (replicate 8 4) h) (\<lambda>_.
     rbind (bytes_drop_trait cloned h) (\<lambda>h.
     rbind (unique_is True b h) (\<lambda>_.
     rbind (bytes_into_vec b h) (\<lambda>(v, h).
     rbind (rassert (ptr_addr h (v_ptr v) = addr)) (\<lambda>_.
     vec_drop v h))))))))))))))))))"

subsection \<open>\<open>test_bytes_mut.rs\<close>\<close>

definition header :: "u8 list" where
  "header = ascii ''Content-Type: text/html''"

definition tests_mut :: bool where
  "tests_mut \<longleftrightarrow>
   passes (\<lambda>h.
     rbind (bm_copy_from_slice header h) (\<lambda>(b, h).
     rbind (rassert (bm_length b = length header)) (\<lambda>_.
     rbind (bm_show b header h) (\<lambda>_.
     rbind (spare_capacity_mut b h) (\<lambda>(_, n).
     rbind (rassert (n = 0)) (\<lambda>_.
     rbind (Ok (bm_truncate b 14)) (\<lambda>b.
     rbind (spare_capacity_mut b h) (\<lambda>(_, n).
     rbind (rassert (n = length header - 14)) (\<lambda>_.
     rbind (bm_show b (take 14 header) h) (\<lambda>_.
     rbind (bm_extend_from_slice b (ascii ''text/html'') h) (\<lambda>(b, h).
     rbind (bm_show b header h) (\<lambda>_.
     bm_drop b h)))))))))))) \<and>
   passes (\<lambda>h.
     rbind (bm_copy_from_slice header h) (\<lambda>(b, h).
     rbind (bm_split_off b (bm_length b) h) (\<lambda>((b, to), h).
     rbind (bm_drop to h) (\<lambda>h.
     rbind (rassert (bm_length b = length header)) (\<lambda>_.
     rbind (bm_show b header h) (\<lambda>_.
     rbind (spare_capacity_mut b h) (\<lambda>(_, n).
     rbind (rassert (n = 0)) (\<lambda>_.
     rbind (Ok (bm_truncate b 14)) (\<lambda>b.
     rbind (spare_capacity_mut b h) (\<lambda>(_, n).
     rbind (rassert (n = length header - 14)) (\<lambda>_.
     rbind (bm_show b (take 14 header) h) (\<lambda>_.
     rbind (bm_extend_from_slice b (ascii ''text/html'') h) (\<lambda>(b, h).
     rbind (bm_show b header h) (\<lambda>_.
     bm_drop b h))))))))))))))"

definition tests_mut_split :: bool where
  "tests_mut_split \<longleftrightarrow>
   passes (\<lambda>h.
     rbind (bm_copy_from_slice header h) (\<lambda>(b, h).
     rbind (bm_split_to b 5 h) (\<lambda>((b, to), h).
     rbind (bm_show b (drop 5 header) h) (\<lambda>_.
     rbind (bm_show to (take 5 header) h) (\<lambda>_.
     rbind (bm_drop to h) (\<lambda>h.
     bm_drop b h)))))) \<and>
   passes (\<lambda>h.
     rbind (bm_copy_from_slice header h) (\<lambda>(b, h).
     rbind (bm_split_off b 5 h) (\<lambda>((b, to), h).
     rbind (bm_show b (take 5 header) h) (\<lambda>_.
     rbind (bm_show to (drop 5 header) h) (\<lambda>_.
     rbind (bm_drop to h) (\<lambda>h.
     bm_drop b h))))))"

definition tests_mut_allocation :: bool where
  "tests_mut_allocation \<longleftrightarrow>
   passes (\<lambda>h.
     rbind (bm_with_capacity 128 h) (\<lambda>(b, h).
     rbind (Ok (ptr_addr h (bm_as_ptr b))) (\<lambda>addr.
     rbind (Ok (bm_capacity b)) (\<lambda>cap.
     rbind (bm_extend_from_slice b header h) (\<lambda>(b, h).
     rbind (spare_capacity_mut b h) (\<lambda>(_, n).
     rbind (rassert (n = cap - length header)) (\<lambda>_.
     rbind (Ok (bm_clear b)) (\<lambda>b.
     rbind (bm_try_reclaim_full b h) (\<lambda>((b, ok), h).
     rbind (rassert ok) (\<lambda>_.
     rbind (spare_capacity_mut b h) (\<lambda>(_, n).
     rbind (rassert (n = cap)) (\<lambda>_.
     rbind (rassert (ptr_addr h (bm_as_ptr b) = addr)) (\<lambda>_.
     bm_drop b h))))))))))))) \<and>
   passes (\<lambda>h.
     rbind (bm_with_capacity 128 h) (\<lambda>(b, h).
     rbind (Ok (ptr_addr h (bm_as_ptr b))) (\<lambda>addr.
     rbind (Ok (bm_capacity b)) (\<lambda>cap.
     rbind (bm_extend_from_slice b header h) (\<lambda>(b, h).
     rbind (bm_split_off b (bm_capacity b) h) (\<lambda>((b, to), h).
     rbind (bm_drop to h) (\<lambda>h.
     rbind (spare_capacity_mut b h) (\<lambda>(_, n).
     rbind (rassert (n = cap - length header)) (\<lambda>_.
     rbind (Ok (bm_clear b)) (\<lambda>b.
     rbind (bm_try_reclaim_full b h) (\<lambda>((b, ok), h).
     rbind (rassert ok) (\<lambda>_.
     rbind (spare_capacity_mut b h) (\<lambda>(_, n).
     rbind (rassert (n = cap)) (\<lambda>_.
     rbind (rassert (ptr_addr h (bm_as_ptr b) = addr)) (\<lambda>_.
     bm_drop b h)))))))))))))))"

definition tests_mut_unsplit_freeze :: bool where
  "tests_mut_unsplit_freeze \<longleftrightarrow>
   passes (\<lambda>h.
     rbind (bm_copy_from_slice header h) (\<lambda>(b, h).
     rbind (bm_split_off b 6 h) (\<lambda>((b, to), h).
     rbind (bm_try_unsplit b to h) (\<lambda>((b, r), h).
     rbind (rassert (r = None)) (\<lambda>_.
     bm_drop b h))))) \<and>
   passes (\<lambda>h.
     rbind (bm_copy_from_slice header h) (\<lambda>(b, h).
     rbind (bm_freeze b h) (\<lambda>(c, h).
     rbind (bytes_show c header h) (\<lambda>_.
     bytes_drop_trait c h)))) \<and>
   passes (\<lambda>h.
     rbind (bm_copy_from_slice header h) (\<lambda>(b, h).
     rbind (bm_split_to b 0 h) (\<lambda>((b, to), h).
     rbind (bm_drop to h) (\<lambda>h.
     rbind (bm_freeze b h) (\<lambda>(c, h).
     rbind (bytes_show c header h) (\<lambda>_.
     bytes_drop_trait c h))))))"

subsection \<open>All of them pass\<close>

lemma replicate_8: "replicate 8 x = [x, x, x, x, x, x, x, x]"
  by (simp add: numeral_eq_Suc)

lemmas run_simps = passes_def should_panic_def released_def test_heap_def tests_from_def vec_excess_def tests_from_excess_def
  assert_promoted_def assert_unpromoted_def bytes_show_def bm_show_def unique_is_def into_vec_test_def into_mut_test_def
  bytes_new_def bytes_from_static_def bytes_clone_def clone_inner_def bytes_drop_trait_def bytes_drop_def
  bytes_is_unique_def is_unique_def bytes_as_slice_def slice_from_raw_parts_def cells_def promote_ref_def
  slice_to_vec_def vec_with_capacity_def copy_from_def write_cells_def writable_def store_cells_def new_block_def
  vec_set_len_def bytes_from_vec_def vec_drop_def free_block_def box_free_def bytes_into_vec_def into_vec_copy_def
  replicate_8 release_into_vec_def into_vec_move_def new_unpromoted_def ptr_addr_def rassert_def
  content_def header_def ascii_def bytes_as_ptr_def bytes_len_def bytes_deref_def bytes_is_empty_def bytes_slice_def
  bytes_slice_ref_def slice_bound_def checked_succ_def slice_from_raw_def new_empty_with_ptr_def
  bytes_advance_def bytes_advance_unchecked_def mask_payload_def and_MSB unat_of_nat bytes_truncate_def bytes_truncate_off_def
  bytes_split_to_def bytes_split_off_def bytes_try_split_to_def bytes_try_split_off_def clone_inner_mut_def
  offset_from_unsigned_def copy_nonoverlapping_def apart_def ptr_copy_def bytes_into_mut_def into_mut_copy_def
  bm_from_vec_def bm_as_slice_def bm_drop_def original_buffer_def as_unpromoted_mut_def usub_def
  bm_copy_from_slice_def bm_length_def bm_capacity_def bm_as_ptr_def spare_capacity_mut_def bm_truncate_def bm_clear_def
  bm_extend_from_slice_def bm_reserve_def reserve_inner_def reserve_unpromoted_def reserve_promoted_def
  bm_split_to_def bm_split_off_def bm_try_split_to_def bm_try_split_off_def shallow_clone_def bm_set_len_def
  bm_advance_unchecked_def bm_with_capacity_def bm_try_reclaim_full_def bm_try_unsplit_def bm_freeze_def bytes_from_mut_def
  eval_simps

lemma test_bytes_static_empty: test_bytes_static_empty
  by (simp add: test_bytes_static_empty_def run_simps Let_def)

lemma test_bytes_shared_unique: test_bytes_shared_unique
  by (simp add: test_bytes_shared_unique_def run_simps Let_def)

lemma tests_not_mutated: tests_not_mutated
  by (simp add: tests_not_mutated_def run_simps Let_def)

lemma tests_advance: tests_advance
  by (simp add: tests_advance_def run_simps Let_def)

lemma tests_truncate: tests_truncate
  by (simp add: tests_truncate_def run_simps Let_def)

lemma tests_cloned: tests_cloned
  by (simp add: tests_cloned_def run_simps Let_def)

lemma tests_split: tests_split
  by (simp add: tests_split_def run_simps Let_def)

lemma tests_slice: tests_slice
  by (simp add: tests_slice_def run_simps Let_def)

lemma tests_slice_raw: tests_slice_raw
  by (simp add: tests_slice_raw_def run_simps Let_def)

lemma test_bytes_from_mut: test_bytes_from_mut
  by (simp add: test_bytes_from_mut_def run_simps Let_def)

lemma tests_mut: tests_mut
  by (simp add: tests_mut_def run_simps Let_def)

lemma tests_mut_split: tests_mut_split
  by (simp add: tests_mut_split_def run_simps Let_def)

lemma tests_mut_allocation: tests_mut_allocation
  by (simp add: tests_mut_allocation_def run_simps Let_def)

lemma tests_mut_unsplit_freeze: tests_mut_unsplit_freeze
  by (simp add: tests_mut_unsplit_freeze_def run_simps Let_def)

end
